(* ===== verification/Xv6_Prelude.thy ===== *)
theory Xv6_Prelude
  imports Main "HOL-Library.Word"
begin

text \<open>
  Shared vocabulary of the xv6 kernel model: the machine integers of \<^verbatim>\<open>types.h\<close>, the way a
  kernel path stops without returning (\<^verbatim>\<open>panic\<close>, \<^verbatim>\<open>sleep\<close>, a spin that never ends, a wild
  dereference), sequencing of fallible steps, byte-addressed memory with little-endian
  32-bit access, and the word and list lemmas the components share.
\<close>

unbundle bit_operations_syntax

section \<open>Machine integers\<close>

type_synonym u8 = "8 word"
type_synonym u16 = "16 word"
type_synonym u32 = "32 word"

named_theorems xv6_simps \<open>computation rules of the model\<close>
named_theorems xv6_defs \<open>definitions unfolded to evaluate a concrete run\<close>

section \<open>How a kernel path stops\<close>

text \<open>
  \<open>Panic msg\<close> is a call of \<^verbatim>\<open>panic\<close>; \<open>Asleep s\<close> is the state at the moment the path gives up
  the processor inside \<^verbatim>\<open>sleep\<close> (or, for an exiting process, inside \<^verbatim>\<open>sched\<close>); \<open>Spin s\<close> is a
  busy-wait on a lock that this processor cannot end; \<open>Fault what\<close> is a memory access outside
  the objects of the program.
\<close>

datatype 's stop = Panic string | Asleep 's | Spin 's | Fault string

definition bnd :: "'e + 'a \<Rightarrow> ('a \<Rightarrow> 'e + 'b) \<Rightarrow> 'e + 'b" where
  "bnd m f = (case m of Inl e \<Rightarrow> Inl e | Inr x \<Rightarrow> f x)"

lemma bnd_simps [simp]: "bnd (Inl e) f = Inl e" "bnd (Inr x) f = f x"
  by (simp_all add: bnd_def)

lemma bnd_eq_Inr [simp]: "bnd m f = Inr y \<longleftrightarrow> (\<exists>x. m = Inr x \<and> f x = Inr y)"
  by (cases m) auto

lemma bnd_eq_Inl: "bnd m f = Inl e \<longleftrightarrow> m = Inl e \<or> (\<exists>x. m = Inr x \<and> f x = Inl e)"
  by (cases m) auto

lemma bnd_assoc: "bnd (bnd m f) g = bnd m (\<lambda>x. bnd (f x) g)"
  by (cases m) auto

lemma bnd_cong [fundef_cong]:
  "m = m' \<Longrightarrow> (\<And>x. m' = Inr x \<Longrightarrow> f x = f' x) \<Longrightarrow> bnd m f = bnd m' f'"
  by (cases m') auto

lemma bnd_mono:
  "bnd m f = Inr y \<Longrightarrow> (\<And>x. m = Inr x \<Longrightarrow> f x = Inr y \<Longrightarrow> g x = Inr z) \<Longrightarrow> bnd m g = Inr z"
  by (cases m) auto

text \<open>A loop over a list whose body may stop.\<close>

fun each :: "('a \<Rightarrow> 's \<Rightarrow> 'e + 's) \<Rightarrow> 'a list \<Rightarrow> 's \<Rightarrow> 'e + 's" where
  "each f [] s = Inr s"
| "each f (x # xs) s = bnd (f x s) (each f xs)"

lemma each_append: "each f (xs @ ys) s = bnd (each f xs s) (each f ys)"
proof (induction xs arbitrary: s)
  case (Cons x xs)
  then show ?case by (cases "f x s") simp_all
qed simp

lemma each_invariant:
  "\<lbrakk>each f xs s = Inr s'; P s; \<And>x s s'. \<lbrakk>x \<in> set xs; P s; f x s = Inr s'\<rbrakk> \<Longrightarrow> P s'\<rbrakk> \<Longrightarrow> P s'"
proof (induction xs arbitrary: s)
  case (Cons x xs)
  then obtain t where "f x s = Inr t" "each f xs t = Inr s'" by auto
  with Cons show ?case by (metis list.set_intros)
qed simp

section \<open>Bits of words\<close>

lemma bit_index_below: "bit x n \<Longrightarrow> \<not> bit x (k + (n - k)) \<Longrightarrow> n < k"
  for n k :: nat
  by (rule ccontr) simp

lemma unat_less_size: "unat w < 2 ^ LENGTH('a)" for w :: "'a::len word"
  by (rule unsigned_less)

lemma unat32_less: "unat w < 4294967296" for w :: u32
  using unat_less_size [of w] by simp

lemma unat8_less: "unat w < 256" for w :: u8
  using unat_less_size [of w] by simp

lemma unat_minus_1_32 [simp]: "unat (- 1 :: u32) = 4294967295"
  by (simp add: unsigned_minus_1_eq_mask mask_eq_exp_minus_1)

lemma unat_of_nat32: "n < 4294967296 \<Longrightarrow> unat (of_nat n :: u32) = n"
  by (simp add: unat_of_nat)

lemma unat_add32:
  "unat a + unat b < 4294967296 \<Longrightarrow> unat (a + b) = unat a + unat b" for a b :: u32
  by (simp add: unat_word_ariths)

lemma unat_sub32: "b \<le> a \<Longrightarrow> unat (a - b) = unat a - unat b" for a b :: u32
  by (simp add: unat_sub)

lemma mod_wrap: "0 \<le> k \<Longrightarrow> k < 2 * h \<Longrightarrow> (k + h) mod (2 * h) - h = (if k < h then k else k - 2 * h)"
  for k h :: int
  by (cases "k < h") (auto simp: mod_pos_pos_trivial mod_pos_geq)

lemma sint32:
  "sint n = (if unat n < 2147483648 then int (unat n) else int (unat n) - 4294967296)" for n :: u32
proof -
  define k where "k = unat n"
  have k: "uint n = int k" "k < 4294967296"
    using unat32_less [of n] by (simp_all add: k_def)
  have "sint n = (int k + 2147483648) mod (2 * 2147483648) - 2147483648"
    by (simp add: k sint_uint signed_take_bit_eq_take_bit_shift take_bit_eq_mod)
  also have "\<dots> = (if int k < 2147483648 then int k else int k - 2 * 2147483648)"
    using k(2) by (intro mod_wrap) simp_all
  finally show ?thesis
    by (simp add: k_def [symmetric])
qed

lemma nat_sint32: "0 \<le> sint n \<Longrightarrow> nat (sint n) = unat n" for n :: u32
proof -
  define k where "k = unat n"
  assume "0 \<le> sint n"
  with unat32_less [of n] show ?thesis
    unfolding sint32 k_def [symmetric] by (simp split: if_splits)
qed
lemma bit_above_size: "\<lbrakk>unat w < 2 ^ k; bit w n\<rbrakk> \<Longrightarrow> n < k" for w :: "'a::len word"
proof (rule ccontr)
  assume small: "unat w < 2 ^ k" and bit: "bit w n" and "\<not> n < k"
  then have "unat w < 2 ^ n"
    by (meson less_le_trans not_less one_le_numeral power_increasing)
  then have "\<not> bit (unat w) n"
    by (simp add: bit_iff_odd)
  with bit show False
    by (simp add: bit_unsigned_iff)
qed

lemma take_bit_small: "unat w < 2 ^ k \<Longrightarrow> take_bit k w = w" for w :: "'a::len word"
  by (rule bit_word_eqI) (auto simp: bit_simps dest: bit_above_size)

lemma unat_and_le: "unat (a AND b) \<le> unat b" for a b :: "'a::len word"
  using word_and_le1 [of a b] by (simp add: word_le_nat_alt)

section \<open>Byte-addressed memory\<close>

text \<open>
  Kernel memory, indexed by kernel virtual address. A 32-bit access touches four
  consecutive bytes, least significant first, as on the x86.
\<close>

type_synonym memory = "u32 \<Rightarrow> u8"

definition load32 :: "memory \<Rightarrow> u32 \<Rightarrow> u32" where
  "load32 m a = ucast (m a) OR push_bit 8 (ucast (m (a + 1)))
     OR push_bit 16 (ucast (m (a + 2))) OR push_bit 24 (ucast (m (a + 3)))"

definition store32 :: "memory \<Rightarrow> u32 \<Rightarrow> u32 \<Rightarrow> memory" where
  "store32 m a v = m(a := ucast v, a + 1 := ucast (drop_bit 8 v),
     a + 2 := ucast (drop_bit 16 v), a + 3 := ucast (drop_bit 24 v))"

lemma load32_store32 [simp]: "load32 (store32 m a v) a = v"
  by (simp add: load32_def store32_def, rule bit_word_eqI)
    (auto simp: bit_simps dest: bit_index_below)

definition in_span :: "u32 \<Rightarrow> u32 \<Rightarrow> nat \<Rightarrow> bool" where
  "in_span a base n \<longleftrightarrow> unat (a - base) < n"

lemma store32_other: "\<not> in_span b a 4 \<Longrightarrow> store32 m a v b = m b"
  by (auto simp: store32_def in_span_def)

lemma load32_cong:
  "(\<And>i. i < 4 \<Longrightarrow> m (a + of_nat i) = m' (a + of_nat i)) \<Longrightarrow> load32 m a = load32 m' a"
proof -
  assume eq: "\<And>i. i < 4 \<Longrightarrow> m (a + of_nat i) = m' (a + of_nat i)"
  from eq [of 0] eq [of 1] eq [of 2] eq [of 3] show ?thesis
    by (simp add: load32_def)
qed

section \<open>Machines and their invariants\<close>

text \<open>
  Many processors are a step relation. An invariant of every start that every step keeps holds in every
  state the machine reaches.
\<close>

locale machine =
  fixes start :: "'s \<Rightarrow> bool" and step :: "'s \<Rightarrow> 's \<Rightarrow> bool" and inv :: "'s \<Rightarrow> bool"
  assumes start_inv: "start s \<Longrightarrow> inv s"
    and step_inv: "step s t \<Longrightarrow> inv s \<Longrightarrow> inv t"
begin

lemma steps_inv: "step\<^sup>*\<^sup>* s t \<Longrightarrow> inv s \<Longrightarrow> inv t"
  by (induction rule: rtranclp_induct) (auto intro: step_inv)

lemma reach_inv: "start s \<Longrightarrow> step\<^sup>*\<^sup>* s t \<Longrightarrow> inv t"
  using start_inv steps_inv by blast

end

end
