(* ===== verification/Mmu.thy ===== *)
theory Mmu
  imports Xv6_Prelude
begin

text \<open>
  The address arithmetic and descriptor layouts of \<^verbatim>\<open>memlayout.h\<close>, \<^verbatim>\<open>param.h\<close> and \<^verbatim>\<open>mmu.h\<close>:
  rounding to pages, splitting a virtual address into its two table indexes and offset,
  page table entries, segment descriptors and gate descriptors with their bit fields.
\<close>

section \<open>Constants\<close>

definition NPROC :: nat where "NPROC = 64"
definition KSTACKSIZE :: u32 where "KSTACKSIZE = 4096"
definition NCPU :: nat where "NCPU = 8"
definition NOFILE :: nat where "NOFILE = 16"
definition NFILE :: nat where "NFILE = 100"
definition NINODE :: nat where "NINODE = 50"
definition NDEV :: nat where "NDEV = 10"
definition ROOTDEV :: u32 where "ROOTDEV = 1"
definition MAXARG :: nat where "MAXARG = 32"
definition MAXOPBLOCKS :: nat where "MAXOPBLOCKS = 10"
definition LOGSIZE :: nat where "LOGSIZE = MAXOPBLOCKS * 3"
definition NBUF :: nat where "NBUF = MAXOPBLOCKS * 3"
definition FSSIZE :: nat where "FSSIZE = 1000"

definition EXTMEM :: u32 where "EXTMEM = 0x100000"
definition PHYSTOP :: u32 where "PHYSTOP = 0xE000000"
definition DEVSPACE :: u32 where "DEVSPACE = 0xFE000000"
definition KERNBASE :: u32 where "KERNBASE = 0x80000000"
definition KERNLINK :: u32 where "KERNLINK = KERNBASE + EXTMEM"

definition V2P :: "u32 \<Rightarrow> u32" where "V2P a = a - KERNBASE"
definition P2V :: "u32 \<Rightarrow> u32" where "P2V a = a + KERNBASE"

lemmas param_defs [xv6_defs] = NPROC_def KSTACKSIZE_def NCPU_def NOFILE_def NFILE_def
  NINODE_def NDEV_def ROOTDEV_def MAXARG_def MAXOPBLOCKS_def LOGSIZE_def NBUF_def FSSIZE_def

lemmas memlayout_defs [xv6_defs] = EXTMEM_def PHYSTOP_def DEVSPACE_def KERNBASE_def
  KERNLINK_def V2P_def P2V_def

lemma V2P_P2V [simp]: "V2P (P2V a) = a" "P2V (V2P a) = a"
  by (simp_all add: V2P_def P2V_def)

definition FL_IF :: u32 where "FL_IF = 0x200"

definition SEG_KCODE :: nat where "SEG_KCODE = 1"
definition SEG_KDATA :: nat where "SEG_KDATA = 2"
definition SEG_UCODE :: nat where "SEG_UCODE = 3"
definition SEG_UDATA :: nat where "SEG_UDATA = 4"
definition SEG_TSS :: nat where "SEG_TSS = 5"

section \<open>Virtual addresses and pages\<close>

definition PGSIZE :: u32 where "PGSIZE = 4096"
definition PTXSHIFT :: nat where "PTXSHIFT = 12"
definition PDXSHIFT :: nat where "PDXSHIFT = 22"
definition NPDENTRIES :: nat where "NPDENTRIES = 1024"
definition NPTENTRIES :: nat where "NPTENTRIES = 1024"

definition PDX :: "u32 \<Rightarrow> u32" where "PDX va = drop_bit PDXSHIFT va AND 0x3FF"
definition PTX :: "u32 \<Rightarrow> u32" where "PTX va = drop_bit PTXSHIFT va AND 0x3FF"

definition PGADDR :: "u32 \<Rightarrow> u32 \<Rightarrow> u32 \<Rightarrow> u32" where
  "PGADDR d t off = push_bit PDXSHIFT d OR push_bit PTXSHIFT t OR off"

definition PGROUNDUP :: "u32 \<Rightarrow> u32" where
  "PGROUNDUP sz = (sz + PGSIZE - 1) AND NOT (PGSIZE - 1)"

definition PGROUNDDOWN :: "u32 \<Rightarrow> u32" where
  "PGROUNDDOWN a = a AND NOT (PGSIZE - 1)"

definition PTE_P :: u32 where "PTE_P = 0x001"
definition PTE_W :: u32 where "PTE_W = 0x002"
definition PTE_U :: u32 where "PTE_U = 0x004"
definition PTE_PS :: u32 where "PTE_PS = 0x080"

definition PTE_ADDR :: "u32 \<Rightarrow> u32" where "PTE_ADDR pte = pte AND NOT 0xFFF"
definition PTE_FLAGS :: "u32 \<Rightarrow> u32" where "PTE_FLAGS pte = pte AND 0xFFF"

lemmas page_const_defs [xv6_defs] = PGSIZE_def PTXSHIFT_def PDXSHIFT_def NPDENTRIES_def
  NPTENTRIES_def PTE_P_def PTE_W_def PTE_U_def PTE_PS_def

lemmas page_defs [xv6_defs] = PDX_def PTX_def PGADDR_def PGROUNDUP_def PGROUNDDOWN_def
  PTE_ADDR_def PTE_FLAGS_def

lemma mask10: "(0x3FF :: u32) = mask 10"
  by (simp add: mask_eq_exp_minus_1)

lemma mask12: "(0xFFF :: u32) = mask 12"
  by (simp add: mask_eq_exp_minus_1)

lemma PGROUNDDOWN_shift: "PGROUNDDOWN a = push_bit 12 (drop_bit 12 a)"
proof -
  have "PGROUNDDOWN a = a AND NOT (mask 12)"
    by (simp add: PGROUNDDOWN_def PGSIZE_def mask_eq_exp_minus_1)
  also have "\<dots> = push_bit 12 (drop_bit 12 a)"
    by (rule bit_word_eqI) (auto simp: bit_simps)
  finally show ?thesis .
qed

lemma PTE_ADDR_PGROUNDDOWN: "PTE_ADDR a = PGROUNDDOWN a"
  by (simp add: PTE_ADDR_def PGROUNDDOWN_def PGSIZE_def)

lemma PGROUNDUP_PGROUNDDOWN: "PGROUNDUP a = PGROUNDDOWN (a + PGSIZE - 1)"
  by (simp add: PGROUNDUP_def PGROUNDDOWN_def)

lemma unat_PGROUNDDOWN: "unat (PGROUNDDOWN a) = unat a div 4096 * 4096"
proof -
  have "unat a div 4096 * 4096 < 2 ^ 32"
    using unat32_less [of a] div_times_less_eq_dividend [of "unat a" 4096] by simp
  then show ?thesis
    by (simp add: PGROUNDDOWN_shift push_bit_eq_mult unat_word_ariths unat_drop_bit_eq
        drop_bit_eq_div mult.commute)
qed

lemma unat_PGROUNDUP:
  assumes "unat a + 4095 < 4294967296"
  shows "unat (PGROUNDUP a) = (unat a + 4095) div 4096 * 4096"
proof -
  have "PGROUNDUP a = PGROUNDDOWN (a + 4095)"
    by (simp add: PGROUNDUP_PGROUNDDOWN PGSIZE_def add.commute)
  moreover have "unat (a + 4095) = unat a + 4095"
    using assms by (simp add: unat_word_ariths)
  ultimately show ?thesis
    by (simp add: unat_PGROUNDDOWN)
qed

definition page_aligned :: "u32 \<Rightarrow> bool" where
  "page_aligned a \<longleftrightarrow> unat a mod 4096 = 0"

lemma page_aligned_PGROUNDDOWN [simp]: "page_aligned (PGROUNDDOWN a)"
  by (simp add: page_aligned_def unat_PGROUNDDOWN)

lemma page_aligned_PGROUNDUP [simp]: "page_aligned (PGROUNDUP a)"
  by (simp add: PGROUNDUP_PGROUNDDOWN)

lemma PGROUNDDOWN_aligned: "page_aligned a \<Longrightarrow> PGROUNDDOWN a = a"
  by (rule word_unat_eq_iff [THEN iffD2]) (auto simp: page_aligned_def unat_PGROUNDDOWN)

lemma PGADDR_split: "PGADDR (PDX va) (PTX va) (va AND 0xFFF) = va"
  unfolding PGADDR_def PDX_def PTX_def PDXSHIFT_def PTXSHIFT_def mask10 mask12
  by (rule bit_word_eqI) (auto simp: bit_simps dest: bit_index_below)


lemma PDX_PGADDR:
  "PDX (PGADDR (d AND 0x3FF) (t AND 0x3FF) (off AND 0xFFF)) = d AND 0x3FF"
  unfolding PGADDR_def PDX_def PDXSHIFT_def PTXSHIFT_def mask10 mask12
  by (rule bit_word_eqI) (auto simp: bit_simps)

lemma PTX_PGADDR:
  "PTX (PGADDR (d AND 0x3FF) (t AND 0x3FF) (off AND 0xFFF)) = t AND 0x3FF"
  unfolding PGADDR_def PTX_def PDXSHIFT_def PTXSHIFT_def mask10 mask12
  by (rule bit_word_eqI) (auto simp: bit_simps)

lemma offset_PGADDR:
  "PGADDR (d AND 0x3FF) (t AND 0x3FF) (off AND 0xFFF) AND 0xFFF = off AND 0xFFF"
  unfolding PGADDR_def PDXSHIFT_def PTXSHIFT_def mask10 mask12
  by (rule bit_word_eqI) (auto simp: bit_simps)

lemma PDX_less: "unat (PDX va) < 1024" and PTX_less: "unat (PTX va) < 1024"
  using unat_and_le [of "drop_bit PDXSHIFT va" "0x3FF"]
    unat_and_le [of "drop_bit PTXSHIFT va" "0x3FF"]
  by (simp_all add: PDX_def PTX_def)

lemma unat_PDX: "unat (PDX va) = unat va div 4194304"
proof -
  have "PDX va = take_bit 10 (drop_bit 22 va)"
    by (simp add: PDX_def PDXSHIFT_def mask10 take_bit_eq_mask)
  also have "\<dots> = drop_bit 22 va"
  proof (rule take_bit_small)
    show "unat (drop_bit 22 va) < 2 ^ 10"
      using unat32_less [of va]
      by (simp add: drop_bit_eq_div unat_div less_mult_imp_div_less)
  qed
  finally show ?thesis
    by (simp add: drop_bit_eq_div unat_div)
qed

lemma unat_PTX: "unat (PTX va) = unat va div 4096 mod 1024"
proof -
  have "PTX va = take_bit 10 (drop_bit 12 va)"
    by (simp add: PTX_def PTXSHIFT_def mask10 take_bit_eq_mask)
  then show ?thesis
    by (simp add: drop_bit_eq_div take_bit_eq_mod unat_div unat_mod)
qed

section \<open>Segment and gate descriptors\<close>

text \<open>
  A bit field of width \<open>w\<close> is a \<open>w word\<close>: storing into it keeps the low \<open>w\<close> bits of the
  value, which \<open>ucast\<close> does.
\<close>

record segdesc =
  lim_15_0 :: "16 word"
  base_15_0 :: "16 word"
  base_23_16 :: "8 word"
  seg_type :: "4 word"
  seg_s :: "1 word"
  seg_dpl :: "2 word"
  seg_p :: "1 word"
  lim_19_16 :: "4 word"
  seg_avl :: "1 word"
  seg_rsv1 :: "1 word"
  seg_db :: "1 word"
  seg_g :: "1 word"
  base_31_24 :: "8 word"

definition SEG :: "u32 \<Rightarrow> u32 \<Rightarrow> u32 \<Rightarrow> u32 \<Rightarrow> segdesc" where
  "SEG type base lim dpl =
     \<lparr>lim_15_0 = ucast (drop_bit 12 lim AND 0xffff), base_15_0 = ucast (base AND 0xffff),
      base_23_16 = ucast (drop_bit 16 base AND 0xff), seg_type = ucast type, seg_s = 1,
      seg_dpl = ucast dpl, seg_p = 1, lim_19_16 = ucast (drop_bit 28 lim), seg_avl = 0,
      seg_rsv1 = 0, seg_db = 1, seg_g = 1, base_31_24 = ucast (drop_bit 24 base)\<rparr>"

definition SEG16 :: "u32 \<Rightarrow> u32 \<Rightarrow> u32 \<Rightarrow> u32 \<Rightarrow> segdesc" where
  "SEG16 type base lim dpl =
     \<lparr>lim_15_0 = ucast (lim AND 0xffff), base_15_0 = ucast (base AND 0xffff),
      base_23_16 = ucast (drop_bit 16 base AND 0xff), seg_type = ucast type, seg_s = 1,
      seg_dpl = ucast dpl, seg_p = 1, lim_19_16 = ucast (drop_bit 16 lim), seg_avl = 0,
      seg_rsv1 = 0, seg_db = 1, seg_g = 0, base_31_24 = ucast (drop_bit 24 base)\<rparr>"

record gatedesc =
  off_15_0 :: "16 word"
  gate_cs :: "16 word"
  gate_args :: "5 word"
  gate_rsv1 :: "3 word"
  gate_type :: "4 word"
  gate_s :: "1 word"
  gate_dpl :: "2 word"
  gate_p :: "1 word"
  off_31_16 :: "16 word"

definition STS_T32A :: u32 where "STS_T32A = 0x9"
definition STS_IG32 :: u32 where "STS_IG32 = 0xE"
definition STS_TG32 :: u32 where "STS_TG32 = 0xF"
definition STA_X :: u32 where "STA_X = 0x8"
definition STA_W :: u32 where "STA_W = 0x2"
definition STA_R :: u32 where "STA_R = 0x2"
definition DPL_USER :: u32 where "DPL_USER = 0x3"

definition SETGATE :: "bool \<Rightarrow> u32 \<Rightarrow> u32 \<Rightarrow> u32 \<Rightarrow> gatedesc" where
  "SETGATE istrap sel off d =
     \<lparr>off_15_0 = ucast (off AND 0xffff), gate_cs = ucast sel, gate_args = 0, gate_rsv1 = 0,
      gate_type = ucast (if istrap then STS_TG32 else STS_IG32), gate_s = 0,
      gate_dpl = ucast d, gate_p = 1, off_31_16 = ucast (drop_bit 16 off)\<rparr>"

text \<open>What the processor reads back out of a descriptor.\<close>

definition seg_base :: "segdesc \<Rightarrow> u32" where
  "seg_base d = ucast (base_15_0 d) OR push_bit 16 (ucast (base_23_16 d))
     OR push_bit 24 (ucast (base_31_24 d))"

definition gate_offset :: "gatedesc \<Rightarrow> u32" where
  "gate_offset g = ucast (off_15_0 g) OR push_bit 16 (ucast (off_31_16 g))"

lemma mask16: "(0xFFFF :: u32) = mask 16" and mask8: "(0xFF :: u32) = mask 8"
  by (simp_all add: mask_eq_exp_minus_1)

lemma seg_base_SEG: "seg_base (SEG type base lim dpl) = base"
  unfolding seg_base_def SEG_def mask16 mask8
  by (simp, rule bit_word_eqI) (auto simp: bit_simps dest: bit_index_below)

lemma seg_base_SEG16: "seg_base (SEG16 type base lim dpl) = base"
  unfolding seg_base_def SEG16_def mask16 mask8
  by (simp, rule bit_word_eqI) (auto simp: bit_simps dest: bit_index_below)

lemma gate_offset_SETGATE: "gate_offset (SETGATE istrap sel off d) = off"
  unfolding gate_offset_def SETGATE_def mask16
  by (simp, rule bit_word_eqI) (auto simp: bit_simps dest: bit_index_below)

section \<open>Properties\<close>

text \<open>
  C27: The parts \<^verbatim>\<open>PDX\<close>, \<^verbatim>\<open>PTX\<close> and the page offset of a virtual address determine it through
  \<^verbatim>\<open>PGADDR\<close>, and an address built by \<^verbatim>\<open>PGADDR\<close> from two ten-bit indices and a twelve-bit offset has
  exactly these parts.
\<close>

theorem virtual_address_parts:
  "PGADDR (PDX va) (PTX va) (va AND 0xFFF) = va
   \<and> (let a = PGADDR (d AND 0x3FF) (t AND 0x3FF) (off AND 0xFFF)
      in PDX a = d AND 0x3FF \<and> PTX a = t AND 0x3FF \<and> a AND 0xFFF = off AND 0xFFF)
   \<and> unat va = unat (PDX va) * 4194304 + unat (PTX va) * 4096 + unat va mod 4096"
proof -
  have "unat va div 4194304 = unat va div 4096 div 1024"
    by (simp add: div_mult2_eq [symmetric])
  then have "unat va = unat va div 4194304 * 4194304 + unat va div 4096 mod 1024 * 4096
      + unat va mod 4096"
    using div_mult_mod_eq [of "unat va" 4096] div_mult_mod_eq [of "unat va div 4096" 1024]
    by linarith
  then show ?thesis
    by (simp add: PGADDR_split PDX_PGADDR PTX_PGADDR offset_PGADDR unat_PDX unat_PTX Let_def)
qed

text \<open>
  C30: The base address scattered over the fields of a segment descriptor by \<^verbatim>\<open>SEG\<close> and
  \<^verbatim>\<open>SEG16\<close>, and the handler address scattered by \<^verbatim>\<open>SETGATE\<close> over a gate descriptor, are the
  ones the processor reassembles.
\<close>

theorem descriptors_keep_addresses:
  "seg_base (SEG type base lim dpl) = base \<and> seg_base (SEG16 type base lim dpl) = base
   \<and> gate_offset (SETGATE istrap sel off d) = off"
  by (simp add: seg_base_SEG seg_base_SEG16 gate_offset_SETGATE)

end
