(* ===== verification/Spinlock.thy ===== *)
theory Spinlock
  imports Mmu
begin

text \<open>
  Processors and spin locks: \<^verbatim>\<open>struct cpu\<close>, \<^verbatim>\<open>mycpu\<close>, \<^verbatim>\<open>pushcli\<close>/\<^verbatim>\<open>popcli\<close>, \<^verbatim>\<open>acquire\<close>, \<^verbatim>\<open>release\<close>
  and \<^verbatim>\<open>holding\<close>. The kernel state is an extensible record: this theory introduces its first
  field, the hardware (processors, flag registers, the lock words in memory), and every later
  component extends it with its own globals, so an operation defined here runs unchanged on
  the state of the whole kernel. A lock is named by the global it is in. The fields
  \<^verbatim>\<open>name\<close> and \<^verbatim>\<open>pcs\<close> of \<^verbatim>\<open>struct spinlock\<close>, which nothing but \<^verbatim>\<open>procdump\<close> and \<^verbatim>\<open>panic\<close> output
  depends on, are left out, and so is all console output.
\<close>

section \<open>Processors and locks\<close>

datatype sleepid = SL_buf nat | SL_inode nat

datatype lockid =
    L_ptable | L_kmem | L_bcache | L_ide | L_log | L_icache | L_ftable | L_cons | L_ticks
  | L_pipe u32 | L_sleep sleepid

record cpu =
  apicid :: u8
  ts_ss0 :: u16
  ts_esp0 :: u32
  ts_iomb :: u16
  gdt :: "nat \<Rightarrow> segdesc"
  ncli :: int
  intena :: u32
  cpu_proc :: "nat option"

record spinlock =
  locked :: u32
  lk_cpu :: "nat option"

record hardware =
  ncpu :: nat
  cpus :: "nat \<Rightarrow> cpu"
  lapicid :: u8
  flags_reg :: "u8 \<Rightarrow> u32"
  cr3 :: "u8 \<Rightarrow> u32"
  task_reg :: "u8 \<Rightarrow> u16"
  locks :: "lockid \<Rightarrow> spinlock"

record kst =
  hw :: hardware

text \<open>
  \<open>lapicid\<close> is what reading the local APIC's id register returns: it says which processor
  is executing. \<open>flags_reg\<close>, \<open>cr3\<close> and \<open>task_reg\<close> are per-processor registers.
\<close>

definition readeflags :: "'a kst_scheme \<Rightarrow> u32" where
  "readeflags s = flags_reg (hw s) (lapicid (hw s))"

definition cli :: "'a kst_scheme \<Rightarrow> 'a kst_scheme" where
  "cli s = s\<lparr>hw := (hw s)\<lparr>flags_reg :=
     (flags_reg (hw s))(lapicid (hw s) := readeflags s AND NOT FL_IF)\<rparr>\<rparr>"

definition sti :: "'a kst_scheme \<Rightarrow> 'a kst_scheme" where
  "sti s = s\<lparr>hw := (hw s)\<lparr>flags_reg :=
     (flags_reg (hw s))(lapicid (hw s) := readeflags s OR FL_IF)\<rparr>\<rparr>"

definition upd_cpu :: "nat \<Rightarrow> (cpu \<Rightarrow> cpu) \<Rightarrow> 'a kst_scheme \<Rightarrow> 'a kst_scheme" where
  "upd_cpu c f s = s\<lparr>hw := (hw s)\<lparr>cpus := (cpus (hw s))(c := f (cpus (hw s) c))\<rparr>\<rparr>"

definition upd_lock :: "lockid \<Rightarrow> spinlock \<Rightarrow> 'a kst_scheme \<Rightarrow> 'a kst_scheme" where
  "upd_lock lk l s = s\<lparr>hw := (hw s)\<lparr>locks := (locks (hw s))(lk := l)\<rparr>\<rparr>"

definition this_cpu :: "hardware \<Rightarrow> nat option" where
  "this_cpu h = List.find (\<lambda>i. apicid (cpus h i) = lapicid h) [0..<ncpu h]"

definition mycpu :: "'a kst_scheme \<Rightarrow> 'a kst_scheme stop + nat" where
  "mycpu s =
     (if readeflags s AND FL_IF \<noteq> 0 then Inl (Panic ''mycpu called with interrupts enabled'')
      else case this_cpu (hw s) of
             Some c \<Rightarrow> Inr c
           | None \<Rightarrow> Inl (Panic ''unknown apicid''))"

definition cpuid :: "'a kst_scheme \<Rightarrow> 'a kst_scheme stop + nat" where
  "cpuid s = mycpu s"

definition pushcli :: "'a kst_scheme \<Rightarrow> 'a kst_scheme stop + 'a kst_scheme" where
  "pushcli s =
     (let eflags = readeflags s; s = cli s in
      bnd (mycpu s) (\<lambda>c.
        let s = (if ncli (cpus (hw s) c) = 0
                 then upd_cpu c (\<lambda>p. p\<lparr>intena := eflags AND FL_IF\<rparr>) s else s)
        in Inr (upd_cpu c (\<lambda>p. p\<lparr>ncli := ncli p + 1\<rparr>) s)))"

definition popcli :: "'a kst_scheme \<Rightarrow> 'a kst_scheme stop + 'a kst_scheme" where
  "popcli s =
     (if readeflags s AND FL_IF \<noteq> 0 then Inl (Panic ''popcli - interruptible'')
      else bnd (mycpu s) (\<lambda>c.
        let s = upd_cpu c (\<lambda>p. p\<lparr>ncli := ncli p - 1\<rparr>) s in
        if ncli (cpus (hw s) c) < 0 then Inl (Panic ''popcli'')
        else if ncli (cpus (hw s) c) = 0 \<and> intena (cpus (hw s) c) \<noteq> 0
        then Inr (sti s) else Inr s))"

definition holding :: "lockid \<Rightarrow> 'a kst_scheme \<Rightarrow> 'a kst_scheme stop + bool" where
  "holding lk s =
     (if locked (locks (hw s) lk) = 0 then Inr False
      else bnd (mycpu s) (\<lambda>c. Inr (lk_cpu (locks (hw s) lk) = Some c)))"

text \<open>
  The \<^verbatim>\<open>xchg\<close> loop succeeds at once on a free lock. On a lock another processor holds it
  leaves the lock word at 1 and does not end until that processor moves, which is \<open>Spin\<close>.
\<close>

definition acquire :: "lockid \<Rightarrow> 'a kst_scheme \<Rightarrow> 'a kst_scheme stop + 'a kst_scheme" where
  "acquire lk s =
     bnd (pushcli s) (\<lambda>s.
     bnd (holding lk s) (\<lambda>h.
       if h then Inl (Panic ''acquire'')
       else if locked (locks (hw s) lk) \<noteq> 0
       then Inl (Spin (upd_lock lk ((locks (hw s) lk)\<lparr>locked := 1\<rparr>) s))
       else let s = upd_lock lk ((locks (hw s) lk)\<lparr>locked := 1\<rparr>) s in
            bnd (mycpu s) (\<lambda>c. Inr (upd_lock lk ((locks (hw s) lk)\<lparr>lk_cpu := Some c\<rparr>) s))))"

definition release :: "lockid \<Rightarrow> 'a kst_scheme \<Rightarrow> 'a kst_scheme stop + 'a kst_scheme" where
  "release lk s =
     bnd (holding lk s) (\<lambda>h.
       if \<not> h then Inl (Panic ''release'')
       else let s = upd_lock lk ((locks (hw s) lk)\<lparr>lk_cpu := None\<rparr>) s;
                s = upd_lock lk ((locks (hw s) lk)\<lparr>locked := 0\<rparr>) s
            in popcli s)"

definition initlock :: "lockid \<Rightarrow> 'a kst_scheme \<Rightarrow> 'a kst_scheme" where
  "initlock lk s = upd_lock lk \<lparr>locked = 0, lk_cpu = None\<rparr> s"

text \<open>\<^verbatim>\<open>myproc\<close> (\<^verbatim>\<open>proc.c\<close>): the process of the executing processor, read with interrupts off.\<close>

definition myproc :: "'a kst_scheme \<Rightarrow> 'a kst_scheme stop + (nat option \<times> 'a kst_scheme)" where
  "myproc s =
     bnd (pushcli s) (\<lambda>s.
     bnd (mycpu s) (\<lambda>c.
       let p = cpu_proc (cpus (hw s) c) in
       bnd (popcli s) (\<lambda>s. Inr (p, s))))"

section \<open>One processor taking and dropping a lock\<close>

definition intr_on :: "hardware \<Rightarrow> bool" where
  "intr_on h \<longleftrightarrow> flags_reg h (lapicid h) AND FL_IF \<noteq> 0"

text \<open>The executing processor is known, and has interrupts off inside \<^verbatim>\<open>pushcli\<close> nesting.\<close>

definition cpu_ok :: "hardware \<Rightarrow> bool" where
  "cpu_ok h \<longleftrightarrow> (\<exists>c. this_cpu h = Some c \<and> 0 \<le> ncli (cpus h c)
      \<and> (intr_on h \<longrightarrow> ncli (cpus h c) = 0))"

definition me :: "hardware \<Rightarrow> nat" where
  "me h = (case this_cpu h of Some c \<Rightarrow> c | None \<Rightarrow> 0)"

definition pushed :: "hardware \<Rightarrow> hardware" where
  "pushed h = h\<lparr>flags_reg := (flags_reg h)(lapicid h := flags_reg h (lapicid h) AND NOT FL_IF),
     cpus := (cpus h)(me h := (cpus h (me h))\<lparr>
       intena := (if ncli (cpus h (me h)) = 0 then flags_reg h (lapicid h) AND FL_IF
                  else intena (cpus h (me h))),
       ncli := ncli (cpus h (me h)) + 1\<rparr>)\<rparr>"

definition popped :: "hardware \<Rightarrow> hardware" where
  "popped h = h\<lparr>cpus := (cpus h)(me h := (cpus h (me h))\<lparr>ncli := ncli (cpus h (me h)) - 1\<rparr>),
     flags_reg := (if ncli (cpus h (me h)) = 1 \<and> intena (cpus h (me h)) \<noteq> 0
       then (flags_reg h)(lapicid h := flags_reg h (lapicid h) OR FL_IF) else flags_reg h)\<rparr>"

lemma off_and_IF [simp]: "(x AND NOT FL_IF) AND FL_IF = 0"
  by (rule bit_word_eqI) (auto simp: bit_simps)

lemma this_cpu_cong:
  "ncpu h' = ncpu h \<Longrightarrow> (\<And>i. apicid (cpus h' i) = apicid (cpus h i)) \<Longrightarrow> lapicid h' = lapicid h
   \<Longrightarrow> this_cpu h' = this_cpu h"
  by (simp add: this_cpu_def)

lemma this_cpu_pushed [simp]: "this_cpu (pushed h) = this_cpu h"
  by (rule this_cpu_cong) (simp_all add: pushed_def)

lemma this_cpu_popped [simp]: "this_cpu (popped h) = this_cpu h"
  by (rule this_cpu_cong) (simp_all add: popped_def)

lemma this_cpu_locks [simp]: "this_cpu (h\<lparr>locks := l\<rparr>) = this_cpu h"
  by (rule this_cpu_cong) simp_all

lemma me_simps [simp]:
  "me (pushed h) = me h" "me (popped h) = me h" "me (h\<lparr>locks := l\<rparr>) = me h"
  by (simp_all add: me_def)

lemma intr_on_locks [simp]: "intr_on (h\<lparr>locks := l\<rparr>) = intr_on h"
  by (simp add: intr_on_def)

lemma locks_pushed [simp]: "locks (pushed h) = locks h" "locks (popped h) = locks h"
  by (simp_all add: pushed_def popped_def)

lemma intr_off_pushed [simp]: "\<not> intr_on (pushed h)"
  by (simp add: intr_on_def pushed_def)

lemma mycpu_eq [simp]:
  "mycpu s = (if intr_on (hw s) then Inl (Panic ''mycpu called with interrupts enabled'')
     else case this_cpu (hw s) of Some c \<Rightarrow> Inr c | None \<Rightarrow> Inl (Panic ''unknown apicid''))"
  by (simp add: mycpu_def intr_on_def readeflags_def)

lemma hw_cli: "hw (cli s) = (hw s)\<lparr>flags_reg :=
    (flags_reg (hw s))(lapicid (hw s) := flags_reg (hw s) (lapicid (hw s)) AND NOT FL_IF)\<rparr>"
  by (simp add: cli_def readeflags_def)

lemma pushcli_eq:
  assumes "this_cpu (hw s) = Some c"
  shows "pushcli s = Inr (s\<lparr>hw := pushed (hw s)\<rparr>)"
proof -
  have cpu: "this_cpu (hw (cli s)) = Some c"
    using assms by (simp add: hw_cli this_cpu_def)
  have off: "\<not> intr_on (hw (cli s))"
    by (simp add: hw_cli intr_on_def)
  have me: "me (hw s) = c"
    using assms by (simp add: me_def)
  show ?thesis
    using cpu off me
    by (simp add: pushcli_def Let_def upd_cpu_def pushed_def cli_def readeflags_def)
qed

lemma popcli_eq:
  assumes "this_cpu (hw s) = Some c" and "\<not> intr_on (hw s)" and "0 < ncli (cpus (hw s) c)"
  shows "popcli s = Inr (s\<lparr>hw := popped (hw s)\<rparr>)"
proof -
  have me: "me (hw s) = c"
    using assms by (simp add: me_def)
  have flag: "flags_reg (hw s) (lapicid (hw s)) AND FL_IF = 0"
    using assms(2) by (simp add: intr_on_def)
  show ?thesis
    using assms me flag
    by (auto simp: popcli_def Let_def upd_cpu_def popped_def sti_def readeflags_def)
qed


lemma cpu_ok_me: "cpu_ok h \<Longrightarrow> this_cpu h = Some (me h)"
  by (auto simp: cpu_ok_def me_def)

definition free_lock :: "hardware \<Rightarrow> lockid \<Rightarrow> bool" where
  "free_lock h lk \<longleftrightarrow> locks h lk = \<lparr>locked = 0, lk_cpu = None\<rparr>"

definition held_by_me :: "hardware \<Rightarrow> lockid \<Rightarrow> bool" where
  "held_by_me h lk \<longleftrightarrow> locked (locks h lk) \<noteq> 0 \<and> lk_cpu (locks h lk) = Some (me h)"

definition took :: "lockid \<Rightarrow> hardware \<Rightarrow> hardware" where
  "took lk h = (pushed h)\<lparr>locks := (locks h)(lk := \<lparr>locked = 1, lk_cpu = Some (me h)\<rparr>)\<rparr>"

definition dropped :: "lockid \<Rightarrow> hardware \<Rightarrow> hardware" where
  "dropped lk h = popped (h\<lparr>locks := (locks h)(lk := \<lparr>locked = 0, lk_cpu = None\<rparr>)\<rparr>)"

lemma acquire_eq:
  assumes "cpu_ok (hw s)" and "free_lock (hw s) lk"
  shows "acquire lk s = Inr (s\<lparr>hw := took lk (hw s)\<rparr>)"
  using assms(2) cpu_ok_me [OF assms(1)]
  by (simp add: acquire_def pushcli_eq holding_def free_lock_def took_def upd_lock_def Let_def)

lemma acquire_twice:
  assumes "cpu_ok (hw s)" and "held_by_me (hw s) lk"
  shows "acquire lk s = Inl (Panic ''acquire'')"
  using assms(2) cpu_ok_me [OF assms(1)]
  by (simp add: acquire_def pushcli_eq holding_def held_by_me_def)

lemma acquire_elsewhere:
  assumes "cpu_ok (hw s)" and "locked (locks (hw s) lk) \<noteq> 0"
    and "lk_cpu (locks (hw s) lk) \<noteq> Some (me (hw s))"
  shows "\<exists>s'. acquire lk s = Inl (Spin s')"
  using assms(2,3) cpu_ok_me [OF assms(1)]
  by (simp add: acquire_def pushcli_eq holding_def)

lemma spinlock_reset [simp]: "l\<lparr>lk_cpu := None, locked := 0\<rparr> = \<lparr>locked = 0, lk_cpu = None\<rparr>"
  by (cases l) simp

lemma release_eq:
  assumes "this_cpu (hw s) = Some (me (hw s))" and "\<not> intr_on (hw s)"
    and "0 < ncli (cpus (hw s) (me (hw s)))" and "held_by_me (hw s) lk"
  shows "release lk s = Inr (s\<lparr>hw := dropped lk (hw s)\<rparr>)"
proof -
  let ?s = "s\<lparr>hw := (hw s)\<lparr>locks := (locks (hw s))(lk := \<lparr>locked = 0, lk_cpu = None\<rparr>)\<rparr>\<rparr>"
  have "popcli ?s = Inr (?s\<lparr>hw := popped (hw ?s)\<rparr>)"
    using assms by (intro popcli_eq [of _ "me (hw s)"]) simp_all
  then show ?thesis
    using assms
    by (simp add: release_def holding_def held_by_me_def upd_lock_def Let_def dropped_def)
qed

lemma release_not_held:
  assumes "this_cpu (hw s) = Some c" and "\<not> intr_on (hw s)" and "\<not> held_by_me (hw s) lk"
  shows "release lk s = Inl (Panic ''release'')"
  using assms by (auto simp: release_def holding_def held_by_me_def me_def)

text \<open>
  What one critical section leaves behind: everything as before, except that the outermost
  \<^verbatim>\<open>pushcli\<close> has recorded the interrupt flag in \<^verbatim>\<open>intena\<close>.
\<close>

definition rested :: "hardware \<Rightarrow> hardware" where
  "rested h = h\<lparr>cpus := (cpus h)(me h := (cpus h (me h))\<lparr>intena :=
     (if ncli (cpus h (me h)) = 0 then flags_reg h (lapicid h) AND FL_IF
      else intena (cpus h (me h)))\<rparr>)\<rparr>"

lemma bit_FL_IF [simp]: "bit FL_IF n \<longleftrightarrow> n = 9"
proof -
  have "FL_IF = 2 ^ 9" by (simp add: FL_IF_def)
  then have "bit FL_IF n \<longleftrightarrow> bit (2 ^ 9 :: u32) n" by (simp only:)
  also have "\<dots> \<longleftrightarrow> n = 9" unfolding bit_exp_iff by auto
  finally show ?thesis .
qed

lemma and_FL_IF: "x AND FL_IF = 0 \<longleftrightarrow> \<not> bit x 9"
proof
  assume "x AND FL_IF = 0"
  then have "\<not> bit (x AND FL_IF) 9" by simp
  then show "\<not> bit x 9" by (simp add: bit_and_iff)
qed (auto intro: bit_word_eqI simp: bit_simps)

lemma IF_on_off: "x AND FL_IF \<noteq> 0 \<Longrightarrow> (x AND NOT FL_IF) OR FL_IF = x"
  by (rule bit_word_eqI) (auto simp: bit_simps and_FL_IF)

lemma IF_already_off: "x AND FL_IF = 0 \<Longrightarrow> x AND NOT FL_IF = x"
  by (rule bit_word_eqI) (auto simp: bit_simps and_FL_IF)

lemma popped_pushed: "cpu_ok h \<Longrightarrow> popped (pushed h) = rested h"
proof -
  assume ok: "cpu_ok h"
  let ?p = "cpus h (me h)" and ?f = "flags_reg h (lapicid h)"
  have on: "intr_on h \<Longrightarrow> ncli ?p = 0"
    using ok by (auto simp: cpu_ok_def me_def)
  have regs: "flags_reg (pushed h) = (flags_reg h)(lapicid h := ?f AND NOT FL_IF)"
    "lapicid (pushed h) = lapicid h"
    "cpus (pushed h) = (cpus h)(me h := ?p\<lparr>intena := (if ncli ?p = 0 then ?f AND FL_IF
       else intena ?p), ncli := ncli ?p + 1\<rparr>)"
    by (simp_all add: pushed_def)
  have "flags_reg (popped (pushed h)) = flags_reg h"
  proof (cases "intr_on h")
    case True
    then show ?thesis
      using on IF_on_off [of ?f] by (simp add: popped_def regs intr_on_def)
  next
    case False
    then show ?thesis
      using IF_already_off [of ?f] by (simp add: popped_def regs intr_on_def)
  qed
  moreover have "cpus (popped (pushed h)) = cpus (rested h)"
    by (simp add: popped_def regs rested_def)
  moreover have "popped (pushed h) = h\<lparr>cpus := cpus (popped (pushed h)),
      flags_reg := flags_reg (popped (pushed h))\<rparr>"
    by (simp add: popped_def pushed_def)
  ultimately show ?thesis
    by (simp add: rested_def)
qed


lemma pushed_locks: "pushed (h\<lparr>locks := l\<rparr>) = (pushed h)\<lparr>locks := l\<rparr>"
  by (simp add: pushed_def)

lemma popped_locks: "popped (h\<lparr>locks := l\<rparr>) = (popped h)\<lparr>locks := l\<rparr>"
  by (simp add: popped_def)

lemma rested_locks [simp]: "rested (h\<lparr>locks := l\<rparr>) = (rested h)\<lparr>locks := l\<rparr>"
  "locks (rested h) = locks h"
  by (simp_all add: rested_def)

lemma this_cpu_rested [simp]: "this_cpu (rested h) = this_cpu h"
  by (rule this_cpu_cong) (simp_all add: rested_def)

lemma me_rested [simp]: "me (rested h) = me h"
  by (simp add: me_def)

lemma intr_on_rested [simp]: "intr_on (rested h) = intr_on h"
  by (simp add: intr_on_def rested_def)

lemma ncli_rested [simp]: "ncli (cpus (rested h) i) = ncli (cpus h i)"
  by (simp add: rested_def)

lemma cpu_ok_rested [simp]: "cpu_ok (rested h) = cpu_ok h"
  by (simp add: cpu_ok_def)

lemma this_cpu_took [simp]: "this_cpu (took lk h) = this_cpu h" "me (took lk h) = me h"
  by (simp_all add: took_def)

lemma intr_off_took [simp]: "\<not> intr_on (took lk h)"
  by (simp add: took_def)

lemma ncli_took: "ncli (cpus (took lk h) (me h)) = ncli (cpus h (me h)) + 1"
  by (simp add: took_def pushed_def)

lemma cpu_ok_took [simp]: "cpu_ok h \<Longrightarrow> cpu_ok (took lk h)"
  using ncli_took [of lk h] cpu_ok_me [of h] by (auto simp: cpu_ok_def)

lemma cpu_ok_ncli: "cpu_ok h \<Longrightarrow> 0 \<le> ncli (cpus h (me h))"
  by (auto simp: cpu_ok_def me_def)

lemma held_took [simp]: "held_by_me (took lk h) lk"
  by (simp add: held_by_me_def took_def)

lemma free_lock_took [simp]: "lk' \<noteq> lk \<Longrightarrow> free_lock (took lk h) lk' = free_lock h lk'"
  by (simp add: free_lock_def took_def)

lemma free_lock_rested [simp]: "free_lock (rested h) lk = free_lock h lk"
  by (simp add: free_lock_def)

lemma rested_nested: "ncli (cpus h (me h)) \<noteq> 0 \<Longrightarrow> rested h = h"
  by (simp add: rested_def)

lemma rested_took [simp]: "cpu_ok h \<Longrightarrow> rested (took lk h) = took lk h"
  using cpu_ok_ncli [of h] by (simp add: rested_nested ncli_took)

lemma dropped_took:
  assumes "cpu_ok h" and "free_lock h lk"
  shows "dropped lk (took lk h) = rested h"
proof -
  have "dropped lk (took lk h) = (popped (pushed h))\<lparr>locks := locks h\<rparr>"
    using assms(2)
    by (simp add: dropped_def took_def popped_locks free_lock_def fun_upd_idem)
  also have "\<dots> = rested h"
    using assms(1) by (simp add: popped_pushed rested_def)
  finally show ?thesis .
qed

text \<open>The two rules that carry a critical section through any later component.\<close>

lemma release_took:
  assumes "cpu_ok h" and "free_lock h lk" and "hw s = took lk h"
  shows "release lk s = Inr (s\<lparr>hw := rested h\<rparr>)"
proof -
  have "release lk s = Inr (s\<lparr>hw := dropped lk (hw s)\<rparr>)"
    using assms cpu_ok_me [OF assms(1)] cpu_ok_ncli [OF assms(1)] ncli_took [of lk h]
    by (intro release_eq) simp_all
  then show ?thesis
    using dropped_took [OF assms(1,2)] assms(3) by simp
qed

lemma myproc_eq:
  assumes "cpu_ok (hw s)"
  shows "myproc s = Inr (cpu_proc (cpus (hw s) (me (hw s))), s\<lparr>hw := rested (hw s)\<rparr>)"
proof -
  let ?h = "hw s"
  have me: "this_cpu ?h = Some (me ?h)"
    using assms by (rule cpu_ok_me)
  have proc: "cpu_proc (cpus (pushed ?h) (me ?h)) = cpu_proc (cpus ?h (me ?h))"
    and ncli: "0 < ncli (cpus (pushed ?h) (me ?h))"
    using cpu_ok_ncli [OF assms] by (simp_all add: pushed_def)
  have "popcli (s\<lparr>hw := pushed ?h\<rparr>) = Inr (s\<lparr>hw := popped (pushed ?h)\<rparr>)"
    using me ncli by (subst popcli_eq [of _ "me ?h"]) simp_all
  then show ?thesis
    using me proc popped_pushed [OF assms] by (simp add: myproc_def pushcli_eq)
qed

lemma cpu_proc_rested [simp]: "cpu_proc (cpus (rested h) i) = cpu_proc (cpus h i)"
  by (simp add: rested_def)

lemma cpu_proc_took [simp]: "cpu_proc (cpus (took lk h) i) = cpu_proc (cpus h i)"
  by (simp add: took_def pushed_def)

lemma lapicid_simps [simp]: "lapicid (rested h) = lapicid h" "lapicid (took lk h) = lapicid h"
  by (simp_all add: rested_def took_def pushed_def)

lemma rested_idem [simp]: "rested (rested h) = rested h"
proof (cases "ncli (cpus h (me h)) = 0")
  case True
  have "intena (cpus (rested h) (me h)) = flags_reg (rested h) (lapicid (rested h)) AND FL_IF"
    using True by (simp add: rested_def)
  then have "(cpus (rested h) (me h))\<lparr>intena := flags_reg (rested h) (lapicid (rested h)) AND FL_IF\<rparr>
      = cpus (rested h) (me h)"
    by (metis cpu.surjective cpu.update_convs(7))
  then show ?thesis
    using True by (simp only: rested_def [of "rested h"] me_rested ncli_rested if_True) simp
next
  case False
  then show ?thesis
    by (simp add: rested_nested)
qed


section \<open>Many processors\<close>

text \<open>
  Any processor may run next. It takes or drops a lock; a processor that finds the lock taken
  spins, which changes nothing another processor can see but its own nesting depth, and is
  not a step here.
\<close>

definition online :: "hardware \<Rightarrow> u8 \<Rightarrow> bool" where
  "online h a \<longleftrightarrow> (\<exists>c<ncpu h. apicid (cpus h c) = a)"

inductive lock_step :: "kst \<Rightarrow> kst \<Rightarrow> bool" where
  other_cpu: "online (hw s) a \<Longrightarrow> lock_step s (s\<lparr>hw := (hw s)\<lparr>lapicid := a\<rparr>\<rparr>)"
| acquired: "acquire lk s = Inr s' \<Longrightarrow> lock_step s s'"
| released: "release lk s = Inr s' \<Longrightarrow> lock_step s s'"

definition held :: "hardware \<Rightarrow> nat \<Rightarrow> lockid set" where
  "held h c = {lk. lk_cpu (locks h lk) = Some c}"

definition booted :: "hardware \<Rightarrow> bool" where
  "booted h \<longleftrightarrow> online h (lapicid h) \<and> inj_on (\<lambda>c. apicid (cpus h c)) {..<ncpu h}
     \<and> (\<forall>lk. free_lock h lk) \<and> (\<forall>c<ncpu h. ncli (cpus h c) = 0)"

definition lock_inv :: "hardware \<Rightarrow> bool" where
  "lock_inv h \<longleftrightarrow> online h (lapicid h) \<and> inj_on (\<lambda>c. apicid (cpus h c)) {..<ncpu h}
     \<and> (\<forall>lk. free_lock h lk \<or> (locked (locks h lk) \<noteq> 0 \<and> (\<exists>c<ncpu h. lk_cpu (locks h lk) = Some c)))
     \<and> (\<forall>c<ncpu h. finite (held h c) \<and> ncli (cpus h c) = int (card (held h c))
          \<and> (flags_reg h (apicid (cpus h c)) AND FL_IF \<noteq> 0 \<longrightarrow> ncli (cpus h c) = 0))"

lemma booted_inv: "booted h \<Longrightarrow> lock_inv h"
  by (auto simp: booted_def lock_inv_def free_lock_def held_def)

lemma online_this_cpu:
  assumes "online h (lapicid h)"
  shows "this_cpu h = Some (me h)" "me h < ncpu h" "apicid (cpus h (me h)) = lapicid h"
proof -
  from assms obtain c where c: "this_cpu h = Some c"
    unfolding online_def this_cpu_def
    by (metis (mono_tags, lifting) atLeastLessThan_iff find_None_iff not_Some_eq set_upt zero_le)
  then have "c \<in> {0..<ncpu h} \<and> apicid (cpus h c) = lapicid h"
    unfolding this_cpu_def by (auto simp: find_Some_iff)
  with c show "this_cpu h = Some (me h)" "me h < ncpu h" "apicid (cpus h (me h)) = lapicid h"
    by (auto simp: me_def)
qed

lemma lock_inv_cpu_ok: "lock_inv h \<Longrightarrow> cpu_ok h"
  using online_this_cpu [of h] by (auto simp: lock_inv_def cpu_ok_def intr_on_def)

lemma took_fields:
  "ncpu (took lk h) = ncpu h" "apicid (cpus (took lk h) c) = apicid (cpus h c)"
  "c \<noteq> me h \<Longrightarrow> cpus (took lk h) c = cpus h c"
  "flags_reg (took lk h) = (flags_reg h)(lapicid h := flags_reg h (lapicid h) AND NOT FL_IF)"
  "locks (took lk h) = (locks h)(lk := \<lparr>locked = 1, lk_cpu = Some (me h)\<rparr>)"
  by (simp_all add: took_def pushed_def)

lemma dropped_fields:
  "ncpu (dropped lk h) = ncpu h" "apicid (cpus (dropped lk h) c) = apicid (cpus h c)"
  "c \<noteq> me h \<Longrightarrow> cpus (dropped lk h) c = cpus h c" "lapicid (dropped lk h) = lapicid h"
  "ncli (cpus (dropped lk h) (me h)) = ncli (cpus h (me h)) - 1"
  "locks (dropped lk h) = (locks h)(lk := \<lparr>locked = 0, lk_cpu = None\<rparr>)"
  "a \<noteq> lapicid h \<Longrightarrow> flags_reg (dropped lk h) a = flags_reg h a"
  "ncli (cpus h (me h)) \<noteq> 1 \<Longrightarrow> flags_reg (dropped lk h) = flags_reg h"
  by (simp_all add: dropped_def popped_def)

lemma held_took_eq:
  "free_lock h lk \<Longrightarrow> held (took lk h) c = (if c = me h then insert lk (held h c) else held h c)"
  by (auto simp: held_def took_fields free_lock_def)

lemma held_dropped_eq: "held (dropped lk h) c = held h c - {lk}"
  by (auto simp: held_def dropped_fields)

lemma apicid_me_iff:
  "lock_inv h \<Longrightarrow> c < ncpu h \<Longrightarrow> apicid (cpus h c) = lapicid h \<longleftrightarrow> c = me h"
  using online_this_cpu [of h] by (auto simp: lock_inv_def inj_on_def)

lemma lock_inv_took:
  assumes inv: "lock_inv h" and free: "free_lock h lk"
  shows "lock_inv (took lk h)"
proof -
  have "lk \<notin> held h c" for c
    using free by (simp add: held_def free_lock_def)
  with inv free show ?thesis
    using apicid_me_iff [OF inv] ncli_took [of lk h] online_this_cpu [of h]
    by (auto simp: lock_inv_def online_def took_fields held_took_eq free_lock_def)
qed

lemma lock_inv_dropped:
  assumes inv: "lock_inv h" and heldm: "held_by_me h lk"
  shows "lock_inv (dropped lk h)"
proof -
  have other: "lk \<notin> held h c" if "c \<noteq> me h" for c
    using heldm that by (simp add: held_def held_by_me_def)
  have mine: "lk \<in> held h (me h)"
    using heldm by (simp add: held_def held_by_me_def)
  have pos: "0 < card (held h (me h))"
    using inv mine online_this_cpu [of h] by (auto simp: lock_inv_def card_gt_0_iff)
  have count: "int (card (held h c - {lk})) = ncli (cpus (dropped lk h) c)" if "c < ncpu h" for c
    using that inv mine other [of c]
    by (cases "c = me h") (auto simp: lock_inv_def dropped_fields card_Diff_singleton of_nat_diff
        Suc_leI [OF pos])
  have flag: "ncli (cpus (dropped lk h) c) = 0"
    if "c < ncpu h" "flags_reg (dropped lk h) (apicid (cpus h c)) AND FL_IF \<noteq> 0" for c
  proof (cases "c = me h")
    case True
    have "ncli (cpus h (me h)) \<noteq> 0"
      using inv mine online_this_cpu [of h] by (auto simp: lock_inv_def)
    with True that inv show ?thesis
      by (cases "ncli (cpus h (me h)) = 1") (auto simp: dropped_fields lock_inv_def)
  next
    case False
    then show ?thesis
      using that inv apicid_me_iff [OF inv that(1)] by (auto simp: dropped_fields lock_inv_def)
  qed
  show ?thesis
    using inv count flag
    by (auto simp: lock_inv_def online_def dropped_fields held_dropped_eq free_lock_def)
qed


lemma acquire_Inr_free:
  assumes inv: "lock_inv (hw s)" and acq: "acquire lk s = Inr s'"
  shows "free_lock (hw s) lk \<and> s' = s\<lparr>hw := took lk (hw s)\<rparr>"
proof -
  note ok = lock_inv_cpu_ok [OF inv]
  have "free_lock (hw s) lk"
  proof (rule ccontr)
    assume "\<not> free_lock (hw s) lk"
    then have "locked (locks (hw s) lk) \<noteq> 0"
      using inv by (auto simp: lock_inv_def)
    then have "held_by_me (hw s) lk \<or> lk_cpu (locks (hw s) lk) \<noteq> Some (me (hw s))"
      by (simp add: held_by_me_def)
    then show False
      using acq acquire_twice [OF ok] acquire_elsewhere [OF ok \<open>locked (locks (hw s) lk) \<noteq> 0\<close>]
      by auto
  qed
  with acq acquire_eq [OF ok] show ?thesis by simp
qed

lemma release_Inr_held:
  assumes inv: "lock_inv (hw s)" and rel: "release lk s = Inr s'"
  shows "held_by_me (hw s) lk \<and> s' = s\<lparr>hw := dropped lk (hw s)\<rparr>"
proof -
  have cpu: "this_cpu (hw s) = Some (me (hw s))" "me (hw s) < ncpu (hw s)"
    using inv online_this_cpu by (auto simp: lock_inv_def)
  from rel have held: "held_by_me (hw s) lk" and off: "\<not> intr_on (hw s)"
    using cpu by (auto simp: release_def holding_def held_by_me_def split: if_splits)
  have "lk \<in> held (hw s) (me (hw s))"
    using held by (simp add: held_def held_by_me_def)
  then have "0 < ncli (cpus (hw s) (me (hw s)))"
    using inv cpu by (auto simp: lock_inv_def card_gt_0_iff)
  with rel held off cpu show ?thesis by (simp add: release_eq)
qed

lemma lock_step_inv: "lock_step s s' \<Longrightarrow> lock_inv (hw s) \<Longrightarrow> lock_inv (hw s')"
proof (induction rule: lock_step.induct)
  case (other_cpu s a)
  then show ?case by (auto simp: lock_inv_def online_def held_def free_lock_def)
next
  case (acquired lk s s')
  then show ?case using acquire_Inr_free lock_inv_took by fastforce
next
  case (released lk s s')
  then show ?case using release_Inr_held lock_inv_dropped by fastforce
qed

interpretation spin: machine "\<lambda>s. booted (hw s)" lock_step "\<lambda>s. lock_inv (hw s)"
  by unfold_locales (auto intro: booted_inv lock_step_inv)

lemma online_cong:
  "lock_step s t \<Longrightarrow> lock_inv (hw s) \<Longrightarrow> ncpu (hw t) = ncpu (hw s)"
  by (induction rule: lock_step.induct)
    (auto dest: acquire_Inr_free release_Inr_held simp: took_fields dropped_fields)


definition idle_seg :: segdesc where
  "idle_seg = SEG 0 0 0 0"

definition two_cpus :: hardware where
  "two_cpus = \<lparr>ncpu = 2,
     cpus = (\<lambda>i. \<lparr>apicid = of_nat i, ts_ss0 = 0, ts_esp0 = 0, ts_iomb = 0, gdt = (\<lambda>_. idle_seg),
               ncli = 0, intena = 0, cpu_proc = None\<rparr>),
     lapicid = 0, flags_reg = (\<lambda>_. FL_IF), cr3 = (\<lambda>_. 0), task_reg = (\<lambda>_. 0),
     locks = (\<lambda>_. \<lparr>locked = 0, lk_cpu = None\<rparr>)\<rparr>"

lemma two_cpus_booted: "booted two_cpus"
  by (auto simp: booted_def two_cpus_def online_def free_lock_def inj_on_def less_Suc_eq
      numeral_2_eq_2)

lemma two_cpus_me: "this_cpu two_cpus = Some 0" "me two_cpus = 0"
  by (simp_all add: this_cpu_def two_cpus_def me_def upt_rec)


end
