(* ===== verification/CString.thy ===== *)
theory CString
  imports Mmu
begin

text \<open>
  The byte and string routines of the kernel (\<^verbatim>\<open>string.c\<close>) and of the user library
  (\<^verbatim>\<open>ulib.c\<close>). Routines that write take and return the memory; routines that only read take
  the bytes at a pointer as a function of the offset, which the memory at an address, a
  directory entry and a path all provide.
\<close>

section \<open>Filling memory\<close>

text \<open>\<^verbatim>\<open>rep stosb\<close> and \<^verbatim>\<open>rep stosl\<close>: \<open>cnt\<close> stores at increasing addresses.\<close>

fun stosb :: "memory \<Rightarrow> u32 \<Rightarrow> u32 \<Rightarrow> nat \<Rightarrow> memory" where
  "stosb m addr data 0 = m"
| "stosb m addr data (Suc cnt) = stosb (m(addr := ucast data)) (addr + 1) data cnt"

fun stosl :: "memory \<Rightarrow> u32 \<Rightarrow> u32 \<Rightarrow> nat \<Rightarrow> memory" where
  "stosl m addr data 0 = m"
| "stosl m addr data (Suc cnt) = stosl (store32 m addr data) (addr + 4) data cnt"

definition memset :: "memory \<Rightarrow> u32 \<Rightarrow> u32 \<Rightarrow> u32 \<Rightarrow> memory" where
  "memset m dst c n =
     (if dst mod 4 = 0 \<and> n mod 4 = 0
      then let c = c AND 0xFF
           in stosl m dst (push_bit 24 c OR push_bit 16 c OR push_bit 8 c OR c) (unat (n div 4))
      else stosb m dst c (unat n))"

definition fill :: "memory \<Rightarrow> u32 \<Rightarrow> u8 \<Rightarrow> nat \<Rightarrow> memory" where
  "fill m dst c n = (\<lambda>a. if in_span a dst n then c else m a)"

lemma in_span_0 [simp]: "\<not> in_span a b 0"
  by (simp add: in_span_def)

lemma unat_minus_Suc:
  "a \<noteq> b \<Longrightarrow> unat (a - b) = Suc (unat (a - (b + 1)))" for a b :: u32
proof -
  assume "a \<noteq> b"
  then have "a - b \<noteq> 0" by simp
  then have "unat (a - b - 1) = unat (a - b) - 1" and "0 < unat (a - b)"
    by (simp_all add: unat_minus_one unat_gt_0)
  then show ?thesis by (simp add: algebra_simps)
qed

lemma in_span_Suc:
  "Suc n \<le> 4294967296 \<Longrightarrow> in_span a b (Suc n) \<longleftrightarrow> a = b \<or> in_span a (b + 1) n"
proof (cases "a = b")
  case False
  then show ?thesis
    using unat_minus_Suc [OF False] by (simp add: in_span_def)
qed (simp add: in_span_def)

lemma in_span_self: "Suc n \<le> 4294967296 \<Longrightarrow> \<not> in_span b (b + 1) n"
  by (simp add: in_span_def)

lemma in_span_add:
  "k + n \<le> 4294967296 \<Longrightarrow> in_span a b (k + n) \<longleftrightarrow> in_span a b k \<or> in_span a (b + of_nat k) n"
  by (induction k arbitrary: b) (auto simp: in_span_Suc algebra_simps)

lemma stosb_fill: "n \<le> 4294967296 \<Longrightarrow> stosb m dst c n = fill m dst (ucast c) n"
proof (induction n arbitrary: m dst)
  case (Suc n)
  then show ?case
    by (auto simp: fill_def fun_eq_iff in_span_Suc in_span_self)
qed (simp add: fill_def)

lemma fill_fill:
  "k + n \<le> 4294967296 \<Longrightarrow> fill (fill m dst c k) (dst + of_nat k) c n = fill m dst c (k + n)"
  by (auto simp: fill_def fun_eq_iff in_span_add)

definition spread :: "u32 \<Rightarrow> u32" where
  "spread c = push_bit 24 c OR push_bit 16 c OR push_bit 8 c OR c"

lemma spread_byte:
  fixes c :: u32
  defines "b \<equiv> c AND 0xFF"
  shows "ucast (spread b) = (ucast c :: u8)"
    and "ucast (drop_bit 8 (spread b)) = (ucast c :: u8)"
    and "ucast (drop_bit 16 (spread b)) = (ucast c :: u8)"
    and "ucast (drop_bit 24 (spread b)) = (ucast c :: u8)"
  unfolding b_def spread_def mask8
  by (rule bit_word_eqI, auto simp: bit_simps)+

lemma in_span_4: "in_span x a 4 \<longleftrightarrow> x = a \<or> x = a + 1 \<or> x = a + 2 \<or> x = a + 3"
proof -
  have "in_span x a (Suc (Suc (Suc (Suc 0)))) \<longleftrightarrow> x = a \<or> x = a + 1 \<or> x = a + 2 \<or> x = a + 3"
    by (simp add: in_span_Suc algebra_simps)
  then show ?thesis
    by (simp add: numeral_eq_Suc)
qed

lemma store32_spread: "store32 m a (spread (c AND 0xFF)) = fill m a (ucast c) 4"
  by (auto simp: store32_def fill_def spread_byte in_span_4 fun_eq_iff)

lemma stosl_fill:
  "4 * n \<le> 4294967296 \<Longrightarrow> stosl m dst (spread (c AND 0xFF)) n = fill m dst (ucast c) (4 * n)"
proof (induction n arbitrary: m dst)
  case (Suc n)
  then show ?case
    using fill_fill [of 4 "4 * n" m dst "ucast c"] by (simp add: store32_spread)
qed (simp add: fill_def)

lemma memset_fill: "memset m dst c n = fill m dst (ucast c) (unat n)"
proof (cases "dst mod 4 = 0 \<and> n mod 4 = 0")
  case True
  then have "unat n mod 4 = 0"
    using unat_mod [of n 4] by simp
  then have "4 * unat (n div 4) = unat n"
    using div_mult_mod_eq [of "unat n" 4] by (simp add: unat_div mult.commute)
  moreover have "4 * unat (n div 4) \<le> 4294967296"
    using unat32_less [of n] \<open>4 * unat (n div 4) = unat n\<close> by simp
  ultimately show ?thesis
    using True stosl_fill [of "unat (n div 4)" m dst c]
    by (simp add: memset_def Let_def spread_def)
next
  case False
  then show ?thesis
    unfolding memset_def if_not_P [OF False]
    using unat32_less [of n] by (simp add: stosb_fill)
qed


section \<open>Copying memory\<close>

fun copy_fwd :: "memory \<Rightarrow> u32 \<Rightarrow> u32 \<Rightarrow> nat \<Rightarrow> memory" where
  "copy_fwd m d s 0 = m"
| "copy_fwd m d s (Suc n) = copy_fwd (m(d := m s)) (d + 1) (s + 1) n"

fun copy_bwd :: "memory \<Rightarrow> u32 \<Rightarrow> u32 \<Rightarrow> nat \<Rightarrow> memory" where
  "copy_bwd m d s 0 = m"
| "copy_bwd m d s (Suc n) = copy_bwd (m(d - 1 := m (s - 1))) (d - 1) (s - 1) n"

definition memmove :: "memory \<Rightarrow> u32 \<Rightarrow> u32 \<Rightarrow> u32 \<Rightarrow> memory" where
  "memmove m dst src n =
     (if src < dst \<and> src + n > dst
      then copy_bwd m (dst + n) (src + n) (unat n)
      else copy_fwd m dst src (unat n))"

definition memcpy :: "memory \<Rightarrow> u32 \<Rightarrow> u32 \<Rightarrow> u32 \<Rightarrow> memory" where
  "memcpy m dst src n = memmove m dst src n"

text \<open>The user library's \<^verbatim>\<open>memmove\<close> always copies upwards; its count is a signed \<^verbatim>\<open>int\<close>.\<close>

definition umemmove :: "memory \<Rightarrow> u32 \<Rightarrow> u32 \<Rightarrow> u32 \<Rightarrow> memory" where
  "umemmove m vdst vsrc n = (if 0 < sint n then copy_fwd m vdst vsrc (unat n) else m)"

text \<open>The result asked of a move: every byte of the target is the old byte of the source.\<close>

definition moved :: "memory \<Rightarrow> u32 \<Rightarrow> u32 \<Rightarrow> nat \<Rightarrow> memory" where
  "moved m dst src n = (\<lambda>a. if in_span a dst n then m (src + (a - dst)) else m a)"

lemma copy_fwd_moved:
  assumes "n \<le> 4294967296"
    and "\<And>i j. i < j \<Longrightarrow> j < n \<Longrightarrow> d + of_nat i \<noteq> s + of_nat j"
  shows "copy_fwd m d s n = moved m d s n"
  using assms
proof (induction n arbitrary: m d s)
  case (Suc n)
  have clash: "(d + 1) + of_nat i \<noteq> (s + 1) + of_nat j" if "i < j" "j < n" for i j
    using Suc.prems(2) [of "Suc i" "Suc j"] that by (simp add: algebra_simps)
  have head: "s + (a - d) \<noteq> d" if "in_span a (d + 1) n" "a \<noteq> d" for a
  proof -
    have "unat (a - d) < Suc n" "0 < unat (a - d)"
      using that unat_minus_Suc [OF that(2)] by (simp_all add: in_span_def)
    then have "d + of_nat 0 \<noteq> s + of_nat (unat (a - d))"
      by (intro Suc.prems(2)) auto
    then show ?thesis by auto
  qed
  have "copy_fwd m d s (Suc n) = moved (m(d := m s)) (d + 1) (s + 1) n"
    using Suc.IH [OF _ clash] Suc.prems(1) by simp
  also have "\<dots> = moved m d s (Suc n)"
  proof
    fix a
    have "(s + 1) + (a - (d + 1)) = s + (a - d)" by simp
    then show "moved (m(d := m s)) (d + 1) (s + 1) n a = moved m d s (Suc n) a"
      using Suc.prems(1) head [of a] in_span_self [of n d]
      by (cases "a = d") (auto simp: moved_def in_span_Suc)
  qed
  finally show ?case .
qed (simp add: moved_def)

lemma in_span_last:
  "Suc n \<le> 4294967296 \<Longrightarrow> in_span a b (Suc n) \<longleftrightarrow> in_span a b n \<or> a = b + of_nat n"
  using in_span_add [of n 1 a b] by (simp add: in_span_Suc)

lemma not_in_span_last: "n < 4294967296 \<Longrightarrow> \<not> in_span (b + of_nat n) b n"
  by (simp add: in_span_def unat_of_nat32)

lemma copy_bwd_moved:
  assumes "n \<le> 4294967296"
    and "\<And>i j. i < j \<Longrightarrow> j < n \<Longrightarrow> s + of_nat i \<noteq> d + of_nat j"
  shows "copy_bwd m (d + of_nat n) (s + of_nat n) n = moved m d s n"
  using assms
proof (induction n arbitrary: m)
  case (Suc n)
  have head: "s + (a - d) \<noteq> d + of_nat n" if "in_span a d n" for a
  proof -
    have "s + of_nat (unat (a - d)) \<noteq> d + of_nat n"
      using that by (intro Suc.prems(2)) (auto simp: in_span_def)
    then show ?thesis by auto
  qed
  have "copy_bwd m (d + of_nat (Suc n)) (s + of_nat (Suc n)) (Suc n)
      = copy_bwd (m(d + of_nat n := m (s + of_nat n))) (d + of_nat n) (s + of_nat n) n"
    by (simp add: algebra_simps)
  also have "\<dots> = moved (m(d + of_nat n := m (s + of_nat n))) d s n"
    using Suc.prems by (intro Suc.IH) auto
  also have "\<dots> = moved m d s (Suc n)"
    using Suc.prems(1) head
    by (auto simp: moved_def fun_eq_iff in_span_last not_in_span_last)
  finally show ?case .
qed (simp add: moved_def)

lemma memmove_moved:
  assumes "unat src + unat n < 4294967296" and "unat dst + unat n < 4294967296"
  shows "memmove m dst src n = moved m dst src (unat n)"
proof (cases "src < dst \<and> src + n > dst")
  case True
  have "src + of_nat i \<noteq> dst + of_nat j" if "i < j" "j < unat n" for i j
  proof
    assume "src + of_nat i = dst + of_nat j"
    then have "unat (src + of_nat i) = unat (dst + of_nat j)" by simp
    then have "unat src + i = unat dst + j"
      using that assms by (simp add: unat_add32 unat_of_nat32)
    with True that show False by (simp add: word_less_nat_alt)
  qed
  then have "copy_bwd m (dst + of_nat (unat n)) (src + of_nat (unat n)) (unat n)
      = moved m dst src (unat n)"
    using unat32_less [of n] by (intro copy_bwd_moved) auto
  then show ?thesis using True by (simp add: memmove_def)
next
  case False
  have "dst + of_nat i \<noteq> src + of_nat j" if "i < j" "j < unat n" for i j
  proof
    assume "dst + of_nat i = src + of_nat j"
    then have "unat (dst + of_nat i) = unat (src + of_nat j)" by simp
    then have "unat dst + i = unat src + j"
      using that assms by (simp add: unat_add32 unat_of_nat32)
    with False that assms show False
      by (simp add: word_less_nat_alt unat_add32)
  qed
  then have "copy_fwd m dst src (unat n) = moved m dst src (unat n)"
    using unat32_less [of n] by (intro copy_fwd_moved) auto
  then show ?thesis using False by (auto simp: memmove_def)
qed


section \<open>Reading strings\<close>

type_synonym cstr = "nat \<Rightarrow> u8"

definition at :: "memory \<Rightarrow> u32 \<Rightarrow> cstr" where
  "at m p = (\<lambda>i. m (p + of_nat i))"

definition cstr_of :: "u8 list \<Rightarrow> cstr" where
  "cstr_of xs = (\<lambda>i. if i < length xs then xs ! i else 0)"

definition shift :: "cstr \<Rightarrow> cstr" where
  "shift s = (\<lambda>i. s (Suc i))"

lemma shift_at: "shift (at m p) = at m (p + 1)"
  by (simp add: shift_def at_def add.commute add.left_commute)

lemma cstr_of_Cons [simp]: "cstr_of (x # xs) 0 = x" "shift (cstr_of (x # xs)) = cstr_of xs"
  by (auto simp: cstr_of_def shift_def)

lemma cstr_of_Nil [simp]: "cstr_of [] i = 0" "shift (cstr_of []) = cstr_of []"
  by (auto simp: cstr_of_def shift_def)

fun memcmp :: "cstr \<Rightarrow> cstr \<Rightarrow> nat \<Rightarrow> int" where
  "memcmp s1 s2 0 = 0"
| "memcmp s1 s2 (Suc n) =
     (if s1 0 \<noteq> s2 0 then uint (s1 0) - uint (s2 0) else memcmp (shift s1) (shift s2) n)"

fun strncmp :: "cstr \<Rightarrow> cstr \<Rightarrow> nat \<Rightarrow> int" where
  "strncmp p q 0 = 0"
| "strncmp p q (Suc n) =
     (if p 0 \<noteq> 0 \<and> p 0 = q 0 then strncmp (shift p) (shift q) n
      else uint (p 0) - uint (q 0))"

partial_function (option) strlen_loop :: "cstr \<Rightarrow> nat \<Rightarrow> nat option" where
  "strlen_loop s n = (if s n \<noteq> 0 then strlen_loop s (Suc n) else Some n)"

definition strlen :: "cstr \<Rightarrow> nat option" where
  "strlen s = strlen_loop s 0"

partial_function (option) strcmp :: "cstr \<Rightarrow> cstr \<Rightarrow> int option" where
  "strcmp p q =
     (if p 0 \<noteq> 0 \<and> p 0 = q 0 then strcmp (shift p) (shift q)
      else Some (uint (p 0) - uint (q 0)))"

partial_function (option) strchr :: "cstr \<Rightarrow> u8 \<Rightarrow> nat \<Rightarrow> nat option option" where
  "strchr s c i =
     (if s i = 0 then Some None else if s i = c then Some (Some i) else strchr s c (Suc i))"

partial_function (option) atoi_loop :: "cstr \<Rightarrow> u32 \<Rightarrow> u32 option" where
  "atoi_loop s n =
     (if 48 \<le> s 0 \<and> s 0 \<le> 57 then atoi_loop (shift s) (n * 10 + ucast (s 0) - 48) else Some n)"

definition atoi :: "cstr \<Rightarrow> u32 option" where
  "atoi s = atoi_loop s 0"

text \<open>The string at a pointer, at most \<open>n\<close> bytes of it and without its NUL.\<close>

fun ctake :: "nat \<Rightarrow> cstr \<Rightarrow> u8 list" where
  "ctake 0 s = []"
| "ctake (Suc n) s = (if s 0 = 0 then [] else s 0 # ctake n (shift s))"

lemma uint_diff_eq_0: "uint a = uint b \<longleftrightarrow> a = b" "uint a = 0 \<longleftrightarrow> a = 0" for a b :: u8
  by (simp_all add: word_uint_eq_iff)

lemma memcmp_eq_0: "memcmp s1 s2 n = 0 \<longleftrightarrow> (\<forall>i<n. s1 i = s2 i)"
proof (induction n arbitrary: s1 s2)
  case (Suc n)
  then show ?case
    by (auto simp: shift_def less_Suc_eq_0_disj uint_diff_eq_0)
qed simp

lemma strncmp_eq_0: "strncmp p q n = 0 \<longleftrightarrow> ctake n p = ctake n q"
  by (induction p q n rule: strncmp.induct) (auto simp: uint_diff_eq_0)

lemma strlen_loop_eq:
  "\<lbrakk>\<And>i. n \<le> i \<Longrightarrow> i < k \<Longrightarrow> s i \<noteq> 0; s k = 0; n \<le> k\<rbrakk> \<Longrightarrow> strlen_loop s n = Some k"
proof (induction "k - n" arbitrary: n)
  case 0
  then show ?case by (simp add: strlen_loop.simps)
next
  case (Suc d)
  then have "s n \<noteq> 0" "strlen_loop s (Suc n) = Some k" by auto
  then show ?case by (subst strlen_loop.simps) simp
qed

lemma strlen_eq: "(\<And>i. i < k \<Longrightarrow> s i \<noteq> 0) \<Longrightarrow> s k = 0 \<Longrightarrow> strlen s = Some k"
  by (simp add: strlen_def strlen_loop_eq)

section \<open>Writing strings\<close>

fun zero_fill :: "memory \<Rightarrow> u32 \<Rightarrow> nat \<Rightarrow> memory" where
  "zero_fill m s 0 = m"
| "zero_fill m s (Suc n) = zero_fill (m(s := 0)) (s + 1) n"

fun strncpy_loop :: "memory \<Rightarrow> u32 \<Rightarrow> u32 \<Rightarrow> nat \<Rightarrow> memory" where
  "strncpy_loop m s t 0 = m"
| "strncpy_loop m s t (Suc n) =
     (if m t \<noteq> 0 then strncpy_loop (m(s := m t)) (s + 1) (t + 1) n
      else zero_fill (m(s := m t)) (s + 1) n)"

definition strncpy :: "memory \<Rightarrow> u32 \<Rightarrow> u32 \<Rightarrow> u32 \<Rightarrow> memory" where
  "strncpy m s t n = strncpy_loop m s t (nat (sint n))"

fun safestrcpy_loop :: "memory \<Rightarrow> u32 \<Rightarrow> u32 \<Rightarrow> nat \<Rightarrow> memory" where
  "safestrcpy_loop m s t 0 = m(s := 0)"
| "safestrcpy_loop m s t (Suc n) =
     (if m t \<noteq> 0 then safestrcpy_loop (m(s := m t)) (s + 1) (t + 1) n
      else m(s := m t, s + 1 := 0))"

definition safestrcpy :: "memory \<Rightarrow> u32 \<Rightarrow> u32 \<Rightarrow> u32 \<Rightarrow> memory" where
  "safestrcpy m s t n = (if sint n \<le> 0 then m else safestrcpy_loop m s t (nat (sint n) - 1))"

partial_function (option) strcpy :: "memory \<Rightarrow> u32 \<Rightarrow> u32 \<Rightarrow> memory option" where
  "strcpy m s t =
     (if m t \<noteq> 0 then strcpy (m(s := m t)) (s + 1) (t + 1) else Some (m(s := m t)))"

text \<open>
  The same loops on a fixed-size array held by value (\<^verbatim>\<open>char name[n]\<close> inside a structure):
  the bytes the array holds afterwards.
\<close>

fun strncpy_bytes :: "nat \<Rightarrow> cstr \<Rightarrow> u8 list" where
  "strncpy_bytes 0 t = []"
| "strncpy_bytes (Suc n) t =
     (if t 0 \<noteq> 0 then t 0 # strncpy_bytes n (shift t) else 0 # replicate n 0)"

definition put_bytes :: "memory \<Rightarrow> u32 \<Rightarrow> u8 list \<Rightarrow> memory" where
  "put_bytes m a xs = (\<lambda>b. if in_span b a (length xs) then xs ! unat (b - a) else m b)"

lemma length_strncpy_bytes [simp]: "length (strncpy_bytes n t) = n"
  by (induction n t rule: strncpy_bytes.induct) auto

lemma ctake_strncpy_bytes: "ctake n (cstr_of (strncpy_bytes n t)) = ctake n t"
proof (induction n t rule: strncpy_bytes.induct)
  case (2 n t)
  then show ?case by simp
qed simp

lemma put_bytes_Nil [simp]: "put_bytes m a [] = m"
  by (simp add: put_bytes_def)

lemma put_bytes_Cons:
  assumes "Suc (length xs) \<le> 4294967296"
  shows "put_bytes m a (x # xs) = put_bytes (m(a := x)) (a + 1) xs"
proof
  fix b
  show "put_bytes m a (x # xs) b = put_bytes (m(a := x)) (a + 1) xs b"
    using assms unat_minus_Suc [of b a]
    by (cases "b = a") (auto simp: put_bytes_def in_span_Suc in_span_self)
qed

lemma zero_fill_put:
  "n \<le> 4294967296 \<Longrightarrow> zero_fill m s n = put_bytes m s (replicate n 0)"
  by (induction n arbitrary: m s) (auto simp: put_bytes_Cons)

definition disjoint_spans :: "u32 \<Rightarrow> nat \<Rightarrow> u32 \<Rightarrow> nat \<Rightarrow> bool" where
  "disjoint_spans a m b n \<longleftrightarrow> (\<forall>x. \<not> (in_span x a m \<and> in_span x b n))"

lemma disjoint_spans_Suc:
  assumes "disjoint_spans a (Suc m) b (Suc n)" "Suc m \<le> 4294967296" "Suc n \<le> 4294967296"
  shows "disjoint_spans (a + 1) m (b + 1) n"
  using assms by (auto simp: disjoint_spans_def in_span_Suc)

lemma at_upd_disjoint:
  assumes "disjoint_spans s (Suc m) t (Suc n)" "Suc n \<le> 4294967296" "i \<le> n"
  shows "(t + of_nat i) \<noteq> s"
proof
  assume "t + of_nat i = s"
  moreover have "in_span (t + of_nat i) t (Suc n)"
    using assms(2,3) by (simp add: in_span_def unat_of_nat32)
  ultimately show False
    using assms(1) by (auto simp: disjoint_spans_def in_span_def)
qed

lemma strncpy_bytes_cong:
  "(\<And>i. i < n \<Longrightarrow> t i = t' i) \<Longrightarrow> strncpy_bytes n t = strncpy_bytes n t'"
proof (induction n arbitrary: t t')
  case (Suc n)
  have "strncpy_bytes n (shift t) = strncpy_bytes n (shift t')"
    using Suc.prems by (intro Suc.IH) (auto simp: shift_def)
  then show ?case using Suc.prems [of 0] by simp
qed simp

lemma strncpy_loop_put:
  "\<lbrakk>n \<le> 4294967296; disjoint_spans s n t n\<rbrakk>
   \<Longrightarrow> strncpy_loop m s t n = put_bytes m s (strncpy_bytes n (at m t))"
proof (induction n arbitrary: m s t)
  case (Suc n)
  let ?m = "m(s := m t)"
  have t: "(t + 1) + of_nat i \<noteq> s" if "i < n" for i
    using at_upd_disjoint [OF Suc.prems(2), of "Suc i"] Suc.prems(1) that
    by (simp add: algebra_simps)
  have "strncpy_loop ?m (s + 1) (t + 1) n
      = put_bytes ?m (s + 1) (strncpy_bytes n (at ?m (t + 1)))"
    using Suc.prems disjoint_spans_Suc [OF Suc.prems(2)] by (intro Suc.IH) auto
  moreover have "strncpy_bytes n (at ?m (t + 1)) = strncpy_bytes n (at m (t + 1))"
    by (intro strncpy_bytes_cong) (auto simp: at_def t)
  moreover have "zero_fill ?m (s + 1) n = put_bytes ?m (s + 1) (replicate n 0)"
    using Suc.prems(1) by (simp add: zero_fill_put)
  moreover have "at m t 0 = m t"
    by (simp add: at_def)
  ultimately show ?case
    using Suc.prems(1) by (cases "m t = 0") (simp_all add: put_bytes_Cons shift_at)
qed simp


fun safestrcpy_bytes :: "nat \<Rightarrow> cstr \<Rightarrow> u8 list" where
  "safestrcpy_bytes 0 t = [0]"
| "safestrcpy_bytes (Suc n) t =
     (if t 0 \<noteq> 0 then t 0 # safestrcpy_bytes n (shift t) else [0, 0])"

lemma length_safestrcpy_bytes: "length (safestrcpy_bytes n t) \<le> Suc n"
  by (induction n t rule: safestrcpy_bytes.induct) auto

lemma safestrcpy_bytes_ctake:
  "\<exists>zs. safestrcpy_bytes n t = ctake n t @ 0 # zs \<and> set zs \<subseteq> {0}"
  by (induction n t rule: safestrcpy_bytes.induct) auto

lemma safestrcpy_bytes_cong:
  "(\<And>i. i < n \<Longrightarrow> t i = t' i) \<Longrightarrow> safestrcpy_bytes n t = safestrcpy_bytes n t'"
proof (induction n arbitrary: t t')
  case (Suc n)
  have "safestrcpy_bytes n (shift t) = safestrcpy_bytes n (shift t')"
    using Suc.prems by (intro Suc.IH) (auto simp: shift_def)
  then show ?case using Suc.prems [of 0] by simp
qed simp

lemma safestrcpy_loop_put:
  "\<lbrakk>Suc n \<le> 4294967296; disjoint_spans s (Suc n) t (Suc n)\<rbrakk>
   \<Longrightarrow> safestrcpy_loop m s t n = put_bytes m s (safestrcpy_bytes n (at m t))"
proof (induction n arbitrary: m s t)
  case 0
  then show ?case by (simp add: put_bytes_Cons)
next
  case (Suc n)
  let ?m = "m(s := m t)"
  have t: "(t + 1) + of_nat i \<noteq> s" if "i < n" for i
    using at_upd_disjoint [OF Suc.prems(2), of "Suc i"] Suc.prems(1) that
    by (simp add: algebra_simps)
  have "safestrcpy_loop ?m (s + 1) (t + 1) n
      = put_bytes ?m (s + 1) (safestrcpy_bytes n (at ?m (t + 1)))"
    using Suc.prems disjoint_spans_Suc [OF Suc.prems(2)] by (intro Suc.IH) auto
  moreover have "safestrcpy_bytes n (at ?m (t + 1)) = safestrcpy_bytes n (at m (t + 1))"
    by (intro safestrcpy_bytes_cong) (auto simp: at_def t)
  moreover have "at m t 0 = m t"
    by (simp add: at_def)
  moreover have "Suc (length (safestrcpy_bytes n (at m (t + 1)))) \<le> 4294967296"
    using length_safestrcpy_bytes [of n "at m (t + 1)"] Suc.prems(1) by linarith
  ultimately show ?case
    by (cases "m t = 0") (simp_all add: put_bytes_Cons shift_at)
qed

section \<open>Properties\<close>

text \<open>
  C32: \<^verbatim>\<open>memset\<close> stores the low byte of its argument in each of the \<open>n\<close> bytes from \<open>dst\<close> and
  changes no other byte, whether it stores words or single bytes.
\<close>

theorem memset_fills:
  "memset m dst c n = (\<lambda>a. if in_span a dst (unat n) then ucast c else m a)"
  by (simp add: memset_fill fill_def)

text \<open>
  C25: The kernel's \<^verbatim>\<open>memmove\<close> leaves in every byte of the target the byte the source had before
  the call, however the two ranges overlap, and changes nothing else.
\<close>

theorem memmove_overlap_safe:
  assumes "unat src + unat n < 4294967296" and "unat dst + unat n < 4294967296"
  shows "memmove m dst src n
    = (\<lambda>a. if in_span a dst (unat n) then m (src + (a - dst)) else m a)"
  using memmove_moved [OF assms] by (simp add: moved_def)

definition ramp :: memory where
  "ramp a = ucast a"

theorem memmove_overlap_safe_witness:
  "memmove ramp 0x1002 0x1000 4 0x1005 = 3 \<and> memmove ramp 0x1000 0x1002 4 0x1000 = 2"
  using memmove_overlap_safe [of "0x1000" 4 "0x1002" ramp]
    memmove_overlap_safe [of "0x1002" 4 "0x1000" ramp]
  by (simp add: in_span_def ramp_def)

lemma copy_fwd_repeat:
  "Suc n < 4294967296 \<Longrightarrow> copy_fwd m (d + 1) d n = fill m (d + 1) (m d) n"
proof (induction n arbitrary: m d)
  case (Suc n)
  let ?m = "m(d + 1 := m d)"
  have "copy_fwd ?m (d + 1 + 1) (d + 1) n = fill ?m (d + 1 + 1) (?m (d + 1)) n"
    using Suc.prems by (intro Suc.IH) simp
  then have "copy_fwd m (d + 1) d (Suc n) = fill ?m (d + 1 + 1) (m d) n"
    by simp
  then show ?case
    using Suc.prems by (auto simp: fill_def fun_eq_iff in_span_Suc in_span_self)
qed (simp add: fill_def)

text \<open>
  C36: The user library's \<^verbatim>\<open>memmove\<close> copies upwards only. It moves a range correctly when the
  target does not start inside the source, and when the target starts one byte above the
  source it fills the target with the first byte instead.
\<close>

theorem umemmove_forward_only:
  assumes "0 < sint n" "unat src + unat n < 4294967295" "unat dst + unat n < 4294967296"
  shows "(\<not> (src < dst \<and> dst < src + n) \<longrightarrow> umemmove m dst src n = moved m dst src (unat n))
    \<and> umemmove m (src + 1) src n = fill m (src + 1) (m src) (unat n)"
proof -
  have "umemmove m dst src n = moved m dst src (unat n)" if "\<not> (src < dst \<and> dst < src + n)"
    using memmove_moved [of src n dst m] that assms by (simp add: memmove_def umemmove_def)
  moreover have "umemmove m (src + 1) src n = fill m (src + 1) (m src) (unat n)"
    using assms copy_fwd_repeat [of "unat n"] by (simp add: umemmove_def)
  ultimately show ?thesis by blast
qed

theorem umemmove_forward_only_witness:
  "umemmove ramp 0x1001 0x1000 3 0x1002 = 0 \<and> moved ramp 0x1001 0x1000 3 0x1002 = 1"
  using umemmove_forward_only [of 3 "0x1000" "0x2000" ramp]
  by (simp add: fill_def moved_def in_span_def ramp_def)

text \<open>
  C34: \<^verbatim>\<open>safestrcpy\<close> writes only inside the first \<open>n\<close> bytes of the target and leaves there the
  longest prefix of the source of at most \<open>n - 1\<close> bytes, followed by a NUL.
\<close>

theorem safestrcpy_terminates_string:
  assumes "0 < sint n" and "disjoint_spans s (unat n) t (unat n)"
  shows "\<exists>bs zs. safestrcpy m s t n = put_bytes m s bs \<and> length bs \<le> unat n
    \<and> bs = ctake (unat n - 1) (at m t) @ 0 # zs \<and> set zs \<subseteq> {0}"
proof -
  have n: "nat (sint n) = unat n" "0 < unat n"
    using assms(1) nat_sint32 [of n] by simp_all
  then obtain k where k: "unat n = Suc k" by (cases "unat n") auto
  have "safestrcpy m s t n = put_bytes m s (safestrcpy_bytes k (at m t))"
    using assms safestrcpy_loop_put [of k s t m] n k unat32_less [of n]
    by (simp add: safestrcpy_def)
  then show ?thesis
    using length_safestrcpy_bytes [of k "at m t"] safestrcpy_bytes_ctake [of k "at m t"] k
    by auto
qed

theorem safestrcpy_terminates_string_witness:
  "\<exists>bs zs. safestrcpy ramp 0x2000 0x1041 4 = put_bytes ramp 0x2000 bs
     \<and> bs = [0x41, 0x42, 0x43] @ 0 # zs"
proof -
  have "disjoint_spans 0x2000 4 0x1041 4"
    by (auto simp: disjoint_spans_def in_span_4)
  moreover have "ctake (Suc (Suc (Suc 0))) (at ramp 0x1041) = [0x41, 0x42, 0x43]"
    by (simp add: at_def shift_def ramp_def)
  ultimately show ?thesis
    using safestrcpy_terminates_string [of 4 "0x2000" "0x1041" ramp]
    by (auto simp: numeral_3_eq_3)
qed

end
