(* ===== verification/Kalloc.thy ===== *)
theory Kalloc
  imports Spinlock CString
begin

text \<open>
  The physical page allocator (\<^verbatim>\<open>kalloc.c\<close>). Free pages form a linked list threaded through
  the pages themselves: the first word of a free page is the address of the next one. The
  linker symbols \<^verbatim>\<open>end\<close> and \<^verbatim>\<open>data\<close> come from outside the C sources, so they are constants of
  the state that no operation changes.
\<close>

record kmst = kst +
  mem :: memory
  freelist :: u32
  use_lock :: bool
  sym_end :: u32
  sym_data :: u32

text \<open>
  \<^verbatim>\<open>kfree\<close> works without the allocator's lock. Its two accesses to the list head are kept
  apart: \<open>kfree_link\<close> ends with \<^verbatim>\<open>r->next = kmem.freelist\<close>, \<open>kfree_push\<close> is
  \<^verbatim>\<open>kmem.freelist = r\<close>.
\<close>

definition kfree_link :: "u32 \<Rightarrow> 'a kmst_scheme \<Rightarrow> 'a kmst_scheme stop + 'a kmst_scheme" where
  "kfree_link v s =
     (if v mod PGSIZE \<noteq> 0 \<or> v < sym_end s \<or> V2P v \<ge> PHYSTOP then Inl (Panic ''kfree'')
      else let s = s\<lparr>mem := memset (mem s) v 1 PGSIZE\<rparr>
           in Inr (s\<lparr>mem := store32 (mem s) v (freelist s)\<rparr>))"

definition kfree_push :: "u32 \<Rightarrow> 'a kmst_scheme \<Rightarrow> 'a kmst_scheme" where
  "kfree_push v s = s\<lparr>freelist := v\<rparr>"

definition kfree :: "u32 \<Rightarrow> 'a kmst_scheme \<Rightarrow> 'a kmst_scheme stop + 'a kmst_scheme" where
  "kfree v s = bnd (kfree_link v s) (\<lambda>s. Inr (kfree_push v s))"

definition kalloc :: "'a kmst_scheme \<Rightarrow> 'a kmst_scheme stop + (u32 \<times> 'a kmst_scheme)" where
  "kalloc s =
     bnd (if use_lock s then acquire L_kmem s else Inr s) (\<lambda>s.
       let r = freelist s;
           s = (if r \<noteq> 0 then s\<lparr>freelist := load32 (mem s) r\<rparr> else s) in
       bnd (if use_lock s then release L_kmem s else Inr s) (\<lambda>s. Inr (r, s)))"

lemma kfree_Inr_below:
  assumes "kfree v s = Inr s'"
  shows "unat v + 4096 < 4294967296"
proof -
  have v: "v - 0x80000000 < 0xE000000"
    using assms by (auto simp: kfree_def kfree_link_def V2P_def KERNBASE_def PHYSTOP_def
        not_le split: if_splits)
  have "unat v = unat ((v - 0x80000000) + 0x80000000)" by simp
  also have "\<dots> = unat (v - 0x80000000) + 0x80000000"
    using v by (subst unat_add32) (simp_all add: word_less_nat_alt)
  finally show ?thesis
    using v by (simp add: word_less_nat_alt)
qed

function freerange_loop ::
  "u32 \<Rightarrow> u32 \<Rightarrow> 'a kmst_scheme \<Rightarrow> 'a kmst_scheme stop + 'a kmst_scheme" where
  "freerange_loop p vend s =
     (if p + PGSIZE \<le> vend then bnd (kfree p s) (\<lambda>s. freerange_loop (p + PGSIZE) vend s)
      else Inr s)"
  by pat_completeness auto
termination
proof (relation "measure (\<lambda>(p, vend, s). 4294967296 - unat p)")
  fix p vend :: u32 and s s' :: "'a kmst_scheme"
  assume "kfree p s = Inr s'"
  then have "unat p + 4096 < 4294967296" by (rule kfree_Inr_below)
  then show "((p + PGSIZE, vend, s'), p, vend, s)
      \<in> measure (\<lambda>(p, vend, s). 4294967296 - unat p)"
    by (simp add: unat_add32 PGSIZE_def)
qed simp

declare freerange_loop.simps [simp del]

definition freerange :: "u32 \<Rightarrow> u32 \<Rightarrow> 'a kmst_scheme \<Rightarrow> 'a kmst_scheme stop + 'a kmst_scheme" where
  "freerange vstart vend s = freerange_loop (PGROUNDUP vstart) vend s"

definition kinit1 :: "u32 \<Rightarrow> u32 \<Rightarrow> 'a kmst_scheme \<Rightarrow> 'a kmst_scheme stop + 'a kmst_scheme" where
  "kinit1 vstart vend s =
     (let s = initlock L_kmem s; s = s\<lparr>use_lock := False\<rparr> in freerange vstart vend s)"

definition kinit2 :: "u32 \<Rightarrow> u32 \<Rightarrow> 'a kmst_scheme \<Rightarrow> 'a kmst_scheme stop + 'a kmst_scheme" where
  "kinit2 vstart vend s = bnd (freerange vstart vend s) (\<lambda>s. Inr (s\<lparr>use_lock := True\<rparr>))"

section \<open>Pages\<close>

lemma page_arith: "x - 4096 * k < 4096 \<longleftrightarrow> x div 4096 = k" if "4096 * k \<le> x" for x k :: nat
proof
  assume "x - 4096 * k < 4096" with that show "x div 4096 = k" by (intro div_nat_eqI) auto
next
  assume "x div 4096 = k" then show "x - 4096 * k < 4096"
    by (metis minus_mult_div_eq_mod mod_less_divisor zero_less_numeral)
qed
lemma page_arith2: "x < 4096 * k \<Longrightarrow> x div 4096 \<noteq> k" for x k :: nat
  by (metis less_mult_imp_div_less mult.commute nat_neq_iff)
lemma in_page_iff:
  assumes "page_aligned a"
  shows "in_span x a 4096 \<longleftrightarrow> PGROUNDDOWN x = a"
proof -
  obtain k where a: "unat a = 4096 * k" using assms by (auto simp: page_aligned_def)
  have "4096 * k < 4294967296" using unat32_less [of a] a by simp
  then have "k < 1048576" by linarith
  then have top: "unat a \<le> 4294963200" using a by linarith
  have "unat (x - a) < 4096 \<longleftrightarrow> unat x div 4096 = k"
  proof (cases "a \<le> x")
    case True
    then have "unat (x - a) = unat x - unat a" "unat a \<le> unat x"
      by (simp_all add: unat_sub word_le_nat_alt)
    then show ?thesis using a by (simp add: page_arith)
  next
    case False
    then have "unat x < unat a" by (simp add: word_le_nat_alt)
    moreover have "unat (x - a) = 4294967296 + unat x - unat a"
      using False unat32_less [of a]
      by (simp add: unat_sub_if_size word_le_nat_alt word_size not_le)
    ultimately show ?thesis using a top page_arith2 [of "unat x" k] by linarith
  qed
  then show ?thesis
    using a by (simp add: in_span_def word_unat_eq_iff unat_PGROUNDDOWN)
qed

lemma pages_apart:
  "\<lbrakk>page_aligned a; page_aligned b; a \<noteq> b; in_span x a 4096\<rbrakk> \<Longrightarrow> \<not> in_span x b 4096"
  by (simp add: in_page_iff)

lemma word_in_page:
  assumes "page_aligned a" "i < 4" shows "in_span (a + of_nat i) a 4096"
  using assms(2) by (simp add: in_span_def unat_of_nat32)

text \<open>Memory that differs only inside page \<open>v\<close>.\<close>

definition same_outside :: "u32 \<Rightarrow> memory \<Rightarrow> memory \<Rightarrow> bool" where
  "same_outside v m m' \<longleftrightarrow> (\<forall>a. \<not> in_span a v 4096 \<longrightarrow> m' a = m a)"

lemma load32_same_outside:
  assumes "same_outside v m m'" "page_aligned v" "page_aligned a" "a \<noteq> v"
  shows "load32 m' a = load32 m a"
proof (rule load32_cong)
  fix i :: nat assume "i < 4"
  then have "\<not> in_span (a + of_nat i) v 4096"
    using assms(2-4) word_in_page pages_apart by blast
  then show "m' (a + of_nat i) = m (a + of_nat i)"
    using assms(1) by (simp add: same_outside_def)
qed

section \<open>The free list\<close>

fun flist :: "memory \<Rightarrow> u32 \<Rightarrow> u32 list \<Rightarrow> bool" where
  "flist m r [] \<longleftrightarrow> r = 0"
| "flist m r (x # xs) \<longleftrightarrow> r = x \<and> x \<noteq> 0 \<and> flist m (load32 m x) xs"

definition good_page :: "'a kmst_scheme \<Rightarrow> u32 \<Rightarrow> bool" where
  "good_page s v \<longleftrightarrow> page_aligned v \<and> sym_end s \<le> v \<and> V2P v < PHYSTOP"

definition free_inv :: "'a kmst_scheme \<Rightarrow> u32 list \<Rightarrow> bool" where
  "free_inv s xs \<longleftrightarrow> flist (mem s) (freelist s) xs \<and> distinct xs \<and> (\<forall>x\<in>set xs. good_page s x)"

lemma flist_unique: "flist m r xs \<Longrightarrow> flist m r ys \<Longrightarrow> xs = ys"
  by (induction xs arbitrary: r ys) (case_tac ys; auto)+

lemma flist_same_outside:
  "\<lbrakk>flist m r xs; same_outside v m m'; page_aligned v; v \<notin> set xs; \<forall>x\<in>set xs. page_aligned x\<rbrakk>
   \<Longrightarrow> flist m' r xs"
  by (induction xs arbitrary: r) (auto simp: load32_same_outside)

lemma mod_PGSIZE: "v mod PGSIZE = 0 \<longleftrightarrow> page_aligned v"
  by (simp add: page_aligned_def PGSIZE_def word_unat_eq_iff unat_mod)

lemma good_page_nonzero: "good_page s v \<Longrightarrow> v \<noteq> 0"
  by (auto simp: good_page_def V2P_def KERNBASE_def PHYSTOP_def)

lemma good_page_top: "good_page s v \<Longrightarrow> unat v + 4096 < 4294967296"
proof -
  assume good: "good_page s v"
  then have "kfree v s = Inr (the (Some (kfree_push v (s\<lparr>mem :=
      store32 (memset (mem s) v 1 PGSIZE) v (freelist s)\<rparr>))))"
    by (simp add: kfree_def kfree_link_def good_page_def mod_PGSIZE not_le not_less)
  then show ?thesis by (rule kfree_Inr_below)
qed

lemma fill_same_outside: "same_outside v m (fill m v c 4096)"
  by (simp add: same_outside_def fill_def)

lemma store32_same_outside: "same_outside v m m' \<Longrightarrow> same_outside v m (store32 m' v w)"
  by (simp add: same_outside_def store32_other in_span_def)

definition freed :: "u32 \<Rightarrow> 'a kmst_scheme \<Rightarrow> 'a kmst_scheme" where
  "freed v s = s\<lparr>mem := store32 (fill (mem s) v 1 4096) v (freelist s)\<rparr>"

lemma kfree_link_eq: "good_page s v \<Longrightarrow> kfree_link v s = Inr (freed v s)"
proof -
  assume "good_page s v"
  then have "kfree_link v s = Inr (s\<lparr>mem := store32 (memset (mem s) v 1 PGSIZE) v (freelist s)\<rparr>)"
    by (simp add: kfree_link_def good_page_def mod_PGSIZE not_le not_less)
  then show ?thesis
    by (simp add: memset_fill freed_def PGSIZE_def)
qed

lemma kfree_bad: "\<not> good_page s v \<Longrightarrow> kfree v s = Inl (Panic ''kfree'')"
  by (auto simp: kfree_def kfree_link_def good_page_def mod_PGSIZE not_le not_less)

lemma freed_mem: "same_outside v (mem s) (mem (freed v s))" "load32 (mem (freed v s)) v = freelist s"
  by (simp_all add: freed_def store32_same_outside fill_same_outside)

lemma good_page_cong [simp]:
  "good_page (s\<lparr>mem := m\<rparr>) = good_page s" "good_page (s\<lparr>freelist := r\<rparr>) = good_page s"
  "good_page (s\<lparr>hw := h\<rparr>) = good_page s"
  "good_page (freed v s) = good_page s"
  by (auto simp: good_page_def fun_eq_iff freed_def)

lemma free_inv_hw [simp]: "free_inv (s\<lparr>hw := h\<rparr>) = free_inv s"
  by (simp add: free_inv_def fun_eq_iff)

lemma flist_freed:
  assumes "free_inv s xs" "good_page s v" "v \<notin> set xs"
  shows "flist (mem (freed v s)) (freelist s) xs"
proof (rule flist_same_outside [OF _ freed_mem(1)])
  show "\<forall>x\<in>set xs. page_aligned x" "page_aligned v" "flist (mem s) (freelist s) xs"
    using assms by (auto simp: free_inv_def good_page_def)
qed (rule assms(3))

lemma kfree_inv:
  assumes "free_inv s xs" "good_page s v" "v \<notin> set xs"
  shows "\<exists>s'. kfree v s = Inr s' \<and> free_inv s' (v # xs) \<and> same_outside v (mem s) (mem s')
    \<and> s' = s\<lparr>mem := mem s', freelist := v\<rparr>"
proof -
  let ?s = "kfree_push v (freed v s)"
  have "kfree v s = Inr ?s"
    by (simp add: kfree_def kfree_link_eq assms(2))
  moreover have "free_inv ?s (v # xs)"
    using assms flist_freed [OF assms] good_page_nonzero [OF assms(2)] freed_mem(2) [of v s]
    by (simp add: free_inv_def kfree_push_def)
  ultimately show ?thesis
    using freed_mem(1) [of v s] by (simp add: kfree_push_def freed_def)
qed

definition lockable :: "'a kmst_scheme \<Rightarrow> bool" where
  "lockable s \<longleftrightarrow> (use_lock s \<longrightarrow> cpu_ok (hw s) \<and> free_lock (hw s) L_kmem)"

definition kmem_rest :: "'a kmst_scheme \<Rightarrow> hardware" where
  "kmem_rest s = (if use_lock s then rested (hw s) else hw s)"

lemma kalloc_eq:
  assumes "lockable s"
  shows "kalloc s = Inr (freelist s, s\<lparr>hw := kmem_rest s,
     freelist := (if freelist s = 0 then 0 else load32 (mem s) (freelist s))\<rparr>)"
proof (cases "use_lock s")
  case True
  with assms have ok: "cpu_ok (hw s)" "free_lock (hw s) L_kmem"
    by (simp_all add: lockable_def)
  show ?thesis
    using True ok by (auto simp: kalloc_def acquire_eq release_took [OF ok] kmem_rest_def Let_def)
qed (auto simp: kalloc_def kmem_rest_def Let_def)

lemma kalloc_empty:
  "free_inv s [] \<Longrightarrow> lockable s \<Longrightarrow> kalloc s = Inr (0, s\<lparr>hw := kmem_rest s\<rparr>)"
  by (simp add: kalloc_eq free_inv_def)

lemma kalloc_Cons:
  assumes "free_inv s (x # xs)" "lockable s"
  shows "\<exists>s'. kalloc s = Inr (x, s') \<and> free_inv s' xs \<and> mem s' = mem s
    \<and> s' = s\<lparr>hw := kmem_rest s, freelist := freelist s'\<rparr>"
  using assms by (auto simp: kalloc_eq free_inv_def)


section \<open>The allocator's contract\<close>

text \<open>
  What the users of the allocator (\<^verbatim>\<open>vm.c\<close>, \<^verbatim>\<open>proc.c\<close>, \<^verbatim>\<open>pipe.c\<close>) rely on: a page is either
  free or handed out, never both. \<open>free_pages\<close> is the abstract state.
\<close>

locale page_allocator =
  fixes alloc :: "'s \<Rightarrow> 'e + (u32 \<times> 's)"
    and free :: "u32 \<Rightarrow> 's \<Rightarrow> 'e + 's"
    and free_pages :: "'s \<Rightarrow> u32 list"
    and invar :: "'s \<Rightarrow> bool"
    and usable :: "'s \<Rightarrow> u32 \<Rightarrow> bool"
  assumes alloc_none: "\<lbrakk>invar s; free_pages s = []\<rbrakk>
      \<Longrightarrow> \<exists>s'. alloc s = Inr (0, s') \<and> invar s' \<and> free_pages s' = []"
    and alloc_some: "\<lbrakk>invar s; free_pages s = x # xs\<rbrakk>
      \<Longrightarrow> \<exists>s'. alloc s = Inr (x, s') \<and> invar s' \<and> free_pages s' = xs"
    and free_ok: "\<lbrakk>invar s; usable s x; x \<notin> set (free_pages s)\<rbrakk>
      \<Longrightarrow> \<exists>s'. free x s = Inr s' \<and> invar s' \<and> free_pages s' = x # free_pages s"
    and pages_ok: "invar s \<Longrightarrow> distinct (free_pages s) \<and> 0 \<notin> set (free_pages s)"
begin

fun alloc_many :: "nat \<Rightarrow> 's \<Rightarrow> 'e + (u32 list \<times> 's)" where
  "alloc_many 0 s = Inr ([], s)"
| "alloc_many (Suc n) s =
     bnd (alloc s) (\<lambda>(x, s). bnd (alloc_many n s) (\<lambda>(xs, s). Inr (x # xs, s)))"

lemma alloc_many_takes:
  "\<lbrakk>invar s; n \<le> length (free_pages s)\<rbrakk>
   \<Longrightarrow> \<exists>s'. alloc_many n s = Inr (take n (free_pages s), s') \<and> invar s'
        \<and> free_pages s' = drop n (free_pages s)"
proof (induction n arbitrary: s)
  case (Suc n)
  then obtain x xs where pages: "free_pages s = x # xs"
    by (cases "free_pages s") auto
  with alloc_some Suc.prems obtain s1
    where "alloc s = Inr (x, s1)" "invar s1" "free_pages s1 = xs" by blast
  with Suc.IH [of s1] Suc.prems pages show ?case by auto
qed simp

lemma alloc_many_distinct:
  assumes "invar s" "n \<le> length (free_pages s)" "alloc_many n s = Inr (xs, s')"
  shows "length xs = n \<and> distinct xs \<and> 0 \<notin> set xs \<and> set xs \<inter> set (free_pages s') = {}"
proof -
  have "set (take n (free_pages s)) \<inter> set (drop n (free_pages s)) = {}"
    using pages_ok [OF assms(1)] by (intro set_take_disj_set_drop_if_distinct) auto
  then show ?thesis
    using alloc_many_takes [OF assms(1,2)] assms(2,3) pages_ok [OF assms(1)]
    by (auto simp: min_def dest: in_set_takeD)
qed

lemma free_then_alloc:
  assumes "invar s" "usable s x" "x \<notin> set (free_pages s)"
  shows "\<exists>s'. bnd (free x s) alloc = Inr (x, s') \<and> free_pages s' = free_pages s \<and> invar s'"
  using free_ok [OF assms] alloc_some by fastforce

end

text \<open>The pages on the kernel's list, computed by following it through memory.\<close>

fun follow :: "nat \<Rightarrow> memory \<Rightarrow> u32 \<Rightarrow> u32 list" where
  "follow 0 m r = []"
| "follow (Suc n) m r = (if r = 0 then [] else r # follow n m (load32 m r))"

definition kfree_pages :: "'a kmst_scheme \<Rightarrow> u32 list" where
  "kfree_pages s = follow 1048577 (mem s) (freelist s)"

definition kmem_invar :: "'a kmst_scheme \<Rightarrow> bool" where
  "kmem_invar s \<longleftrightarrow> lockable s \<and> free_inv s (kfree_pages s)"

lemma follow_flist: "flist m r xs \<Longrightarrow> length xs < n \<Longrightarrow> follow n m r = xs"
  by (induction xs arbitrary: n r) (case_tac n; auto)+

text \<open>There are at most \<open>2^20\<close> pages in the address space, so the fuel is enough.\<close>

lemma free_inv_length: "free_inv s xs \<Longrightarrow> length xs \<le> 1048576"
proof -
  assume inv: "free_inv s xs"
  have "inj_on (\<lambda>x. unat x div 4096) (set xs)"
  proof (rule inj_onI)
    fix x y assume xy: "x \<in> set xs" "y \<in> set xs" "unat x div 4096 = unat y div 4096"
    then have "unat x mod 4096 = unat y mod 4096"
      using inv by (auto simp: free_inv_def good_page_def page_aligned_def)
    with xy(3) show "x = y"
      by (metis div_mult_mod_eq word_unat_eq_iff)
  qed
  moreover have "(\<lambda>x. unat x div 4096) ` set xs \<subseteq> {..<1048576}"
    using unat32_less by (auto simp: less_mult_imp_div_less)
  ultimately have "card (set xs) \<le> 1048576"
    by (metis card_inj_on_le card_lessThan finite_lessThan)
  then show ?thesis
    using inv by (simp add: free_inv_def distinct_card)
qed

lemma free_inv_kfree_pages: "free_inv s xs \<Longrightarrow> kfree_pages s = xs"
proof -
  assume inv: "free_inv s xs"
  then have "length xs < 1048577" using free_inv_length by fastforce
  with inv show ?thesis
    unfolding kfree_pages_def by (auto simp: free_inv_def intro: follow_flist)
qed

lemma kmem_invarI: "lockable s \<Longrightarrow> free_inv s xs \<Longrightarrow> kmem_invar s \<and> kfree_pages s = xs"
  using free_inv_kfree_pages by (auto simp: kmem_invar_def)

lemma lockable_kmem_rest:
  assumes "lockable s" "s' = s\<lparr>hw := kmem_rest s, freelist := r\<rparr>"
  shows "lockable s'"
  using assms by (simp add: lockable_def kmem_rest_def)

interpretation kmem: page_allocator kalloc kfree kfree_pages kmem_invar good_page
proof unfold_locales
  fix s :: "'a kmst_scheme"
  assume "kmem_invar s" "kfree_pages s = []"
  then have "free_inv s []" "lockable s" by (auto simp: kmem_invar_def)
  moreover from this have "lockable (s\<lparr>hw := kmem_rest s\<rparr>)"
    by (simp add: lockable_def kmem_rest_def)
  ultimately show "\<exists>s'. kalloc s = Inr (0, s') \<and> kmem_invar s' \<and> kfree_pages s' = []"
    using kmem_invarI [of "s\<lparr>hw := kmem_rest s\<rparr>" "[]"] by (simp add: kalloc_empty)
next
  fix s :: "'a kmst_scheme" and x xs
  assume "kmem_invar s" "kfree_pages s = x # xs"
  then have inv: "free_inv s (x # xs)" and lock: "lockable s" by (auto simp: kmem_invar_def)
  from kalloc_Cons [OF this] obtain s' where s': "kalloc s = Inr (x, s')" "free_inv s' xs"
    "s' = s\<lparr>hw := kmem_rest s, freelist := freelist s'\<rparr>" by blast
  with lockable_kmem_rest [OF lock s'(3)] show
    "\<exists>s'. kalloc s = Inr (x, s') \<and> kmem_invar s' \<and> kfree_pages s' = xs"
    using kmem_invarI by blast
next
  fix s :: "'a kmst_scheme" and x
  assume "kmem_invar s" "good_page s x" "x \<notin> set (kfree_pages s)"
  then have inv: "free_inv s (kfree_pages s)" and lock: "lockable s" by (auto simp: kmem_invar_def)
  from kfree_inv [OF inv \<open>good_page s x\<close> \<open>x \<notin> set (kfree_pages s)\<close>] obtain s'
    where s': "kfree x s = Inr s'" "free_inv s' (x # kfree_pages s)"
      "s' = s\<lparr>mem := mem s', freelist := x\<rparr>" by blast
  moreover have "lockable s'"
    using lock arg_cong [OF s'(3), of hw] arg_cong [OF s'(3), of use_lock]
    by (simp add: lockable_def)
  ultimately show "\<exists>s'. kfree x s = Inr s' \<and> kmem_invar s' \<and> kfree_pages s' = x # kfree_pages s"
    using kmem_invarI by blast
next
  fix s :: "'a kmst_scheme"
  assume "kmem_invar s"
  then show "distinct (kfree_pages s) \<and> 0 \<notin> set (kfree_pages s)"
    using good_page_nonzero by (auto simp: kmem_invar_def free_inv_def)
qed


section \<open>Freeing a range at boot\<close>

definition page_range :: "u32 \<Rightarrow> nat \<Rightarrow> u32 list" where
  "page_range p n = map (\<lambda>i. p + of_nat i * PGSIZE) [0..<n]"

lemma page_range_Suc: "page_range p (Suc n) = p # page_range (p + PGSIZE) n"
  by (simp add: page_range_def map_upt_Suc algebra_simps del: upt_Suc)

lemma freerange_loop_frees:
  assumes "free_inv s xs" "\<forall>q\<in>set (page_range p n). good_page s q \<and> q \<notin> set xs"
    and "distinct (page_range p n)"
    and "unat p + 4096 * n \<le> unat vend" "unat vend < unat p + 4096 * Suc n"
    and "unat p + 4096 * Suc n < 4294967296"
  shows "\<exists>s'. freerange_loop p vend s = Inr s' \<and> free_inv s' (rev (page_range p n) @ xs)
    \<and> s' = s\<lparr>mem := mem s', freelist := freelist s'\<rparr>"
  using assms
proof (induction n arbitrary: p s xs)
  case 0
  then have "vend < p + PGSIZE"
    by (simp add: word_less_nat_alt unat_add32 PGSIZE_def)
  then show ?case
    using "0.prems"(1) by (simp add: freerange_loop.simps page_range_def not_le [symmetric])
next
  case (Suc n)
  have next_page: "unat (p + PGSIZE) = unat p + 4096"
    using Suc.prems(6) by (simp add: unat_add32 PGSIZE_def)
  have head: "good_page s p" "p \<notin> set xs"
    using Suc.prems(2) by (auto simp: page_range_Suc)
  from kfree_inv [OF Suc.prems(1) this] obtain s1
    where s1: "kfree p s = Inr s1" "free_inv s1 (p # xs)" "s1 = s\<lparr>mem := mem s1, freelist := p\<rparr>"
    by blast
  have "good_page s1 = good_page s"
    using arg_cong [OF s1(3), of good_page] by simp
  then obtain s2 where s2: "freerange_loop (p + PGSIZE) vend s1 = Inr s2"
      "free_inv s2 (rev (page_range (p + PGSIZE) n) @ p # xs)"
      "s2 = s1\<lparr>mem := mem s2, freelist := freelist s2\<rparr>"
    using Suc.IH [of s1 "p # xs" "p + PGSIZE"] Suc.prems s1(2) next_page
    by (auto simp: page_range_Suc)
  moreover have "freerange_loop p vend s = freerange_loop (p + PGSIZE) vend s1"
    using Suc.prems(4) next_page s1(1)
    by (subst freerange_loop.simps) (simp add: word_le_nat_alt)
  moreover have "s2 = s\<lparr>mem := mem s2, freelist := freelist s2\<rparr>"
    by (subst s2(3), subst s1(3)) simp
  ultimately show ?case
    by (auto simp: page_range_Suc)
qed


lemma kfree_pages_hw: "kfree_pages (s\<lparr>hw := h\<rparr>) = kfree_pages s"
  by (simp add: kfree_pages_def)

text \<open>
  C26: \<^verbatim>\<open>freerange\<close> frees exactly the whole pages between the rounded-up start and the end, each
  once, so afterwards the free list holds them in front of what it held before.
\<close>

theorem freerange_frees_range:
  assumes "kmem_invar s" and "p = PGROUNDUP vstart"
    and "\<forall>q\<in>set (page_range p n). good_page s q \<and> q \<notin> set (kfree_pages s)"
    and "distinct (page_range p n)"
    and "unat p + 4096 * n \<le> unat vend" "unat vend < unat p + 4096 * Suc n"
    and "unat p + 4096 * Suc n < 4294967296"
  shows "\<exists>s'. freerange vstart vend s = Inr s' \<and> kmem_invar s'
    \<and> kfree_pages s' = rev (page_range p n) @ kfree_pages s"
proof -
  have inv: "free_inv s (kfree_pages s)" and lock: "lockable s"
    using assms(1) by (auto simp: kmem_invar_def)
  from freerange_loop_frees [OF inv assms(3-7)] obtain s' where
    s': "freerange_loop p vend s = Inr s'" "free_inv s' (rev (page_range p n) @ kfree_pages s)"
      "s' = s\<lparr>mem := mem s', freelist := freelist s'\<rparr>" by blast
  have "lockable s'"
    using lock arg_cong [OF s'(3), of hw] arg_cong [OF s'(3), of use_lock]
    by (simp add: lockable_def)
  with s' kmem_invarI assms(2) show ?thesis
    by (auto simp: freerange_def)
qed

definition small_kernel :: "u32 \<Rightarrow> kmst" where
  "small_kernel r = \<lparr>hw = two_cpus, mem = (\<lambda>_. 0), freelist = r, use_lock = True,
     sym_end = 0x80100000, sym_data = 0x80101000\<rparr>"

lemma small_kernel_lockable: "lockable (small_kernel r)"
  using lock_inv_cpu_ok [OF booted_inv [OF two_cpus_booted]]
  by (simp add: small_kernel_def lockable_def free_lock_def two_cpus_def)

lemma small_kernel_empty: "kmem_invar (small_kernel 0)" "kfree_pages (small_kernel 0) = []"
  using kmem_invarI [of "small_kernel 0" "[]"] small_kernel_lockable
  by (simp_all add: free_inv_def small_kernel_def)

lemma small_kernel_page: "good_page (small_kernel r) 0x80101000"
  by (simp add: good_page_def page_aligned_def small_kernel_def V2P_def KERNBASE_def PHYSTOP_def)

lemma one_page_kernel:
  "\<exists>s::kmst. kmem_invar s \<and> kfree_pages s = [0x80101000] \<and> good_page s = good_page (small_kernel 0)"
proof -
  have "free_inv (small_kernel 0) []" "lockable (small_kernel 0)"
    using small_kernel_empty by (auto simp: kmem_invar_def)
  with kfree_inv [OF _ small_kernel_page] obtain s where s: "free_inv s [0x80101000]"
    "s = (small_kernel 0)\<lparr>mem := mem s, freelist := 0x80101000\<rparr>" by fastforce
  note field = arg_cong [OF s(2)]
  have "lockable s"
    using small_kernel_lockable [of 0] field [of hw] field [of use_lock]
    by (simp add: lockable_def)
  moreover have "good_page s = good_page (small_kernel 0)"
    using field [of sym_end] by (simp add: good_page_def fun_eq_iff)
  ultimately show ?thesis using kmem_invarI [OF _ s(1)] by blast
qed

theorem freerange_frees_range_witness:
  "\<exists>s'. freerange 0x80100001 0x80103800 (small_kernel 0) = Inr s' \<and> kmem_invar s'
     \<and> kfree_pages s' = [0x80102000, 0x80101000]"
proof -
  have range: "page_range 0x80101000 2 = [0x80101000, 0x80102000]"
    by (simp add: page_range_def PGSIZE_def upt_rec)
  have "\<forall>q\<in>set (page_range 0x80101000 2). good_page (small_kernel 0) q
      \<and> q \<notin> set (kfree_pages (small_kernel 0))"
    by (simp add: range small_kernel_empty)
      (simp add: good_page_def page_aligned_def small_kernel_def V2P_def KERNBASE_def PHYSTOP_def)
  moreover have "PGROUNDUP 0x80100001 = 0x80101000"
    by (simp add: PGROUNDUP_def PGSIZE_def)
  ultimately show ?thesis
    using freerange_frees_range [of "small_kernel 0" "0x80101000" "0x80100001" 2 "0x80103800"]
    by (simp add: small_kernel_empty range)
qed

text \<open>
  C15: \<^verbatim>\<open>kalloc\<close> returns 0 exactly when no page is free; otherwise it returns the page at the
  head of the list, which is then no longer on it, and the rest of the list is untouched.
\<close>

theorem kalloc_takes_one:
  assumes "kmem_invar s" and "kalloc s = Inr (p, s')"
  shows "kmem_invar s' \<and> mem s' = mem s \<and> (p = 0 \<longleftrightarrow> kfree_pages s = [])
    \<and> (p \<noteq> 0 \<longrightarrow> good_page s p \<and> kfree_pages s = p # kfree_pages s' \<and> p \<notin> set (kfree_pages s'))"
proof (cases "kfree_pages s")
  case Nil
  with assms have "s' = s\<lparr>hw := kmem_rest s\<rparr>" "p = 0"
    by (auto simp: kmem_invar_def kalloc_empty)
  with kmem.alloc_none [OF assms(1) Nil] assms(2) Nil show ?thesis by auto
next
  case (Cons x xs)
  have inv: "free_inv s (x # xs)" and "lockable s"
    using assms(1) Cons by (auto simp: kmem_invar_def)
  with kalloc_Cons assms(2) have "mem s' = mem s" "p = x"
    by fastforce+
  with kmem.alloc_some [OF assms(1) Cons] kmem.pages_ok [OF assms(1)] assms(2) Cons inv
  show ?thesis by (auto simp: free_inv_def)
qed

theorem kalloc_takes_one_witness:
  "\<exists>(s::kmst) s'. kmem_invar s \<and> kalloc s = Inr (0x80101000, s') \<and> kfree_pages s' = []"
proof -
  obtain s :: kmst where s: "kmem_invar s" "kfree_pages s = [0x80101000]"
    using one_page_kernel by blast
  obtain s' where "kalloc s = Inr (0x80101000, s')"
    using kmem.alloc_some [OF s] by blast
  with kalloc_takes_one [OF s(1) this] s show ?thesis by auto
qed

text \<open>
  C16: \<^verbatim>\<open>kfree\<close> accepts exactly the page-aligned addresses between the end of the kernel and
  the top of physical memory, and panics on every other; freeing a page that is not free puts
  it at the head of the list and writes no byte outside the page.
\<close>

theorem kfree_guarded:
  "(if good_page s v then \<exists>s'. kfree v s = Inr s' \<and> same_outside v (mem s) (mem s')
      \<and> (kmem_invar s \<and> v \<notin> set (kfree_pages s) \<longrightarrow>
           kmem_invar s' \<and> kfree_pages s' = v # kfree_pages s)
    else kfree v s = Inl (Panic ''kfree''))"
proof (cases "good_page s v")
  case True
  then have "kfree v s = Inr (kfree_push v (freed v s))"
    by (simp add: kfree_def kfree_link_eq)
  with True kmem.free_ok [of s v] freed_mem(1) [of v s] show ?thesis
    by (auto simp: kfree_push_def)
qed (simp add: kfree_bad)

theorem kfree_guarded_witness:
  "\<exists>s'. kfree 0x80101000 (small_kernel 0) = Inr s' \<and> kfree_pages s' = [0x80101000]"
  using kfree_guarded [of "small_kernel 0" "0x80101000"] small_kernel_page small_kernel_empty
  by auto

text \<open>
  C35: \<^verbatim>\<open>kfree\<close> reads and writes the list head without the lock that \<^verbatim>\<open>kalloc\<close> takes. If another
  processor's \<^verbatim>\<open>kalloc\<close> runs between the two accesses, the page it was given is on the free
  list again, and the next two calls hand out the freed page and that same page a second time.
\<close>

theorem kfree_kalloc_race:
  assumes "free_inv s (x # xs)" "lockable s" "good_page s v" "v \<notin> set (x # xs)"
    and "kfree_link v s = Inr s1" and "kalloc s1 = Inr (p, s2)"
  shows "p = x \<and> free_inv (kfree_push v s2) (v # x # xs)
    \<and> (\<exists>s4 s5. kalloc (kfree_push v s2) = Inr (v, s4) \<and> kalloc s4 = Inr (x, s5))"
proof -
  have s1: "s1 = freed v s"
    using assms(3,5) by (simp add: kfree_link_eq)
  have fl: "flist (mem s1) x (x # xs)" "load32 (mem s1) v = x"
    using flist_freed [OF assms(1,3,4)] assms(1) freed_mem(2) [of v s]
    by (auto simp: s1 free_inv_def)
  have lock1: "lockable s1"
    using assms(2) by (simp add: s1 freed_def lockable_def)
  have "freelist s1 = x"
    using assms(1) by (simp add: s1 freed_def free_inv_def)
  with lock1 assms(6) have p: "p = x"
    and s2: "s2 = s1\<lparr>hw := kmem_rest s1, freelist := freelist s2\<rparr>"
    by (auto simp: kalloc_eq)
  let ?s3 = "kfree_push v s2"
  have s3: "?s3 = s1\<lparr>hw := kmem_rest s1, freelist := v\<rparr>"
    by (subst s2) (simp add: kfree_push_def)
  have lock3: "lockable ?s3"
    using lockable_kmem_rest [OF lock1 s3] .
  have inv3: "free_inv ?s3 (v # x # xs)"
    using assms(1,3,4) fl good_page_nonzero [OF assms(3)]
    by (auto simp: s3 free_inv_def) (auto simp: s1)
  then obtain s4 where s4: "kalloc ?s3 = Inr (v, s4)" "free_inv s4 (x # xs)"
    "s4 = ?s3\<lparr>hw := kmem_rest ?s3, freelist := freelist s4\<rparr>"
    using kalloc_Cons [OF _ lock3] by blast
  then obtain s5 where "kalloc s4 = Inr (x, s5)"
    using kalloc_Cons lockable_kmem_rest [OF lock3 s4(3)] by blast
  with p inv3 s4(1) show ?thesis by blast
qed

theorem kfree_kalloc_race_witness:
  "\<exists>(s::kmst) s1 s2 s4 s5. kfree_link 0x80102000 s = Inr s1 \<and> kalloc s1 = Inr (0x80101000, s2)
     \<and> kalloc (kfree_push 0x80102000 s2) = Inr (0x80102000, s4) \<and> kalloc s4 = Inr (0x80101000, s5)"
proof -
  obtain s :: kmst where s: "kmem_invar s" "kfree_pages s = [0x80101000]"
    "good_page s = good_page (small_kernel 0)"
    using one_page_kernel by blast
  have good: "good_page s 0x80102000"
    by (simp add: s(3) good_page_def page_aligned_def small_kernel_def V2P_def KERNBASE_def
        PHYSTOP_def)
  have inv: "free_inv s [0x80101000]" "lockable s"
    using s by (auto simp: kmem_invar_def)
  have link: "kfree_link 0x80102000 s = Inr (freed 0x80102000 s)"
    using good by (rule kfree_link_eq)
  have "lockable (freed 0x80102000 s)"
    using inv(2) by (simp add: freed_def lockable_def)
  then obtain p s2 where al: "kalloc (freed 0x80102000 s) = Inr (p, s2)"
    by (auto simp: kalloc_eq)
  show ?thesis
    using kfree_kalloc_race [OF inv good _ link al] link al by simp blast
qed

end
