(* ===== verification/Vm.thy ===== *)
theory Vm
  imports Kalloc
begin

text \<open>
  Page tables and user memory (\<^verbatim>\<open>vm.c\<close>). Directories and tables are pages of the kernel's
  byte memory, read and written a word at a time, as the C code does through its pointers.
  An address 0 returned by \<open>walkpgdir\<close>, \<open>setupkvm\<close>, \<open>copyuvm\<close> or \<open>uva2ka\<close> is the null pointer.
  \<^verbatim>\<open>switchuvm\<close> needs the process structure and is in the theory of the process table; \<^verbatim>\<open>loaduvm\<close>
  reads an inode and belongs to the loader.
\<close>

record vmst = kmst +
  kpgdir :: u32

definition rd32 :: "u32 \<Rightarrow> 'a kmst_scheme \<Rightarrow> u32" where
  "rd32 a s = load32 (mem s) a"

definition wr32 :: "u32 \<Rightarrow> u32 \<Rightarrow> 'a kmst_scheme \<Rightarrow> 'a kmst_scheme" where
  "wr32 a v s = s\<lparr>mem := store32 (mem s) a v\<rparr>"

definition seginit :: "'a kst_scheme \<Rightarrow> 'a kst_scheme stop + 'a kst_scheme" where
  "seginit s = bnd (cpuid s) (\<lambda>c. Inr (upd_cpu c (\<lambda>p. p\<lparr>gdt := (gdt p)(
     SEG_KCODE := SEG (STA_X OR STA_R) 0 0xffffffff 0,
     SEG_KDATA := SEG STA_W 0 0xffffffff 0,
     SEG_UCODE := SEG (STA_X OR STA_R) 0 0xffffffff DPL_USER,
     SEG_UDATA := SEG STA_W 0 0xffffffff DPL_USER)\<rparr>) s))"

definition walkpgdir ::
  "u32 \<Rightarrow> u32 \<Rightarrow> bool \<Rightarrow> 'a kmst_scheme \<Rightarrow> 'a kmst_scheme stop + (u32 \<times> 'a kmst_scheme)" where
  "walkpgdir pgdir va alloc s =
     (let pde = pgdir + 4 * PDX va in
      if rd32 pde s AND PTE_P \<noteq> 0
      then let pgtab = P2V (PTE_ADDR (rd32 pde s)) in Inr (pgtab + 4 * PTX va, s)
      else if \<not> alloc then Inr (0, s)
      else bnd (kalloc s) (\<lambda>(pgtab, s).
        if pgtab = 0 then Inr (0, s)
        else let s = s\<lparr>mem := memset (mem s) pgtab 0 PGSIZE\<rparr>;
                 s = wr32 pde (V2P pgtab OR PTE_P OR PTE_W OR PTE_U) s
             in Inr (pgtab + 4 * PTX va, s)))"

lemma page_step_less:
  assumes "a \<noteq> lst" "page_aligned (lst - a)"
  shows "unat (lst - (a + PGSIZE)) + 4096 = unat (lst - a)"
proof -
  have "lst - a \<noteq> 0" using assms(1) by simp
  then have "0 < unat (lst - a)" by (simp add: unat_gt_0)
  with assms(2) have "4096 \<le> unat (lst - a)"
    by (auto simp: page_aligned_def elim!: dvdE)
  then have "unat (lst - a - 4096) = unat (lst - a) - 4096"
    by (simp add: unat_sub word_le_nat_alt)
  with \<open>4096 \<le> unat (lst - a)\<close> show ?thesis
    by (simp add: PGSIZE_def diff_diff_eq)
qed

text \<open>
  The loop of \<^verbatim>\<open>mappages\<close> stops when \<open>a\<close> has reached \<open>lst\<close>. Both are multiples of the page
  size, so the second disjunct of the exit test never holds; it makes the recursion total.
\<close>

function mappages_loop ::
  "u32 \<Rightarrow> u32 \<Rightarrow> u32 \<Rightarrow> u32 \<Rightarrow> u32 \<Rightarrow> 'a kmst_scheme \<Rightarrow> 'a kmst_scheme stop + (int \<times> 'a kmst_scheme)"
where
  "mappages_loop pgdir a lst pa perm s =
     bnd (walkpgdir pgdir a True s) (\<lambda>(pte, s).
       if pte = 0 then Inr (- 1, s)
       else if rd32 pte s AND PTE_P \<noteq> 0 then Inl (Panic ''remap'')
       else let s = wr32 pte (pa OR perm OR PTE_P) s in
            if a = lst \<or> \<not> page_aligned (lst - a) then Inr (0, s)
            else mappages_loop pgdir (a + PGSIZE) lst (pa + PGSIZE) perm s)"
  by pat_completeness auto

termination
  by (relation "measure (\<lambda>(pgdir, a, lst, pa, perm, s). unat (lst - a))")
    (use page_step_less in \<open>fastforce+\<close>)

declare mappages_loop.simps [simp del]

definition mappages ::
  "u32 \<Rightarrow> u32 \<Rightarrow> u32 \<Rightarrow> u32 \<Rightarrow> u32 \<Rightarrow> 'a kmst_scheme \<Rightarrow> 'a kmst_scheme stop + (int \<times> 'a kmst_scheme)"
where
  "mappages pgdir va sz pa perm s =
     (let a = PGROUNDDOWN va; lst = PGROUNDDOWN (va + sz - 1)
      in mappages_loop pgdir a lst pa perm s)"

text \<open>
  One round of the loop of \<^verbatim>\<open>deallocuvm\<close> returns the next address. Every caller passes an
  upper bound of at most \<^verbatim>\<open>KERNBASE\<close>; with a bound in the last four megabytes the address would
  wrap to 0 and the loop would start over for ever, which is \<open>Spin\<close>.
\<close>

definition deallocuvm_body ::
  "u32 \<Rightarrow> u32 \<Rightarrow> 'a kmst_scheme \<Rightarrow> 'a kmst_scheme stop + (u32 \<times> 'a kmst_scheme)" where
  "deallocuvm_body pgdir a s =
     bnd (walkpgdir pgdir a False s) (\<lambda>(pte, s).
       if pte = 0 then let a = PGADDR (PDX a + 1) 0 0 - PGSIZE in Inr (a + PGSIZE, s)
       else if rd32 pte s AND PTE_P \<noteq> 0
       then let pa = PTE_ADDR (rd32 pte s) in
            if pa = 0 then Inl (Panic ''kfree'')
            else bnd (kfree (P2V pa) s) (\<lambda>s. Inr (a + PGSIZE, wr32 pte 0 s))
       else Inr (a + PGSIZE, s))"

function deallocuvm_loop ::
  "u32 \<Rightarrow> u32 \<Rightarrow> u32 \<Rightarrow> 'a kmst_scheme \<Rightarrow> 'a kmst_scheme stop + 'a kmst_scheme" where
  "deallocuvm_loop pgdir a oldsz s =
     (if a < oldsz
      then bnd (deallocuvm_body pgdir a s) (\<lambda>(a', s).
             if a' \<le> a then Inl (Spin s) else deallocuvm_loop pgdir a' oldsz s)
      else Inr s)"
  by pat_completeness auto
termination
  by (relation "measure (\<lambda>(pgdir, a, oldsz, s). unat oldsz - unat a)")
    (auto simp: word_less_nat_alt word_le_nat_alt not_le)

declare deallocuvm_loop.simps [simp del]

definition deallocuvm ::
  "u32 \<Rightarrow> u32 \<Rightarrow> u32 \<Rightarrow> 'a kmst_scheme \<Rightarrow> 'a kmst_scheme stop + (u32 \<times> 'a kmst_scheme)" where
  "deallocuvm pgdir oldsz newsz s =
     (if newsz \<ge> oldsz then Inr (oldsz, s)
      else bnd (deallocuvm_loop pgdir (PGROUNDUP newsz) oldsz s) (\<lambda>s. Inr (newsz, s)))"

fun freevm_loop :: "nat \<Rightarrow> u32 \<Rightarrow> u32 \<Rightarrow> 'a kmst_scheme \<Rightarrow> 'a kmst_scheme stop + 'a kmst_scheme" where
  "freevm_loop 0 pgdir i s = Inr s"
| "freevm_loop (Suc n) pgdir i s =
     (let pde = rd32 (pgdir + 4 * i) s in
      if pde AND PTE_P \<noteq> 0
      then bnd (kfree (P2V (PTE_ADDR pde)) s) (\<lambda>s. freevm_loop n pgdir (i + 1) s)
      else freevm_loop n pgdir (i + 1) s)"

definition freevm :: "u32 \<Rightarrow> 'a kmst_scheme \<Rightarrow> 'a kmst_scheme stop + 'a kmst_scheme" where
  "freevm pgdir s =
     (if pgdir = 0 then Inl (Panic ''freevm: no pgdir'')
      else bnd (deallocuvm pgdir KERNBASE 0 s) (\<lambda>(_, s).
           bnd (freevm_loop NPDENTRIES pgdir 0 s) (\<lambda>s. kfree pgdir s)))"

record kmap_entry =
  virt :: u32
  phys_start :: u32
  phys_end :: u32
  kperm :: u32

definition kmap :: "'a kmst_scheme \<Rightarrow> kmap_entry list" where
  "kmap s =
     [\<lparr>virt = KERNBASE, phys_start = 0, phys_end = EXTMEM, kperm = PTE_W\<rparr>,
      \<lparr>virt = KERNLINK, phys_start = V2P KERNLINK, phys_end = V2P (sym_data s), kperm = 0\<rparr>,
      \<lparr>virt = sym_data s, phys_start = V2P (sym_data s), phys_end = PHYSTOP, kperm = PTE_W\<rparr>,
      \<lparr>virt = DEVSPACE, phys_start = DEVSPACE, phys_end = 0, kperm = PTE_W\<rparr>]"

fun setupkvm_loop ::
  "kmap_entry list \<Rightarrow> u32 \<Rightarrow> 'a kmst_scheme \<Rightarrow> 'a kmst_scheme stop + (u32 \<times> 'a kmst_scheme)" where
  "setupkvm_loop [] pgdir s = Inr (pgdir, s)"
| "setupkvm_loop (k # ks) pgdir s =
     bnd (mappages pgdir (virt k) (phys_end k - phys_start k) (phys_start k) (kperm k) s)
       (\<lambda>(r, s). if r < 0 then bnd (freevm pgdir s) (\<lambda>s. Inr (0, s))
                 else setupkvm_loop ks pgdir s)"

definition setupkvm :: "'a kmst_scheme \<Rightarrow> 'a kmst_scheme stop + (u32 \<times> 'a kmst_scheme)" where
  "setupkvm s =
     bnd (kalloc s) (\<lambda>(pgdir, s).
       if pgdir = 0 then Inr (0, s)
       else let s = s\<lparr>mem := memset (mem s) pgdir 0 PGSIZE\<rparr> in
            if P2V PHYSTOP > DEVSPACE then Inl (Panic ''PHYSTOP too high'')
            else setupkvm_loop (kmap s) pgdir s)"

definition lcr3 :: "u32 \<Rightarrow> 'a kst_scheme \<Rightarrow> 'a kst_scheme" where
  "lcr3 v s = s\<lparr>hw := (hw s)\<lparr>cr3 := (cr3 (hw s))(lapicid (hw s) := v)\<rparr>\<rparr>"

definition switchkvm :: "'a vmst_scheme \<Rightarrow> 'a vmst_scheme" where
  "switchkvm s = lcr3 (V2P (kpgdir s)) s"

definition kvmalloc :: "'a vmst_scheme \<Rightarrow> 'a vmst_scheme stop + 'a vmst_scheme" where
  "kvmalloc s = bnd (setupkvm s) (\<lambda>(d, s). Inr (switchkvm (s\<lparr>kpgdir := d\<rparr>)))"

definition inituvm ::
  "u32 \<Rightarrow> u32 \<Rightarrow> u32 \<Rightarrow> 'a kmst_scheme \<Rightarrow> 'a kmst_scheme stop + 'a kmst_scheme" where
  "inituvm pgdir init sz s =
     (if sz \<ge> PGSIZE then Inl (Panic ''inituvm: more than a page'')
      else bnd (kalloc s) (\<lambda>(p, s).
        let s = s\<lparr>mem := memset (mem s) p 0 PGSIZE\<rparr> in
        bnd (mappages pgdir 0 PGSIZE (V2P p) (PTE_W OR PTE_U) s) (\<lambda>(_, s).
        Inr (s\<lparr>mem := memmove (mem s) p init sz\<rparr>))))"

function allocuvm_loop ::
  "u32 \<Rightarrow> u32 \<Rightarrow> u32 \<Rightarrow> u32 \<Rightarrow> 'a kmst_scheme \<Rightarrow> 'a kmst_scheme stop + (u32 \<times> 'a kmst_scheme)" where
  "allocuvm_loop pgdir oldsz newsz a s =
     (if a < newsz
      then bnd (kalloc s) (\<lambda>(p, s).
        if p = 0 then bnd (deallocuvm pgdir newsz oldsz s) (\<lambda>(_, s). Inr (0, s))
        else let s = s\<lparr>mem := memset (mem s) p 0 PGSIZE\<rparr> in
             bnd (mappages pgdir a PGSIZE (V2P p) (PTE_W OR PTE_U) s) (\<lambda>(r, s).
               if r < 0
               then bnd (deallocuvm pgdir newsz oldsz s) (\<lambda>(_, s).
                    bnd (kfree p s) (\<lambda>s. Inr (0, s)))
               else if a + PGSIZE \<le> a then Inl (Spin s)
               else allocuvm_loop pgdir oldsz newsz (a + PGSIZE) s))
      else Inr (newsz, s))"
  by pat_completeness auto
termination
  by (relation "measure (\<lambda>(pgdir, oldsz, newsz, a, s). unat newsz - unat a)")
    (auto simp: word_less_nat_alt word_le_nat_alt not_le)

declare allocuvm_loop.simps [simp del]

definition allocuvm ::
  "u32 \<Rightarrow> u32 \<Rightarrow> u32 \<Rightarrow> 'a kmst_scheme \<Rightarrow> 'a kmst_scheme stop + (u32 \<times> 'a kmst_scheme)" where
  "allocuvm pgdir oldsz newsz s =
     (if newsz \<ge> KERNBASE then Inr (0, s)
      else if newsz < oldsz then Inr (oldsz, s)
      else allocuvm_loop pgdir oldsz newsz (PGROUNDUP oldsz) s)"

definition clearpteu ::
  "u32 \<Rightarrow> u32 \<Rightarrow> 'a kmst_scheme \<Rightarrow> 'a kmst_scheme stop + 'a kmst_scheme" where
  "clearpteu pgdir uva s =
     bnd (walkpgdir pgdir uva False s) (\<lambda>(pte, s).
       if pte = 0 then Inl (Panic ''clearpteu'')
       else Inr (wr32 pte (rd32 pte s AND NOT PTE_U) s))"

function copyuvm_loop ::
  "u32 \<Rightarrow> u32 \<Rightarrow> u32 \<Rightarrow> u32 \<Rightarrow> 'a kmst_scheme \<Rightarrow> 'a kmst_scheme stop + (u32 \<times> 'a kmst_scheme)" where
  "copyuvm_loop pgdir d sz i s =
     (if i < sz
      then bnd (walkpgdir pgdir i False s) (\<lambda>(pte, s).
        if pte = 0 then Inl (Panic ''copyuvm: pte should exist'')
        else if rd32 pte s AND PTE_P = 0 then Inl (Panic ''copyuvm: page not present'')
        else let pa = PTE_ADDR (rd32 pte s); flags = PTE_FLAGS (rd32 pte s) in
          bnd (kalloc s) (\<lambda>(p, s).
            if p = 0 then bnd (freevm d s) (\<lambda>s. Inr (0, s))
            else let s = s\<lparr>mem := memmove (mem s) p (P2V pa) PGSIZE\<rparr> in
                 bnd (mappages d i PGSIZE (V2P p) flags s) (\<lambda>(r, s).
                   if r < 0 then bnd (freevm d s) (\<lambda>s. Inr (0, s))
                   else if i + PGSIZE \<le> i then Inl (Spin s)
                   else copyuvm_loop pgdir d sz (i + PGSIZE) s)))
      else Inr (d, s))"
  by pat_completeness auto
termination
  by (relation "measure (\<lambda>(pgdir, d, sz, i, s). unat sz - unat i)")
    (auto simp: word_less_nat_alt word_le_nat_alt not_le)

declare copyuvm_loop.simps [simp del]

definition copyuvm ::
  "u32 \<Rightarrow> u32 \<Rightarrow> 'a kmst_scheme \<Rightarrow> 'a kmst_scheme stop + (u32 \<times> 'a kmst_scheme)" where
  "copyuvm pgdir sz s =
     bnd (setupkvm s) (\<lambda>(d, s). if d = 0 then Inr (0, s) else copyuvm_loop pgdir d sz 0 s)"

text \<open>\<^verbatim>\<open>uva2ka\<close> reads through the pointer \<^verbatim>\<open>walkpgdir\<close> returned without testing it.\<close>

definition uva2ka ::
  "u32 \<Rightarrow> u32 \<Rightarrow> 'a kmst_scheme \<Rightarrow> 'a kmst_scheme stop + (u32 \<times> 'a kmst_scheme)" where
  "uva2ka pgdir uva s =
     bnd (walkpgdir pgdir uva False s) (\<lambda>(pte, s).
       if pte = 0 then Inl (Fault ''uva2ka'')
       else if rd32 pte s AND PTE_P = 0 then Inr (0, s)
       else if rd32 pte s AND PTE_U = 0 then Inr (0, s)
       else Inr (P2V (PTE_ADDR (rd32 pte s)), s))"

lemma page_offset: "unat (va - PGROUNDDOWN va) = unat va mod 4096"
proof -
  have "unat (PGROUNDDOWN va) \<le> unat va"
    by (simp add: unat_PGROUNDDOWN div_times_less_eq_dividend)
  then have "unat (va - PGROUNDDOWN va) = unat va - unat (PGROUNDDOWN va)"
    by (simp add: unat_sub word_le_nat_alt)
  then show ?thesis
    by (simp add: unat_PGROUNDDOWN minus_div_mult_eq_mod)
qed

text \<open>
  \<^verbatim>\<open>copyout\<close> gets the bytes at its source pointer; one round of the loop moves the part of them that
  fits on the page of \<open>va\<close>.
\<close>

function copyout ::
  "u32 \<Rightarrow> u32 \<Rightarrow> u8 list \<Rightarrow> 'a kmst_scheme \<Rightarrow> 'a kmst_scheme stop + (int \<times> 'a kmst_scheme)" where
  "copyout pgdir va buf s =
     (if buf \<noteq> []
      then let va0 = PGROUNDDOWN va in
           bnd (uva2ka pgdir va0 s) (\<lambda>(pa0, s).
             if pa0 = 0 then Inr (- 1, s)
             else let n = min (4096 - unat (va - va0)) (length buf);
                      s = s\<lparr>mem := put_bytes (mem s) (pa0 + (va - va0)) (take n buf)\<rparr>
                  in copyout pgdir (va0 + PGSIZE) (drop n buf) s)
      else Inr (0, s))"
  by pat_completeness auto
termination
proof (relation "measure (\<lambda>(pgdir, va, buf, s). length buf)", goal_cases)
  case (2 pgdir va buf s va0 x pa0 s' n s'')
  then have "0 < n" using page_offset [of va] by simp
  with 2 show ?case by simp
qed simp

declare copyout.simps [simp del]

end
