(* ===== verification/Vm_Space.thy ===== *)
theory Vm_Space
  imports Vm
begin

text \<open>
  What a page directory means, and that the operations of \<^verbatim>\<open>vm.c\<close> maintain it. The abstract
  view is \<open>entry\<close>, the page table entry of every virtual address (0 where there is no table),
  and \<open>slot_page\<close>, which names every page an address space owns: its directory, its tables
  and its user pages. An address space is well formed when these are all different pages,
  inside the allocator's range and not on the free list.
\<close>

section \<open>Words inside pages\<close>

lemma page_aligned_add: "page_aligned a \<Longrightarrow> page_aligned b \<Longrightarrow> page_aligned (a + b)"
  by (simp add: page_aligned_def unat_word_ariths mod_mod_cancel mod_eq_0_iff_dvd)

lemma page_aligned_P2V [simp]: "page_aligned (P2V (PTE_ADDR e))"
  unfolding P2V_def PTE_ADDR_PGROUNDDOWN
  by (rule page_aligned_add) (simp_all add: page_aligned_def KERNBASE_def unat_PGROUNDDOWN)

lemma unat_slot: "unat i < 1024 \<Longrightarrow> k < 4 \<Longrightarrow> unat (4 * i + of_nat k :: u32) = 4 * unat i + k"
  by (simp add: unat_word_ariths unat_of_nat32)

lemma slot_in_page:
  assumes "page_aligned t" "unat i < 1024" "k < 4"
  shows "PGROUNDDOWN (t + 4 * i + of_nat k) = t"
proof -
  have "in_span (t + (4 * i + of_nat k)) t 4096"
    using assms(2,3) by (simp add: in_span_def unat_slot)
  then show ?thesis
    using in_page_iff [OF assms(1)] by (simp add: add.assoc)
qed

lemma slot_nonzero:
  assumes "page_aligned t" "t \<noteq> 0" "unat i < 1024"
  shows "t + 4 * i \<noteq> 0"
  using slot_in_page [OF assms(1,3), of 0] assms(2)
  by (auto simp: PGROUNDDOWN_def)

lemma load32_agree:
  assumes "page_aligned t" "unat i < 1024" "\<And>a. PGROUNDDOWN a = t \<Longrightarrow> m' a = m a"
  shows "load32 m' (t + 4 * i) = load32 m (t + 4 * i)"
  by (rule load32_cong) (simp add: assms slot_in_page)

lemma in_slot:
  assumes "in_span a (t + 4 * i) 4"
  obtains k where "k < 4" "a = t + 4 * i + of_nat k"
proof
  show "unat (a - (t + 4 * i)) < 4" using assms by (simp add: in_span_def)
qed simp

lemma store32_slot_other:
  assumes "page_aligned t" "unat i < 1024" "PGROUNDDOWN a \<noteq> t"
  shows "store32 m (t + 4 * i) v a = m a"
  by (rule store32_other) (use assms slot_in_page in \<open>auto elim!: in_slot\<close>)

lemma load32_store32_slot:
  assumes "page_aligned t" "page_aligned u" "unat i < 1024" "unat j < 1024"
  shows "load32 (store32 m (t + 4 * i) v) (u + 4 * j)
    = (if t = u \<and> i = j then v else load32 m (u + 4 * j))"
proof (cases "t = u")
  case True
  show ?thesis
  proof (cases "i = j")
    case False
    have "\<not> in_span (t + 4 * j + of_nat k) (t + 4 * i) 4" if "k < 4" for k
    proof
      assume "in_span (t + 4 * j + of_nat k) (t + 4 * i) 4"
      then obtain l where "l < 4" "t + 4 * j + of_nat k = t + 4 * i + of_nat l"
        by (rule in_slot)
      then have "unat (4 * j + of_nat k) = unat (4 * i + of_nat l)"
        by (simp add: add.assoc)
      with assms(3,4) \<open>k < 4\<close> \<open>l < 4\<close> have "4 * unat j + k = 4 * unat i + l"
        by (simp only: unat_slot)
      with \<open>k < 4\<close> \<open>l < 4\<close> have "unat i = unat j" by linarith
      with False show False by (simp add: word_unat_eq_iff)
    qed
    then have "load32 (store32 m (t + 4 * i) v) (t + 4 * j) = load32 m (t + 4 * j)"
      by (intro load32_cong store32_other)
    then show ?thesis using True False by simp
  qed (use True in simp)
next
  case False
  then show ?thesis
    using load32_agree [OF assms(2,4), of "store32 m (t + 4 * i) v" m]
      store32_slot_other [OF assms(1,3)] by simp
qed

lemma load32_zero: "(\<And>k. k < 4 \<Longrightarrow> m (a + of_nat k) = 0) \<Longrightarrow> load32 m a = 0"
proof -
  assume "\<And>k. k < 4 \<Longrightarrow> m (a + of_nat k) = 0"
  then have "load32 m a = load32 (\<lambda>_. 0) a" by (intro load32_cong) simp
  then show ?thesis by (simp add: load32_def)
qed

lemma fill_page: "page_aligned t \<Longrightarrow> fill m t c 4096 a = (if PGROUNDDOWN a = t then c else m a)"
  by (simp add: fill_def in_page_iff)

lemma load32_fill_0:
  "page_aligned t \<Longrightarrow> unat i < 1024 \<Longrightarrow> load32 (fill m t 0 4096) (t + 4 * i) = 0"
  by (intro load32_zero) (simp add: fill_page slot_in_page)

lemma same_page_iff: "PGROUNDDOWN a = PGROUNDDOWN b \<longleftrightarrow> PDX a = PDX b \<and> PTX a = PTX b"
proof -
  have split: "x div 4096 = x div 4194304 * 1024 + x div 4096 mod 1024" for x :: nat
  proof -
    have "x div 4194304 = x div 4096 div 1024" by (simp add: div_mult2_eq [symmetric])
    then show ?thesis using div_mult_mod_eq [of "x div 4096" 1024] by simp
  qed
  have "PGROUNDDOWN a = PGROUNDDOWN b \<longleftrightarrow> unat a div 4096 = unat b div 4096"
    by (simp add: word_unat_eq_iff unat_PGROUNDDOWN)
  also have "\<dots> \<longleftrightarrow> unat a div 4194304 = unat b div 4194304
      \<and> unat a div 4096 mod 1024 = unat b div 4096 mod 1024"
  proof
    assume same: "unat a div 4096 = unat b div 4096"
    have "x div 4194304 = x div 4096 div 1024" for x :: nat
      by (simp add: div_mult2_eq [symmetric])
    with same show "unat a div 4194304 = unat b div 4194304
      \<and> unat a div 4096 mod 1024 = unat b div 4096 mod 1024" by simp
  next
    assume "unat a div 4194304 = unat b div 4194304
      \<and> unat a div 4096 mod 1024 = unat b div 4096 mod 1024"
    then show "unat a div 4096 = unat b div 4096"
      using split [of "unat a"] split [of "unat b"] by simp
  qed
  finally show ?thesis
    by (simp add: word_unat_eq_iff unat_PDX unat_PTX)
qed

section \<open>Entries and owned pages\<close>

abbreviation present :: "u32 \<Rightarrow> bool" where
  "present e \<equiv> e AND PTE_P \<noteq> 0"

definition table :: "memory \<Rightarrow> u32 \<Rightarrow> u32 \<Rightarrow> u32 option" where
  "table m pgdir i = (let e = load32 m (pgdir + 4 * i) in
     if present e then Some (P2V (PTE_ADDR e)) else None)"

definition entry :: "memory \<Rightarrow> u32 \<Rightarrow> u32 \<Rightarrow> u32" where
  "entry m pgdir va =
     (case table m pgdir (PDX va) of None \<Rightarrow> 0 | Some t \<Rightarrow> load32 m (t + 4 * PTX va))"

lemma entry_PGROUNDDOWN [simp]: "entry m pgdir (PGROUNDDOWN va) = entry m pgdir va"
proof -
  have "PDX (PGROUNDDOWN va) = PDX va" "PTX (PGROUNDDOWN va) = PTX va"
    using same_page_iff [of "PGROUNDDOWN va" va] PGROUNDDOWN_aligned [of "PGROUNDDOWN va"]
    by simp_all
  then show ?thesis by (simp only: entry_def)
qed

datatype slot = Dir | Tab u32 | Leaf u32

fun slot_page :: "memory \<Rightarrow> u32 \<Rightarrow> slot \<Rightarrow> u32 option" where
  "slot_page m pgdir Dir = Some pgdir"
| "slot_page m pgdir (Tab i) = (if unat i < 1024 then table m pgdir i else None)"
| "slot_page m pgdir (Leaf va) =
     (if va < KERNBASE \<and> page_aligned va \<and> present (entry m pgdir va)
      then Some (P2V (PTE_ADDR (entry m pgdir va))) else None)"

definition owned :: "memory \<Rightarrow> u32 \<Rightarrow> u32 set" where
  "owned m pgdir = ran (slot_page m pgdir)"

definition space_ok :: "'a kmst_scheme \<Rightarrow> u32 \<Rightarrow> bool" where
  "space_ok s pgdir \<longleftrightarrow> kmem_invar s \<and> KERNBASE < sym_end s
     \<and> inj_on (slot_page (mem s) pgdir) (dom (slot_page (mem s) pgdir))
     \<and> (\<forall>p\<in>owned (mem s) pgdir. good_page s p \<and> p \<notin> set (kfree_pages s))"

lemma owned_slot: "slot_page m pgdir x = Some p \<Longrightarrow> p \<in> owned m pgdir"
  by (auto simp: owned_def ran_def)

lemma owned_dir: "pgdir \<in> owned m pgdir"
  by (rule owned_slot [of _ _ Dir]) simp

lemma owned_table: "unat i < 1024 \<Longrightarrow> table m pgdir i = Some t \<Longrightarrow> t \<in> owned m pgdir"
  by (rule owned_slot [of _ _ "Tab i"]) simp

lemma space_ok_inj:
  "space_ok s pgdir \<Longrightarrow> slot_page (mem s) pgdir x = Some p \<Longrightarrow> slot_page (mem s) pgdir y = Some p
   \<Longrightarrow> x = y"
  unfolding space_ok_def by (metis domI inj_onD)

lemma space_ok_aligned: "space_ok s pgdir \<Longrightarrow> p \<in> owned (mem s) pgdir \<Longrightarrow> page_aligned p"
  by (auto simp: space_ok_def good_page_def)

text \<open>The directory and the tables alone determine all entries and all slots.\<close>

definition meta :: "memory \<Rightarrow> u32 \<Rightarrow> u32 set" where
  "meta m pgdir = insert pgdir {t. \<exists>i. unat i < 1024 \<and> table m pgdir i = Some t}"

definition meta_ok :: "memory \<Rightarrow> u32 \<Rightarrow> bool" where
  "meta_ok m pgdir \<longleftrightarrow> page_aligned pgdir
     \<and> (\<forall>i t. unat i < 1024 \<and> table m pgdir i = Some t \<longrightarrow> t \<noteq> pgdir)
     \<and> (\<forall>i j t. unat i < 1024 \<and> unat j < 1024 \<and> table m pgdir i = Some t
          \<and> table m pgdir j = Some t \<longrightarrow> i = j)"

lemma meta_owned: "meta m pgdir \<subseteq> owned m pgdir"
  using owned_dir owned_table by (auto simp: meta_def)

lemma space_ok_meta: "space_ok s pgdir \<Longrightarrow> meta_ok (mem s) pgdir"
  unfolding meta_ok_def
proof (intro conjI allI impI; (elim conjE)?)
  assume ok: "space_ok s pgdir"
  show "page_aligned pgdir" using space_ok_aligned [OF ok owned_dir] .
  fix i t assume "unat i < 1024" "table (mem s) pgdir i = Some t"
  then show "t \<noteq> pgdir" using space_ok_inj [OF ok, of Dir t "Tab i"] by auto
next
  fix i j t assume "space_ok s pgdir" "unat i < 1024" "unat j < 1024"
    "table (mem s) pgdir i = Some t" "table (mem s) pgdir j = Some t"
  then show "i = j" using space_ok_inj [of s pgdir "Tab i" t "Tab j"] by simp
qed

lemma leaf_not_meta:
  assumes ok: "space_ok s pgdir" and leaf: "slot_page (mem s) pgdir (Leaf v) = Some p"
  shows "p \<notin> meta (mem s) pgdir"
proof -
  have "table (mem s) pgdir i \<noteq> Some p" if "unat i < 1024" for i
    using space_ok_inj [OF ok leaf, of "Tab i"] that by auto
  then show ?thesis using space_ok_inj [OF ok leaf, of Dir] by (auto simp: meta_def)
qed

lemma meta_ok_cong:
  "meta_ok m pgdir \<Longrightarrow> (\<And>i. unat i < 1024 \<Longrightarrow> table m' pgdir i = table m pgdir i)
   \<Longrightarrow> meta_ok m' pgdir"
  unfolding meta_ok_def by metis

lemma table_not_dir:
  "\<lbrakk>meta_ok m pgdir; unat i < 1024; table m pgdir i = Some t\<rbrakk> \<Longrightarrow> t \<noteq> pgdir"
  by (simp add: meta_ok_def)

lemma table_inj:
  "\<lbrakk>meta_ok m pgdir; unat i < 1024; unat j < 1024; table m pgdir i = Some t;
    table m pgdir j = Some t\<rbrakk> \<Longrightarrow> i = j"
  unfolding meta_ok_def by blast

lemma table_aligned: "table m pgdir i = Some t \<Longrightarrow> page_aligned t"
  by (auto simp: table_def Let_def split: if_splits)

lemma table_agree:
  assumes "page_aligned pgdir" "unat i < 1024" "\<And>a. PGROUNDDOWN a = pgdir \<Longrightarrow> m' a = m a"
  shows "table m' pgdir i = table m pgdir i"
  using load32_agree [OF assms(1,2), of m' m] assms(3) by (simp add: table_def)

lemma entry_agree:
  assumes "page_aligned pgdir" "\<And>a. PGROUNDDOWN a \<in> meta m pgdir \<Longrightarrow> m' a = m a"
  shows "entry m' pgdir va = entry m pgdir va"
proof -
  have tab: "table m' pgdir (PDX va) = table m pgdir (PDX va)"
    using assms by (intro table_agree) (auto simp: PDX_less meta_def)
  show ?thesis
  proof (cases "table m pgdir (PDX va)")
    case (Some t)
    then have "t \<in> meta m pgdir" using PDX_less by (auto simp: meta_def)
    then have "load32 m' (t + 4 * PTX va) = load32 m (t + 4 * PTX va)"
      using assms(2) table_aligned [OF Some]
      by (intro load32_agree) (auto simp: PTX_less)
    then show ?thesis by (simp add: entry_def tab Some)
  qed (simp add: entry_def tab)
qed

lemma slot_page_agree:
  assumes "page_aligned pgdir" "\<And>a. PGROUNDDOWN a \<in> meta m pgdir \<Longrightarrow> m' a = m a"
  shows "slot_page m' pgdir = slot_page m pgdir"
proof
  fix x
  show "slot_page m' pgdir x = slot_page m pgdir x"
    using assms entry_agree [OF assms]
    by (cases x) (auto intro!: table_agree simp: meta_def)
qed

lemma kmem_invar_mem:
  assumes "kmem_invar s" "\<And>a. PGROUNDDOWN a \<in> set (kfree_pages s) \<Longrightarrow> m' a = mem s a"
  shows "kmem_invar (s\<lparr>mem := m'\<rparr>) \<and> kfree_pages (s\<lparr>mem := m'\<rparr>) = kfree_pages s"
proof (rule kmem_invarI)
  show "lockable (s\<lparr>mem := m'\<rparr>)"
    using assms(1) by (simp add: kmem_invar_def lockable_def)
  have inv: "free_inv s (kfree_pages s)"
    using assms(1) by (simp add: kmem_invar_def)
  have "flist m' r xs" if "flist (mem s) r xs" "set xs \<subseteq> set (kfree_pages s)" for r xs
    using that
  proof (induction xs arbitrary: r)
    case (Cons x xs)
    then have "page_aligned x" using inv by (auto simp: free_inv_def good_page_def)
    then have "load32 m' (x + 4 * 0) = load32 (mem s) (x + 4 * 0)"
      using assms(2) Cons.prems(2) by (intro load32_agree) auto
    with Cons show ?case by auto
  qed simp
  with inv show "free_inv (s\<lparr>mem := m'\<rparr>) (kfree_pages s)"
    by (simp add: free_inv_def)
qed

lemma kmem_invar_page:
  assumes "kmem_invar s" "p \<notin> set (kfree_pages s)" "\<And>a. PGROUNDDOWN a \<noteq> p \<Longrightarrow> m' a = mem s a"
  shows "kmem_invar (s\<lparr>mem := m'\<rparr>)" "kfree_pages (s\<lparr>mem := m'\<rparr>) = kfree_pages s"
  using kmem_invar_mem [of s m'] assms by (metis)+

section \<open>Steps on an address space\<close>

definition kmem_frame :: "'a kmst_scheme \<Rightarrow> 'a kmst_scheme \<Rightarrow> bool" where
  "kmem_frame s s' \<longleftrightarrow> (\<exists>h m f. s' = s\<lparr>hw := h, mem := m, freelist := f\<rparr>)"

lemma kmem_frameI [simp, intro]:
  "kmem_frame s s" "kmem_frame s (s\<lparr>hw := h\<rparr>)" "kmem_frame s (s\<lparr>mem := m\<rparr>)"
  "kmem_frame s (s\<lparr>freelist := f\<rparr>)" "kmem_frame s (s\<lparr>hw := h, freelist := f\<rparr>)"
  "kmem_frame s (s\<lparr>mem := m, freelist := f\<rparr>)" "kmem_frame s (s\<lparr>hw := h, mem := m, freelist := f\<rparr>)"
proof -
  have "\<exists>h m f. s = s\<lparr>hw := h, mem := m, freelist := f\<rparr>"
    by (rule exI [of _ "hw s"], rule exI [of _ "mem s"], rule exI [of _ "freelist s"]) simp
  then show "kmem_frame s s" by (simp add: kmem_frame_def)
  have "s\<lparr>hw := h\<rparr> = s\<lparr>hw := h, mem := mem s, freelist := freelist s\<rparr>"
    "s\<lparr>mem := m\<rparr> = s\<lparr>hw := hw s, mem := m, freelist := freelist s\<rparr>"
    "s\<lparr>freelist := f\<rparr> = s\<lparr>hw := hw s, mem := mem s, freelist := f\<rparr>"
    "s\<lparr>hw := h, freelist := f\<rparr> = s\<lparr>hw := h, mem := mem s, freelist := f\<rparr>"
    "s\<lparr>mem := m, freelist := f\<rparr> = s\<lparr>hw := hw s, mem := m, freelist := f\<rparr>"
    by simp_all
  then show "kmem_frame s (s\<lparr>hw := h\<rparr>)" "kmem_frame s (s\<lparr>mem := m\<rparr>)"
    "kmem_frame s (s\<lparr>freelist := f\<rparr>)" "kmem_frame s (s\<lparr>hw := h, freelist := f\<rparr>)"
    "kmem_frame s (s\<lparr>mem := m, freelist := f\<rparr>)"
    "kmem_frame s (s\<lparr>hw := h, mem := m, freelist := f\<rparr>)"
    unfolding kmem_frame_def by blast+
qed

lemma kmem_frame_trans [trans]: "kmem_frame s t \<Longrightarrow> kmem_frame t u \<Longrightarrow> kmem_frame s u"
  by (auto simp: kmem_frame_def) blast

lemma kmem_frame_same:
  assumes "kmem_frame s s'"
  shows "good_page s' = good_page s" "use_lock s' = use_lock s" "sym_end s' = sym_end s"
    "sym_data s' = sym_data s"
  using assms by (auto simp: kmem_frame_def)

definition pool :: "'a kmst_scheme \<Rightarrow> u32 \<Rightarrow> u32 set" where
  "pool s pgdir = owned (mem s) pgdir \<union> set (kfree_pages s)"

text \<open>
  A step that keeps the address space well formed, neither loses nor invents a page, and
  writes only to pages of the address space or of the free list.
\<close>

definition space_step :: "u32 \<Rightarrow> 'a kmst_scheme \<Rightarrow> 'a kmst_scheme \<Rightarrow> bool" where
  "space_step pgdir s s' \<longleftrightarrow> kmem_frame s s' \<and> space_ok s' pgdir \<and> pool s' pgdir = pool s pgdir
     \<and> (\<forall>a. PGROUNDDOWN a \<notin> pool s pgdir \<longrightarrow> mem s' a = mem s a)"

lemma space_step_refl: "space_ok s pgdir \<Longrightarrow> space_step pgdir s s"
  by (simp add: space_step_def)

lemma space_step_trans [trans]:
  "space_step pgdir s t \<Longrightarrow> space_step pgdir t u \<Longrightarrow> space_step pgdir s u"
  by (auto simp: space_step_def intro: kmem_frame_trans)

lemma kalloc_cases:
  assumes "kmem_invar s"
  obtains (empty) h where "kfree_pages s = []" "kalloc s = Inr (0, s\<lparr>hw := h\<rparr>)"
      "kmem_invar (s\<lparr>hw := h\<rparr>)" "kfree_pages (s\<lparr>hw := h\<rparr>) = []"
  | (page) x xs h f where "kfree_pages s = x # xs" "kalloc s = Inr (x, s\<lparr>hw := h, freelist := f\<rparr>)"
      "kmem_invar (s\<lparr>hw := h, freelist := f\<rparr>)" "kfree_pages (s\<lparr>hw := h, freelist := f\<rparr>) = xs"
      "good_page s x" "x \<noteq> 0" "x \<notin> set xs"
proof (cases "kfree_pages s")
  case Nil
  have "kalloc s = Inr (0, s\<lparr>hw := kmem_rest s\<rparr>)"
    using assms Nil by (auto simp: kmem_invar_def kalloc_empty)
  moreover from kmem.alloc_none [OF assms Nil] this
  have "kmem_invar (s\<lparr>hw := kmem_rest s\<rparr>)" "kfree_pages (s\<lparr>hw := kmem_rest s\<rparr>) = []" by auto
  ultimately show thesis using empty Nil by blast
next
  case (Cons x xs)
  let ?f = "if freelist s = 0 then 0 else load32 (mem s) (freelist s)"
  have inv: "free_inv s (x # xs)" "lockable s"
    using assms Cons by (auto simp: kmem_invar_def)
  then have "kalloc s = Inr (x, s\<lparr>hw := kmem_rest s, freelist := ?f\<rparr>)"
    by (simp add: kalloc_eq free_inv_def)
  moreover from kmem.alloc_some [OF assms Cons] this
  have "kmem_invar (s\<lparr>hw := kmem_rest s, freelist := ?f\<rparr>)"
    "kfree_pages (s\<lparr>hw := kmem_rest s, freelist := ?f\<rparr>) = xs" by auto
  moreover have "good_page s x" "x \<notin> set xs"
    using inv(1) by (auto simp: free_inv_def)
  ultimately show thesis
    using page Cons good_page_nonzero by blast
qed

lemma space_ok_hw:
  assumes "space_ok s pgdir" "kmem_invar (s\<lparr>hw := h\<rparr>)" "kfree_pages (s\<lparr>hw := h\<rparr>) = kfree_pages s"
  shows "space_step pgdir s (s\<lparr>hw := h\<rparr>)"
  using assms by (auto simp: space_step_def space_ok_def pool_def)

section \<open>Walking with allocation\<close>

lemma present_iff: "present e \<longleftrightarrow> bit e 0"
  by (simp add: PTE_P_def and_one_eq bit_0 odd_iff_mod_2_eq_one)

lemma page_aligned_bit: "page_aligned a \<Longrightarrow> bit a n \<Longrightarrow> 12 \<le> n"
proof -
  assume "page_aligned a" "bit a n"
  then have "bit (push_bit 12 (drop_bit 12 a)) n"
    using PGROUNDDOWN_aligned [of a] by (simp add: PGROUNDDOWN_shift)
  then show "12 \<le> n" by (simp add: bit_simps)
qed

lemma PTE_ADDR_or:
  assumes "page_aligned a" "unat f < 4096"
  shows "PTE_ADDR (a OR f) = a" "PTE_FLAGS (a OR f) = f"
proof -
  have f: "n < 12" if "bit f n" for n
    using bit_above_size [of f 12 n] assms(2) that by simp
  have a: "12 \<le> n" if "bit a n" for n
    using page_aligned_bit [OF assms(1) that] .
  show "PTE_ADDR (a OR f) = a" "PTE_FLAGS (a OR f) = f"
    unfolding PTE_ADDR_def PTE_FLAGS_def mask12
    by (rule bit_word_eqI; use f a in \<open>force simp: bit_simps\<close>)+
qed

lemma page_aligned_V2P [simp]: "page_aligned x \<Longrightarrow> page_aligned (V2P x)"
proof -
  assume "page_aligned x"
  moreover have "V2P x = x + KERNBASE"
    by (simp add: V2P_def KERNBASE_def)
  moreover have "page_aligned KERNBASE"
    by (simp add: page_aligned_def KERNBASE_def)
  ultimately show ?thesis
    by (simp add: page_aligned_add)
qed

lemma PTE_new:
  assumes "page_aligned x"
  shows "present (V2P x OR PTE_P OR PTE_W OR PTE_U)"
    and "P2V (PTE_ADDR (V2P x OR PTE_P OR PTE_W OR PTE_U)) = x"
proof -
  have "unat (PTE_P OR (PTE_W OR PTE_U)) < 4096"
    by (simp add: PTE_P_def PTE_W_def PTE_U_def)
  then show "P2V (PTE_ADDR (V2P x OR PTE_P OR PTE_W OR PTE_U)) = x"
    using PTE_ADDR_or(1) [of "V2P x" "PTE_P OR (PTE_W OR PTE_U)"] assms by simp
  show "present (V2P x OR PTE_P OR PTE_W OR PTE_U)"
    unfolding present_iff by (simp add: bit_simps) (simp add: PTE_P_def)
qed

lemma dir_fresh:
  assumes ok: "space_ok s pgdir" and x: "x \<notin> owned (mem s) pgdir" "page_aligned x"
    and none: "table (mem s) pgdir (PDX va) = None"
  defines "m' \<equiv> store32 (fill (mem s) x 0 4096) (pgdir + 4 * PDX va) (V2P x OR PTE_P OR PTE_W OR PTE_U)"
  shows "table m' pgdir (PDX va) = Some x" "entry m' pgdir = entry (mem s) pgdir"
    "slot_page m' pgdir = (slot_page (mem s) pgdir)(Tab (PDX va) := Some x)"
    "\<And>a. PGROUNDDOWN a \<notin> {x, pgdir} \<Longrightarrow> m' a = mem s a"
    "\<And>i. unat i < 1024 \<Longrightarrow> table m' pgdir i = (if i = PDX va then Some x else table (mem s) pgdir i)"
proof -
  let ?e = "V2P x OR PTE_P OR PTE_W OR PTE_U" and ?m = "fill (mem s) x 0 4096"
  have al: "page_aligned pgdir" and ne: "x \<noteq> pgdir"
    using space_ok_aligned [OF ok owned_dir] x(1) owned_dir by auto
  show other: "\<And>a. PGROUNDDOWN a \<notin> {x, pgdir} \<Longrightarrow> m' a = mem s a"
    by (simp add: m'_def store32_slot_other [OF al PDX_less] fill_page [OF x(2)])
  have dir: "load32 m' (pgdir + 4 * i)
      = (if i = PDX va then ?e else load32 (mem s) (pgdir + 4 * i))" if "unat i < 1024" for i
  proof -
    have "load32 ?m (pgdir + 4 * i) = load32 (mem s) (pgdir + 4 * i)"
      using ne by (intro load32_agree [OF al that]) (simp add: fill_page [OF x(2)])
    then show ?thesis
      by (auto simp: m'_def load32_store32_slot al that PDX_less)
  qed
  show tab: "table m' pgdir i = (if i = PDX va then Some x else table (mem s) pgdir i)"
    if "unat i < 1024" for i
    using dir [OF that] PTE_new [OF x(2)] by (simp add: table_def)
  then show "table m' pgdir (PDX va) = Some x" by (simp add: PDX_less)
  show ent: "entry m' pgdir = entry (mem s) pgdir"
  proof
    fix v
    show "entry m' pgdir v = entry (mem s) pgdir v"
    proof (cases "PDX v = PDX va")
      case True
      have "load32 m' (x + 4 * PTX v) = load32 ?m (x + 4 * PTX v)"
        using ne by (simp add: m'_def load32_store32_slot al x(2) PDX_less PTX_less)
      then show ?thesis
        using True none by (simp add: entry_def tab PDX_less load32_fill_0 x(2) PTX_less)
    next
      case False
      show ?thesis
      proof (cases "table (mem s) pgdir (PDX v)")
        case (Some t)
        have "t \<noteq> x" using Some owned_table [OF PDX_less Some] x(1) by auto
        moreover have "t \<noteq> pgdir" using table_not_dir [OF space_ok_meta [OF ok] PDX_less Some] .
        ultimately have "load32 m' (t + 4 * PTX v) = load32 (mem s) (t + 4 * PTX v)"
          using other table_aligned [OF Some] by (intro load32_agree) (auto simp: PTX_less)
        then show ?thesis using False Some by (simp add: entry_def tab PDX_less)
      qed (use False in \<open>simp add: entry_def tab PDX_less\<close>)
    qed
  qed
  show "slot_page m' pgdir = (slot_page (mem s) pgdir)(Tab (PDX va) := Some x)"
  proof
    fix y
    show "slot_page m' pgdir y = ((slot_page (mem s) pgdir)(Tab (PDX va) := Some x)) y"
      by (cases y) (auto simp: ent tab PDX_less)
  qed
qed

lemma owned_upd:
  assumes "slot_page m' pgdir = (slot_page m pgdir)(k := Some x)" "slot_page m pgdir k = None"
  shows "owned m' pgdir = insert x (owned m pgdir)"
  using assms by (auto simp: owned_def ran_def) (metis option.distinct(1))

lemma inj_upd:
  assumes "inj_on f (dom f)" "f k = None" "x \<notin> ran f"
  shows "inj_on (f(k := Some x)) (dom (f(k := Some x)))"
  using assms by (auto simp: inj_on_def ran_def)

lemma space_ok_upd:
  assumes ok: "space_ok s pgdir" and frame: "kmem_frame s s'" and inv: "kmem_invar s'"
    and slot: "slot_page (mem s') pgdir = (slot_page (mem s) pgdir)(k := Some x)"
      "slot_page (mem s) pgdir k = None"
    and x: "x \<notin> owned (mem s) pgdir" "good_page s x" "x \<notin> set (kfree_pages s')"
    and free: "set (kfree_pages s') \<subseteq> set (kfree_pages s)"
  shows "space_ok s' pgdir"
proof -
  note same = kmem_frame_same [OF frame]
  have "inj_on (slot_page (mem s') pgdir) (dom (slot_page (mem s') pgdir))"
    unfolding slot(1) using ok x(1) slot(2) by (intro inj_upd) (auto simp: space_ok_def owned_def)
  moreover have "good_page s' p \<and> p \<notin> set (kfree_pages s')" if "p \<in> owned (mem s') pgdir" for p
    using that ok x free by (auto simp: owned_upd [OF slot] same space_ok_def)
  ultimately show ?thesis using inv ok by (simp add: space_ok_def same)
qed

text \<open>Free pages and tables in use together: enough of them and a walk cannot run out.\<close>

definition tables_in :: "memory \<Rightarrow> u32 \<Rightarrow> u32 set" where
  "tables_in m pgdir = {i. unat i < 1024 \<and> table m pgdir i \<noteq> None}"

definition room :: "'a kmst_scheme \<Rightarrow> u32 \<Rightarrow> nat" where
  "room s pgdir = length (kfree_pages s) + card (tables_in (mem s) pgdir)"

lemma tables_in_cong:
  "(\<And>i. unat i < 1024 \<Longrightarrow> table m' pgdir i = table m pgdir i) \<Longrightarrow> tables_in m' pgdir = tables_in m pgdir"
  by (auto simp: tables_in_def)

lemma indexes_1024: "finite {i :: u32. unat i < 1024}" "card {i :: u32. unat i < 1024} = 1024"
proof -
  have "{i :: u32. unat i < 1024} = of_nat ` {..<1024}"
  proof (intro equalityI subsetI)
    fix i :: u32 assume "i \<in> {i. unat i < 1024}"
    then show "i \<in> of_nat ` {..<1024}" by (intro image_eqI [of _ _ "unat i"]) simp_all
  qed (auto simp: unat_of_nat32)
  moreover have "inj_on (of_nat :: nat \<Rightarrow> u32) {..<1024}"
    by (rule inj_on_inverseI [of _ unat]) (simp add: unat_of_nat32)
  ultimately show "finite {i :: u32. unat i < 1024}" "card {i :: u32. unat i < 1024} = 1024"
    by (simp_all add: card_image)
qed

lemma room_full: "table m pgdir (PDX va) = None \<Longrightarrow> card (tables_in m pgdir) < 1024"
proof -
  assume "table m pgdir (PDX va) = None"
  then have "PDX va \<in> {i. unat i < 1024} - tables_in m pgdir"
    using PDX_less [of va] by (simp add: tables_in_def)
  moreover have "tables_in m pgdir \<subseteq> {i. unat i < 1024}"
    by (auto simp: tables_in_def)
  ultimately have "tables_in m pgdir \<subset> {i. unat i < 1024}" by blast
  from psubset_card_mono [OF indexes_1024(1) this] show ?thesis by (simp add: indexes_1024)
qed

lemma walk_alloc:
  assumes ok: "space_ok s pgdir"
  obtains (none) h where "walkpgdir pgdir va True s = Inr (0, s\<lparr>hw := h\<rparr>)" "kfree_pages s = []"
      "space_step pgdir s (s\<lparr>hw := h\<rparr>)" "table (mem s) pgdir (PDX va) = None"
  | (pte) t s' where "walkpgdir pgdir va True s = Inr (t + 4 * PTX va, s')"
      "t + 4 * PTX va \<noteq> 0" "table (mem s') pgdir (PDX va) = Some t"
      "entry (mem s') pgdir = entry (mem s) pgdir" "space_step pgdir s s'"
      "room s' pgdir = room s pgdir"
      "\<And>a. PGROUNDDOWN a \<notin> meta (mem s) pgdir \<union> set (kfree_pages s) \<Longrightarrow> mem s' a = mem s a"
      "t \<in> meta (mem s) pgdir \<union> set (kfree_pages s)"
proof (cases "table (mem s) pgdir (PDX va)")
  case (Some t)
  have "t \<noteq> 0"
    using ok owned_table [OF PDX_less Some] good_page_nonzero by (auto simp: space_ok_def)
  then have "t + 4 * PTX va \<noteq> 0"
    using table_aligned [OF Some] by (intro slot_nonzero) (auto simp: PTX_less)
  moreover have "walkpgdir pgdir va True s = Inr (t + 4 * PTX va, s)"
    using Some by (auto simp: walkpgdir_def table_def rd32_def Let_def split: if_splits)
  moreover have "t \<in> meta (mem s) pgdir" using Some PDX_less by (auto simp: meta_def)
  ultimately show thesis
    using Some pte space_step_refl [OF ok] by blast
next
  case None
  then have absent: "rd32 (pgdir + 4 * PDX va) s AND PTE_P = 0"
    by (auto simp: table_def rd32_def Let_def split: if_splits)
  have inv: "kmem_invar s" using ok by (simp add: space_ok_def)
  from inv show thesis
  proof (cases rule: kalloc_cases)
    case (empty h)
    then have "walkpgdir pgdir va True s = Inr (0, s\<lparr>hw := h\<rparr>)"
      using absent by (simp add: walkpgdir_def)
    with empty None show thesis
      using none space_ok_hw [OF ok, of h] by auto
  next
    case (page x xs h f)
    let ?s = "s\<lparr>hw := h, freelist := f\<rparr>"
    let ?m = "store32 (fill (mem s) x 0 4096) (pgdir + 4 * PDX va) (V2P x OR PTE_P OR PTE_W OR PTE_U)"
    have x: "x \<notin> owned (mem s) pgdir" "page_aligned x"
      using ok page by (auto simp: space_ok_def good_page_def)
    note fresh = dir_fresh [OF ok x None]
    have walk: "walkpgdir pgdir va True s = Inr (x + 4 * PTX va, ?s\<lparr>mem := ?m\<rparr>)"
      using absent page(2,6) by (simp add: walkpgdir_def memset_fill wr32_def PGSIZE_def)
    have "kmem_invar (?s\<lparr>mem := ?m\<rparr>) \<and> kfree_pages (?s\<lparr>mem := ?m\<rparr>) = xs"
      unfolding page(4) [symmetric]
    proof (rule kmem_invar_mem [OF page(3)])
      fix a assume "PGROUNDDOWN a \<in> set (kfree_pages ?s)"
      then have "PGROUNDDOWN a \<notin> {x, pgdir}"
        using page(1,4,7) ok owned_dir [of pgdir "mem s"] by (auto simp: space_ok_def)
      then show "?m a = mem ?s a" using fresh(4) by simp
    qed
    then have inv': "kmem_invar (?s\<lparr>mem := ?m\<rparr>)" and free: "kfree_pages (?s\<lparr>mem := ?m\<rparr>) = xs"
      by auto
    have slot: "slot_page (mem (?s\<lparr>mem := ?m\<rparr>)) pgdir = (slot_page (mem s) pgdir)(Tab (PDX va) := Some x)"
      "slot_page (mem s) pgdir (Tab (PDX va)) = None"
      using fresh(3) None by (simp_all add: PDX_less)
    have frame: "kmem_frame s (?s\<lparr>mem := ?m\<rparr>)"
      by (rule kmem_frame_trans [of _ ?s]) (rule kmem_frameI)+
    have "space_ok (?s\<lparr>mem := ?m\<rparr>) pgdir"
      by (rule space_ok_upd [OF ok frame inv' slot x(1) page(5)]) (auto simp: free page(1,7))
    moreover have "pool (?s\<lparr>mem := ?m\<rparr>) pgdir = pool s pgdir"
      unfolding pool_def owned_upd [OF slot] free page(1) by auto
    moreover have "mem (?s\<lparr>mem := ?m\<rparr>) a = mem s a" if "PGROUNDDOWN a \<notin> pool s pgdir" for a
      using that fresh(4) [of a] page(1) owned_dir [of pgdir "mem s"] by (auto simp: pool_def)
    ultimately have "space_step pgdir s (?s\<lparr>mem := ?m\<rparr>)"
      using frame by (simp add: space_step_def)
    moreover have "x + 4 * PTX va \<noteq> 0"
      using x(2) page(6) by (intro slot_nonzero) (auto simp: PTX_less)
    moreover have "tables_in ?m pgdir = insert (PDX va) (tables_in (mem s) pgdir)"
      using fresh(5) PDX_less [of va] by (auto simp: tables_in_def)
    then have "room (?s\<lparr>mem := ?m\<rparr>) pgdir = room s pgdir"
      using None finite_subset [OF _ indexes_1024(1), of "tables_in (mem s) pgdir"]
      unfolding room_def free page(1) by (simp add: tables_in_def)
    moreover have "mem (?s\<lparr>mem := ?m\<rparr>) a = mem s a"
      if "PGROUNDDOWN a \<notin> meta (mem s) pgdir \<union> set (kfree_pages s)" for a
      using that fresh(4) [of a] page(1) by (auto simp: meta_def)
    ultimately show thesis
      using pte [OF walk] fresh(1,2) page(1) by simp
  qed
qed

lemma walk_lookup:
  "walkpgdir pgdir va False s
     = Inr (case table (mem s) pgdir (PDX va) of None \<Rightarrow> 0 | Some t \<Rightarrow> t + 4 * PTX va, s)"
  by (auto simp: walkpgdir_def table_def rd32_def Let_def)

section \<open>Storing an entry\<close>

lemma store_entry:
  assumes ok: "meta_ok m pgdir" and t: "table m pgdir (PDX va) = Some t"
  defines "m' \<equiv> \<lambda>e. store32 m (t + 4 * PTX va) e"
  shows "unat i < 1024 \<Longrightarrow> table (m' e) pgdir i = table m pgdir i"
    and "entry (m' e) pgdir v
      = (if PGROUNDDOWN v = PGROUNDDOWN va then e else entry m pgdir v)"
    and "PGROUNDDOWN a \<noteq> t \<Longrightarrow> m' e a = m a"
proof -
  note al = table_aligned [OF t]
  show other: "\<And>a. PGROUNDDOWN a \<noteq> t \<Longrightarrow> m' e a = m a"
    by (simp add: m'_def store32_slot_other [OF al PTX_less])
  show tab: "\<And>i. unat i < 1024 \<Longrightarrow> table (m' e) pgdir i = table m pgdir i"
    using other table_not_dir [OF ok PDX_less t] ok [unfolded meta_ok_def]
    by (intro table_agree) auto
  show "entry (m' e) pgdir v = (if PGROUNDDOWN v = PGROUNDDOWN va then e else entry m pgdir v)"
  proof (cases "table m pgdir (PDX v)")
    case None
    with t have "PGROUNDDOWN v \<noteq> PGROUNDDOWN va" by (auto simp: same_page_iff)
    with None show ?thesis by (simp add: entry_def tab PDX_less)
  next
    case (Some u)
    have "t = u \<longleftrightarrow> PDX v = PDX va"
      using Some t table_inj [OF ok PDX_less PDX_less] by auto
    moreover have "entry (m' e) pgdir v = load32 (m' e) (u + 4 * PTX v)"
      by (simp add: entry_def tab PDX_less Some)
    moreover have "entry m pgdir v = load32 m (u + 4 * PTX v)"
      by (simp add: entry_def Some)
    ultimately show ?thesis
      using al table_aligned [OF Some]
      by (auto simp: m'_def load32_store32_slot PTX_less same_page_iff)
  qed
qed

lemma user_page_below: "va < KERNBASE \<longleftrightarrow> PGROUNDDOWN va < KERNBASE"
proof -
  have "x < 2147483648 \<longleftrightarrow> x div 4096 * 4096 < 2147483648" for x :: nat
  proof
    assume "x div 4096 * 4096 < 2147483648"
    then have "x div 4096 < 524288" by simp
    then show "x < 2147483648" by (simp add: div_less_iff_less_mult)
  qed (use div_times_less_eq_dividend [of x 4096] in linarith)
  then show ?thesis
    by (simp add: word_less_nat_alt unat_PGROUNDDOWN KERNBASE_def)
qed

lemma store_slots:
  assumes ok: "meta_ok m pgdir" and t: "table m pgdir (PDX va) = Some t"
  defines "m' \<equiv> \<lambda>e. store32 m (t + 4 * PTX va) e"
  shows "va < KERNBASE \<Longrightarrow> slot_page (m' e) pgdir = (slot_page m pgdir)(Leaf (PGROUNDDOWN va) :=
      (if present e then Some (P2V (PTE_ADDR e)) else None))"
    and "\<not> va < KERNBASE \<Longrightarrow> slot_page (m' e) pgdir = slot_page m pgdir"
proof -
  note new = store_entry [OF ok t, folded m'_def]
  have leaf: "slot_page (m' e) pgdir (Leaf w) = (if w = PGROUNDDOWN va \<and> va < KERNBASE
      then (if present e then Some (P2V (PTE_ADDR e)) else None) else slot_page m pgdir (Leaf w))"
    for w
    using new(2) [of e w] user_page_below [of va]
    by (cases "page_aligned w") (auto simp: PGROUNDDOWN_aligned)
  have dirs: "slot_page (m' e) pgdir (Tab i) = slot_page m pgdir (Tab i)" for i
    using new(1) by simp
  show "slot_page (m' e) pgdir = (slot_page m pgdir)(Leaf (PGROUNDDOWN va) :=
      (if present e then Some (P2V (PTE_ADDR e)) else None))" if "va < KERNBASE"
  proof
    fix x show "slot_page (m' e) pgdir x = ((slot_page m pgdir)(Leaf (PGROUNDDOWN va) :=
      (if present e then Some (P2V (PTE_ADDR e)) else None))) x"
      using leaf dirs that by (cases x) (auto simp del: slot_page.simps(2,3))
  qed
  show "slot_page (m' e) pgdir = slot_page m pgdir" if "\<not> va < KERNBASE"
  proof
    fix x show "slot_page (m' e) pgdir x = slot_page m pgdir x"
      using leaf dirs that by (cases x) (auto simp del: slot_page.simps(2,3))
  qed
qed

lemma store_keeps_free:
  assumes ok: "space_ok s pgdir" and t: "table (mem s) pgdir (PDX va) = Some t"
  shows "kmem_invar (wr32 (t + 4 * PTX va) e s)" "kfree_pages (wr32 (t + 4 * PTX va) e s) = kfree_pages s"
proof -
  have "t \<notin> set (kfree_pages s)"
    using ok owned_table [OF PDX_less t] by (simp add: space_ok_def)
  then show "kmem_invar (wr32 (t + 4 * PTX va) e s)"
    "kfree_pages (wr32 (t + 4 * PTX va) e s) = kfree_pages s"
    unfolding wr32_def using ok store_entry(3) [OF space_ok_meta [OF ok] t]
    by (auto intro!: kmem_invar_page simp: space_ok_def)
qed

lemma mem_wr32: "mem (wr32 a v s) = store32 (mem s) a v"
  by (simp add: wr32_def)

lemma kmem_frame_wr32 [simp, intro]: "kmem_frame s (wr32 a v s)"
  by (simp add: wr32_def)

text \<open>Storing an entry outside the user half changes no ownership.\<close>

lemma store_kernel_step:
  assumes ok: "space_ok s pgdir" and t: "table (mem s) pgdir (PDX va) = Some t" and "\<not> va < KERNBASE"
  shows "space_step pgdir s (wr32 (t + 4 * PTX va) e s)"
proof -
  have slots: "slot_page (mem (wr32 (t + 4 * PTX va) e s)) pgdir = slot_page (mem s) pgdir"
    using store_slots(2) [OF space_ok_meta [OF ok] t assms(3)] by (simp add: mem_wr32)
  have "t \<in> pool s pgdir" using owned_table [OF PDX_less t] by (simp add: pool_def)
  then have "mem (wr32 (t + 4 * PTX va) e s) a = mem s a" if "PGROUNDDOWN a \<notin> pool s pgdir" for a
    using that unfolding mem_wr32 by (intro store_entry(3) [OF space_ok_meta [OF ok] t]) auto
  with slots ok store_keeps_free [OF ok t] show ?thesis
    by (auto simp: space_step_def space_ok_def pool_def owned_def
        kmem_frame_same [OF kmem_frame_wr32])
qed

text \<open>Storing a user entry for a page that belongs to nobody adds the page to the space.\<close>

lemma store_user_page:
  assumes ok: "space_ok s pgdir" and t: "table (mem s) pgdir (PDX va) = Some t" and "va < KERNBASE"
    and absent: "\<not> present (entry (mem s) pgdir va)"
    and p: "good_page s p" "p \<notin> pool s pgdir" and e: "present e" "P2V (PTE_ADDR e) = p"
  defines "s' \<equiv> wr32 (t + 4 * PTX va) e s"
  shows "space_ok s' pgdir" "pool s' pgdir = insert p (pool s pgdir)"
    "\<And>a. PGROUNDDOWN a \<notin> pool s pgdir \<Longrightarrow> mem s' a = mem s a"
proof -
  have slot: "slot_page (mem s') pgdir = (slot_page (mem s) pgdir)(Leaf (PGROUNDDOWN va) := Some p)"
    using store_slots(1) [OF space_ok_meta [OF ok] t assms(3)] e by (simp add: s'_def mem_wr32)
  have none: "slot_page (mem s) pgdir (Leaf (PGROUNDDOWN va)) = None"
    using absent by (simp add: entry_PGROUNDDOWN)
  have free: "kmem_invar s'" "kfree_pages s' = kfree_pages s"
    using store_keeps_free [OF ok t] by (simp_all add: s'_def)
  have frame: "kmem_frame s s'" by (simp add: s'_def)
  show "space_ok s' pgdir"
    by (rule space_ok_upd [OF ok frame free(1) slot none]) (use p free in \<open>auto simp: pool_def\<close>)
  show "pool s' pgdir = insert p (pool s pgdir)"
    using owned_upd [OF slot none] free(2) by (simp add: pool_def)
  show "\<And>a. PGROUNDDOWN a \<notin> pool s pgdir \<Longrightarrow> mem s' a = mem s a"
    unfolding s'_def mem_wr32 using owned_table [OF PDX_less t]
    by (intro store_entry(3) [OF space_ok_meta [OF ok] t]) (auto simp: pool_def)
qed

section \<open>User bytes\<close>

text \<open>The byte a user program reads at an address, through the page table.\<close>

definition user_byte :: "memory \<Rightarrow> u32 \<Rightarrow> u32 \<Rightarrow> u8" where
  "user_byte m pgdir v = m (P2V (PTE_ADDR (entry m pgdir v)) + (v - PGROUNDDOWN v))"

lemma leaf_owned:
  assumes "present (entry m pgdir v)" "v < KERNBASE"
  shows "P2V (PTE_ADDR (entry m pgdir v)) \<in> owned m pgdir"
  using assms user_page_below [of v] by (intro owned_slot [of _ _ "Leaf (PGROUNDDOWN v)"]) simp

lemma page_plus_offset:
  assumes "page_aligned p" shows "PGROUNDDOWN (p + (v - PGROUNDDOWN v)) = p"
proof -
  have "unat (v - PGROUNDDOWN v) < 4096" by (simp add: page_offset)
  then have "in_span (p + (v - PGROUNDDOWN v)) p 4096" by (simp add: in_span_def)
  then show ?thesis using in_page_iff [OF assms] by simp
qed

section \<open>Mapping pages\<close>

lemma rd32_entry:
  "table (mem s) pgdir (PDX va) = Some t \<Longrightarrow> rd32 (t + 4 * PTX va) s = entry (mem s) pgdir va"
  by (simp add: rd32_def entry_def)

lemma space_step_ok: "space_step pgdir s s' \<Longrightarrow> space_ok s' pgdir"
  by (simp add: space_step_def)

lemma PTE_leaf:
  assumes "page_aligned p" "unat perm < 4096"
  shows "present (V2P p OR perm OR PTE_P)" "P2V (PTE_ADDR (V2P p OR perm OR PTE_P)) = p"
    "PTE_FLAGS (V2P p OR perm OR PTE_P) = perm OR PTE_P"
proof -
  have "n < 12" if "bit (perm OR PTE_P) n" for n
    using that bit_above_size [of perm 12 n] assms(2)
    by (auto simp: bit_simps PTE_P_def)
  then have "take_bit 12 (perm OR PTE_P) = perm OR PTE_P"
    by (intro bit_word_eqI) (auto simp: bit_simps)
  then have "unat (take_bit 12 (perm OR PTE_P)) = unat (perm OR PTE_P)" by simp
  then have small: "unat (perm OR PTE_P) < 4096"
    by (simp add: take_bit_eq_mod unat_mod split: if_splits)
  then show "P2V (PTE_ADDR (V2P p OR perm OR PTE_P)) = p"
    "PTE_FLAGS (V2P p OR perm OR PTE_P) = perm OR PTE_P"
    using PTE_ADDR_or [OF _ small, of "V2P p"] assms(1) by (simp_all add: or.assoc)
  show "present (V2P p OR perm OR PTE_P)"
    unfolding present_iff by (simp add: bit_simps) (simp add: PTE_P_def)
qed

text \<open>Adding one user page that the caller has just allocated.\<close>

definition page_added :: "u32 \<Rightarrow> u32 \<Rightarrow> u32 \<Rightarrow> u32 \<Rightarrow> 'a kmst_scheme \<Rightarrow> 'a kmst_scheme \<Rightarrow> bool" where
  "page_added pgdir va p perm s s' \<longleftrightarrow> kmem_frame s s' \<and> space_ok s' pgdir
     \<and> pool s' pgdir = insert p (pool s pgdir)
     \<and> (\<forall>a. PGROUNDDOWN a \<notin> meta (mem s) pgdir \<union> set (kfree_pages s) \<longrightarrow> mem s' a = mem s a)
     \<and> entry (mem s') pgdir = (\<lambda>v. if PGROUNDDOWN v = va then V2P p OR perm OR PTE_P
          else entry (mem s) pgdir v)
     \<and> room s' pgdir = room s pgdir"

lemma room_store:
  assumes ok: "space_ok s pgdir" and t: "table (mem s) pgdir (PDX va) = Some t"
  shows "room (wr32 (t + 4 * PTX va) e s) pgdir = room s pgdir"
  using store_keeps_free(2) [OF ok t] tables_in_cong [OF store_entry(1) [OF space_ok_meta [OF ok] t]]
  by (simp add: room_def mem_wr32)

lemma map_user_page:
  assumes ok: "space_ok s pgdir" and va: "page_aligned va" "va < KERNBASE"
    and absent: "\<not> present (entry (mem s) pgdir va)"
    and p: "good_page s p" "p \<notin> pool s pgdir" and perm: "unat perm < 4096"
  obtains (none) h where "mappages pgdir va PGSIZE (V2P p) perm s = Inr (- 1, s\<lparr>hw := h\<rparr>)"
      "space_step pgdir s (s\<lparr>hw := h\<rparr>)" "kfree_pages s = []"
      "table (mem s) pgdir (PDX va) = None"
  | (mapped) s' where "mappages pgdir va PGSIZE (V2P p) perm s = Inr (0, s')"
      "page_added pgdir va p perm s s'"
proof -
  have ends: "PGROUNDDOWN va = va" "PGROUNDDOWN (va + PGSIZE - 1) = va"
    using va(1) in_page_iff [OF va(1), of "va + PGSIZE - 1"]
    by (simp_all add: PGROUNDDOWN_aligned in_span_def PGSIZE_def)
  have loop: "mappages pgdir va PGSIZE (V2P p) perm s = mappages_loop pgdir va va (V2P p) perm s"
    by (simp add: mappages_def ends)
  from ok show thesis
  proof (cases rule: walk_alloc [where va = va])
    case (none h)
    then show thesis using that(1) loop by (simp add: mappages_loop.simps)
  next
    case (pte t s1)
    let ?e = "V2P p OR perm OR PTE_P" and ?s = "wr32 (t + 4 * PTX va) (V2P p OR perm OR PTE_P) s1"
    have al: "page_aligned p" using p(1) by (simp add: good_page_def)
    have step: "kmem_frame s s1" "space_ok s1 pgdir" "pool s1 pgdir = pool s pgdir"
      "\<And>a. PGROUNDDOWN a \<notin> pool s pgdir \<Longrightarrow> mem s1 a = mem s a"
      using pte(5) by (auto simp: space_step_def)
    have "good_page s1 p" using p(1) kmem_frame_same(1) [OF step(1)] by simp
    note new = store_user_page [OF step(2) pte(3) va(2) _ this _ PTE_leaf(1,2) [OF al perm],
        unfolded pte(4) step(3), OF absent p(2)]
    have "rd32 (t + 4 * PTX va) s1 AND PTE_P = 0"
      using absent pte(4) by (simp add: rd32_entry [OF pte(3)])
    then have "mappages pgdir va PGSIZE (V2P p) perm s = Inr (0, ?s)"
      using pte(1,2) by (simp add: loop mappages_loop.simps)
    moreover have "entry (mem ?s) pgdir v = (if PGROUNDDOWN v = va then ?e else entry (mem s) pgdir v)" for v
      using store_entry(2) [OF space_ok_meta [OF step(2)] pte(3), of ?e v] ends(1) pte(4)
      by (simp add: mem_wr32)
    moreover have "kmem_frame s ?s" using step(1) by (rule kmem_frame_trans) simp
    moreover have "mem ?s a = mem s a" if "PGROUNDDOWN a \<notin> meta (mem s) pgdir \<union> set (kfree_pages s)" for a
      using store_entry(3) [OF space_ok_meta [OF step(2)] pte(3), of a ?e] pte(7) [OF that] pte(8) that
      by (auto simp: mem_wr32)
    moreover have "room ?s pgdir = room s pgdir"
      using room_store [OF step(2) pte(3)] pte(6) by simp
    ultimately show thesis
      using that(2) new(1,2) by (simp add: page_added_def fun_eq_iff)
  qed
qed

section \<open>Removing pages\<close>

lemma kfree_step:
  assumes "kmem_invar s" "good_page s p" "p \<notin> set (kfree_pages s)"
  obtains m f where "kfree p s = Inr (s\<lparr>mem := m, freelist := f\<rparr>)"
    "kmem_invar (s\<lparr>mem := m, freelist := f\<rparr>)"
    "kfree_pages (s\<lparr>mem := m, freelist := f\<rparr>) = p # kfree_pages s"
    "\<And>a. PGROUNDDOWN a \<noteq> p \<Longrightarrow> m a = mem s a"
proof -
  have "kfree p s = Inr (s\<lparr>mem := mem (freed p s), freelist := p\<rparr>)"
    by (simp add: kfree_def kfree_link_eq assms(2) kfree_push_def freed_def)
  moreover have "mem (freed p s) a = mem s a" if "PGROUNDDOWN a \<noteq> p" for a
    using freed_mem(1) [of p s] that assms(2) by (auto simp: same_outside_def good_page_def in_page_iff)
  ultimately show thesis
    using that [of p "mem (freed p s)"] kmem.free_ok [OF assms] by auto
qed

lemma ran_upd_None: "inj_on f (dom f) \<Longrightarrow> f k = Some p \<Longrightarrow> ran (f(k := None)) = ran f - {p}"
  by (auto simp: ran_def inj_on_def dom_def) (metis option.inject)

lemma dealloc_present:
  assumes ok: "space_ok s pgdir" and va: "page_aligned va" "va < KERNBASE"
    and e: "present (entry (mem s) pgdir va)"
  obtains s' where "deallocuvm_body pgdir va s = Inr (va + PGSIZE, s')" "space_step pgdir s s'"
    "entry (mem s') pgdir = (\<lambda>v. if PGROUNDDOWN v = va then 0 else entry (mem s) pgdir v)"
    "kfree_pages s' = P2V (PTE_ADDR (entry (mem s) pgdir va)) # kfree_pages s"
    "\<And>a. PGROUNDDOWN a \<notin> insert (P2V (PTE_ADDR (entry (mem s) pgdir va))) (meta (mem s) pgdir)
       \<Longrightarrow> mem s' a = mem s a"
proof -
  let ?p = "P2V (PTE_ADDR (entry (mem s) pgdir va))"
  obtain t where t: "table (mem s) pgdir (PDX va) = Some t"
    using e by (cases "table (mem s) pgdir (PDX va)") (auto simp: entry_def)
  have leaf: "slot_page (mem s) pgdir (Leaf va) = Some ?p" using va e by simp
  have p: "good_page s ?p" "?p \<notin> set (kfree_pages s)" and inv: "kmem_invar s" and se: "KERNBASE < sym_end s"
    using ok owned_slot [OF leaf] by (auto simp: space_ok_def)
  have "sym_end s \<le> ?p" using p(1) by (simp add: good_page_def)
  then have pa: "PTE_ADDR (entry (mem s) pgdir va) \<noteq> 0"
    using se by (auto simp: P2V_def)
  have notmeta: "?p \<notin> meta (mem s) pgdir" using leaf_not_meta [OF ok leaf] .
  obtain m f where free: "kfree ?p s = Inr (s\<lparr>mem := m, freelist := f\<rparr>)"
    "kmem_invar (s\<lparr>mem := m, freelist := f\<rparr>)"
    "kfree_pages (s\<lparr>mem := m, freelist := f\<rparr>) = ?p # kfree_pages s"
    "\<And>a. PGROUNDDOWN a \<noteq> ?p \<Longrightarrow> m a = mem s a"
    using kfree_step [OF inv p] by blast
  let ?s1 = "s\<lparr>mem := m, freelist := f\<rparr>" and ?s2 = "wr32 (t + 4 * PTX va) 0 (s\<lparr>mem := m, freelist := f\<rparr>)"
  have al: "page_aligned pgdir" using space_ok_aligned [OF ok owned_dir] .
  have agree: "m a = mem s a" if "PGROUNDDOWN a \<in> meta (mem s) pgdir" for a
    using free(4) notmeta that by metis
  have tab: "table m pgdir i = table (mem s) pgdir i" if "unat i < 1024" for i
    using agree that by (intro table_agree [OF al]) (auto simp: meta_def)
  have ent: "entry m pgdir v = entry (mem s) pgdir v" for v
    using agree by (intro entry_agree [OF al]) auto
  have mok: "meta_ok m pgdir"
    using meta_ok_cong [OF space_ok_meta [OF ok] tab] .
  have t': "table m pgdir (PDX va) = Some t" using t tab PDX_less by simp
  have tm: "t \<in> meta (mem s) pgdir" using t PDX_less by (auto simp: meta_def)
  then have tp: "t \<noteq> ?p" "t \<notin> set (kfree_pages s)" "t \<in> owned (mem s) pgdir"
    using notmeta ok meta_owned [of "mem s" pgdir] by (auto simp: space_ok_def)
  have nz: "t + 4 * PTX va \<noteq> 0"
    using ok tp(3) good_page_nonzero table_aligned [OF t]
    by (intro slot_nonzero) (auto simp: space_ok_def PTX_less)
  have body: "deallocuvm_body pgdir va s = Inr (va + PGSIZE, ?s2)"
    using e pa nz free(1) rd32_entry [OF t]
    by (simp add: deallocuvm_body_def walk_lookup t Let_def)
  have entry2: "entry (mem ?s2) pgdir v = (if PGROUNDDOWN v = va then 0 else entry (mem s) pgdir v)" for v
    using store_entry(2) [OF mok t', of 0 v] ent PGROUNDDOWN_aligned [OF va(1)] by (simp add: mem_wr32)
  have slots: "slot_page (mem ?s2) pgdir = (slot_page (mem s) pgdir)(Leaf va := None)"
    using store_slots(1) [OF mok t' va(2), of 0] slot_page_agree [OF al agree]
      PGROUNDDOWN_aligned [OF va(1)] by (simp add: mem_wr32)
  have outside: "mem ?s2 a = m a" if "PGROUNDDOWN a \<noteq> t" for a
    using store_entry(3) [OF mok t' that] by (simp add: mem_wr32)
  have "t \<notin> set (kfree_pages ?s1)" using tp by (simp add: free(3))
  from kmem_invar_page [OF free(2) this, of "mem ?s2"]
  have inv2: "kmem_invar ?s2 \<and> kfree_pages ?s2 = ?p # kfree_pages s"
    using outside by (simp add: wr32_def free(3))
  have inj: "inj_on (slot_page (mem s) pgdir) (dom (slot_page (mem s) pgdir))"
    using ok by (simp add: space_ok_def)
  have own: "owned (mem ?s2) pgdir = owned (mem s) pgdir - {?p}"
    unfolding owned_def slots by (rule ran_upd_None [OF inj leaf])
  have frame: "kmem_frame s ?s2" by (rule kmem_frame_trans [of _ ?s1]) auto
  note same = kmem_frame_same [OF frame]
  have "inj_on (slot_page (mem ?s2) pgdir) (dom (slot_page (mem ?s2) pgdir))"
    unfolding slots using inj by (auto simp: inj_on_def)
  then have "space_ok ?s2 pgdir"
    using ok inv2 by (auto simp: space_ok_def own same)
  moreover have "pool ?s2 pgdir = pool s pgdir"
    using inv2 own owned_slot [OF leaf] by (auto simp: pool_def)
  moreover have "mem ?s2 a = mem s a" if "PGROUNDDOWN a \<notin> pool s pgdir" for a
    using that outside free(4) tp(3) owned_slot [OF leaf] by (metis UnI1 pool_def)
  ultimately have "space_step pgdir s ?s2"
    using frame by (simp add: space_step_def)
  moreover have "mem ?s2 a = mem s a" if "PGROUNDDOWN a \<notin> insert ?p (meta (mem s) pgdir)" for a
    using that outside [of a] free(4) [of a] tm by auto
  ultimately show thesis
    using that [OF body] entry2 inv2 by (simp add: fun_eq_iff)
qed

text \<open>The bytes of the user pages that stay mapped are not touched.\<close>

definition keeps_bytes :: "u32 \<Rightarrow> 'a kmst_scheme \<Rightarrow> 'a kmst_scheme \<Rightarrow> bool" where
  "keeps_bytes pgdir s s' \<longleftrightarrow> (\<forall>v. v < KERNBASE \<longrightarrow> present (entry (mem s') pgdir v)
     \<longrightarrow> entry (mem s') pgdir v = entry (mem s) pgdir v \<and> user_byte (mem s') pgdir v = user_byte (mem s) pgdir v)"

lemma keeps_bytes_trans:
  "keeps_bytes pgdir s t \<Longrightarrow> keeps_bytes pgdir t u \<Longrightarrow> keeps_bytes pgdir s u"
  by (auto simp: keeps_bytes_def)

lemma dealloc_keeps_bytes:
  assumes ok: "space_ok s pgdir" and va: "page_aligned va" "va < KERNBASE"
    and e: "present (entry (mem s) pgdir va)"
    and s': "entry (mem s') pgdir = (\<lambda>v. if PGROUNDDOWN v = va then 0 else entry (mem s) pgdir v)"
      "\<And>a. PGROUNDDOWN a \<notin> insert (P2V (PTE_ADDR (entry (mem s) pgdir va))) (meta (mem s) pgdir)
        \<Longrightarrow> mem s' a = mem s a"
  shows "keeps_bytes pgdir s s'"
  unfolding keeps_bytes_def
proof (intro allI impI)
  fix v assume v: "v < KERNBASE" "present (entry (mem s') pgdir v)"
  let ?p = "P2V (PTE_ADDR (entry (mem s) pgdir v))"
  have ne: "PGROUNDDOWN v \<noteq> va" using v(2) by (auto simp: s'(1))
  then have leaf: "slot_page (mem s) pgdir (Leaf (PGROUNDDOWN v)) = Some ?p"
    using v user_page_below [of v] by (simp add: s'(1))
  have "slot_page (mem s) pgdir (Leaf va) = Some (P2V (PTE_ADDR (entry (mem s) pgdir va)))"
    using va e by simp
  then have "?p \<noteq> P2V (PTE_ADDR (entry (mem s) pgdir va))"
    using space_ok_inj [OF ok leaf, of "Leaf va"] ne by auto
  with leaf_not_meta [OF ok leaf] have "mem s' (?p + (v - PGROUNDDOWN v)) = mem s (?p + (v - PGROUNDDOWN v))"
    by (intro s'(2)) (simp add: page_plus_offset)
  with ne show "entry (mem s') pgdir v = entry (mem s) pgdir v
      \<and> user_byte (mem s') pgdir v = user_byte (mem s) pgdir v"
    by (simp add: user_byte_def s'(1))
qed

lemma unat_next_table:
  assumes "a < KERNBASE"
  shows "unat (PGADDR (PDX a + 1) 0 0) = (unat a div 4194304 + 1) * 4194304"
proof -
  have a: "unat a < 2147483648" using assms by (simp add: word_less_nat_alt KERNBASE_def)
  then have "unat a div 4194304 < 512" by (simp add: less_mult_imp_div_less)
  moreover from this have "unat (PDX a + 1) = unat a div 4194304 + 1"
    by (simp add: unat_add32 unat_PDX)
  moreover have "unat (push_bit 22 x) = unat x * 4194304" if "unat x < 1024" for x :: u32
    using that by (simp add: push_bit_eq_mult unat_word_ariths)
  ultimately show ?thesis
    by (simp add: PGADDR_def PDXSHIFT_def del: push_bit_add)
qed

lemma next_table:
  assumes "a < KERNBASE"
  shows "page_aligned (PGADDR (PDX a + 1) 0 0)" "a < PGADDR (PDX a + 1) 0 0"
    "a \<le> v \<Longrightarrow> v < PGADDR (PDX a + 1) 0 0 \<Longrightarrow> PDX v = PDX a"
proof -
  note n = unat_next_table [OF assms]
  show "page_aligned (PGADDR (PDX a + 1) 0 0)" by (simp add: page_aligned_def n)
  show "a < PGADDR (PDX a + 1) 0 0"
    using dividend_less_div_times [of 4194304 "unat a"] by (simp add: word_less_nat_alt n)
  assume v: "a \<le> v" "v < PGADDR (PDX a + 1) 0 0"
  then have "unat a div 4194304 \<le> unat v div 4194304"
    by (simp add: div_le_mono word_le_nat_alt)
  moreover have "unat v div 4194304 < unat a div 4194304 + 1"
    using v(2) by (intro less_mult_imp_div_less) (simp add: word_less_nat_alt n)
  ultimately show "PDX v = PDX a"
    by (simp add: word_unat_eq_iff unat_PDX)
qed

definition cleared :: "u32 \<Rightarrow> u32 \<Rightarrow> (u32 \<Rightarrow> u32) \<Rightarrow> u32 \<Rightarrow> u32" where
  "cleared lo hi f v =
     (if lo \<le> PGROUNDDOWN v \<and> PGROUNDDOWN v < hi \<and> present (f v) then 0 else f v)"

lemma page_aligned_next:
  assumes "page_aligned a" "a < KERNBASE"
  shows "page_aligned (a + PGSIZE)" "a < a + PGSIZE" "unat (a + PGSIZE) = unat a + 4096"
    "page_aligned v \<Longrightarrow> a \<le> v \<Longrightarrow> v \<noteq> a \<Longrightarrow> a + PGSIZE \<le> v"
proof -
  have u: "unat (a + PGSIZE) = unat a + 4096"
    using assms(2) by (simp add: unat_add32 PGSIZE_def word_less_nat_alt KERNBASE_def)
  then show "unat (a + PGSIZE) = unat a + 4096" "a < a + PGSIZE"
    by (simp_all add: word_less_nat_alt)
  show "page_aligned (a + PGSIZE)"
    using assms(1) by (intro page_aligned_add) (simp_all add: page_aligned_def PGSIZE_def)
  assume v: "page_aligned v" "a \<le> v" "v \<noteq> a"
  then obtain i j where "unat a = 4096 * i" "unat v = 4096 * j"
    using assms(1) by (auto simp: page_aligned_def dvd_def)
  moreover have "unat a < unat v"
    using v(2,3) by (simp add: word_le_nat_alt word_unat_eq_iff)
  ultimately show "a + PGSIZE \<le> v" by (simp add: word_le_nat_alt u)
qed

lemma cleared_step:
  assumes "page_aligned a" "a < KERNBASE" "a < hi"
    and "\<And>v. g v = (if PGROUNDDOWN v = a \<and> present (f v) then 0 else f v)"
  shows "cleared (a + PGSIZE) hi g = cleared a hi f"
proof
  fix v
  have "a + PGSIZE \<le> PGROUNDDOWN v \<longleftrightarrow> a \<le> PGROUNDDOWN v \<and> PGROUNDDOWN v \<noteq> a"
    using page_aligned_next(2) [OF assms(1,2)]
      page_aligned_next(4) [OF assms(1,2) page_aligned_PGROUNDDOWN, of v] by auto
  then show "cleared (a + PGSIZE) hi g v = cleared a hi f v"
    using assms(3) by (cases "PGROUNDDOWN v = a") (simp_all add: cleared_def assms(4))
qed

lemma dealloc_body:
  assumes ok: "space_ok s pgdir" and a: "page_aligned a" "a < KERNBASE" "a < hi"
  obtains a' s1 where "deallocuvm_body pgdir a s = Inr (a', s1)" "a < a'" "page_aligned a'"
    "space_step pgdir s s1"
    "cleared a' hi (entry (mem s1) pgdir) = cleared a hi (entry (mem s) pgdir)"
    "keeps_bytes pgdir s s1"
proof (cases "present (entry (mem s) pgdir a)")
  case pres: True
  from dealloc_present [OF ok a(1,2) pres] obtain s1 where
    s1: "deallocuvm_body pgdir a s = Inr (a + PGSIZE, s1)" "space_step pgdir s s1"
      "entry (mem s1) pgdir = (\<lambda>v. if PGROUNDDOWN v = a then 0 else entry (mem s) pgdir v)"
      "\<And>b. PGROUNDDOWN b \<notin> insert (P2V (PTE_ADDR (entry (mem s) pgdir a))) (meta (mem s) pgdir)
        \<Longrightarrow> mem s1 b = mem s b"
    by blast
  have "present (entry (mem s) pgdir v)" if "PGROUNDDOWN v = a" for v
    using pres entry_PGROUNDDOWN [of "mem s" pgdir v] that by simp
  then have "cleared (a + PGSIZE) hi (entry (mem s1) pgdir) = cleared a hi (entry (mem s) pgdir)"
    by (intro cleared_step [OF a]) (simp add: s1(3))
  then show thesis
    using that s1(1,2) page_aligned_next [OF a(1,2)] dealloc_keeps_bytes [OF ok a(1,2) pres s1(3,4)] by blast
next
  case absent: False
  have keep: "keeps_bytes pgdir s s" by (simp add: keeps_bytes_def)
  show thesis
  proof (cases "table (mem s) pgdir (PDX a)")
    case None
    have zero: "entry (mem s) pgdir v = 0"
      if "a \<le> PGROUNDDOWN v" "PGROUNDDOWN v < PGADDR (PDX a + 1) 0 0" for v
    proof -
      have "entry (mem s) pgdir (PGROUNDDOWN v) = 0"
        using next_table(3) [OF a(2) that] None by (simp add: entry_def del: entry_PGROUNDDOWN)
      then show ?thesis by simp
    qed
    have "cleared (PGADDR (PDX a + 1) 0 0) hi (entry (mem s) pgdir) = cleared a hi (entry (mem s) pgdir)"
      (is "?l = ?r")
    proof
      fix v
      show "?l v = ?r v"
        using next_table(2) [OF a(2)] zero [of v] by (auto simp: cleared_def not_le)
    qed
    moreover have "deallocuvm_body pgdir a s = Inr (PGADDR (PDX a + 1) 0 0, s)"
      using None by (simp add: deallocuvm_body_def walk_lookup)
    ultimately show thesis
      using that next_table(1,2) [OF a(2)] space_step_refl [OF ok] keep by blast
  next
    case (Some t)
    have "t \<noteq> 0"
      using ok owned_table [OF PDX_less Some] good_page_nonzero by (auto simp: space_ok_def)
    then have "t + 4 * PTX a \<noteq> 0"
      using table_aligned [OF Some] by (intro slot_nonzero) (auto simp: PTX_less)
    then have "deallocuvm_body pgdir a s = Inr (a + PGSIZE, s)"
      using absent by (simp add: deallocuvm_body_def walk_lookup Some rd32_entry [OF Some])
    moreover have "\<not> present (entry (mem s) pgdir v)" if "PGROUNDDOWN v = a" for v
      using absent entry_PGROUNDDOWN [of "mem s" pgdir v] that by simp
    then have "cleared (a + PGSIZE) hi (entry (mem s) pgdir) = cleared a hi (entry (mem s) pgdir)"
      by (intro cleared_step [OF a]) auto
    ultimately show thesis
      using that page_aligned_next [OF a(1,2)] space_step_refl [OF ok] keep by blast
  qed
qed

lemma dealloc_loop:
  assumes "space_ok s pgdir" "page_aligned a" "oldsz \<le> KERNBASE"
  shows "\<exists>s'. deallocuvm_loop pgdir a oldsz s = Inr s' \<and> space_step pgdir s s'
    \<and> entry (mem s') pgdir = cleared a oldsz (entry (mem s) pgdir) \<and> keeps_bytes pgdir s s'"
  using assms
proof (induction "unat oldsz - unat a" arbitrary: a s rule: less_induct)
  case less
  show ?case
  proof (cases "a < oldsz")
    case False
    then have "cleared a oldsz (entry (mem s) pgdir) = entry (mem s) pgdir"
      by (auto simp: cleared_def fun_eq_iff)
    with False less.prems(1) show ?thesis
      by (simp add: deallocuvm_loop.simps space_step_refl keeps_bytes_def)
  next
    case True
    then have ka: "a < KERNBASE" using less.prems(3) by simp
    from dealloc_body [OF less.prems(1,2) ka True] obtain a' s1 where
      body: "deallocuvm_body pgdir a s = Inr (a', s1)" "a < a'" "page_aligned a'"
        "space_step pgdir s s1"
        "cleared a' oldsz (entry (mem s1) pgdir) = cleared a oldsz (entry (mem s) pgdir)"
        "keeps_bytes pgdir s s1" by blast
    have "unat oldsz - unat a' < unat oldsz - unat a"
      using True body(2) by (simp add: word_less_nat_alt)
    from less.hyps [OF this space_step_ok [OF body(4)] body(3) less.prems(3)] obtain s2 where
      s2: "deallocuvm_loop pgdir a' oldsz s1 = Inr s2" "space_step pgdir s1 s2"
        "entry (mem s2) pgdir = cleared a' oldsz (entry (mem s1) pgdir)" "keeps_bytes pgdir s1 s2" by blast
    moreover have "deallocuvm_loop pgdir a oldsz s = Inr s2"
      using True body(1,2) s2(1) by (simp add: deallocuvm_loop.simps [of pgdir a] not_le)
    ultimately show ?thesis
      using body(5) space_step_trans [OF body(4) s2(2)] keeps_bytes_trans [OF body(6) s2(4)] by simp
  qed
qed

end
