(* ===== verification/Vm_Ops.thy ===== *)
theory Vm_Ops
  imports Vm_Space
begin

text \<open>
  The operations of \<^verbatim>\<open>vm.c\<close> on well formed address spaces: tearing one down gives every page
  back, building the kernel half maps what the table \<^verbatim>\<open>kmap\<close> says, growing adds zeroed pages,
  and copying for \<^verbatim>\<open>fork\<close> duplicates the user memory without touching the parent's.
\<close>

section \<open>Shrinking and freeing\<close>

lemma deallocuvm_ok:
  assumes "space_ok s pgdir" "oldsz \<le> KERNBASE" "newsz < oldsz"
  obtains s' where "deallocuvm pgdir oldsz newsz s = Inr (newsz, s')" "space_step pgdir s s'"
    "entry (mem s') pgdir = cleared (PGROUNDUP newsz) oldsz (entry (mem s) pgdir)"
    "keeps_bytes pgdir s s'"
proof -
  obtain s' where s': "deallocuvm_loop pgdir (PGROUNDUP newsz) oldsz s = Inr s'"
    "space_step pgdir s s'" "entry (mem s') pgdir = cleared (PGROUNDUP newsz) oldsz (entry (mem s) pgdir)"
    "keeps_bytes pgdir s s'"
    using dealloc_loop [OF assms(1) page_aligned_PGROUNDUP [of newsz] assms(2)] by blast
  then have "deallocuvm pgdir oldsz newsz s = Inr (newsz, s')"
    using assms(3) by (simp add: deallocuvm_def not_le [symmetric])
  with s' that show thesis by blast
qed

definition tables_from :: "memory \<Rightarrow> u32 \<Rightarrow> nat \<Rightarrow> u32 set" where
  "tables_from m pgdir k = {t. \<exists>i. k \<le> unat i \<and> unat i < 1024 \<and> table m pgdir i = Some t}"

lemma tables_from_step:
  assumes "k < 1024"
  shows "tables_from m pgdir k
    = (case table m pgdir (of_nat k) of None \<Rightarrow> {} | Some t \<Rightarrow> {t}) \<union> tables_from m pgdir (Suc k)"
proof -
  have "k \<le> unat i \<longleftrightarrow> i = of_nat k \<or> Suc k \<le> unat i" for i :: u32
    using assms by (auto simp: le_less Suc_le_eq unat_of_nat32)
  then show ?thesis
    using assms by (fastforce simp: tables_from_def unat_of_nat32 split: option.splits)
qed

lemma freevm_loop_ok:
  assumes "n + k = 1024" "kmem_invar s" "meta_ok (mem s) pgdir"
    and "\<And>t. t \<in> tables_from (mem s) pgdir k \<Longrightarrow> good_page s t \<and> t \<notin> set (kfree_pages s)"
  shows "\<exists>s'. freevm_loop n pgdir (of_nat k) s = Inr s' \<and> kmem_frame s s' \<and> kmem_invar s'
    \<and> set (kfree_pages s') = tables_from (mem s) pgdir k \<union> set (kfree_pages s)
    \<and> (\<forall>a. PGROUNDDOWN a \<notin> tables_from (mem s) pgdir k \<longrightarrow> mem s' a = mem s a)"
  using assms
proof (induction n arbitrary: k s)
  case 0
  then have "tables_from (mem s) pgdir k = {}" by (auto simp: tables_from_def)
  with 0 show ?case by simp
next
  case (Suc n)
  then have k: "k < 1024" "n + Suc k = 1024" and uk: "unat (of_nat k :: u32) = k" by (simp_all add: unat_of_nat32)
  have succ: "of_nat k + (1 :: u32) = of_nat (Suc k)" by simp
  show ?case
  proof (cases "table (mem s) pgdir (of_nat k)")
    case None
    then have "freevm_loop (Suc n) pgdir (of_nat k) s = freevm_loop n pgdir (of_nat (Suc k)) s"
      by (auto simp: table_def rd32_def Let_def add.commute split: if_splits)
    moreover have "tables_from (mem s) pgdir k = tables_from (mem s) pgdir (Suc k)"
      using tables_from_step [OF k(1), of "mem s" pgdir] None by simp
    ultimately show ?thesis
      using Suc.IH [OF k(2) Suc.prems(2,3)] Suc.prems(4) by simp
  next
    case (Some t)
    note split = tables_from_step [OF k(1), of "mem s" pgdir, unfolded Some, simplified]
    have t: "good_page s t" "t \<notin> set (kfree_pages s)" "t \<noteq> pgdir"
      using Suc.prems(4) [of t] split table_not_dir [OF Suc.prems(3) _ Some] uk k(1) by auto
    obtain m f where free: "kfree t s = Inr (s\<lparr>mem := m, freelist := f\<rparr>)"
      "kmem_invar (s\<lparr>mem := m, freelist := f\<rparr>)"
      "kfree_pages (s\<lparr>mem := m, freelist := f\<rparr>) = t # kfree_pages s"
      "\<And>a. PGROUNDDOWN a \<noteq> t \<Longrightarrow> m a = mem s a"
      using kfree_step [OF Suc.prems(2) t(1,2)] by blast
    let ?s = "s\<lparr>mem := m, freelist := f\<rparr>"
    have al: "page_aligned pgdir" using Suc.prems(3) by (simp add: meta_ok_def)
    have tab: "table m pgdir i = table (mem s) pgdir i" if "unat i < 1024" for i
      using free(4) t(3) by (intro table_agree [OF al that]) auto
    have frm: "tables_from m pgdir (Suc k) = tables_from (mem s) pgdir (Suc k)"
      using tab by (auto simp: tables_from_def)
    have "t \<notin> tables_from (mem s) pgdir (Suc k)"
      using table_inj [OF Suc.prems(3) _ _ Some] uk k(1) by (fastforce simp: tables_from_def)
    then have "good_page ?s u \<and> u \<notin> set (kfree_pages ?s)"
      if "u \<in> tables_from (mem ?s) pgdir (Suc k)" for u
      using that frm Suc.prems(4) [of u] split free(3) by auto
    moreover have "meta_ok (mem ?s) pgdir"
      using meta_ok_cong [OF Suc.prems(3) tab] by simp
    ultimately obtain s' where s': "freevm_loop n pgdir (of_nat (Suc k)) ?s = Inr s'" "kmem_frame ?s s'"
      "kmem_invar s'" "set (kfree_pages s') = tables_from m pgdir (Suc k) \<union> set (kfree_pages ?s)"
      "\<forall>a. PGROUNDDOWN a \<notin> tables_from m pgdir (Suc k) \<longrightarrow> mem s' a = m a"
      using Suc.IH [OF k(2) free(2)] by fastforce
    have "freevm_loop (Suc n) pgdir (of_nat k) s = Inr s'"
      using Some free(1) s'(1)
      by (auto simp: table_def rd32_def Let_def add.commute split: if_splits)
    moreover have "kmem_frame s s'"
      by (rule kmem_frame_trans [OF _ s'(2)]) auto
    ultimately show ?thesis
      using s'(3-5) free(3,4) split frm by auto
  qed
qed

lemma owned_user_empty:
  assumes "\<And>v. v < KERNBASE \<Longrightarrow> \<not> present (entry m pgdir v)"
  shows "owned m pgdir = insert pgdir (tables_from m pgdir 0)"
proof -
  have "slot_page m pgdir x = Some p \<longleftrightarrow>
      (x = Dir \<and> p = pgdir) \<or> (\<exists>i. x = Tab i \<and> unat i < 1024 \<and> table m pgdir i = Some p)" for x p
    using assms by (cases x) auto
  then show ?thesis by (auto simp: owned_def ran_def tables_from_def)
qed

lemma freevm_ok:
  assumes ok: "space_ok s pgdir"
  obtains s' where "freevm pgdir s = Inr s'" "kmem_frame s s'" "kmem_invar s'"
    "set (kfree_pages s') = pool s pgdir"
    "\<And>a. PGROUNDDOWN a \<notin> pool s pgdir \<Longrightarrow> mem s' a = mem s a"
proof -
  have "0 < KERNBASE" by (simp add: KERNBASE_def)
  from deallocuvm_ok [OF ok order_refl this] obtain s1 where
    s1: "deallocuvm pgdir KERNBASE 0 s = Inr (0, s1)" "space_step pgdir s s1"
      "entry (mem s1) pgdir = cleared (PGROUNDUP 0) KERNBASE (entry (mem s) pgdir)" by blast
  have up0: "PGROUNDUP 0 = 0" by (simp add: PGROUNDUP_def PGSIZE_def)
  have "\<not> present (entry (mem s1) pgdir v)" if "v < KERNBASE" for v
    using that user_page_below [of v] by (simp add: s1(3) cleared_def up0)
  note own = owned_user_empty [OF this]
  have step: "kmem_frame s s1" "space_ok s1 pgdir" "pool s1 pgdir = pool s pgdir"
    "\<And>a. PGROUNDDOWN a \<notin> pool s pgdir \<Longrightarrow> mem s1 a = mem s a"
    using s1(2) by (auto simp: space_step_def)
  let ?T = "tables_from (mem s1) pgdir 0"
  have T: "good_page s1 t \<and> t \<notin> set (kfree_pages s1)" if "t \<in> ?T" for t
    using step(2) own that by (auto simp: space_ok_def)
  have inv: "kmem_invar s1" "good_page s1 pgdir" "pgdir \<notin> set (kfree_pages s1)"
    using step(2) owned_dir by (auto simp: space_ok_def)
  from freevm_loop_ok [of 1024 0 s1 pgdir, OF _ inv(1) space_ok_meta [OF step(2)] T] obtain s2 where
    s2: "freevm_loop 1024 pgdir 0 s1 = Inr s2" "kmem_frame s1 s2" "kmem_invar s2"
      "set (kfree_pages s2) = ?T \<union> set (kfree_pages s1)"
      "\<And>a. PGROUNDDOWN a \<notin> ?T \<Longrightarrow> mem s2 a = mem s1 a" by auto
  have "pgdir \<notin> ?T"
    using table_not_dir [OF space_ok_meta [OF step(2)]] by (auto simp: tables_from_def)
  then have pg: "good_page s2 pgdir" "pgdir \<notin> set (kfree_pages s2)"
    using inv s2(4) kmem_frame_same(1) [OF s2(2)] by auto
  obtain m f where free: "kfree pgdir s2 = Inr (s2\<lparr>mem := m, freelist := f\<rparr>)"
    "kmem_invar (s2\<lparr>mem := m, freelist := f\<rparr>)"
    "kfree_pages (s2\<lparr>mem := m, freelist := f\<rparr>) = pgdir # kfree_pages s2"
    "\<And>a. PGROUNDDOWN a \<noteq> pgdir \<Longrightarrow> m a = mem s2 a"
    using kfree_step [OF s2(3) pg] by blast
  let ?s = "s2\<lparr>mem := m, freelist := f\<rparr>"
  have pool: "pool s pgdir = insert pgdir ?T \<union> set (kfree_pages s1)"
    using step(3) own by (simp add: pool_def)
  have "pgdir \<noteq> 0" using good_page_nonzero [OF inv(2)] .
  then have "freevm pgdir s = Inr ?s"
    using s1(1) s2(1) free(1) by (simp add: freevm_def NPDENTRIES_def)
  moreover have "kmem_frame s ?s"
    by (rule kmem_frame_trans [OF kmem_frame_trans [OF step(1) s2(2)]]) (rule kmem_frameI)
  moreover have "set (kfree_pages ?s) = pool s pgdir"
    using pool s2(4) free(3) by auto
  moreover have "mem ?s a = mem s a" if "PGROUNDDOWN a \<notin> pool s pgdir" for a
    using that pool free(4) [of a] s2(5) [of a] step(4) [of a] by auto
  ultimately show thesis using that free(2) by blast
qed

section \<open>The kernel half\<close>

lemma word_diff_le:
  fixes a l x :: u32
  assumes "a \<le> l"
  shows "x - a \<le> l - a \<longleftrightarrow> a \<le> x \<and> x \<le> l"
proof (cases "a \<le> x")
  case True
  then have "unat (x - a) = unat x - unat a" "unat (l - a) = unat l - unat a"
    "unat a \<le> unat x" "unat a \<le> unat l"
    using assms by (simp_all add: unat_sub word_le_nat_alt)
  with True show ?thesis unfolding word_le_nat_alt by linarith
next
  case False
  then have "unat x < unat a" "unat a \<le> unat l" "unat (l - a) = unat l - unat a"
    using assms by (simp_all add: unat_sub word_le_nat_alt)
  moreover have "unat (x - a) = unat x + 4294967296 - unat a"
    using False by (simp add: unat_sub_if_size word_size word_le_nat_alt)
  ultimately have "\<not> unat (x - a) \<le> unat (l - a)"
    using unat32_less [of l] unat32_less [of a] by linarith
  with False show ?thesis by (simp add: word_le_nat_alt)
qed

definition mapped_range ::
  "u32 \<Rightarrow> u32 \<Rightarrow> u32 \<Rightarrow> u32 \<Rightarrow> (u32 \<Rightarrow> u32) \<Rightarrow> u32 \<Rightarrow> u32" where
  "mapped_range a lst pa perm f v =
     (if PGROUNDDOWN v - a \<le> lst - a then (pa + (PGROUNDDOWN v - a)) OR perm OR PTE_P else f v)"

lemma page_distance_step:
  assumes "page_aligned (lst - a)" "a \<noteq> lst" "page_aligned (v - a)"
  shows "v - a \<le> lst - a \<longleftrightarrow> v = a \<or> v - (a + PGSIZE) \<le> lst - (a + PGSIZE)"
proof (cases "v = a")
  case False
  have "unat (v - (a + PGSIZE)) + 4096 = unat (v - a)" "unat (lst - (a + PGSIZE)) + 4096 = unat (lst - a)"
    using page_step_less [of a v] page_step_less [of a lst] False assms by auto
  with False show ?thesis unfolding word_le_nat_alt by linarith
qed simp

lemma page_distance_0:
  assumes "page_aligned (lst - a)" "a \<noteq> lst"
  shows "\<not> a - (a + PGSIZE) \<le> lst - (a + PGSIZE)"
proof -
  have "unat (lst - (a + PGSIZE)) + 4096 = unat (lst - a)"
    using page_step_less assms by blast
  moreover have "unat (a - (a + PGSIZE)) = 4294963200"
    by (simp add: PGSIZE_def)
  ultimately show ?thesis
    using unat32_less [of "lst - a"] by (simp add: word_le_nat_alt)
qed

lemma page_aligned_diff: "page_aligned a \<Longrightarrow> page_aligned b \<Longrightarrow> page_aligned (a - b)"
  for a b :: u32
proof -
  assume "page_aligned a" "page_aligned b"
  then show ?thesis
    using unat32_less [of b]
    by (simp add: page_aligned_def mod_eq_0_iff_dvd unat_sub_if_size word_size dvd_diff_nat)
qed

lemma mapped_range_step:
  assumes "page_aligned a" "page_aligned lst" "a \<noteq> lst"
    and g: "\<And>v. g v = (if PGROUNDDOWN v = a then pa OR perm OR PTE_P else f v)"
  shows "mapped_range (a + PGSIZE) lst (pa + PGSIZE) perm g = mapped_range a lst pa perm f"
proof
  fix v
  have dist: "PGROUNDDOWN v - a \<le> lst - a
      \<longleftrightarrow> PGROUNDDOWN v = a \<or> PGROUNDDOWN v - (a + PGSIZE) \<le> lst - (a + PGSIZE)"
    using assms(1-3) by (intro page_distance_step page_aligned_diff) auto
  have "\<not> a - (a + PGSIZE) \<le> lst - (a + PGSIZE)"
    using assms(1-3) by (intro page_distance_0 page_aligned_diff) auto
  with dist show "mapped_range (a + PGSIZE) lst (pa + PGSIZE) perm g v = mapped_range a lst pa perm f v"
    by (cases "PGROUNDDOWN v = a") (auto simp: mapped_range_def g)
qed

lemma map_kernel:
  assumes "space_ok s pgdir" "page_aligned a" "page_aligned lst"
    and "\<And>v. PGROUNDDOWN v - a \<le> lst - a \<Longrightarrow> \<not> v < KERNBASE \<and> \<not> present (entry (mem s) pgdir v)"
  shows "\<exists>r s'. mappages_loop pgdir a lst pa perm s = Inr (r, s') \<and> space_step pgdir s s'
    \<and> (r = - 1 \<and> room s pgdir < 1024
       \<or> r = 0 \<and> room s' pgdir = room s pgdir
         \<and> entry (mem s') pgdir = mapped_range a lst pa perm (entry (mem s) pgdir))"
  using assms
proof (induction "unat (lst - a)" arbitrary: a pa s rule: less_induct)
  case less
  have here: "PGROUNDDOWN a = a" using less.prems(2) by (rule PGROUNDDOWN_aligned)
  then have a: "\<not> a < KERNBASE" "\<not> present (entry (mem s) pgdir a)"
    using less.prems(4) [of a] by auto
  from less.prems(1) show ?case
  proof (cases rule: walk_alloc [where va = a])
    case (none h)
    have "room s pgdir < 1024" using none(2) room_full [OF none(4)] by (simp add: room_def)
    then show ?thesis using none(1,3) by (simp add: mappages_loop.simps)
  next
    case (pte t s1)
    let ?e = "pa OR perm OR PTE_P" and ?s = "wr32 (t + 4 * PTX a) (pa OR perm OR PTE_P) s1"
    note ok1 = space_step_ok [OF pte(5)]
    have step: "space_step pgdir s ?s"
      using pte(5) store_kernel_step [OF ok1 pte(3) a(1)] by (rule space_step_trans)
    have room: "room ?s pgdir = room s pgdir"
      using room_store [OF ok1 pte(3)] pte(6) by simp
    have ent: "entry (mem ?s) pgdir v = (if PGROUNDDOWN v = a then ?e else entry (mem s) pgdir v)" for v
      using store_entry(2) [OF space_ok_meta [OF ok1] pte(3), of ?e v] here pte(4)
      by (simp add: mem_wr32)
    have pres: "rd32 (t + 4 * PTX a) s1 AND PTE_P = 0"
      using a(2) pte(4) by (simp add: rd32_entry [OF pte(3)])
    have al: "page_aligned (lst - a)" using less.prems(2,3) by (rule page_aligned_diff [rotated])
    show ?thesis
    proof (cases "a = lst")
      case True
      then have "mappages_loop pgdir a lst pa perm s = Inr (0, ?s)"
        using pte(1,2) pres by (simp add: mappages_loop.simps)
      moreover have "entry (mem ?s) pgdir v = mapped_range a lst pa perm (entry (mem s) pgdir) v" for v
        unfolding ent using True by (simp add: mapped_range_def)
      ultimately show ?thesis using step room by (auto simp: fun_eq_iff)
    next
      case False
      have "unat (lst - (a + PGSIZE)) < unat (lst - a)"
        using page_step_less [OF False al] by simp
      moreover have "page_aligned (a + PGSIZE)"
        using less.prems(2) by (intro page_aligned_add) (simp_all add: page_aligned_def PGSIZE_def)
      moreover have "\<not> v < KERNBASE \<and> \<not> present (entry (mem ?s) pgdir v)"
        if "PGROUNDDOWN v - (a + PGSIZE) \<le> lst - (a + PGSIZE)" for v
      proof -
        have "PGROUNDDOWN v \<noteq> a" using page_distance_0 [OF al False] that by auto
        moreover have "PGROUNDDOWN v - a \<le> lst - a"
          using that page_distance_step [OF al False page_aligned_diff, of "PGROUNDDOWN v"] less.prems(2)
          by simp
        ultimately show ?thesis using less.prems(4) [of v] by (simp add: ent)
      qed
      ultimately obtain r s' where
        s': "mappages_loop pgdir (a + PGSIZE) lst (pa + PGSIZE) perm ?s = Inr (r, s')"
          "space_step pgdir ?s s'"
          "r = - 1 \<and> room ?s pgdir < 1024 \<or> r = 0 \<and> room s' pgdir = room ?s pgdir
            \<and> entry (mem s') pgdir = mapped_range (a + PGSIZE) lst (pa + PGSIZE) perm (entry (mem ?s) pgdir)"
        using less.hyps [of "a + PGSIZE" ?s "pa + PGSIZE"] space_step_ok [OF step] less.prems(3) by blast
      have "mappages_loop pgdir a lst pa perm s = Inr (r, s')"
        using pte(1,2) pres False al s'(1) by (simp add: mappages_loop.simps [of pgdir a])
      moreover note mapped_range_step [OF less.prems(2,3) False ent]
      ultimately show ?thesis
        using s'(3) room space_step_trans [OF step s'(2)] by auto
    qed
  qed
qed

definition last_page :: "kmap_entry \<Rightarrow> u32" where
  "last_page k = PGROUNDDOWN (virt k + (phys_end k - phys_start k) - 1)"

definition in_region :: "kmap_entry \<Rightarrow> u32 \<Rightarrow> bool" where
  "in_region k v \<longleftrightarrow> virt k \<le> PGROUNDDOWN v \<and> PGROUNDDOWN v \<le> last_page k"

definition map_region :: "kmap_entry \<Rightarrow> (u32 \<Rightarrow> u32) \<Rightarrow> u32 \<Rightarrow> u32" where
  "map_region k f v = (if in_region k v
     then (phys_start k + (PGROUNDDOWN v - virt k)) OR kperm k OR PTE_P else f v)"

fun regions_ok :: "kmap_entry list \<Rightarrow> (u32 \<Rightarrow> u32) \<Rightarrow> bool" where
  "regions_ok [] f \<longleftrightarrow> True"
| "regions_ok (k # ks) f \<longleftrightarrow> page_aligned (virt k) \<and> KERNBASE \<le> virt k \<and> virt k \<le> last_page k
     \<and> (\<forall>v. in_region k v \<longrightarrow> \<not> present (f v)) \<and> regions_ok ks (map_region k f)"

lemma kernel_page: "KERNBASE \<le> PGROUNDDOWN v \<longleftrightarrow> \<not> v < KERNBASE"
  using user_page_below [of v] by (simp add: not_less [symmetric])

lemma mappages_region:
  assumes ok: "space_ok s pgdir" and k: "regions_ok (k # ks) (entry (mem s) pgdir)"
  shows "\<exists>r s'. mappages pgdir (virt k) (phys_end k - phys_start k) (phys_start k) (kperm k) s = Inr (r, s')
    \<and> space_step pgdir s s'
    \<and> (r = - 1 \<and> room s pgdir < 1024
       \<or> r = 0 \<and> room s' pgdir = room s pgdir
         \<and> entry (mem s') pgdir = map_region k (entry (mem s) pgdir))"
proof -
  have range: "PGROUNDDOWN v - virt k \<le> last_page k - virt k \<longleftrightarrow> in_region k v" for v
    using k word_diff_le [of "virt k" "last_page k"] by (simp add: in_region_def)
  have "\<not> v < KERNBASE \<and> \<not> present (entry (mem s) pgdir v)"
    if "PGROUNDDOWN v - virt k \<le> last_page k - virt k" for v
    using that k kernel_page [of v] unfolding range by (auto simp: in_region_def)
  moreover have "page_aligned (virt k)" "page_aligned (last_page k)"
    using k by (simp_all add: last_page_def)
  moreover have "mapped_range (virt k) (last_page k) (phys_start k) (kperm k) f = map_region k f" for f
    by (simp add: fun_eq_iff mapped_range_def map_region_def range)
  ultimately show ?thesis
    using map_kernel [OF ok, of "virt k" "last_page k" "phys_start k" "kperm k"]
    by (simp add: mappages_def PGROUNDDOWN_aligned last_page_def)
qed

definition freed_all :: "u32 set \<Rightarrow> 'a kmst_scheme \<Rightarrow> 'a kmst_scheme \<Rightarrow> bool" where
  "freed_all P s s' \<longleftrightarrow> kmem_frame s s' \<and> kmem_invar s' \<and> set (kfree_pages s') = P
     \<and> (\<forall>a. PGROUNDDOWN a \<notin> P \<longrightarrow> mem s' a = mem s a)"

lemma freevm_freed_all: "space_ok s pgdir \<Longrightarrow> \<exists>s'. freevm pgdir s = Inr s' \<and> freed_all (pool s pgdir) s s'"
  using freevm_ok [of s pgdir] unfolding freed_all_def by metis

lemma freed_all_after:
  "space_step pgdir s s1 \<Longrightarrow> freed_all (pool s1 pgdir) s1 s2 \<Longrightarrow> freed_all (pool s pgdir) s s2"
  by (auto simp: freed_all_def space_step_def intro: kmem_frame_trans)

lemma freed_all_frame:
  assumes "kmem_frame s t" "\<And>a. PGROUNDDOWN a \<notin> P \<Longrightarrow> mem t a = mem s a"
  shows "freed_all P t u \<Longrightarrow> freed_all P s u"
  using assms kmem_frame_trans by (auto simp: freed_all_def)

lemma setupkvm_loop_ok:
  assumes "space_ok s pgdir" "regions_ok ks (entry (mem s) pgdir)"
  shows "\<exists>d s'. setupkvm_loop ks pgdir s = Inr (d, s')
    \<and> (d = 0 \<and> room s pgdir < 1024 \<and> freed_all (pool s pgdir) s s'
       \<or> d = pgdir \<and> space_step pgdir s s' \<and> room s' pgdir = room s pgdir
         \<and> entry (mem s') pgdir = fold map_region ks (entry (mem s) pgdir))"
  using assms
proof (induction ks arbitrary: s)
  case Nil
  then show ?case by (simp add: space_step_refl)
next
  case (Cons k ks)
  from mappages_region [OF Cons.prems] obtain r s1 where
    s1: "mappages pgdir (virt k) (phys_end k - phys_start k) (phys_start k) (kperm k) s = Inr (r, s1)"
      "space_step pgdir s s1"
      "r = - 1 \<and> room s pgdir < 1024 \<or> r = 0 \<and> room s1 pgdir = room s pgdir
         \<and> entry (mem s1) pgdir = map_region k (entry (mem s) pgdir)" by blast
  note ok1 = space_step_ok [OF s1(2)]
  show ?case
  proof (cases "r < 0")
    case True
    with freevm_freed_all [OF ok1] s1 freed_all_after [OF s1(2)] show ?thesis by auto
  next
    case False
    with s1(3) have s1': "room s1 pgdir = room s pgdir"
      "entry (mem s1) pgdir = map_region k (entry (mem s) pgdir)" by auto
    then have "regions_ok ks (entry (mem s1) pgdir)" using Cons.prems(2) by simp
    from Cons.IH [OF ok1 this] obtain d s2 where
      s2: "setupkvm_loop ks pgdir s1 = Inr (d, s2)"
        "d = 0 \<and> room s1 pgdir < 1024 \<and> freed_all (pool s1 pgdir) s1 s2
         \<or> d = pgdir \<and> space_step pgdir s1 s2 \<and> room s2 pgdir = room s1 pgdir
           \<and> entry (mem s2) pgdir = fold map_region ks (entry (mem s1) pgdir)" by blast
    moreover have "setupkvm_loop (k # ks) pgdir s = Inr (d, s2)"
      using False s1(1) s2(1) by simp
    ultimately show ?thesis
      using s1' space_step_trans [OF s1(2)] freed_all_after [OF s1(2)]
      by (intro exI [of _ d] exI [of _ s2]) (auto simp del: setupkvm_loop.simps)
  qed
qed

text \<open>
  What the linker script gives: the kernel's data segment starts on a page boundary inside
  the mapped memory, and the kernel image ends above the base address.
\<close>

definition kernel_image :: "'a kmst_scheme \<Rightarrow> bool" where
  "kernel_image s \<longleftrightarrow> page_aligned (sym_data s) \<and> KERNLINK < sym_data s
     \<and> sym_data s < P2V PHYSTOP \<and> KERNBASE < sym_end s"

definition kern_entry :: "u32 \<Rightarrow> u32 \<Rightarrow> u32" where
  "kern_entry dat v = (let p = PGROUNDDOWN v in
     if p < KERNBASE then 0
     else if p < KERNLINK then V2P p OR PTE_W OR PTE_P
     else if p < dat then V2P p OR 0 OR PTE_P
     else if p < P2V PHYSTOP then V2P p OR PTE_W OR PTE_P
     else if p < DEVSPACE then 0
     else p OR PTE_W OR PTE_P)"

lemma page_before:
  assumes "page_aligned p" "page_aligned d" "d \<noteq> 0"
  shows "p \<le> PGROUNDDOWN (d - 1) \<longleftrightarrow> p < d"
proof -
  obtain i j where ij: "unat p = 4096 * i" "unat d = 4096 * j"
    using assms(1,2) by (auto simp: page_aligned_def dvd_def)
  have j: "0 < j" using assms(3) ij(2) by (cases j) (auto simp: word_unat_eq_iff)
  have "unat (d - 1) = 4096 * j - 1"
    using assms(3) ij(2) by (simp add: unat_minus_one)
  also have "\<dots> = 4095 + (j - 1) * 4096" using j by (cases j) auto
  finally have "unat (PGROUNDDOWN (d - 1)) = (j - 1) * 4096"
    by (simp add: unat_PGROUNDDOWN)
  then show ?thesis
    using ij j by (auto simp: word_le_nat_alt word_less_nat_alt)
qed

lemma kmap_last:
  assumes "kernel_image s"
  shows "map last_page (kmap s) = [0x800FF000, PGROUNDDOWN (sym_data s - 1), 0x8DFFF000, 0xFFFFF000]"
proof -
  have "PGROUNDDOWN 0x800FFFFF = 0x800FF000" "PGROUNDDOWN 0x8DFFFFFF = 0x8DFFF000"
    "PGROUNDDOWN (- 1) = 0xFFFFF000"
    by (simp_all add: PGROUNDDOWN_def PGSIZE_def)
  then show ?thesis
    by (simp add: kmap_def last_page_def memlayout_defs)
qed

lemma kmap_in_region:
  assumes "kernel_image s"
  shows "in_region (kmap s ! 0) v \<longleftrightarrow> KERNBASE \<le> PGROUNDDOWN v \<and> PGROUNDDOWN v < KERNLINK"
    "in_region (kmap s ! 1) v \<longleftrightarrow> KERNLINK \<le> PGROUNDDOWN v \<and> PGROUNDDOWN v < sym_data s"
    "in_region (kmap s ! 2) v \<longleftrightarrow> sym_data s \<le> PGROUNDDOWN v \<and> PGROUNDDOWN v < P2V PHYSTOP"
    "in_region (kmap s ! 3) v \<longleftrightarrow> DEVSPACE \<le> PGROUNDDOWN v"
proof -
  let ?p = "PGROUNDDOWN v"
  have before: "?p \<le> PGROUNDDOWN (d - 1) \<longleftrightarrow> ?p < d" if "page_aligned d" "d \<noteq> 0" for d
    using page_before [OF page_aligned_PGROUNDDOWN that] .
  have ends: "PGROUNDDOWN 0x800FFFFF = 0x800FF000" "PGROUNDDOWN 0x8DFFFFFF = 0x8DFFF000"
    by (simp_all add: PGROUNDDOWN_def PGSIZE_def)
  have "?p \<le> 0xFFFFF000"
    using page_before [of ?p 0] div_times_less_eq_dividend [of "unat v" 4096] unat32_less [of v]
    by (simp add: word_le_nat_alt unat_PGROUNDDOWN)
  moreover have "?p \<le> 0x800FF000 \<longleftrightarrow> ?p < 0x80100000" "?p \<le> 0x8DFFF000 \<longleftrightarrow> ?p < 0x8E000000"
    using before [of "0x80100000"] before [of "0x8E000000"]
    by (simp_all add: ends page_aligned_def)
  moreover have "?p \<le> PGROUNDDOWN (sym_data s - 1) \<longleftrightarrow> ?p < sym_data s"
    using assms by (intro before) (auto simp: kernel_image_def)
  ultimately show
    "in_region (kmap s ! 0) v \<longleftrightarrow> KERNBASE \<le> PGROUNDDOWN v \<and> PGROUNDDOWN v < KERNLINK"
    "in_region (kmap s ! 1) v \<longleftrightarrow> KERNLINK \<le> PGROUNDDOWN v \<and> PGROUNDDOWN v < sym_data s"
    "in_region (kmap s ! 2) v \<longleftrightarrow> sym_data s \<le> PGROUNDDOWN v \<and> PGROUNDDOWN v < P2V PHYSTOP"
    "in_region (kmap s ! 3) v \<longleftrightarrow> DEVSPACE \<le> PGROUNDDOWN v"
    using kmap_last [OF assms] by (simp_all add: in_region_def kmap_def memlayout_defs)
qed

lemma kmap_mapped:
  assumes "kernel_image s"
  shows "regions_ok (kmap s) (\<lambda>_. 0)"
    and "fold map_region (kmap s) (\<lambda>_. 0) = kern_entry (sym_data s)"
proof -
  let ?d = "sym_data s"
  obtain k0 k1 k2 k3 where k: "kmap s = [k0, k1, k2, k3]" by (simp add: kmap_def)
  have image: "page_aligned ?d" "KERNLINK < ?d" "?d < P2V PHYSTOP"
    using assms by (simp_all add: kernel_image_def)
  have region: "in_region k0 v \<longleftrightarrow> KERNBASE \<le> PGROUNDDOWN v \<and> PGROUNDDOWN v < KERNLINK"
    "in_region k1 v \<longleftrightarrow> KERNLINK \<le> PGROUNDDOWN v \<and> PGROUNDDOWN v < ?d"
    "in_region k2 v \<longleftrightarrow> ?d \<le> PGROUNDDOWN v \<and> PGROUNDDOWN v < P2V PHYSTOP"
    "in_region k3 v \<longleftrightarrow> DEVSPACE \<le> PGROUNDDOWN v" for v
    using kmap_in_region [OF assms, of v] by (simp_all add: k numeral_2_eq_2 numeral_3_eq_3)
  have order: "KERNBASE < KERNLINK" "P2V PHYSTOP < DEVSPACE"
    by (simp_all add: memlayout_defs)
  have virt: "virt k0 = KERNBASE" "virt k1 = KERNLINK" "virt k2 = ?d" "virt k3 = DEVSPACE"
    and al: "page_aligned KERNBASE" "page_aligned KERNLINK" "page_aligned DEVSPACE"
    using k by (auto simp: kmap_def page_aligned_def memlayout_defs)
  have last: "virt k \<le> last_page k" if "in_region k (virt k)" "page_aligned (virt k)" for k
    using that by (simp add: in_region_def PGROUNDDOWN_aligned)
  show "regions_ok (kmap s) (\<lambda>_. 0)"
    unfolding k using image order al last [of k0] last [of k1] last [of k2] last [of k3]
    by (auto simp: virt region map_region_def PGROUNDDOWN_aligned)
  show "fold map_region (kmap s) (\<lambda>_. 0) = kern_entry ?d"
  proof
    fix v
    have phys: "phys_start k0 + (p - virt k0) = V2P p" "phys_start k1 + (p - virt k1) = V2P p"
      "phys_start k2 + (p - virt k2) = V2P p" "phys_start k3 + (p - virt k3) = p"
      "kperm k0 = PTE_W" "kperm k1 = 0" "kperm k2 = PTE_W" "kperm k3 = PTE_W" for p
      using k by (auto simp: kmap_def V2P_def memlayout_defs)
    show "fold map_region (kmap s) (\<lambda>_. 0) v = kern_entry ?d v"
      unfolding k using image order
      by (auto simp: kern_entry_def map_region_def region phys Let_def)
  qed
qed

lemma zero_dir:
  assumes "page_aligned d" "m = fill old d 0 4096"
  shows "unat i < 1024 \<Longrightarrow> table m d i = None" "entry m d = (\<lambda>_. 0)" "slot_page m d = [Dir \<mapsto> d]"
proof -
  show tab: "\<And>i. unat i < 1024 \<Longrightarrow> table m d i = None"
    using load32_fill_0 [OF assms(1)] by (simp add: table_def assms(2))
  then show ent: "entry m d = (\<lambda>_. 0)" by (simp add: fun_eq_iff entry_def PDX_less)
  show "slot_page m d = [Dir \<mapsto> d]"
  proof
    fix x show "slot_page m d x = [Dir \<mapsto> d] x" by (cases x) (auto simp: tab ent)
  qed
qed

definition kvm_built :: "'a kmst_scheme \<Rightarrow> u32 \<Rightarrow> 'a kmst_scheme \<Rightarrow> bool" where
  "kvm_built s d s' \<longleftrightarrow> d \<noteq> 0 \<and> kmem_frame s s' \<and> space_ok s' d \<and> pool s' d = set (kfree_pages s)
     \<and> Suc (room s' d) = length (kfree_pages s)
     \<and> (\<forall>a. PGROUNDDOWN a \<notin> set (kfree_pages s) \<longrightarrow> mem s' a = mem s a)
     \<and> entry (mem s') d = kern_entry (sym_data s)"

lemma setupkvm_ok:
  assumes inv: "kmem_invar s" and img: "kernel_image s"
  shows "\<exists>d s'. setupkvm s = Inr (d, s')
    \<and> (d = 0 \<and> length (kfree_pages s) < 1025 \<and> freed_all (set (kfree_pages s)) s s'
       \<or> kvm_built s d s')"
  using inv
proof (cases rule: kalloc_cases)
  case (empty h)
  then show ?thesis by (auto simp: setupkvm_def freed_all_def)
next
  case (page d xs h f)
  let ?t = "s\<lparr>hw := h, freelist := f\<rparr>"
  let ?m = "fill (mem s) d 0 4096" and ?s = "s\<lparr>hw := h, freelist := f\<rparr>\<lparr>mem := fill (mem s) d 0 4096\<rparr>"
  have al: "page_aligned d" using page(5) by (simp add: good_page_def)
  note zero = zero_dir [where old = "mem s", OF al refl]
  have outside: "?m a = mem s a" if "PGROUNDDOWN a \<noteq> d" for a
    using that by (simp add: fill_page [OF al])
  have "d \<notin> set (kfree_pages ?t)" using page(4,7) by simp
  then have inv': "kmem_invar ?s" "kfree_pages ?s = xs"
    using kmem_invar_page [OF page(3), of d ?m] outside page(4) by simp_all
  have slots: "slot_page (mem ?s) d = [Dir \<mapsto> d]" using zero(3) by simp
  have own: "owned (mem ?s) d = {d}" unfolding owned_def slots by auto
  have "KERNBASE < sym_end s" using img by (simp add: kernel_image_def)
  then have ok: "space_ok ?s d"
    using inv' page(5,7) unfolding space_ok_def own slots by (simp add: inj_on_def)
  have pool: "pool ?s d = set (kfree_pages s)"
    unfolding pool_def own inv'(2) page(1) by simp
  have room: "Suc (room ?s d) = length (kfree_pages s)"
    using zero(1) unfolding room_def inv'(2) page(1) by (simp add: tables_in_def)
  have frame: "kmem_frame s ?s" by (rule kmem_frame_trans [of _ ?t]) (rule kmem_frameI)+
  have img': "kernel_image ?s" "sym_data ?s = sym_data s"
    using img by (simp_all add: kernel_image_def)
  have "regions_ok (kmap ?s) (entry (mem ?s) d)"
    "fold map_region (kmap ?s) (entry (mem ?s) d) = kern_entry (sym_data s)"
    using kmap_mapped [OF img'(1)] zero(2) img'(2) by simp_all
  with setupkvm_loop_ok [OF ok, of "kmap ?s"] obtain d' s' where
    s': "setupkvm_loop (kmap ?s) d ?s = Inr (d', s')"
      "d' = 0 \<and> room ?s d < 1024 \<and> freed_all (pool ?s d) ?s s'
       \<or> d' = d \<and> space_step d ?s s' \<and> room s' d = room ?s d
         \<and> entry (mem s') d = kern_entry (sym_data s)" by auto
  have set: "setupkvm s = Inr (d', s')"
    using s'(1) page(2,6) by (simp add: setupkvm_def memset_fill PGSIZE_def memlayout_defs)
  have out: "mem ?s a = mem s a" if "PGROUNDDOWN a \<notin> set (kfree_pages s)" for a
    using outside [of a] that page(1) by auto
  from s'(2) show ?thesis
  proof (elim disjE conjE)
    assume "d' = 0" "room ?s d < 1024" "freed_all (pool ?s d) ?s s'"
    then have "freed_all (set (kfree_pages s)) s s'"
      using freed_all_frame [OF frame out] pool by simp
    then show ?thesis using set \<open>d' = 0\<close> \<open>room ?s d < 1024\<close> room by auto
  next
    assume "d' = d" "space_step d ?s s'" "room s' d = room ?s d" "entry (mem s') d = kern_entry (sym_data s)"
    moreover from this(2) have "kmem_frame s s'" "space_ok s' d" "pool s' d = set (kfree_pages s)"
      "\<forall>a. PGROUNDDOWN a \<notin> set (kfree_pages s) \<longrightarrow> mem s' a = mem s a"
      using out kmem_frame_trans [OF frame] unfolding space_step_def pool by auto
    ultimately have "kvm_built s d s'"
      using page(6) room unfolding kvm_built_def by simp
    then show ?thesis using set \<open>d' = d\<close> by auto
  qed
qed

section \<open>Copying an address space\<close>

definition user_pages :: "memory \<Rightarrow> u32 \<Rightarrow> u32 \<Rightarrow> bool" where
  "user_pages m pgdir sz \<longleftrightarrow> (\<forall>v. PGROUNDDOWN v < sz \<longrightarrow> present (entry m pgdir v))"

text \<open>An address space none of whose pages are written keeps its entries and its bytes.\<close>

lemma space_untouched:
  assumes al: "page_aligned pgdir" and agree: "\<And>a. PGROUNDDOWN a \<in> owned m pgdir \<Longrightarrow> m' a = m a"
  shows "entry m' pgdir = entry m pgdir" "slot_page m' pgdir = slot_page m pgdir"
    "owned m' pgdir = owned m pgdir"
    "present (entry m pgdir v) \<Longrightarrow> v < KERNBASE \<Longrightarrow> user_byte m' pgdir v = user_byte m pgdir v"
proof -
  have meta: "m' a = m a" if "PGROUNDDOWN a \<in> meta m pgdir" for a
    using agree meta_owned that by blast
  show ent: "entry m' pgdir = entry m pgdir"
    using entry_agree [OF al meta] by (simp add: fun_eq_iff)
  show slots: "slot_page m' pgdir = slot_page m pgdir" using slot_page_agree [OF al meta] .
  then show "owned m' pgdir = owned m pgdir" by (simp add: owned_def)
  assume "present (entry m pgdir v)" "v < KERNBASE"
  then show "user_byte m' pgdir v = user_byte m pgdir v"
    using leaf_owned by (simp add: user_byte_def ent agree page_plus_offset)
qed

text \<open>
  The pages from \<open>i\<close> up to \<open>sz\<close> have been added, with flags \<open>F\<close> and contents \<open>B\<close>; the rest of
  the address space is as before.
\<close>

definition filled ::
  "u32 \<Rightarrow> u32 \<Rightarrow> u32 \<Rightarrow> (u32 \<Rightarrow> u32) \<Rightarrow> (u32 \<Rightarrow> u8) \<Rightarrow> 'a kmst_scheme \<Rightarrow> 'a kmst_scheme \<Rightarrow> bool" where
  "filled d i sz F B s s' \<longleftrightarrow> kmem_frame s s' \<and> space_ok s' d \<and> pool s' d = pool s d
     \<and> (\<forall>a. PGROUNDDOWN a \<notin> pool s d \<longrightarrow> mem s' a = mem s a)
     \<and> (\<forall>v. \<not> (i \<le> PGROUNDDOWN v \<and> PGROUNDDOWN v < sz) \<longrightarrow> entry (mem s') d v = entry (mem s) d v)
     \<and> (\<forall>v. PGROUNDDOWN v < i \<longrightarrow> v < KERNBASE \<longrightarrow> present (entry (mem s) d v)
          \<longrightarrow> user_byte (mem s') d v = user_byte (mem s) d v)
     \<and> (\<forall>v. i \<le> PGROUNDDOWN v \<longrightarrow> PGROUNDDOWN v < sz \<longrightarrow> present (entry (mem s') d v)
          \<and> PTE_FLAGS (entry (mem s') d v) = F v \<and> user_byte (mem s') d v = B v)"

definition apart :: "'a kmst_scheme \<Rightarrow> u32 \<Rightarrow> u32 \<Rightarrow> bool" where
  "apart s pgdir d \<longleftrightarrow> owned (mem s) pgdir \<inter> pool s d = {} \<and> (\<forall>p\<in>owned (mem s) pgdir. good_page s p)"

lemma memmove_page:
  assumes "good_page s p" "good_page s q"
  shows "memmove m p q PGSIZE a = (if PGROUNDDOWN a = p then m (q + (a - p)) else m a)"
proof -
  have al: "page_aligned p" using assms(1) by (simp add: good_page_def)
  have "memmove m p q PGSIZE = moved m p q (unat PGSIZE)"
    using good_page_top [OF assms(1)] good_page_top [OF assms(2)]
    by (intro memmove_moved) (simp_all add: PGSIZE_def)
  then show ?thesis by (simp add: moved_def PGSIZE_def in_page_iff [OF al])
qed

lemma PTE_FLAGS_less: "unat (PTE_FLAGS e) < 4096"
  using unat_and_le [of e "0xFFF"] by (simp add: PTE_FLAGS_def)

lemma PTE_FLAGS_present: "present e \<Longrightarrow> PTE_FLAGS e OR PTE_P = PTE_FLAGS e"
  unfolding present_iff PTE_FLAGS_def mask12
  by (rule bit_word_eqI) (auto simp: bit_simps PTE_P_def)

text \<open>A page taken from the allocator and filled, before it is mapped.\<close>

lemma take_page:
  fixes s :: "'a kmst_scheme"
  assumes ok: "space_ok s d"
    and al: "kfree_pages s = p # xs" "kmem_invar (s\<lparr>hw := h, freelist := f\<rparr>)"
      "kfree_pages (s\<lparr>hw := h, freelist := f\<rparr>) = xs" "good_page s p" "p \<notin> set xs"
    and m': "\<And>a. PGROUNDDOWN a \<noteq> p \<Longrightarrow> m' a = mem s a"
  defines "s' \<equiv> s\<lparr>hw := h, freelist := f, mem := m'\<rparr>"
  shows "space_ok s' d" "pool s' d = pool s d - {p}" "p \<in> pool s d" "Suc (room s' d) = room s d"
    "entry (mem s') d = entry (mem s) d" "meta (mem s') d = meta (mem s) d" "kmem_frame s s'"
    "kfree_pages s' = xs" "good_page s' p" "p \<notin> pool s' d"
proof -
  let ?t = "s\<lparr>hw := h, freelist := f\<rparr>"
  have inv: "kmem_invar s'" "kfree_pages s' = xs"
    using kmem_invar_page [of ?t p m'] al m' by (simp_all add: s'_def)
  then show "kfree_pages s' = xs" by simp
  have p: "p \<notin> owned (mem s) d" using ok al(1) by (auto simp: space_ok_def)
  have agree: "mem s' a = mem s a" if "PGROUNDDOWN a \<in> owned (mem s) d" for a
    using m' [of a] that p by (cases "PGROUNDDOWN a = p") (simp_all add: s'_def)
  have dal: "page_aligned d" using space_ok_aligned [OF ok owned_dir] .
  note same = space_untouched [OF dal agree]
  show "entry (mem s') d = entry (mem s) d" using same(1) by simp
  show frame: "kmem_frame s s'"
    unfolding s'_def by (rule kmem_frame_trans [of _ ?t]) (rule kmem_frameI)+
  have own: "owned (mem s') d = owned (mem s) d" using same(3) by simp
  have slots: "slot_page (mem s') d = slot_page (mem s) d" using same(2) by simp
  show "space_ok s' d"
    using ok inv al(1) unfolding space_ok_def own slots kmem_frame_same [OF frame] by auto
  show pool: "pool s' d = pool s d - {p}"
    using inv(2) al(1,5) p unfolding pool_def own by auto
  then show "p \<notin> pool s' d" by simp
  show "p \<in> pool s d" using al(1) by (simp add: pool_def)
  have tab: "table (mem s') d i = table (mem s) d i" if "unat i < 1024" for i
    using agree owned_dir that by (intro table_agree [OF dal]) auto
  then show "meta (mem s') d = meta (mem s) d" by (auto simp: meta_def)
  show "Suc (room s' d) = room s d"
    using tables_in_cong [OF tab] by (simp add: room_def inv(2) al(1))
  show "good_page s' p" using al(4) kmem_frame_same(1) [OF frame] by simp
qed

lemma add_page:
  fixes s :: "'a kmst_scheme"
  assumes ok: "space_ok s d"
    and al: "kfree_pages s = p # xs" "kmem_invar (s\<lparr>hw := h, freelist := f\<rparr>)"
      "kfree_pages (s\<lparr>hw := h, freelist := f\<rparr>) = xs" "good_page s p" "p \<notin> set xs"
    and m': "\<And>a. PGROUNDDOWN a \<noteq> p \<Longrightarrow> m' a = mem s a"
    and i: "page_aligned i" "i < KERNBASE" and absent: "\<not> present (entry (mem s) d i)"
    and perm: "unat perm < 4096"
  defines "t \<equiv> s\<lparr>hw := h, freelist := f, mem := m'\<rparr>"
  obtains (none) u where "mappages d i PGSIZE (V2P p) perm t = Inr (- 1, u)"
      "kmem_frame s u" "space_ok u d" "pool u d = pool s d - {p}" "p \<in> pool s d" "room s d < 1025"
      "\<And>a. PGROUNDDOWN a \<noteq> p \<Longrightarrow> mem u a = mem s a" "entry (mem u) d = entry (mem s) d"
  | (mapped) u where "mappages d i PGSIZE (V2P p) perm t = Inr (0, u)"
      "kmem_frame s u" "space_ok u d" "pool u d = pool s d" "Suc (room u d) = room s d"
      "\<And>a. PGROUNDDOWN a \<notin> pool s d \<Longrightarrow> mem u a = mem s a"
      "\<And>v. entry (mem u) d v = (if PGROUNDDOWN v = i then V2P p OR perm OR PTE_P else entry (mem s) d v)"
      "\<And>v. PGROUNDDOWN v \<noteq> i \<Longrightarrow> v < KERNBASE \<Longrightarrow> present (entry (mem s) d v)
         \<Longrightarrow> user_byte (mem u) d v = user_byte (mem s) d v"
      "\<And>v. PGROUNDDOWN v = i \<Longrightarrow> user_byte (mem u) d v = m' (p + (v - i))"
proof -
  note take = take_page [OF ok al m', folded t_def]
  have tm: "mem t = m'" by (simp add: t_def)
  have pal: "page_aligned p" using al(4) by (simp add: good_page_def)
  have absent': "\<not> present (entry (mem t) d i)" using absent take(5) by simp
  note leaf = PTE_leaf [OF pal perm]
  consider (none') h' where "mappages d i PGSIZE (V2P p) perm t = Inr (- 1, t\<lparr>hw := h'\<rparr>)"
      "space_step d t (t\<lparr>hw := h'\<rparr>)" "kfree_pages t = []" "table (mem t) d (PDX i) = None"
    | (mapped') u where "mappages d i PGSIZE (V2P p) perm t = Inr (0, u)" "page_added d i p perm t u"
    by (rule map_user_page [OF take(1) i absent' take(9,10) perm])
  then show thesis
  proof cases
    case (none' h')
    let ?u = "t\<lparr>hw := h'\<rparr>"
    have step: "kmem_frame t ?u" "space_ok ?u d" "pool ?u d = pool t d" "mem ?u = mem t"
      using none'(2) by (auto simp: space_step_def)
    have "room t d < 1024"
      using none'(3) room_full [OF none'(4)] by (simp add: room_def)
    then show thesis
      using none [OF none'(1)] kmem_frame_trans [OF take(7) step(1)] step take(2-5) m' tm by simp
  next
    case (mapped' u)
    then have u: "kmem_frame t u" "space_ok u d" "pool u d = insert p (pool t d)"
      "\<And>a. PGROUNDDOWN a \<notin> meta (mem t) d \<union> set (kfree_pages t) \<Longrightarrow> mem u a = mem t a"
      "\<And>v. entry (mem u) d v = (if PGROUNDDOWN v = i then V2P p OR perm OR PTE_P
          else entry (mem t) d v)" "room u d = room t d"
      unfolding page_added_def by auto
    have sub: "meta (mem t) d \<union> set (kfree_pages t) \<subseteq> pool t d"
      using meta_owned by (auto simp: pool_def)
    have "mem u a = mem s a" if "PGROUNDDOWN a \<notin> pool s d" for a
    proof -
      have "PGROUNDDOWN a \<notin> meta (mem t) d \<union> set (kfree_pages t)" "PGROUNDDOWN a \<noteq> p"
        using that sub take(2,3) by auto
      then show ?thesis using u(4) m' tm by simp
    qed
    moreover have "user_byte (mem u) d v = user_byte (mem s) d v"
      if v: "PGROUNDDOWN v \<noteq> i" "v < KERNBASE" "present (entry (mem s) d v)" for v
    proof -
      let ?q = "P2V (PTE_ADDR (entry (mem s) d v))"
      have leafv: "slot_page (mem s) d (Leaf (PGROUNDDOWN v)) = Some ?q"
        using v user_page_below [of v] by simp
      have "?q \<notin> set (kfree_pages s)"
        using ok owned_slot [OF leafv] by (auto simp: space_ok_def)
      with leaf_not_meta [OF ok leafv]
      have "?q \<noteq> p" "?q \<notin> meta (mem t) d \<union> set (kfree_pages t)"
        using take(6,8) al(1) by auto
      then show ?thesis
        using u(4,5) v(1) take(5) m' tm by (simp add: user_byte_def page_plus_offset)
    qed
    moreover have "user_byte (mem u) d v = m' (p + (v - i))" if v: "PGROUNDDOWN v = i" for v
    proof -
      have "p \<notin> meta (mem t) d \<union> set (kfree_pages t)" using sub take(10) by auto
      then show ?thesis
        using u(4,5) v leaf(2) page_plus_offset [OF pal, of v] tm by (simp add: user_byte_def)
    qed
    moreover have "pool u d = pool s d" using u(3) take(2,3) by auto
    ultimately show thesis
      using mapped [OF mapped'(1)] kmem_frame_trans [OF take(7) u(1)] u(2,5,6) take(4,5) by auto
  qed
qed

lemma copy_one_page:
  assumes ok: "space_ok s d" and ap: "apart s pgdir d" and i: "page_aligned i" "i < KERNBASE"
    and pres: "present (entry (mem s) pgdir i)" and absent: "\<not> present (entry (mem s) d i)"
    and al: "page_aligned pgdir"
  obtains (out) h where "kalloc s = Inr (0, s\<lparr>hw := h\<rparr>)" "kfree_pages s = []"
      "space_step d s (s\<lparr>hw := h\<rparr>)"
  | (half) p h f h' where "kalloc s = Inr (p, s\<lparr>hw := h, freelist := f\<rparr>)" "p \<noteq> 0"
      "mappages d i PGSIZE (V2P p) (PTE_FLAGS (entry (mem s) pgdir i))
         (s\<lparr>hw := h, freelist := f,
            mem := memmove (mem s) p (P2V (PTE_ADDR (entry (mem s) pgdir i))) PGSIZE\<rparr>) = Inr (- 1, h')"
      "kmem_frame s h'" "space_ok h' d" "pool h' d = pool s d - {p}" "p \<in> pool s d" "room s d < 1025"
      "\<And>a. PGROUNDDOWN a \<notin> pool s d \<Longrightarrow> mem h' a = mem s a"
  | (page) p h f s' where "kalloc s = Inr (p, s\<lparr>hw := h, freelist := f\<rparr>)" "p \<noteq> 0"
      "mappages d i PGSIZE (V2P p) (PTE_FLAGS (entry (mem s) pgdir i))
         (s\<lparr>hw := h, freelist := f,
            mem := memmove (mem s) p (P2V (PTE_ADDR (entry (mem s) pgdir i))) PGSIZE\<rparr>) = Inr (0, s')"
      "kmem_frame s s'" "space_ok s' d" "pool s' d = pool s d" "Suc (room s' d) = room s d"
      "\<And>a. PGROUNDDOWN a \<notin> pool s d \<Longrightarrow> mem s' a = mem s a"
      "\<And>v. PGROUNDDOWN v \<noteq> i \<Longrightarrow> entry (mem s') d v = entry (mem s) d v"
      "\<And>v. PGROUNDDOWN v \<noteq> i \<Longrightarrow> v < KERNBASE \<Longrightarrow> present (entry (mem s) d v)
         \<Longrightarrow> user_byte (mem s') d v = user_byte (mem s) d v"
      "\<And>v. PGROUNDDOWN v = i \<Longrightarrow> present (entry (mem s') d v)
         \<and> PTE_FLAGS (entry (mem s') d v) = PTE_FLAGS (entry (mem s) pgdir v)
         \<and> user_byte (mem s') d v = user_byte (mem s) pgdir v"
proof -
  let ?e = "entry (mem s) pgdir i" and ?q = "P2V (PTE_ADDR (entry (mem s) pgdir i))"
  have inv: "kmem_invar s" using ok by (simp add: space_ok_def)
  have q: "good_page s ?q" using ap leaf_owned [OF pres i(2)] by (auto simp: apart_def)
  from inv show thesis
  proof (cases rule: kalloc_cases)
    case (empty h)
    then show thesis using out space_ok_hw [OF ok] by simp
  next
    case al: (page p xs h f)
    let ?m = "memmove (mem s) p ?q PGSIZE" and ?flags = "PTE_FLAGS ?e"
    let ?s = "s\<lparr>hw := h, freelist := f, mem := memmove (mem s) p ?q PGSIZE\<rparr>"
    have move: "?m a = (if PGROUNDDOWN a = p then mem s (?q + (a - p)) else mem s a)" for a
      using memmove_page [OF al(5) q] .
    have other: "?m a = mem s a" if "PGROUNDDOWN a \<noteq> p" for a using that by (simp add: move)
    have pal: "page_aligned p" using al(5) by (simp add: good_page_def)
    note leaf = PTE_leaf [OF pal PTE_FLAGS_less [of ?e]]
    consider (none) u where "mappages d i PGSIZE (V2P p) ?flags ?s = Inr (- 1, u)"
        "kmem_frame s u" "space_ok u d" "pool u d = pool s d - {p}" "p \<in> pool s d" "room s d < 1025"
        "\<And>a. PGROUNDDOWN a \<noteq> p \<Longrightarrow> mem u a = mem s a"
      | (mapped) u where "mappages d i PGSIZE (V2P p) ?flags ?s = Inr (0, u)"
        "kmem_frame s u" "space_ok u d" "pool u d = pool s d" "Suc (room u d) = room s d"
        "\<And>a. PGROUNDDOWN a \<notin> pool s d \<Longrightarrow> mem u a = mem s a"
        "\<And>v. entry (mem u) d v = (if PGROUNDDOWN v = i then V2P p OR ?flags OR PTE_P else entry (mem s) d v)"
        "\<And>v. PGROUNDDOWN v \<noteq> i \<Longrightarrow> v < KERNBASE \<Longrightarrow> present (entry (mem s) d v)
           \<Longrightarrow> user_byte (mem u) d v = user_byte (mem s) d v"
        "\<And>v. PGROUNDDOWN v = i \<Longrightarrow> user_byte (mem u) d v = ?m (p + (v - i))"
      by (rule add_page [OF ok al(1,3,4,5,7) other i absent PTE_FLAGS_less [of ?e]]) blast+
    then show thesis
    proof cases
      case (none u)
      have "mem u a = mem s a" if "PGROUNDDOWN a \<notin> pool s d" for a
        using that none(5,7) by metis
      then show thesis using half [OF al(2,6) none(1-6)] by blast
    next
      case (mapped u)
      have "present (entry (mem u) d v) \<and> PTE_FLAGS (entry (mem u) d v) = PTE_FLAGS (entry (mem s) pgdir v)
          \<and> user_byte (mem u) d v = user_byte (mem s) pgdir v" if v: "PGROUNDDOWN v = i" for v
      proof -
        have ev: "entry (mem s) pgdir v = ?e" using entry_PGROUNDDOWN [of "mem s" pgdir v] v by simp
        have "user_byte (mem u) d v = user_byte (mem s) pgdir v"
          using mapped(9) [OF v] page_plus_offset [OF pal, of v] v by (simp add: move user_byte_def ev)
        then show ?thesis using mapped(7) [of v] v leaf(1,3) PTE_FLAGS_present [OF pres] ev by simp
      qed
      moreover have "entry (mem u) d v = entry (mem s) d v" if "PGROUNDDOWN v \<noteq> i" for v
        using mapped(7) [of v] that by simp
      ultimately show thesis using page [OF al(2,6) mapped(1-6)] mapped(8) by blast
    qed
  qed
qed

lemma filled_refl: "space_ok s d \<Longrightarrow> \<not> i < sz \<Longrightarrow> filled d i sz F B s s"
  by (auto simp: filled_def)

lemma filled_step:
  assumes i: "page_aligned i" "i < sz" "sz \<le> KERNBASE"
    and s1: "kmem_frame s s1" "space_ok s1 d" "pool s1 d = pool s d"
      "\<And>a. PGROUNDDOWN a \<notin> pool s d \<Longrightarrow> mem s1 a = mem s a"
      "\<And>v. PGROUNDDOWN v \<noteq> i \<Longrightarrow> entry (mem s1) d v = entry (mem s) d v"
      "\<And>v. PGROUNDDOWN v \<noteq> i \<Longrightarrow> v < KERNBASE \<Longrightarrow> present (entry (mem s) d v)
         \<Longrightarrow> user_byte (mem s1) d v = user_byte (mem s) d v"
      "\<And>v. PGROUNDDOWN v = i \<Longrightarrow> present (entry (mem s1) d v)
         \<and> PTE_FLAGS (entry (mem s1) d v) = F v \<and> user_byte (mem s1) d v = B v"
    and rest: "filled d (i + PGSIZE) sz F B s1 s2"
  shows "filled d i sz F B s s2"
proof -
  have ki: "i < KERNBASE" using i by simp
  note nxt = page_aligned_next [OF i(1) ki]
  have page: "i + PGSIZE \<le> PGROUNDDOWN v \<longleftrightarrow> i \<le> PGROUNDDOWN v \<and> PGROUNDDOWN v \<noteq> i" for v
    using nxt(2) nxt(4) [OF page_aligned_PGROUNDDOWN, of v] by auto
  have below: "PGROUNDDOWN v < i + PGSIZE \<longleftrightarrow> PGROUNDDOWN v < i \<or> PGROUNDDOWN v = i" for v
    using page [of v] nxt(2) by (auto simp: not_less [symmetric])
  have r: "kmem_frame s1 s2" "space_ok s2 d" "pool s2 d = pool s1 d"
    "\<And>a. PGROUNDDOWN a \<notin> pool s1 d \<Longrightarrow> mem s2 a = mem s1 a"
    "\<And>v. \<not> (i + PGSIZE \<le> PGROUNDDOWN v \<and> PGROUNDDOWN v < sz) \<Longrightarrow> entry (mem s2) d v = entry (mem s1) d v"
    "\<And>v. PGROUNDDOWN v < i + PGSIZE \<Longrightarrow> v < KERNBASE \<Longrightarrow> present (entry (mem s1) d v)
       \<Longrightarrow> user_byte (mem s2) d v = user_byte (mem s1) d v"
    "\<And>v. i + PGSIZE \<le> PGROUNDDOWN v \<Longrightarrow> PGROUNDDOWN v < sz \<Longrightarrow> present (entry (mem s2) d v)
          \<and> PTE_FLAGS (entry (mem s2) d v) = F v \<and> user_byte (mem s2) d v = B v"
    using rest unfolding filled_def by blast+
  have usr: "v < KERNBASE" if "PGROUNDDOWN v < sz" for v
    using that i(3) user_page_below [of v] by simp
  have new: "present (entry (mem s2) d v) \<and> PTE_FLAGS (entry (mem s2) d v) = F v
      \<and> user_byte (mem s2) d v = B v"
    if v: "i \<le> PGROUNDDOWN v" "PGROUNDDOWN v < sz" for v
  proof (cases "PGROUNDDOWN v = i")
    case True
    then have "entry (mem s2) d v = entry (mem s1) d v" "user_byte (mem s2) d v = user_byte (mem s1) d v"
      using r(5) [of v] r(6) [of v] page [of v] below [of v] usr [OF v(2)] s1(7) [OF True] by auto
    then show ?thesis using s1(7) [OF True] by simp
  qed (use r(7) [of v] page [of v] v in auto)
  show ?thesis
    unfolding filled_def
    using kmem_frame_trans [OF s1(1) r(1)] r(2-6) s1(3,4,5,6) new page below i(2)
    by auto
qed

text \<open>
  A failed copy gives back every page except that the page just taken is lost when the
  page table for it cannot be allocated.
\<close>

definition copy_failed :: "u32 \<Rightarrow> 'a kmst_scheme \<Rightarrow> 'a kmst_scheme \<Rightarrow> bool" where
  "copy_failed d s s' \<longleftrightarrow> kmem_frame s s' \<and> kmem_invar s'
     \<and> (\<exists>lost. lost \<subseteq> pool s d \<and> card lost \<le> 1 \<and> set (kfree_pages s') = pool s d - lost)
     \<and> (\<forall>a. PGROUNDDOWN a \<notin> pool s d \<longrightarrow> mem s' a = mem s a)"

lemma copy_failed_after:
  assumes "kmem_frame s t" "pool t d = pool s d" "\<And>a. PGROUNDDOWN a \<notin> pool s d \<Longrightarrow> mem t a = mem s a"
  shows "copy_failed d t u \<Longrightarrow> copy_failed d s u"
  using assms kmem_frame_trans by (auto simp: copy_failed_def)

lemma apart_step:
  assumes "apart s pgdir d" "page_aligned pgdir" "kmem_frame s s'" "pool s' d = pool s d"
    and "\<And>a. PGROUNDDOWN a \<notin> pool s d \<Longrightarrow> mem s' a = mem s a"
  shows "apart s' pgdir d" "entry (mem s') pgdir = entry (mem s) pgdir"
    "\<And>v. present (entry (mem s) pgdir v) \<Longrightarrow> v < KERNBASE
      \<Longrightarrow> user_byte (mem s') pgdir v = user_byte (mem s) pgdir v"
proof -
  have agree: "mem s' a = mem s a" if "PGROUNDDOWN a \<in> owned (mem s) pgdir" for a
    using assms(1,5) that by (auto simp: apart_def)
  note same = space_untouched [OF assms(2) agree]
  show "entry (mem s') pgdir = entry (mem s) pgdir" using same(1) by simp
  show "\<And>v. present (entry (mem s) pgdir v) \<Longrightarrow> v < KERNBASE
      \<Longrightarrow> user_byte (mem s') pgdir v = user_byte (mem s) pgdir v" using same(4) by simp
  show "apart s' pgdir d"
    using assms(1) same(3) kmem_frame_same(1) [OF assms(3)] by (simp add: apart_def assms(4))
qed

lemma parent_walk:
  assumes "apart s pgdir d" "present (entry (mem s) pgdir i)"
  obtains pte where "walkpgdir pgdir i False s = Inr (pte, s)" "pte \<noteq> 0" "rd32 pte s = entry (mem s) pgdir i"
proof -
  obtain t where t: "table (mem s) pgdir (PDX i) = Some t"
    using assms(2) by (cases "table (mem s) pgdir (PDX i)") (auto simp: entry_def)
  have "good_page s t" using assms(1) owned_table [OF PDX_less t] by (simp add: apart_def)
  then have "t + 4 * PTX i \<noteq> 0"
    using good_page_nonzero table_aligned [OF t] by (intro slot_nonzero) (auto simp: PTX_less)
  then show thesis using that rd32_entry [OF t] t by (simp add: walk_lookup)
qed

lemma copyuvm_loop_ok:
  assumes "space_ok s d" "apart s pgdir d" "page_aligned pgdir" "user_pages (mem s) pgdir sz"
    and "page_aligned i" "sz \<le> KERNBASE"
    and "\<And>v. i \<le> PGROUNDDOWN v \<Longrightarrow> PGROUNDDOWN v < sz \<Longrightarrow> \<not> present (entry (mem s) d v)"
    and "\<And>v. PGROUNDDOWN v < sz \<Longrightarrow> F v = PTE_FLAGS (entry (mem s) pgdir v)"
    and "\<And>v. PGROUNDDOWN v < sz \<Longrightarrow> B v = user_byte (mem s) pgdir v"
  shows "\<exists>r s'. copyuvm_loop pgdir d sz i s = Inr (r, s')
    \<and> (r = 0 \<and> (\<forall>n. unat sz \<le> unat i + 4096 * n \<longrightarrow> room s d < 1024 + n) \<and> copy_failed d s s'
       \<or> r = d \<and> filled d i sz F B s s')"
  using assms
proof (induction "unat sz - unat i" arbitrary: i s rule: less_induct)
  case less
  note prem = less.prems
  show ?case
  proof (cases "i < sz")
    case False
    then have "filled d i sz F B s s" using prem(1) by (intro filled_refl)
    with False show ?thesis by (simp add: copyuvm_loop.simps)
  next
    case True
    have ki: "i < KERNBASE" using True prem(6) by simp
    have ipage: "PGROUNDDOWN i = i" using prem(5) by (rule PGROUNDDOWN_aligned)
    have pres: "present (entry (mem s) pgdir i)" using prem(4) True ipage by (simp add: user_pages_def)
    have absent: "\<not> present (entry (mem s) d i)" using prem(7) [of i] True ipage by simp
    obtain pte where pte: "walkpgdir pgdir i False s = Inr (pte, s)" "pte \<noteq> 0"
      "rd32 pte s = entry (mem s) pgdir i" using parent_walk [OF prem(2) pres] by blast
    note unfold = copyuvm_loop.simps [of pgdir d sz i]
    note nxt = page_aligned_next [OF prem(5) ki]
    have short: "\<exists>k. n = Suc k" if "unat sz \<le> unat i + 4096 * n" for n
      using that True by (cases n) (auto simp: word_less_nat_alt)
    show ?thesis
      using prem(1,2,5) ki pres absent prem(3)
    proof (cases rule: copy_one_page)
      case (out h)
      note ok' = space_step_ok [OF out(3)]
      from freevm_freed_all [OF ok'] obtain s2 where
        s2: "freevm d (s\<lparr>hw := h\<rparr>) = Inr s2" "freed_all (pool (s\<lparr>hw := h\<rparr>) d) (s\<lparr>hw := h\<rparr>) s2" by blast
      have "freed_all (pool s d) s s2" using freed_all_after [OF out(3) s2(2)] .
      then have "copy_failed d s s2"
        unfolding copy_failed_def freed_all_def by (auto intro!: exI [of _ "{}"])
      moreover have "room s d < 1024 + n" if "unat sz \<le> unat i + 4096 * n" for n
      proof -
        have "card (tables_in (mem s) d) \<le> 1024"
          using card_mono [OF indexes_1024(1), of "tables_in (mem s) d"] indexes_1024(2)
          by (auto simp: tables_in_def)
        then show ?thesis using short [OF that] out(2) by (auto simp: room_def)
      qed
      moreover have "copyuvm_loop pgdir d sz i s = Inr (0, s2)"
        using True pte pres out(1) s2(1) by (simp add: unfold)
      ultimately show ?thesis by blast
    next
      case (half p h f h')
      from freevm_freed_all [OF half(5)] obtain s2 where
        s2: "freevm d h' = Inr s2" "freed_all (pool h' d) h' s2" by blast
      then have "copy_failed d s s2"
        using half(4,6,7,9) kmem_frame_trans [OF half(4)]
        unfolding copy_failed_def freed_all_def by (auto intro!: exI [of _ "{p}"])
      moreover have "room s d < 1024 + n" if "unat sz \<le> unat i + 4096 * n" for n
        using short [OF that] half(8) by auto
      moreover have "copyuvm_loop pgdir d sz i s = Inr (0, s2)"
        using True pte pres half(1-3) s2(1) by (simp add: unfold)
      ultimately show ?thesis by blast
    next
      case (page p h f s1)
      have "unat sz - unat (i + PGSIZE) < unat sz - unat i"
        using True nxt(3) by (simp add: word_less_nat_alt)
      moreover note ap1 = apart_step [OF prem(2,3) page(4,6,8)]
      moreover from this have "user_pages (mem s1) pgdir sz" using prem(4) by (simp add: user_pages_def)
      moreover have "v < KERNBASE" if "PGROUNDDOWN v < sz" for v
        using that prem(6) user_page_below [of v] by simp
      then have "F v = PTE_FLAGS (entry (mem s1) pgdir v)" "B v = user_byte (mem s1) pgdir v"
        if "PGROUNDDOWN v < sz" for v
        using that prem(4,8,9) ap1(2,3) by (simp_all add: user_pages_def)
      moreover have "\<not> present (entry (mem s1) d v)"
        if "i + PGSIZE \<le> PGROUNDDOWN v" "PGROUNDDOWN v < sz" for v
      proof -
        have "i \<le> PGROUNDDOWN v" "PGROUNDDOWN v \<noteq> i" using that(1) nxt(2) by auto
        then show ?thesis using page(9) [of v] prem(7) [of v] that(2) by simp
      qed
      ultimately obtain r s2 where
        s2: "copyuvm_loop pgdir d sz (i + PGSIZE) s1 = Inr (r, s2)"
          "r = 0 \<and> (\<forall>n. unat sz \<le> unat (i + PGSIZE) + 4096 * n \<longrightarrow> room s1 d < 1024 + n) \<and> copy_failed d s1 s2
           \<or> r = d \<and> filled d (i + PGSIZE) sz F B s1 s2"
        using less.hyps [of "i + PGSIZE" s1] page(5) prem(3,6) nxt(1) by blast
      have loop: "copyuvm_loop pgdir d sz i s = Inr (r, s2)"
        using True pte pres page(1-3) s2(1) nxt(2) by (simp add: unfold not_le)
      from s2(2) show ?thesis
      proof (elim disjE conjE)
        assume r: "r = 0" "\<forall>n. unat sz \<le> unat (i + PGSIZE) + 4096 * n \<longrightarrow> room s1 d < 1024 + n"
          "copy_failed d s1 s2"
        have "room s d < 1024 + n" if n: "unat sz \<le> unat i + 4096 * n" for n
        proof -
          obtain k where "n = Suc k" using short [OF n] by blast
          with n r(2) nxt(3) have "room s1 d < 1024 + k" by simp
          with \<open>n = Suc k\<close> page(7) show ?thesis by simp
        qed
        then show ?thesis
          using loop r(1) copy_failed_after [OF page(4,6,8) r(3)] by blast
      next
        assume r: "r = d" "filled d (i + PGSIZE) sz F B s1 s2"
        have "PTE_FLAGS (entry (mem s) pgdir v) = F v" "user_byte (mem s) pgdir v = B v"
          if "PGROUNDDOWN v = i" for v using that True prem(8,9) by simp_all
        with page(11) have "filled d i sz F B s s2"
          by (intro filled_step [OF prem(5) True prem(6) page(4,5,6,8,9,10) _ r(2)]) auto
        with r(1) loop show ?thesis by blast
      qed
    qed
  qed
qed

section \<open>Growing an address space\<close>

definition user_perm :: u32 where
  "user_perm = PTE_W OR PTE_U"

lemma user_perm_less: "unat user_perm < 4096"
  by (simp add: user_perm_def PTE_W_def PTE_U_def)

text \<open>After a failure nothing between the old and the new size is mapped and the rest is as before.\<close>

definition backed_out :: "u32 \<Rightarrow> u32 \<Rightarrow> u32 \<Rightarrow> 'a kmst_scheme \<Rightarrow> 'a kmst_scheme \<Rightarrow> bool" where
  "backed_out d lo hi s s' \<longleftrightarrow> space_step d s s' \<and> keeps_bytes d s s'
     \<and> (\<forall>v. lo \<le> PGROUNDDOWN v \<and> PGROUNDDOWN v < hi \<longrightarrow> \<not> present (entry (mem s') d v))
     \<and> (\<forall>v. \<not> (lo \<le> PGROUNDDOWN v \<and> PGROUNDDOWN v < hi) \<longrightarrow> entry (mem s') d v = entry (mem s) d v)"

lemma keeps_bytes_same_mem:
  "entry (mem t) d = entry (mem s) d \<Longrightarrow> (\<And>v. v < KERNBASE \<Longrightarrow> present (entry (mem s) d v)
     \<Longrightarrow> user_byte (mem t) d v = user_byte (mem s) d v) \<Longrightarrow> keeps_bytes d s t"
  by (simp add: keeps_bytes_def)

lemma PGROUNDUP_ge: "sz \<le> KERNBASE \<Longrightarrow> sz \<le> PGROUNDUP sz"
proof -
  assume "sz \<le> KERNBASE"
  then have "unat (PGROUNDUP sz) = (unat sz + 4095) div 4096 * 4096"
    by (intro unat_PGROUNDUP) (simp add: word_le_nat_alt KERNBASE_def)
  then show ?thesis
    using div_mult_mod_eq [of "unat sz + 4095" 4096] mod_less_divisor [of 4096 "unat sz + 4095"]
    unfolding word_le_nat_alt by linarith
qed

lemma dealloc_backs_out:
  assumes "space_ok s d" "oldsz \<le> newsz" "newsz \<le> KERNBASE"
  obtains r s' where "deallocuvm d newsz oldsz s = Inr (r, s')" "backed_out d (PGROUNDUP oldsz) newsz s s'"
proof (cases "oldsz < newsz")
  case True
  from deallocuvm_ok [OF assms(1,3) True] obtain s' where s': "deallocuvm d newsz oldsz s = Inr (oldsz, s')"
    "space_step d s s'" "entry (mem s') d = cleared (PGROUNDUP oldsz) newsz (entry (mem s) d)"
    "keeps_bytes d s s'" by blast
  then have "backed_out d (PGROUNDUP oldsz) newsz s s'"
    by (auto simp: backed_out_def cleared_def)
  with s'(1) that show thesis by blast
next
  case False
  then have eq: "oldsz = newsz" using assms(2) by simp
  have "newsz \<le> PGROUNDUP newsz" if "newsz \<le> KERNBASE"
    using PGROUNDUP_ge [OF that] .
  then have "backed_out d (PGROUNDUP oldsz) newsz s s"
    using assms eq by (auto simp: backed_out_def space_step_refl keeps_bytes_def)
  then show thesis using that eq by (simp add: deallocuvm_def)
qed

lemma backed_out_after_free:
  assumes "backed_out d lo hi s t" "good_page t p" "p \<notin> pool t d"
  shows "\<exists>u. kfree p t = Inr u \<and> kmem_frame s u \<and> space_ok u d \<and> pool u d = insert p (pool s d)
    \<and> keeps_bytes d s u \<and> entry (mem u) d = entry (mem t) d
    \<and> (\<forall>a. PGROUNDDOWN a \<notin> insert p (pool s d) \<longrightarrow> mem u a = mem s a)"
proof -
  have t: "kmem_frame s t" "space_ok t d" "pool t d = pool s d" "keeps_bytes d s t"
    "\<And>a. PGROUNDDOWN a \<notin> pool s d \<Longrightarrow> mem t a = mem s a"
    using assms(1) by (auto simp: backed_out_def space_step_def)
  have inv: "kmem_invar t" "p \<notin> set (kfree_pages t)" "p \<notin> owned (mem t) d"
    using t(2) assms(3) by (auto simp: space_ok_def pool_def)
  obtain m f where free: "kfree p t = Inr (t\<lparr>mem := m, freelist := f\<rparr>)"
    "kmem_invar (t\<lparr>mem := m, freelist := f\<rparr>)"
    "kfree_pages (t\<lparr>mem := m, freelist := f\<rparr>) = p # kfree_pages t"
    "\<And>a. PGROUNDDOWN a \<noteq> p \<Longrightarrow> m a = mem t a"
    using kfree_step [OF inv(1) assms(2) inv(2)] by blast
  let ?u = "t\<lparr>mem := m, freelist := f\<rparr>"
  have agree: "mem ?u a = mem t a" if "PGROUNDDOWN a \<in> owned (mem t) d" for a
    using that inv(3) free(4) [of a] by (cases "PGROUNDDOWN a = p") auto
  have dal: "page_aligned d" using space_ok_aligned [OF t(2) owned_dir] .
  note same = space_untouched [of d "mem t" "mem ?u", OF dal agree]
  have "space_ok ?u d"
    using t(2) free(2,3) inv(3) same(2,3) by (auto simp: space_ok_def)
  moreover have "pool ?u d = insert p (pool s d)"
    using free(3) t(3) same(3) by (auto simp: pool_def)
  moreover have "keeps_bytes d s ?u"
    using keeps_bytes_trans [OF t(4) keeps_bytes_same_mem [of ?u d t]] same(1,4) by blast
  moreover have "kmem_frame s ?u" using t(1) by (rule kmem_frame_trans) (rule kmem_frameI)
  moreover have "mem ?u a = mem s a" if "PGROUNDDOWN a \<notin> insert p (pool s d)" for a
    using that free(4) [of a] t(5) [of a] by auto
  ultimately show ?thesis using free(1) same(1) by blast
qed

lemma backed_outD:
  assumes "backed_out d lo hi s s'"
  shows "kmem_frame s s'" "space_ok s' d" "pool s' d = pool s d"
    "\<And>a. PGROUNDDOWN a \<notin> pool s d \<Longrightarrow> mem s' a = mem s a"
    "\<And>v. lo \<le> PGROUNDDOWN v \<and> PGROUNDDOWN v < hi \<Longrightarrow> \<not> present (entry (mem s') d v)"
    "\<And>v. \<not> (lo \<le> PGROUNDDOWN v \<and> PGROUNDDOWN v < hi) \<Longrightarrow> entry (mem s') d v = entry (mem s) d v"
    "\<And>v. v < KERNBASE \<Longrightarrow> present (entry (mem s') d v) \<Longrightarrow> user_byte (mem s') d v = user_byte (mem s) d v"
  using assms unfolding backed_out_def space_step_def keeps_bytes_def by blast+

lemma backed_out_step:
  assumes s1: "kmem_frame s s1" "pool s1 d = pool s d"
      "\<And>a. PGROUNDDOWN a \<notin> pool s d \<Longrightarrow> mem s1 a = mem s a"
      "\<And>v. PGROUNDDOWN v \<noteq> i \<Longrightarrow> entry (mem s1) d v = entry (mem s) d v"
      "\<And>v. PGROUNDDOWN v \<noteq> i \<Longrightarrow> v < KERNBASE \<Longrightarrow> present (entry (mem s) d v)
         \<Longrightarrow> user_byte (mem s1) d v = user_byte (mem s) d v"
    and i: "lo \<le> i" "i < hi" and rest: "backed_out d lo hi s1 s2"
  shows "backed_out d lo hi s s2"
proof -
  note r = backed_outD [OF rest]
  have "keeps_bytes d s s2"
    unfolding keeps_bytes_def
  proof (intro allI impI)
    fix v assume v: "v < KERNBASE" "present (entry (mem s2) d v)"
    then have out: "\<not> (lo \<le> PGROUNDDOWN v \<and> PGROUNDDOWN v < hi)" using r(5) by blast
    then have "PGROUNDDOWN v \<noteq> i" using i by auto
    then show "entry (mem s2) d v = entry (mem s) d v \<and> user_byte (mem s2) d v = user_byte (mem s) d v"
      using r(6) [OF out] r(7) [OF v] s1(4,5) v by simp
  qed
  moreover have "entry (mem s2) d v = entry (mem s) d v"
    if out: "\<not> (lo \<le> PGROUNDDOWN v \<and> PGROUNDDOWN v < hi)" for v
  proof -
    have "PGROUNDDOWN v \<noteq> i" using i out by auto
    then show ?thesis using r(6) [OF out] s1(4) by simp
  qed
  moreover have "space_step d s s2"
    using kmem_frame_trans [OF s1(1) r(1)] r(2-4) s1(2,3) by (simp add: space_step_def)
  ultimately show ?thesis using r(5) unfolding backed_out_def by blast
qed

lemma alloc_one_page:
  assumes ok: "space_ok s d" and i: "page_aligned i" "i < KERNBASE" and absent: "\<not> present (entry (mem s) d i)"
    and sz: "oldsz \<le> newsz" "newsz \<le> KERNBASE"
  obtains (out) h r u where "kalloc s = Inr (0, s\<lparr>hw := h\<rparr>)" "kfree_pages s = []"
      "deallocuvm d newsz oldsz (s\<lparr>hw := h\<rparr>) = Inr (r, u)" "backed_out d (PGROUNDUP oldsz) newsz s u"
  | (half) p h f u r v w where "kalloc s = Inr (p, s\<lparr>hw := h, freelist := f\<rparr>)" "p \<noteq> 0" "room s d < 1025"
      "mappages d i PGSIZE (V2P p) user_perm (s\<lparr>hw := h, freelist := f, mem := memset (mem s) p 0 PGSIZE\<rparr>)
         = Inr (- 1, u)"
      "deallocuvm d newsz oldsz u = Inr (r, v)" "kfree p v = Inr w" "backed_out d (PGROUNDUP oldsz) newsz s w"
  | (page) p h f u where "kalloc s = Inr (p, s\<lparr>hw := h, freelist := f\<rparr>)" "p \<noteq> 0"
      "mappages d i PGSIZE (V2P p) user_perm (s\<lparr>hw := h, freelist := f, mem := memset (mem s) p 0 PGSIZE\<rparr>)
         = Inr (0, u)"
      "kmem_frame s u" "space_ok u d" "pool u d = pool s d" "Suc (room u d) = room s d"
      "\<And>a. PGROUNDDOWN a \<notin> pool s d \<Longrightarrow> mem u a = mem s a"
      "\<And>v. PGROUNDDOWN v \<noteq> i \<Longrightarrow> entry (mem u) d v = entry (mem s) d v"
      "\<And>v. PGROUNDDOWN v \<noteq> i \<Longrightarrow> v < KERNBASE \<Longrightarrow> present (entry (mem s) d v)
         \<Longrightarrow> user_byte (mem u) d v = user_byte (mem s) d v"
      "\<And>v. PGROUNDDOWN v = i \<Longrightarrow> present (entry (mem u) d v)
         \<and> PTE_FLAGS (entry (mem u) d v) = user_perm OR PTE_P \<and> user_byte (mem u) d v = 0"
proof -
  have inv: "kmem_invar s" using ok by (simp add: space_ok_def)
  from inv show thesis
  proof (cases rule: kalloc_cases)
    case (empty h)
    have "space_step d s (s\<lparr>hw := h\<rparr>)" using space_ok_hw [OF ok] empty by simp
    moreover obtain r u where u: "deallocuvm d newsz oldsz (s\<lparr>hw := h\<rparr>) = Inr (r, u)"
      "backed_out d (PGROUNDUP oldsz) newsz (s\<lparr>hw := h\<rparr>) u"
      using dealloc_backs_out [OF space_step_ok sz] calculation by blast
    ultimately have "backed_out d (PGROUNDUP oldsz) newsz s u"
      using space_step_trans by (simp add: backed_out_def keeps_bytes_def) blast
    with empty u(1) out show thesis by blast
  next
    case al: (page p xs h f)
    let ?m = "memset (mem s) p 0 PGSIZE" and ?s = "s\<lparr>hw := h, freelist := f, mem := memset (mem s) p 0 PGSIZE\<rparr>"
    have pal: "page_aligned p" using al(5) by (simp add: good_page_def)
    have zero: "?m a = (if PGROUNDDOWN a = p then 0 else mem s a)" for a
      by (simp add: memset_fill PGSIZE_def fill_page [OF pal])
    have other: "?m a = mem s a" if "PGROUNDDOWN a \<noteq> p" for a using that by (simp add: zero)
    note leaf = PTE_leaf [OF pal user_perm_less]
    consider (none) u where "mappages d i PGSIZE (V2P p) user_perm ?s = Inr (- 1, u)"
        "kmem_frame s u" "space_ok u d" "pool u d = pool s d - {p}" "p \<in> pool s d" "room s d < 1025"
        "\<And>a. PGROUNDDOWN a \<noteq> p \<Longrightarrow> mem u a = mem s a" "entry (mem u) d = entry (mem s) d"
      | (mapped) u where "mappages d i PGSIZE (V2P p) user_perm ?s = Inr (0, u)"
        "kmem_frame s u" "space_ok u d" "pool u d = pool s d" "Suc (room u d) = room s d"
        "\<And>a. PGROUNDDOWN a \<notin> pool s d \<Longrightarrow> mem u a = mem s a"
        "\<And>v. entry (mem u) d v = (if PGROUNDDOWN v = i then V2P p OR user_perm OR PTE_P else entry (mem s) d v)"
        "\<And>v. PGROUNDDOWN v \<noteq> i \<Longrightarrow> v < KERNBASE \<Longrightarrow> present (entry (mem s) d v)
           \<Longrightarrow> user_byte (mem u) d v = user_byte (mem s) d v"
        "\<And>v. PGROUNDDOWN v = i \<Longrightarrow> user_byte (mem u) d v = ?m (p + (v - i))"
      by (rule add_page [OF ok al(1,3,4,5,7) other i absent user_perm_less]) blast+
    then show thesis
    proof cases
      case (none u)
      obtain r v where v: "deallocuvm d newsz oldsz u = Inr (r, v)" "backed_out d (PGROUNDUP oldsz) newsz u v"
        using dealloc_backs_out [OF none(3) sz] by blast
      have vu: "kmem_frame u v" "pool v d = pool u d"
        using v(2) by (auto simp: backed_out_def space_step_def)
      have "good_page v p" "p \<notin> pool v d"
        using al(5) kmem_frame_same(1) [OF kmem_frame_trans [OF none(2) vu(1)]] vu(2) none(4) by auto
      from backed_out_after_free [OF v(2) this] obtain w where
        w: "kfree p v = Inr w" "kmem_frame u w" "space_ok w d" "pool w d = insert p (pool u d)"
          "keeps_bytes d u w" "entry (mem w) d = entry (mem v) d"
          "\<And>a. PGROUNDDOWN a \<notin> insert p (pool u d) \<Longrightarrow> mem w a = mem u a" by blast
      have pown: "p \<notin> owned (mem s) d" using ok al(1) by (auto simp: space_ok_def)
      have agree: "mem u a = mem s a" if "PGROUNDDOWN a \<in> owned (mem s) d" for a
        using that pown none(7) [of a] by (cases "PGROUNDDOWN a = p") auto
      have "keeps_bytes d s u"
        using space_untouched(1,4) [of d "mem s" "mem u", OF space_ok_aligned [OF ok owned_dir] agree]
        by (intro keeps_bytes_same_mem) auto
      then have keep: "keeps_bytes d s w" using w(5) by (rule keeps_bytes_trans)
      have pw: "pool w d = pool s d" using w(4) none(4,5) by auto
      have "mem w a = mem s a" if "PGROUNDDOWN a \<notin> pool s d" for a
      proof -
        have "PGROUNDDOWN a \<noteq> p" using that none(5) by auto
        then show ?thesis using that w(7) [of a] none(4,7) by simp
      qed
      then have "space_step d s w"
        using kmem_frame_trans [OF none(2) w(2)] w(3) pw by (simp add: space_step_def)
      then have "backed_out d (PGROUNDUP oldsz) newsz s w"
        using keep v(2) w(6) none(8) unfolding backed_out_def by auto
      with half [OF al(2,6) none(6,1) v(1) w(1)] show thesis by blast
    next
      case (mapped u)
      have "present (entry (mem u) d v) \<and> PTE_FLAGS (entry (mem u) d v) = user_perm OR PTE_P
          \<and> user_byte (mem u) d v = 0" if v: "PGROUNDDOWN v = i" for v
        using mapped(7,9) [of v] v leaf(1,3) page_plus_offset [OF pal, of v] by (simp add: zero)
      moreover have "entry (mem u) d v = entry (mem s) d v" if "PGROUNDDOWN v \<noteq> i" for v
        using mapped(7) [of v] that by simp
      ultimately show thesis using page [OF al(2,6) mapped(1-6)] mapped(8) by blast
    qed
  qed
qed

lemma allocuvm_loop_ok:
  assumes "space_ok s d" "page_aligned a" "PGROUNDUP oldsz \<le> a" "oldsz \<le> newsz" "newsz \<le> KERNBASE"
    and "\<And>v. a \<le> PGROUNDDOWN v \<Longrightarrow> PGROUNDDOWN v < newsz \<Longrightarrow> \<not> present (entry (mem s) d v)"
  shows "\<exists>r s'. allocuvm_loop d oldsz newsz a s = Inr (r, s')
    \<and> (r = 0 \<and> a < newsz \<and> (\<forall>n. unat newsz \<le> unat a + 4096 * n \<longrightarrow> room s d < 1024 + n)
         \<and> backed_out d (PGROUNDUP oldsz) newsz s s'
       \<or> r = newsz \<and> filled d a newsz (\<lambda>_. user_perm OR PTE_P) (\<lambda>_. 0) s s'
         \<and> (\<forall>n. unat newsz \<le> unat a + 4096 * n \<longrightarrow> room s d \<le> room s' d + n))"
  using assms
proof (induction "unat newsz - unat a" arbitrary: a s rule: less_induct)
  case less
  note prem = less.prems
  show ?case
  proof (cases "a < newsz")
    case False
    with filled_refl [OF prem(1) False] show ?thesis by (simp add: allocuvm_loop.simps)
  next
    case True
    have ka: "a < KERNBASE" using True prem(5) by simp
    have apage: "PGROUNDDOWN a = a" using prem(2) by (rule PGROUNDDOWN_aligned)
    have absent: "\<not> present (entry (mem s) d a)" using prem(6) [of a] True apage by simp
    note unfold = allocuvm_loop.simps [of d oldsz newsz a, folded user_perm_def]
    note nxt = page_aligned_next [OF prem(2) ka]
    have short: "\<exists>k. n = Suc k" if "unat newsz \<le> unat a + 4096 * n" for n
      using that True by (cases n) (auto simp: word_less_nat_alt)
    show ?thesis
      using prem(1,2) ka absent prem(4,5)
    proof (cases rule: alloc_one_page)
      case (out h r u)
      have "card (tables_in (mem s) d) \<le> 1024"
        using card_mono [OF indexes_1024(1), of "tables_in (mem s) d"] indexes_1024(2)
        by (auto simp: tables_in_def)
      then have "room s d < 1024 + n" if "unat newsz \<le> unat a + 4096 * n" for n
        using short [OF that] out(2) by (auto simp: room_def)
      moreover have "allocuvm_loop d oldsz newsz a s = Inr (0, u)"
        using True out(1,3) by (simp add: unfold)
      ultimately show ?thesis using out(4) True by blast
    next
      case (half p h f u r v w)
      have "room s d < 1024 + n" if "unat newsz \<le> unat a + 4096 * n" for n
        using short [OF that] half(3) by auto
      moreover have "allocuvm_loop d oldsz newsz a s = Inr (0, w)"
        using True half(1,2,4-6) by (simp add: unfold)
      ultimately show ?thesis using half(7) True by blast
    next
      case (page p h f s1)
      have "unat newsz - unat (a + PGSIZE) < unat newsz - unat a"
        using True nxt(3) by (simp add: word_less_nat_alt)
      moreover have "\<not> present (entry (mem s1) d v)"
        if "a + PGSIZE \<le> PGROUNDDOWN v" "PGROUNDDOWN v < newsz" for v
      proof -
        have "a \<le> PGROUNDDOWN v" "PGROUNDDOWN v \<noteq> a" using that(1) nxt(2) by auto
        then show ?thesis using page(9) [of v] prem(6) [of v] that(2) by simp
      qed
      moreover have "PGROUNDUP oldsz \<le> a + PGSIZE" using prem(3) nxt(2) by simp
      ultimately obtain r s2 where
        s2: "allocuvm_loop d oldsz newsz (a + PGSIZE) s1 = Inr (r, s2)"
          "r = 0 \<and> a + PGSIZE < newsz \<and> (\<forall>n. unat newsz \<le> unat (a + PGSIZE) + 4096 * n \<longrightarrow> room s1 d < 1024 + n)
             \<and> backed_out d (PGROUNDUP oldsz) newsz s1 s2
           \<or> r = newsz \<and> filled d (a + PGSIZE) newsz (\<lambda>_. user_perm OR PTE_P) (\<lambda>_. 0) s1 s2
             \<and> (\<forall>n. unat newsz \<le> unat (a + PGSIZE) + 4096 * n \<longrightarrow> room s1 d \<le> room s2 d + n)"
        using less.hyps [of "a + PGSIZE" s1] page(5) prem(4,5) nxt(1) by blast
      have loop: "allocuvm_loop d oldsz newsz a s = Inr (r, s2)"
        using True page(1-3) s2(1) nxt(2) by (simp add: unfold not_le)
      from s2(2) show ?thesis
      proof (elim disjE conjE)
        assume r: "r = 0" "\<forall>n. unat newsz \<le> unat (a + PGSIZE) + 4096 * n \<longrightarrow> room s1 d < 1024 + n"
          "backed_out d (PGROUNDUP oldsz) newsz s1 s2"
        have "room s d < 1024 + n" if n: "unat newsz \<le> unat a + 4096 * n" for n
        proof -
          obtain k where "n = Suc k" using short [OF n] by blast
          with n r(2) nxt(3) have "room s1 d < 1024 + k" by simp
          with \<open>n = Suc k\<close> page(7) show ?thesis by simp
        qed
        moreover have "backed_out d (PGROUNDUP oldsz) newsz s s2"
          by (rule backed_out_step [OF page(4,6,8,9,10) prem(3) True r(3)])
        ultimately show ?thesis using loop r(1) True by blast
      next
        assume r: "r = newsz" "filled d (a + PGSIZE) newsz (\<lambda>_. user_perm OR PTE_P) (\<lambda>_. 0) s1 s2"
          "\<forall>n. unat newsz \<le> unat (a + PGSIZE) + 4096 * n \<longrightarrow> room s1 d \<le> room s2 d + n"
        from r(2) have "filled d a newsz (\<lambda>_. user_perm OR PTE_P) (\<lambda>_. 0) s s2"
          by (intro filled_step [OF prem(2) True prem(5) page(4,5,6,8,9,10,11)])
        moreover have "room s d \<le> room s2 d + n" if n: "unat newsz \<le> unat a + 4096 * n" for n
        proof -
          obtain k where "n = Suc k" using short [OF n] by blast
          with n r(3) nxt(3) have "room s1 d \<le> room s2 d + k" by simp
          with \<open>n = Suc k\<close> page(7) show ?thesis by simp
        qed
        ultimately show ?thesis using loop r(1) by blast
      qed
    qed
  qed
qed

section \<open>Properties\<close>

text \<open>
  C7: Copying an address space for \<^verbatim>\<open>fork\<close> always returns. The parent keeps every mapping and
  every byte. When it succeeds the child is a well formed address space whose pages are all
  different from the parent's, every user byte and every permission of the pages below
  \<open>sz\<close> reads as in the parent, and the rest of the child is the kernel's mapping; it can fail only
  when fewer free pages are left than the child's pages and the possible tables need.
\<close>

theorem copyuvm_duplicates:
  assumes ok: "space_ok s pgdir" and img: "kernel_image s"
    and up: "user_pages (mem s) pgdir sz" and sz: "sz \<le> KERNBASE"
  shows "\<exists>d s'. copyuvm pgdir sz s = Inr (d, s')
    \<and> entry (mem s') pgdir = entry (mem s) pgdir
    \<and> (\<forall>v. PGROUNDDOWN v < sz \<longrightarrow> user_byte (mem s') pgdir v = user_byte (mem s) pgdir v)
    \<and> (if d = 0 then length (kfree_pages s) < 1025 + (unat sz + 4095) div 4096
       else space_ok s' d \<and> owned (mem s') d \<inter> owned (mem s') pgdir = {}
         \<and> (\<forall>v. PGROUNDDOWN v < sz \<longrightarrow> user_byte (mem s') d v = user_byte (mem s) pgdir v
              \<and> PTE_FLAGS (entry (mem s') d v) = PTE_FLAGS (entry (mem s) pgdir v))
         \<and> (\<forall>v. sz \<le> PGROUNDDOWN v \<longrightarrow> entry (mem s') d v = kern_entry (sym_data s) v))"
proof -
  have inv: "kmem_invar s" and al: "page_aligned pgdir"
    using ok space_ok_aligned [OF ok owned_dir] by (auto simp: space_ok_def)
  have usr: "v < KERNBASE" "present (entry (mem s) pgdir v)" if "PGROUNDDOWN v < sz" for v
    using that sz up user_page_below [of v] by (simp_all add: user_pages_def)
  have free: "PGROUNDDOWN a \<notin> set (kfree_pages s)" if "PGROUNDDOWN a \<in> owned (mem s) pgdir" for a
    using ok that by (simp add: space_ok_def)
  have parent: "entry (mem t) pgdir = entry (mem s) pgdir" "owned (mem t) pgdir = owned (mem s) pgdir"
    "PGROUNDDOWN v < sz \<Longrightarrow> user_byte (mem t) pgdir v = user_byte (mem s) pgdir v"
    if "\<And>a. PGROUNDDOWN a \<notin> set (kfree_pages s) \<Longrightarrow> mem t a = mem s a" for t :: "'a kmst_scheme" and v
    using space_untouched [of pgdir "mem s" "mem t", OF al] that free usr by auto
  from setupkvm_ok [OF inv img] obtain d s1 where
    s1: "setupkvm s = Inr (d, s1)"
      "d = 0 \<and> length (kfree_pages s) < 1025 \<and> freed_all (set (kfree_pages s)) s s1 \<or> kvm_built s d s1" by blast
  show ?thesis
  proof (cases "d = 0")
    case True
    with s1(2) have "length (kfree_pages s) < 1025" "freed_all (set (kfree_pages s)) s s1"
      by (auto simp: kvm_built_def)
    then show ?thesis
      using True s1(1) parent [of s1] by (auto simp: copyuvm_def freed_all_def)
  next
    case False
    with s1(2) have b: "kmem_frame s s1" "space_ok s1 d" "pool s1 d = set (kfree_pages s)"
      "Suc (room s1 d) = length (kfree_pages s)"
      "\<And>a. PGROUNDDOWN a \<notin> set (kfree_pages s) \<Longrightarrow> mem s1 a = mem s a"
      "entry (mem s1) d = kern_entry (sym_data s)"
      by (auto simp: kvm_built_def)
    note p1 = parent [of s1, OF b(5)]
    have "apart s1 pgdir d"
      using ok kmem_frame_same(1) [OF b(1)] p1(2) by (auto simp: apart_def b(3) space_ok_def)
    moreover have "user_pages (mem s1) pgdir sz" using up p1(1) by (simp add: user_pages_def)
    moreover have "\<not> present (entry (mem s1) d v)" if "PGROUNDDOWN v < sz" for v
      using usr(1) [OF that] user_page_below [of v] by (simp add: b(6) kern_entry_def)
    ultimately obtain r s2 where
      s2: "copyuvm_loop pgdir d sz 0 s1 = Inr (r, s2)"
        "r = 0 \<and> (\<forall>n. unat sz \<le> 4096 * n \<longrightarrow> room s1 d < 1024 + n) \<and> copy_failed d s1 s2
         \<or> r = d \<and> filled d 0 sz (\<lambda>v. PTE_FLAGS (entry (mem s) pgdir v)) (user_byte (mem s) pgdir) s1 s2"
      using copyuvm_loop_ok [OF b(2), of pgdir sz 0 "\<lambda>v. PTE_FLAGS (entry (mem s) pgdir v)"
          "user_byte (mem s) pgdir"] al sz p1(1,3)
      by (auto simp: page_aligned_def)
    have copy: "copyuvm pgdir sz s = Inr (r, s2)"
      using s1(1) s2(1) False by (simp add: copyuvm_def)
    have "mem s2 a = mem s a" if "PGROUNDDOWN a \<notin> set (kfree_pages s)" for a
      using s2(2) that b(3,5) by (auto simp: copy_failed_def filled_def)
    note p2 = parent [of s2, OF this]
    have n: "unat sz \<le> 4096 * ((unat sz + 4095) div 4096)"
      using div_mult_mod_eq [of "unat sz + 4095" 4096] mod_less_divisor [of 4096 "unat sz + 4095"] by linarith
    from s2(2) show ?thesis
    proof (elim disjE conjE)
      assume "r = 0" "\<forall>n. unat sz \<le> 4096 * n \<longrightarrow> room s1 d < 1024 + n"
      with n b(4) have "length (kfree_pages s) < 1025 + (unat sz + 4095) div 4096" by fastforce
      with \<open>r = 0\<close> copy p2 show ?thesis by auto
    next
      assume r: "r = d" "filled d 0 sz (\<lambda>v. PTE_FLAGS (entry (mem s) pgdir v)) (user_byte (mem s) pgdir) s1 s2"
      then have "owned (mem s2) d \<subseteq> set (kfree_pages s)" "space_ok s2 d"
        using b(3) by (auto simp: filled_def pool_def)
      moreover from this have "owned (mem s2) d \<inter> owned (mem s2) pgdir = {}"
        using ok p2(2) by (auto simp: space_ok_def)
      moreover have "entry (mem s2) d v = kern_entry (sym_data s) v" if "sz \<le> PGROUNDDOWN v" for v
        using r(2) that b(6) by (auto simp: filled_def)
      ultimately show ?thesis
        using r copy p2 False by (auto simp: filled_def)
    qed
  qed
qed

lemma tables_in_le: "card (tables_in m pgdir) \<le> 1024"
  using card_mono [OF indexes_1024(1), of "tables_in m pgdir"] indexes_1024(2)
  by (auto simp: tables_in_def)

lemma length_page_range [simp]: "length (page_range p n) = n"
  by (simp add: page_range_def)

lemma page_range_nth:
  assumes "i < n" "unat p + 4096 * n \<le> 2382364672"
  shows "unat (p + of_nat i * PGSIZE) = unat p + 4096 * i"
proof -
  have "4096 * i < 4096 * n" using assms(1) by simp
  then have i: "4096 * i < 4294967296" "unat p + 4096 * i < 4294967296" using assms(2) by linarith+
  have "of_nat i * PGSIZE = (of_nat (4096 * i) :: u32)" by (simp add: PGSIZE_def mult.commute)
  then have "unat (of_nat i * PGSIZE :: u32) = 4096 * i" using unat_of_nat32 [OF i(1)] by simp
  with i(2) show ?thesis by (simp add: unat_add32)
qed

lemma page_range_good:
  assumes "page_aligned p" "sym_end s \<le> p" "KERNBASE \<le> p" "unat p + 4096 * n \<le> 2382364672"
  shows "\<forall>q\<in>set (page_range p n). good_page s q" "distinct (page_range p n)"
proof -
  note u = page_range_nth [OF _ assms(4)]
  have kp: "2147483648 \<le> unat p" using assms(3) by (simp add: word_le_nat_alt KERNBASE_def)
  have "good_page s (p + of_nat i * PGSIZE)" if "i < n" for i
  proof -
    let ?q = "p + of_nat i * PGSIZE"
    have i: "4096 * i + 4096 \<le> 4096 * n" using that by simp
    have k: "KERNBASE \<le> ?q"
      unfolding word_le_nat_alt u [OF that] using kp by (simp add: KERNBASE_def)
    have "unat (V2P ?q) = unat p + 4096 * i - 2147483648"
      using unat_sub [OF k] unfolding V2P_def u [OF that] by (simp add: KERNBASE_def)
    then have "V2P ?q < PHYSTOP"
      using i assms(4) kp unfolding word_less_nat_alt by (simp add: PHYSTOP_def)
    moreover have "page_aligned ?q"
      using assms(1) unfolding page_aligned_def u [OF that] by simp
    moreover have "sym_end s \<le> ?q"
      using assms(2) unfolding word_le_nat_alt u [OF that] by simp
    ultimately show ?thesis by (simp add: good_page_def)
  qed
  then show "\<forall>q\<in>set (page_range p n). good_page s q" by (auto simp: page_range_def)
  have "i = j" if "i < n" "j < n" "p + of_nat i * PGSIZE = p + of_nat j * PGSIZE" for i j
  proof -
    have "unat p + 4096 * i = unat p + 4096 * j" using u [OF that(1)] u [OF that(2)] that(3) by metis
    then show ?thesis by simp
  qed
  then have "inj_on (\<lambda>i. p + of_nat i * PGSIZE) {0..<n}" unfolding inj_on_def by auto
  then show "distinct (page_range p n)"
    unfolding page_range_def by (simp only: distinct_map distinct_upt set_upt simp_thms)
qed

text \<open>A kernel after boot with sixteen megabytes of free pages, and one user page in a process.\<close>

lemma boot_kernel:
  "\<exists>s::kmst. kmem_invar s \<and> kernel_image s \<and> length (kfree_pages s) = 4096"
proof -
  let ?p = "0x80200000 :: u32"
  have img: "kernel_image (small_kernel 0)"
    by (simp add: kernel_image_def small_kernel_def page_aligned_def memlayout_defs)
  have good: "\<forall>q\<in>set (page_range ?p 4096). good_page (small_kernel 0) q" "distinct (page_range ?p 4096)"
    using page_range_good [of ?p "small_kernel 0" 4096]
    by (simp_all add: page_aligned_def small_kernel_def KERNBASE_def)
  have "free_inv (small_kernel 0) []" using small_kernel_empty by (simp add: kmem_invar_def)
  then obtain s where s: "free_inv s (rev (page_range ?p 4096))"
    "s = (small_kernel 0)\<lparr>mem := mem s, freelist := freelist s\<rparr>"
    using freerange_loop_frees [of "small_kernel 0" "[]" ?p 4096 "0x81200000"] good by auto
  note field = arg_cong [OF s(2)]
  have "lockable s"
    using small_kernel_lockable [of 0] field [of hw] field [of use_lock] by (simp add: lockable_def)
  from kmem_invarI [OF this s(1)] have "kmem_invar s" "length (kfree_pages s) = 4096"
    by simp_all
  moreover have "kernel_image s"
    using img field [of sym_data] field [of sym_end] by (simp add: kernel_image_def)
  ultimately show ?thesis by blast
qed

lemma one_page_process:
  "\<exists>(s::kmst) d. space_ok s d \<and> kernel_image s \<and> user_pages (mem s) d 0x1000
     \<and> 1026 \<le> length (kfree_pages s)"
proof -
  obtain s :: kmst where s: "kmem_invar s" "kernel_image s" "length (kfree_pages s) = 4096"
    using boot_kernel by blast
  from setupkvm_ok [OF s(1,2)] s(3) obtain d s1 where b: "kvm_built s d s1" by auto
  then have s1: "space_ok s1 d" "kmem_frame s s1" "room s1 d = 4095"
    "entry (mem s1) d = kern_entry (sym_data s)" using s(3) by (auto simp: kvm_built_def)
  have "\<not> present (entry (mem s1) d v)" if "PGROUNDDOWN v < 0x1000" for v
  proof -
    have "PGROUNDDOWN v < KERNBASE"
      using less_trans [OF that] by (simp add: KERNBASE_def)
    then show ?thesis by (simp add: s1(4) kern_entry_def)
  qed
  then obtain r s2 where
    "r = 0 \<and> (\<forall>n. (4096::nat) \<le> 4096 * n \<longrightarrow> room s1 d < 1024 + n)
     \<or> r = (0x1000::u32) \<and> filled d 0 0x1000 (\<lambda>_. user_perm OR PTE_P) (\<lambda>_. 0) s1 s2
       \<and> (\<forall>n. (4096::nat) \<le> 4096 * n \<longrightarrow> room s1 d \<le> room s2 d + n)"
    using allocuvm_loop_ok [OF s1(1), of 0 0 "0x1000"]
    by (auto simp: page_aligned_def KERNBASE_def PGROUNDUP_def PGSIZE_def)
  then have f: "filled d 0 0x1000 (\<lambda>_. user_perm OR PTE_P) (\<lambda>_. 0) s1 s2" "4095 \<le> room s2 d + 1"
    using s1(3) by force+
  have "space_ok s2 d" "kmem_frame s1 s2" "user_pages (mem s2) d 0x1000"
    using f(1) by (auto simp: filled_def user_pages_def)
  moreover have "kernel_image s2"
    using s(2) kmem_frame_same [OF kmem_frame_trans [OF s1(2) calculation(2)]]
    by (simp add: kernel_image_def)
  moreover have "1026 \<le> length (kfree_pages s2)"
    using f(2) tables_in_le [of "mem s2" d] by (simp add: room_def)
  ultimately show ?thesis by blast
qed

theorem copyuvm_duplicates_witness:
  "\<exists>(s::kmst) pgdir d s'. space_ok s pgdir \<and> user_pages (mem s) pgdir 0x1000
     \<and> copyuvm pgdir 0x1000 s = Inr (d, s') \<and> d \<noteq> 0 \<and> space_ok s' d
     \<and> user_byte (mem s') d 0x123 = user_byte (mem s) pgdir 0x123"
proof -
  obtain s :: kmst and pgdir where s: "space_ok s pgdir" "kernel_image s"
    "user_pages (mem s) pgdir 0x1000" "1026 \<le> length (kfree_pages s)"
    using one_page_process by blast
  have "PGROUNDDOWN 0x123 < 0x1000" by (simp add: PGROUNDDOWN_def PGSIZE_def)
  with copyuvm_duplicates [OF s(1-3)] s show ?thesis
    by (fastforce simp: KERNBASE_def split: if_splits)
qed

text \<open>
  C17: \<^verbatim>\<open>setupkvm\<close> either builds a directory whose user half is empty and whose kernel half maps
  exactly the regions of \<^verbatim>\<open>kmap\<close>, or fails for lack of pages and leaves the set of free pages as
  it was. It never panics.
\<close>

theorem setupkvm_maps_kernel:
  assumes "kmem_invar s" "kernel_image s"
  shows "\<exists>d s'. setupkvm s = Inr (d, s')
    \<and> (if d = 0 then length (kfree_pages s) < 1025 \<and> kmem_invar s'
         \<and> set (kfree_pages s') = set (kfree_pages s)
       else space_ok s' d \<and> entry (mem s') d = kern_entry (sym_data s)
         \<and> owned (mem s') d \<union> set (kfree_pages s') = set (kfree_pages s))"
  using setupkvm_ok [OF assms] by (auto simp: freed_all_def kvm_built_def pool_def)

theorem setupkvm_maps_kernel_witness:
  "\<exists>(s::kmst) d s'. setupkvm s = Inr (d, s') \<and> d \<noteq> 0 \<and> entry (mem s') d 0x80100000 = 0x100001"
proof -
  obtain s :: kmst where s: "kmem_invar s" "kernel_image s" "length (kfree_pages s) = 4096"
    using boot_kernel by blast
  have "PGROUNDDOWN 0x80100000 = 0x80100000" by (simp add: PGROUNDDOWN_def PGSIZE_def)
  then have "kern_entry (sym_data s) 0x80100000 = 0x100001"
    using s(2) by (simp add: kern_entry_def kernel_image_def memlayout_defs PTE_P_def)
  with setupkvm_maps_kernel [OF s(1,2)] s(3) show ?thesis
    by (fastforce split: if_splits)
qed

text \<open>
  C18: \<^verbatim>\<open>freevm\<close> gives every page of an address space back: the directory, all page tables and
  all user pages. Afterwards exactly these and the pages that were free before are free, and
  no byte of any other page has changed.
\<close>

theorem freevm_returns_all:
  assumes "space_ok s pgdir"
  shows "\<exists>s'. freevm pgdir s = Inr s' \<and> kmem_invar s'
    \<and> set (kfree_pages s') = owned (mem s) pgdir \<union> set (kfree_pages s)
    \<and> (\<forall>a. PGROUNDDOWN a \<notin> owned (mem s) pgdir \<union> set (kfree_pages s) \<longrightarrow> mem s' a = mem s a)"
  using freevm_freed_all [OF assms] by (auto simp: freed_all_def pool_def)

theorem freevm_returns_all_witness:
  "\<exists>(s::kmst) pgdir s'. user_pages (mem s) pgdir 0x1000 \<and> freevm pgdir s = Inr s'
     \<and> pgdir \<in> set (kfree_pages s')"
proof -
  obtain s :: kmst and pgdir where s: "space_ok s pgdir" "user_pages (mem s) pgdir 0x1000"
    using one_page_process by blast
  with freevm_returns_all [OF s(1)] owned_dir show ?thesis by blast
qed

text \<open>
  C19: \<^verbatim>\<open>allocuvm\<close> on a process with nothing mapped above its size returns the new size after
  adding zeroed, writable user pages up to it, or returns 0 with nothing above the old size
  mapped. In both cases the mappings and the bytes below the old size stay, no other page is written
  and no page is lost.
\<close>

theorem allocuvm_grows:
  assumes "space_ok s d" "oldsz \<le> newsz" "newsz < KERNBASE"
    and "\<And>v. PGROUNDUP oldsz \<le> PGROUNDDOWN v \<Longrightarrow> PGROUNDDOWN v < newsz \<Longrightarrow> \<not> present (entry (mem s) d v)"
  shows "\<exists>r s'. allocuvm d oldsz newsz s = Inr (r, s') \<and> space_ok s' d
    \<and> owned (mem s') d \<union> set (kfree_pages s') = owned (mem s) d \<union> set (kfree_pages s)
    \<and> (r = 0 \<or> r = newsz)
    \<and> (\<forall>v. PGROUNDUP oldsz \<le> PGROUNDDOWN v \<and> PGROUNDDOWN v < newsz \<longrightarrow>
         (if r = newsz then PTE_FLAGS (entry (mem s') d v) = PTE_W OR PTE_U OR PTE_P \<and> user_byte (mem s') d v = 0
          else \<not> present (entry (mem s') d v)))
    \<and> (\<forall>v. PGROUNDDOWN v < PGROUNDUP oldsz \<longrightarrow> entry (mem s') d v = entry (mem s) d v
         \<and> (present (entry (mem s) d v) \<longrightarrow> user_byte (mem s') d v = user_byte (mem s) d v))
    \<and> (\<forall>a. PGROUNDDOWN a \<notin> owned (mem s) d \<union> set (kfree_pages s) \<longrightarrow> mem s' a = mem s a)"
proof -
  have le: "newsz \<le> KERNBASE" using assms(3) by simp
  obtain r s' where r: "allocuvm_loop d oldsz newsz (PGROUNDUP oldsz) s = Inr (r, s')"
    "r = 0 \<and> PGROUNDUP oldsz < newsz \<and> backed_out d (PGROUNDUP oldsz) newsz s s'
     \<or> r = newsz \<and> filled d (PGROUNDUP oldsz) newsz (\<lambda>_. user_perm OR PTE_P) (\<lambda>_. 0) s s'"
    using allocuvm_loop_ok [OF assms(1) page_aligned_PGROUNDUP order_refl assms(2) le assms(4)] by blast
  have alloc: "allocuvm d oldsz newsz s = Inr (r, s')"
    using r(1) assms(2,3) by (auto simp: allocuvm_def)
  have low: "v < KERNBASE" if "PGROUNDDOWN v < PGROUNDUP oldsz" for v
  proof -
    have "unat oldsz \<le> unat newsz" "unat newsz < 2147483648"
      using assms(2,3) by (simp_all add: word_le_nat_alt word_less_nat_alt KERNBASE_def)
    then have "unat oldsz + 4095 < 524288 * 4096 + 4096" by simp
    then have "(unat oldsz + 4095) div 4096 \<le> 524288"
      by (metis add.commute less_Suc_eq_le less_mult_imp_div_less mult_Suc)
    then have "unat (PGROUNDUP oldsz) \<le> 2147483648"
      using \<open>unat oldsz \<le> unat newsz\<close> \<open>unat newsz < 2147483648\<close> by (subst unat_PGROUNDUP) simp_all
    then have "PGROUNDDOWN v < KERNBASE" using that by (simp add: word_less_nat_alt KERNBASE_def)
    then show ?thesis using user_page_below by simp
  qed
  from r(2) show ?thesis
  proof (elim disjE conjE)
    assume b: "r = 0" "PGROUNDUP oldsz < newsz" "backed_out d (PGROUNDUP oldsz) newsz s s'"
    then have "r \<noteq> newsz" by auto
    moreover have "entry (mem s') d v = entry (mem s) d v
        \<and> (present (entry (mem s) d v) \<longrightarrow> user_byte (mem s') d v = user_byte (mem s) d v)"
      if "PGROUNDDOWN v < PGROUNDUP oldsz" for v
    proof -
      have "\<not> (PGROUNDUP oldsz \<le> PGROUNDDOWN v \<and> PGROUNDDOWN v < newsz)" using that by auto
      then have "entry (mem s') d v = entry (mem s) d v" by (rule backed_outD(6) [OF b(3)])
      with backed_outD(7) [OF b(3) low [OF that]] show ?thesis by simp
    qed
    ultimately show ?thesis
      using alloc b(1) backed_outD(2-5) [OF b(3)] unfolding pool_def
      by (intro exI [of _ r] exI [of _ s']) simp
  next
    assume f: "r = newsz" "filled d (PGROUNDUP oldsz) newsz (\<lambda>_. user_perm OR PTE_P) (\<lambda>_. 0) s s'"
    have "entry (mem s') d v = entry (mem s) d v" if "PGROUNDDOWN v < PGROUNDUP oldsz" for v
    proof -
      have "\<not> (PGROUNDUP oldsz \<le> PGROUNDDOWN v \<and> PGROUNDDOWN v < newsz)" using that by auto
      then show ?thesis using f(2) unfolding filled_def by (elim conjE) simp
    qed
    with f alloc low show ?thesis
      by (intro exI [of _ r] exI [of _ s']) (auto simp: filled_def pool_def user_perm_def or.assoc)
  qed
qed

theorem allocuvm_grows_witness:
  "\<exists>(s::kmst) d r s'. allocuvm d 0 0x2000 s = Inr (r, s') \<and> space_ok s' d \<and> (r = 0 \<or> r = 0x2000)"
proof -
  obtain s :: kmst where s: "kmem_invar s" "kernel_image s" "length (kfree_pages s) = 4096"
    using boot_kernel by blast
  from setupkvm_ok [OF s(1,2)] s(3) obtain d s1 where "kvm_built s d s1" by auto
  then have s1: "space_ok s1 d" "entry (mem s1) d = kern_entry (sym_data s)" by (auto simp: kvm_built_def)
  have "\<not> present (entry (mem s1) d v)" if "PGROUNDDOWN v < 0x2000" for v
  proof -
    have "PGROUNDDOWN v < KERNBASE"
      using less_trans [OF that] by (simp add: KERNBASE_def)
    then show ?thesis by (simp add: s1(2) kern_entry_def)
  qed
  with allocuvm_grows [OF s1(1), of 0 "0x2000"] show ?thesis
    by (auto simp: KERNBASE_def)
qed

end
