(* ===== verification/Proc.thy ===== *)
theory Proc
  imports Vm
begin

text \<open>
  The process table, switching between processes and the scheduler, and sleep and wakeup
  (\<^verbatim>\<open>proc.c\<close>), with \<^verbatim>\<open>switchuvm\<close> of \<^verbatim>\<open>vm.c\<close>. A process pointer is an index into the table, the null
  pointer is \<open>None\<close>. Trap frames and contexts are addresses into the kernel stack in byte
  memory. The context switch itself (\<^verbatim>\<open>swtch.S\<close>) is where a kernel path stops: each routine
  that calls \<^verbatim>\<open>sched\<close> is split into the part before the switch (\<open>_out\<close>) and the part that runs
  when the scheduler comes back to the process (\<open>_in\<close>). The operations of \<^verbatim>\<open>proc.c\<close> that use the
  file system (\<^verbatim>\<open>userinit\<close>, \<^verbatim>\<open>fork\<close>, \<^verbatim>\<open>exit\<close>, \<^verbatim>\<open>forkret\<close>) are in a later theory.
\<close>

section \<open>The process table\<close>

datatype procstate = UNUSED | EMBRYO | SLEEPING | RUNNABLE | RUNNING | ZOMBIE

text \<open>A wait channel is the address of the object waited for.\<close>

datatype chan =
    C_proc nat | C_sleep sleepid | C_nread u32 | C_nwrite u32 | C_log | C_ticks | C_input | C_buf nat

text \<open>
  \<open>p_intena\<close> is the local variable \<^verbatim>\<open>intena\<close> of \<^verbatim>\<open>sched\<close>, which lives on the kernel stack of the
  process while it does not run. \<open>p_name\<close> holds the bytes before the terminating NUL.
\<close>

record proc =
  p_sz :: u32
  p_pgdir :: u32
  p_kstack :: u32
  p_state :: procstate
  p_pid :: int
  p_parent :: "nat option"
  p_tf :: u32
  p_context :: u32
  p_chan :: "chan option"
  p_killed :: bool
  p_ofile :: "nat \<Rightarrow> nat option"
  p_cwd :: "nat option"
  p_name :: "u8 list"
  p_intena :: u32

text \<open>
  The addresses of \<^verbatim>\<open>trapret\<close>, \<^verbatim>\<open>forkret\<close> and of the task state segments are the linker's.
\<close>

record pst = vmst +
  procs :: "nat \<Rightarrow> proc"
  nextpid :: int
  initproc :: "nat option"
  sym_trapret :: u32
  sym_forkret :: u32
  sym_ts :: "nat \<Rightarrow> u32"

definition upd_proc :: "nat \<Rightarrow> (proc \<Rightarrow> proc) \<Rightarrow> 'a pst_scheme \<Rightarrow> 'a pst_scheme" where
  "upd_proc i f s = s\<lparr>procs := (procs s)(i := f (procs s i))\<rparr>"

definition pinit :: "'a pst_scheme \<Rightarrow> 'a pst_scheme" where
  "pinit s = initlock L_ptable s"

text \<open>Offsets in \<^verbatim>\<open>struct trapframe\<close> and \<^verbatim>\<open>struct context\<close>, and their sizes.\<close>

definition tf_eax :: u32 where "tf_eax = 28"
definition tf_es :: u32 where "tf_es = 40"
definition tf_ds :: u32 where "tf_ds = 44"
definition tf_trapno :: u32 where "tf_trapno = 48"
definition tf_err :: u32 where "tf_err = 52"
definition tf_eip :: u32 where "tf_eip = 56"
definition tf_cs :: u32 where "tf_cs = 60"
definition tf_eflags :: u32 where "tf_eflags = 64"
definition tf_esp :: u32 where "tf_esp = 68"
definition tf_ss :: u32 where "tf_ss = 72"
definition sizeof_trapframe :: u32 where "sizeof_trapframe = 76"
definition ctx_eip :: u32 where "ctx_eip = 16"
definition sizeof_context :: u32 where "sizeof_context = 20"
definition sizeof_taskstate :: u32 where "sizeof_taskstate = 104"

text \<open>\<^verbatim>\<open>nextpid++\<close>: an \<^verbatim>\<open>int\<close> that is not allowed to overflow.\<close>

definition next_int :: "int \<Rightarrow> 's stop + int" where
  "next_int n = (if n < 2147483647 then Inr (n + 1) else Inl (Fault ''integer overflow''))"

text \<open>\<^verbatim>\<open>allocproc\<close> up to the release of the table lock, and its second part.\<close>

definition allocproc_claim ::
  "'a pst_scheme \<Rightarrow> 'a pst_scheme stop + (nat option \<times> 'a pst_scheme)" where
  "allocproc_claim s =
     bnd (acquire L_ptable s) (\<lambda>s.
       case List.find (\<lambda>i. p_state (procs s i) = UNUSED) [0..<NPROC] of
         None \<Rightarrow> bnd (release L_ptable s) (\<lambda>s. Inr (None, s))
       | Some i \<Rightarrow>
           let s = upd_proc i (\<lambda>p. p\<lparr>p_state := EMBRYO\<rparr>) s;
               s = upd_proc i (\<lambda>p. p\<lparr>p_pid := nextpid s\<rparr>) s in
           bnd (next_int (nextpid s)) (\<lambda>n.
           bnd (release L_ptable (s\<lparr>nextpid := n\<rparr>)) (\<lambda>s. Inr (Some i, s))))"

definition allocproc_stack ::
  "nat \<Rightarrow> 'a pst_scheme \<Rightarrow> 'a pst_scheme stop + (nat option \<times> 'a pst_scheme)" where
  "allocproc_stack i s =
     bnd (kalloc s) (\<lambda>(k, s).
       let s = upd_proc i (\<lambda>p. p\<lparr>p_kstack := k\<rparr>) s in
       if k = 0 then Inr (None, upd_proc i (\<lambda>p. p\<lparr>p_state := UNUSED\<rparr>) s)
       else let sp = k + KSTACKSIZE;
                sp = sp - sizeof_trapframe;
                s = upd_proc i (\<lambda>p. p\<lparr>p_tf := sp\<rparr>) s;
                sp = sp - 4;
                s = wr32 sp (sym_trapret s) s;
                sp = sp - sizeof_context;
                s = upd_proc i (\<lambda>p. p\<lparr>p_context := sp\<rparr>) s;
                s = s\<lparr>mem := memset (mem s) sp 0 sizeof_context\<rparr>;
                s = wr32 (sp + ctx_eip) (sym_forkret s) s
            in Inr (Some i, s))"

definition allocproc :: "'a pst_scheme \<Rightarrow> 'a pst_scheme stop + (nat option \<times> 'a pst_scheme)" where
  "allocproc s =
     bnd (allocproc_claim s) (\<lambda>(p, s).
       case p of None \<Rightarrow> Inr (None, s) | Some i \<Rightarrow> allocproc_stack i s)"

section \<open>Switching address spaces\<close>

definition ltr :: "u16 \<Rightarrow> 'a kst_scheme \<Rightarrow> 'a kst_scheme" where
  "ltr sel s = s\<lparr>hw := (hw s)\<lparr>task_reg := (task_reg (hw s))(lapicid (hw s) := sel)\<rparr>\<rparr>"

definition switchuvm :: "nat option \<Rightarrow> 'a pst_scheme \<Rightarrow> 'a pst_scheme stop + 'a pst_scheme" where
  "switchuvm p s = (case p of
     None \<Rightarrow> Inl (Panic ''switchuvm: no process'')
   | Some i \<Rightarrow>
       if p_kstack (procs s i) = 0 then Inl (Panic ''switchuvm: no kstack'')
       else if p_pgdir (procs s i) = 0 then Inl (Panic ''switchuvm: no pgdir'')
       else bnd (pushcli s) (\<lambda>s.
            bnd (mycpu s) (\<lambda>c.
              let s = upd_cpu c (\<lambda>q. q\<lparr>gdt := (gdt q)(SEG_TSS :=
                        SEG16 STS_T32A (sym_ts s c) (sizeof_taskstate - 1) 0)\<rparr>) s;
                  s = upd_cpu c (\<lambda>q. q\<lparr>gdt := (gdt q)(SEG_TSS := (gdt q SEG_TSS)\<lparr>seg_s := 0\<rparr>)\<rparr>) s;
                  s = upd_cpu c (\<lambda>q. q\<lparr>ts_ss0 := of_nat (SEG_KDATA * 8)\<rparr>) s;
                  s = upd_cpu c (\<lambda>q. q\<lparr>ts_esp0 := p_kstack (procs s i) + KSTACKSIZE\<rparr>) s;
                  s = upd_cpu c (\<lambda>q. q\<lparr>ts_iomb := 0xFFFF\<rparr>) s;
                  s = ltr (of_nat (SEG_TSS * 8)) s;
                  s = lcr3 (V2P (p_pgdir (procs s i))) s
              in popcli s)))"

text \<open>\<^verbatim>\<open>growproc\<close>; \<open>n\<close> is an \<^verbatim>\<open>int\<close>, added to the unsigned size modulo \<open>2^32\<close>.\<close>

definition growproc_set ::
  "nat \<Rightarrow> u32 \<Rightarrow> 'a pst_scheme \<Rightarrow> 'a pst_scheme stop + (int \<times> 'a pst_scheme)" where
  "growproc_set i sz s =
     (if sz = 0 then Inr (- 1, s)
      else bnd (switchuvm (Some i) (upd_proc i (\<lambda>p. p\<lparr>p_sz := sz\<rparr>) s)) (\<lambda>s. Inr (0, s)))"

definition growproc :: "u32 \<Rightarrow> 'a pst_scheme \<Rightarrow> 'a pst_scheme stop + (int \<times> 'a pst_scheme)" where
  "growproc n s =
     bnd (myproc s) (\<lambda>(p, s). case p of
       None \<Rightarrow> Inl (Fault ''growproc'')
     | Some i \<Rightarrow>
         let sz = p_sz (procs s i) in
         if 0 < sint n
         then bnd (allocuvm (p_pgdir (procs s i)) sz (sz + n) s) (\<lambda>(sz, s). growproc_set i sz s)
         else if sint n < 0
         then bnd (deallocuvm (p_pgdir (procs s i)) sz (sz + n) s) (\<lambda>(sz, s). growproc_set i sz s)
         else bnd (switchuvm (Some i) (upd_proc i (\<lambda>p. p\<lparr>p_sz := sz\<rparr>) s)) (\<lambda>s. Inr (0, s)))"

section \<open>Giving up the processor\<close>

text \<open>
  \<open>sched_out\<close> is \<^verbatim>\<open>sched\<close> up to its \<^verbatim>\<open>swtch\<close>, with the saved interrupt flag left on the stack of the
  process; \<open>sched_in\<close> is what remains when the process is switched to again.
\<close>

definition sched_out :: "'a pst_scheme \<Rightarrow> 'a pst_scheme stop + 'a pst_scheme" where
  "sched_out s =
     bnd (myproc s) (\<lambda>(p, s).
     bnd (holding L_ptable s) (\<lambda>h.
       if \<not> h then Inl (Panic ''sched ptable.lock'')
       else bnd (mycpu s) (\<lambda>c.
         if ncli (cpus (hw s) c) \<noteq> 1 then Inl (Panic ''sched locks'')
         else case p of
           None \<Rightarrow> Inl (Fault ''sched'')
         | Some i \<Rightarrow>
             if p_state (procs s i) = RUNNING then Inl (Panic ''sched running'')
             else if readeflags s AND FL_IF \<noteq> 0 then Inl (Panic ''sched interruptible'')
             else Inr (upd_proc i (\<lambda>p. p\<lparr>p_intena := intena (cpus (hw s) c)\<rparr>) s))))"

definition sched_in :: "nat \<Rightarrow> 'a pst_scheme \<Rightarrow> 'a pst_scheme stop + 'a pst_scheme" where
  "sched_in i s = bnd (mycpu s) (\<lambda>c. Inr (upd_cpu c (\<lambda>q. q\<lparr>intena := p_intena (procs s i)\<rparr>) s))"

definition yield_out :: "'a pst_scheme \<Rightarrow> 'a pst_scheme stop + 'a pst_scheme" where
  "yield_out s =
     bnd (acquire L_ptable s) (\<lambda>s.
     bnd (myproc s) (\<lambda>(p, s). case p of
       None \<Rightarrow> Inl (Fault ''yield'')
     | Some i \<Rightarrow> sched_out (upd_proc i (\<lambda>p. p\<lparr>p_state := RUNNABLE\<rparr>) s)))"

definition yield_in :: "nat \<Rightarrow> 'a pst_scheme \<Rightarrow> 'a pst_scheme stop + 'a pst_scheme" where
  "yield_in i s = bnd (sched_in i s) (release L_ptable)"

definition yield :: "'a pst_scheme \<Rightarrow> 'a pst_scheme stop + 'a pst_scheme" where
  "yield s = bnd (yield_out s) (\<lambda>s. Inl (Asleep s))"

text \<open>No caller passes a null lock to \<^verbatim>\<open>sleep\<close>; a lock here is always an existing one.\<close>

definition sleep_out :: "chan \<Rightarrow> lockid \<Rightarrow> 'a pst_scheme \<Rightarrow> 'a pst_scheme stop + 'a pst_scheme" where
  "sleep_out ch lk s =
     bnd (myproc s) (\<lambda>(p, s). case p of
       None \<Rightarrow> Inl (Panic ''sleep'')
     | Some i \<Rightarrow>
         bnd (if lk \<noteq> L_ptable then bnd (acquire L_ptable s) (release lk) else Inr s) (\<lambda>s.
           let s = upd_proc i (\<lambda>p. p\<lparr>p_chan := Some ch\<rparr>) s;
               s = upd_proc i (\<lambda>p. p\<lparr>p_state := SLEEPING\<rparr>) s
           in sched_out s))"

definition sleep_in :: "nat \<Rightarrow> lockid \<Rightarrow> 'a pst_scheme \<Rightarrow> 'a pst_scheme stop + 'a pst_scheme" where
  "sleep_in i lk s =
     bnd (sched_in i s) (\<lambda>s.
       let s = upd_proc i (\<lambda>p. p\<lparr>p_chan := None\<rparr>) s in
       if lk \<noteq> L_ptable then bnd (release L_ptable s) (acquire lk) else Inr s)"

definition sleep :: "chan \<Rightarrow> lockid \<Rightarrow> 'a pst_scheme \<Rightarrow> 'a pst_scheme stop + 'b" where
  "sleep ch lk s = bnd (sleep_out ch lk s) (\<lambda>s. Inl (Asleep s))"

section \<open>Wakeup, kill and wait\<close>

definition wakeup1_at :: "chan option \<Rightarrow> nat \<Rightarrow> 'a pst_scheme \<Rightarrow> 'a pst_scheme" where
  "wakeup1_at ch i s =
     (if p_state (procs s i) = SLEEPING \<and> p_chan (procs s i) = ch
      then upd_proc i (\<lambda>p. p\<lparr>p_state := RUNNABLE\<rparr>) s else s)"

definition wakeup1 :: "chan option \<Rightarrow> 'a pst_scheme \<Rightarrow> 'a pst_scheme" where
  "wakeup1 ch s = fold (wakeup1_at ch) [0..<NPROC] s"

definition wakeup :: "chan \<Rightarrow> 'a pst_scheme \<Rightarrow> 'a pst_scheme stop + 'a pst_scheme" where
  "wakeup ch s = bnd (acquire L_ptable s) (\<lambda>s. release L_ptable (wakeup1 (Some ch) s))"

definition kill :: "int \<Rightarrow> 'a pst_scheme \<Rightarrow> 'a pst_scheme stop + (int \<times> 'a pst_scheme)" where
  "kill pid s =
     bnd (acquire L_ptable s) (\<lambda>s.
       case List.find (\<lambda>i. p_pid (procs s i) = pid) [0..<NPROC] of
         None \<Rightarrow> bnd (release L_ptable s) (\<lambda>s. Inr (- 1, s))
       | Some i \<Rightarrow>
           let s = upd_proc i (\<lambda>p. p\<lparr>p_killed := True\<rparr>) s;
               s = (if p_state (procs s i) = SLEEPING
                    then upd_proc i (\<lambda>p. p\<lparr>p_state := RUNNABLE\<rparr>) s else s)
           in bnd (release L_ptable s) (\<lambda>s. Inr (0, s)))"

text \<open>
  The scan of \<^verbatim>\<open>wait\<close>: the first zombie child (\<open>Inr\<close>), or whether there was a child at all.
\<close>

fun wait_scan :: "nat list \<Rightarrow> nat \<Rightarrow> bool \<Rightarrow> 'a pst_scheme \<Rightarrow> bool + nat" where
  "wait_scan [] cur havekids s = Inl havekids"
| "wait_scan (i # is) cur havekids s =
     (if p_parent (procs s i) \<noteq> Some cur then wait_scan is cur havekids s
      else if p_state (procs s i) = ZOMBIE then Inr i
      else wait_scan is cur True s)"

definition wait_reap :: "nat \<Rightarrow> 'a pst_scheme \<Rightarrow> 'a pst_scheme stop + (int \<times> 'a pst_scheme)" where
  "wait_reap i s =
     (let pid = p_pid (procs s i) in
      bnd (kfree (p_kstack (procs s i)) s) (\<lambda>s.
        let s = upd_proc i (\<lambda>p. p\<lparr>p_kstack := 0\<rparr>) s in
      bnd (freevm (p_pgdir (procs s i)) s) (\<lambda>s.
        let s = upd_proc i (\<lambda>p. p\<lparr>p_pid := 0, p_parent := None, p_name := [],
                  p_killed := False, p_state := UNUSED\<rparr>) s
        in bnd (release L_ptable s) (\<lambda>s. Inr (pid, s)))))"

definition wait_round :: "nat \<Rightarrow> 'a pst_scheme \<Rightarrow> 'a pst_scheme stop + (int \<times> 'a pst_scheme)" where
  "wait_round cur s = (case wait_scan [0..<NPROC] cur False s of
     Inr i \<Rightarrow> wait_reap i s
   | Inl havekids \<Rightarrow>
       if \<not> havekids \<or> p_killed (procs s cur) then bnd (release L_ptable s) (\<lambda>s. Inr (- 1, s))
       else sleep (C_proc cur) L_ptable s)"

definition wait :: "'a pst_scheme \<Rightarrow> 'a pst_scheme stop + (int \<times> 'a pst_scheme)" where
  "wait s =
     bnd (myproc s) (\<lambda>(p, s). case p of
       None \<Rightarrow> Inl (Fault ''wait'')
     | Some cur \<Rightarrow> bnd (acquire L_ptable s) (wait_round cur))"

definition wait_in :: "nat \<Rightarrow> 'a pst_scheme \<Rightarrow> 'a pst_scheme stop + (int \<times> 'a pst_scheme)" where
  "wait_in cur s = bnd (sleep_in cur L_ptable s) (wait_round cur)"

text \<open>
  The part of \<^verbatim>\<open>exit\<close> under the table lock, up to the switch: wake the parent, hand the children
  to \<^verbatim>\<open>init\<close>, become a zombie.
\<close>

definition reparent_at :: "nat \<Rightarrow> nat \<Rightarrow> 'a pst_scheme \<Rightarrow> 'a pst_scheme" where
  "reparent_at cur i s =
     (if p_parent (procs s i) = Some cur
      then let s = upd_proc i (\<lambda>p. p\<lparr>p_parent := initproc s\<rparr>) s in
           if p_state (procs s i) = ZOMBIE then wakeup1 (map_option C_proc (initproc s)) s else s
      else s)"

definition exit_out :: "nat \<Rightarrow> 'a pst_scheme \<Rightarrow> 'a pst_scheme stop + 'a pst_scheme" where
  "exit_out cur s =
     bnd (acquire L_ptable s) (\<lambda>s.
       let s = wakeup1 (map_option C_proc (p_parent (procs s cur))) s;
           s = fold (reparent_at cur) [0..<NPROC] s;
           s = upd_proc cur (\<lambda>p. p\<lparr>p_state := ZOMBIE\<rparr>) s
       in sched_out s)"

section \<open>The scheduler\<close>

text \<open>
  \<open>scheduler_pick\<close> is the loop body up to \<^verbatim>\<open>swtch\<close>, \<open>scheduler_return\<close> the rest of it. \<open>scheduler_from\<close>
  runs the loop over the table from index \<open>i\<close> until it switches to a process, or to the end
  of the pass.
\<close>

definition scheduler_start :: "'a pst_scheme \<Rightarrow> 'a pst_scheme stop + 'a pst_scheme" where
  "scheduler_start s = bnd (mycpu s) (\<lambda>c. Inr (upd_cpu c (\<lambda>q. q\<lparr>cpu_proc := None\<rparr>) s))"

definition scheduler_pick :: "nat \<Rightarrow> 'a pst_scheme \<Rightarrow> 'a pst_scheme stop + 'a pst_scheme" where
  "scheduler_pick i s =
     bnd (mycpu s) (\<lambda>c.
       let s = upd_cpu c (\<lambda>q. q\<lparr>cpu_proc := Some i\<rparr>) s in
       bnd (switchuvm (Some i) s) (\<lambda>s. Inr (upd_proc i (\<lambda>p. p\<lparr>p_state := RUNNING\<rparr>) s)))"

definition scheduler_return :: "'a pst_scheme \<Rightarrow> 'a pst_scheme stop + 'a pst_scheme" where
  "scheduler_return s =
     (let s = switchkvm s in
      bnd (mycpu s) (\<lambda>c. Inr (upd_cpu c (\<lambda>q. q\<lparr>cpu_proc := None\<rparr>) s)))"

function scheduler_from ::
  "nat \<Rightarrow> 'a pst_scheme \<Rightarrow> 'a pst_scheme stop + (nat option \<times> 'a pst_scheme)" where
  "scheduler_from i s =
     (if i < NPROC
      then if p_state (procs s i) \<noteq> RUNNABLE then scheduler_from (i + 1) s
           else bnd (scheduler_pick i s) (\<lambda>s. Inr (Some i, s))
      else bnd (release L_ptable s) (\<lambda>s. Inr (None, s)))"
  by pat_completeness auto
termination by (relation "measure (\<lambda>(i, s). NPROC - i)") auto

declare scheduler_from.simps [simp del]

definition scheduler_pass :: "'a pst_scheme \<Rightarrow> 'a pst_scheme stop + (nat option \<times> 'a pst_scheme)" where
  "scheduler_pass s = bnd (acquire L_ptable (sti s)) (scheduler_from 0)"

definition scheduler_resume ::
  "nat \<Rightarrow> 'a pst_scheme \<Rightarrow> 'a pst_scheme stop + (nat option \<times> 'a pst_scheme)" where
  "scheduler_resume i s = bnd (scheduler_return s) (scheduler_from (i + 1))"

section \<open>Wakeup and the locks of a quiet state\<close>

definition woken :: "chan option \<Rightarrow> (nat \<Rightarrow> proc) \<Rightarrow> nat \<Rightarrow> proc" where
  "woken ch P i = (if i < NPROC \<and> p_state (P i) = SLEEPING \<and> p_chan (P i) = ch
     then (P i)\<lparr>p_state := RUNNABLE\<rparr> else P i)"

lemma woken_awake: "k < NPROC \<Longrightarrow> \<not> (p_state (woken ch P k) = SLEEPING \<and> p_chan (woken ch P k) = ch)"
  by (simp add: woken_def)

lemma wakeup1_at_eq:
  "wakeup1_at ch i s = s\<lparr>procs := (\<lambda>j. if j = i \<and> p_state (procs s j) = SLEEPING \<and> p_chan (procs s j) = ch
     then (procs s j)\<lparr>p_state := RUNNABLE\<rparr> else procs s j)\<rparr>"
proof (cases "p_state (procs s i) = SLEEPING \<and> p_chan (procs s i) = ch")
  case True
  then show ?thesis
    by (auto simp: wakeup1_at_def upd_proc_def fun_eq_iff intro!: arg_cong [where f = "\<lambda>P. s\<lparr>procs := P\<rparr>"])
next
  case False
  then have "(\<lambda>j. if j = i \<and> p_state (procs s j) = SLEEPING \<and> p_chan (procs s j) = ch
     then (procs s j)\<lparr>p_state := RUNNABLE\<rparr> else procs s j) = procs s"
    by auto
  with False show ?thesis by (auto simp: wakeup1_at_def)
qed

lemma wakeup1_fold:
  "fold (wakeup1_at ch) [0..<n] s = s\<lparr>procs := (\<lambda>i. if i < n \<and> p_state (procs s i) = SLEEPING
     \<and> p_chan (procs s i) = ch then (procs s i)\<lparr>p_state := RUNNABLE\<rparr> else procs s i)\<rparr>"
  by (induction n) (auto simp: wakeup1_at_eq fun_eq_iff less_Suc_eq
      intro!: arg_cong [where f = "\<lambda>P. s\<lparr>procs := P\<rparr>"])

lemma wakeup1_eq: "wakeup1 ch s = s\<lparr>procs := woken ch (procs s)\<rparr>"
  by (simp add: wakeup1_def wakeup1_fold woken_def [abs_def])

lemma wakeup_eq:
  assumes "cpu_ok (hw s)" "free_lock (hw s) L_ptable"
  shows "wakeup ch s = Inr (s\<lparr>hw := rested (hw s), procs := woken (Some ch) (procs s)\<rparr>)"
  using assms by (simp add: wakeup_def acquire_eq wakeup1_eq release_took [OF assms])

lemma woken_simps [simp]:
  "p_pid (woken ch P i) = p_pid (P i)" "p_killed (woken ch P i) = p_killed (P i)"
  "p_ofile (woken ch P i) = p_ofile (P i)" "p_cwd (woken ch P i) = p_cwd (P i)"
  "p_sz (woken ch P i) = p_sz (P i)" "p_pgdir (woken ch P i) = p_pgdir (P i)"
  "p_tf (woken ch P i) = p_tf (P i)" "p_parent (woken ch P i) = p_parent (P i)"
  "p_kstack (woken ch P i) = p_kstack (P i)" "p_chan (woken ch P i) = p_chan (P i)"
  by (simp_all add: woken_def)

text \<open>A slot of the table at start.\<close>

definition no_proc :: proc where
  "no_proc = \<lparr>p_sz = 0, p_pgdir = 0, p_kstack = 0, p_state = UNUSED, p_pid = 0, p_parent = None, p_tf = 0,
     p_context = 0, p_chan = None, p_killed = False, p_ofile = (\<lambda>_. None), p_cwd = None, p_name = [], p_intena = 0\<rparr>"

end
