(* ===== verification/Sleeplock.thy ===== *)
theory Sleeplock
  imports Proc
begin

text \<open>
  Sleep locks (\<^verbatim>\<open>sleeplock.c\<close>). A sleep lock is named by the buffer or inode it is in; its inner
  spin lock is \<open>L_sleep\<close> of that name. A process that finds the lock taken stops inside
  \<^verbatim>\<open>sleep\<close>; \<open>acquiresleep_in\<close> is the continuation when it is switched to again.
\<close>

record sleeplock =
  sl_locked :: u32
  sl_pid :: int

record slst = pst +
  sleeplocks :: "sleepid \<Rightarrow> sleeplock"

definition upd_sleep :: "sleepid \<Rightarrow> sleeplock \<Rightarrow> 'a slst_scheme \<Rightarrow> 'a slst_scheme" where
  "upd_sleep lk l s = s\<lparr>sleeplocks := (sleeplocks s)(lk := l)\<rparr>"

definition initsleeplock :: "sleepid \<Rightarrow> 'a slst_scheme \<Rightarrow> 'a slst_scheme" where
  "initsleeplock lk s =
     (let s = initlock (L_sleep lk) s in upd_sleep lk \<lparr>sl_locked = 0, sl_pid = 0\<rparr> s)"

definition acquiresleep_loop ::
  "sleepid \<Rightarrow> 'a slst_scheme \<Rightarrow> 'a slst_scheme stop + 'a slst_scheme" where
  "acquiresleep_loop lk s =
     (if sl_locked (sleeplocks s lk) \<noteq> 0 then sleep (C_sleep lk) (L_sleep lk) s
      else let s = upd_sleep lk ((sleeplocks s lk)\<lparr>sl_locked := 1\<rparr>) s in
           bnd (myproc s) (\<lambda>(p, s). case p of
             None \<Rightarrow> Inl (Fault ''acquiresleep'')
           | Some i \<Rightarrow>
               let s = upd_sleep lk ((sleeplocks s lk)\<lparr>sl_pid := p_pid (procs s i)\<rparr>) s
               in release (L_sleep lk) s))"

definition acquiresleep :: "sleepid \<Rightarrow> 'a slst_scheme \<Rightarrow> 'a slst_scheme stop + 'a slst_scheme" where
  "acquiresleep lk s = bnd (acquire (L_sleep lk) s) (acquiresleep_loop lk)"

definition acquiresleep_in ::
  "nat \<Rightarrow> sleepid \<Rightarrow> 'a slst_scheme \<Rightarrow> 'a slst_scheme stop + 'a slst_scheme" where
  "acquiresleep_in i lk s = bnd (sleep_in i (L_sleep lk) s) (acquiresleep_loop lk)"

definition releasesleep :: "sleepid \<Rightarrow> 'a slst_scheme \<Rightarrow> 'a slst_scheme stop + 'a slst_scheme" where
  "releasesleep lk s =
     bnd (acquire (L_sleep lk) s) (\<lambda>s.
       let s = upd_sleep lk ((sleeplocks s lk)\<lparr>sl_locked := 0\<rparr>) s;
           s = upd_sleep lk ((sleeplocks s lk)\<lparr>sl_pid := 0\<rparr>) s in
       bnd (wakeup (C_sleep lk) s) (release (L_sleep lk)))"

definition holdingsleep ::
  "sleepid \<Rightarrow> 'a slst_scheme \<Rightarrow> 'a slst_scheme stop + (bool \<times> 'a slst_scheme)" where
  "holdingsleep lk s =
     bnd (acquire (L_sleep lk) s) (\<lambda>s.
       let r = sl_locked (sleeplocks s lk) in
       bnd (release (L_sleep lk) s) (\<lambda>s. Inr (r \<noteq> 0, s)))"

section \<open>Sleep locks that nobody waits for\<close>

lemma holdingsleep_eq:
  assumes "cpu_ok (hw s)" "free_lock (hw s) (L_sleep lk)"
  shows "holdingsleep lk s = Inr (sl_locked (sleeplocks s lk) \<noteq> 0, s\<lparr>hw := rested (hw s)\<rparr>)"
  using assms by (simp add: holdingsleep_def acquire_eq release_took [OF assms] Let_def)

lemma acquiresleep_free:
  assumes ok: "cpu_ok (hw s)" "free_lock (hw s) (L_sleep lk)"
    and "sl_locked (sleeplocks s lk) = 0" "cpu_proc (cpus (hw s) (me (hw s))) = Some i"
  shows "acquiresleep lk s = Inr (s\<lparr>hw := rested (hw s),
     sleeplocks := (sleeplocks s)(lk := \<lparr>sl_locked = 1, sl_pid = p_pid (procs s i)\<rparr>)\<rparr>)"
  using assms
  by (cases "sleeplocks s lk")
    (simp add: acquiresleep_def acquire_eq acquiresleep_loop_def upd_sleep_def myproc_eq
      release_took [OF ok] Let_def)

lemma releasesleep_eq:
  assumes ok: "cpu_ok (hw s)" "free_lock (hw s) (L_sleep lk)" and pt: "free_lock (hw s) L_ptable"
  shows "releasesleep lk s = Inr (s\<lparr>hw := rested (hw s),
     sleeplocks := (sleeplocks s)(lk := \<lparr>sl_locked = 0, sl_pid = 0\<rparr>),
     procs := woken (Some (C_sleep lk)) (procs s)\<rparr>)"
  using assms
  by (cases "sleeplocks s lk")
    (simp add: releasesleep_def acquire_eq upd_sleep_def wakeup_eq release_took [OF ok] Let_def)

end
