(* ===== verification/Fs_Layout.thy ===== *)
theory Fs_Layout
  imports Xv6_Prelude
begin

text \<open>
  The on-disk format (\<^verbatim>\<open>fs.h\<close>): blocks of \<open>BSIZE\<close> bytes, and the superblock, inodes and directory
  entries stored in them, least significant byte first. A block is the list of its bytes;
  the accesses of the C code through casts of \<^verbatim>\<open>bp->data\<close> are reads and writes of two or four
  bytes at an offset. Encoding and decoding of each structure are inverse to each other.
\<close>

section \<open>Bytes of a block\<close>

type_synonym block = "u8 list"

definition ROOTINO :: u32 where "ROOTINO = 1"
definition BSIZE :: nat where "BSIZE = 512"
definition NDIRECT :: nat where "NDIRECT = 12"
definition NINDIRECT :: nat where "NINDIRECT = BSIZE div 4"
definition MAXFILE :: nat where "MAXFILE = NDIRECT + NINDIRECT"
definition DIRSIZ :: nat where "DIRSIZ = 14"
definition IPB :: nat where "IPB = BSIZE div 64"
definition BPB :: nat where "BPB = BSIZE * 8"

lemmas fs_consts = BSIZE_def NDIRECT_def NINDIRECT_def MAXFILE_def DIRSIZ_def IPB_def BPB_def

definition get_bytes :: "nat \<Rightarrow> nat \<Rightarrow> block \<Rightarrow> u8 list" where
  "get_bytes off n b = take n (drop off b)"

definition set_bytes :: "nat \<Rightarrow> u8 list \<Rightarrow> block \<Rightarrow> block" where
  "set_bytes off xs b = take off b @ xs @ drop (off + length xs) b"

definition le16 :: "u16 \<Rightarrow> u8 list" where
  "le16 v = [ucast v, ucast (drop_bit 8 v)]"

definition le32 :: "u32 \<Rightarrow> u8 list" where
  "le32 v = [ucast v, ucast (drop_bit 8 v), ucast (drop_bit 16 v), ucast (drop_bit 24 v)]"

fun of_le16 :: "u8 list \<Rightarrow> u16" where
  "of_le16 (a # b # _) = ucast a OR push_bit 8 (ucast b)"
| "of_le16 _ = 0"

fun of_le32 :: "u8 list \<Rightarrow> u32" where
  "of_le32 (a # b # c # d # _) =
     ucast a OR push_bit 8 (ucast b) OR push_bit 16 (ucast c) OR push_bit 24 (ucast d)"
| "of_le32 _ = 0"

definition get16 :: "nat \<Rightarrow> block \<Rightarrow> u16" where
  "get16 off b = of_le16 (get_bytes off 2 b)"

definition get32 :: "nat \<Rightarrow> block \<Rightarrow> u32" where
  "get32 off b = of_le32 (get_bytes off 4 b)"

definition put16 :: "nat \<Rightarrow> u16 \<Rightarrow> block \<Rightarrow> block" where
  "put16 off v = set_bytes off (le16 v)"

definition put32 :: "nat \<Rightarrow> u32 \<Rightarrow> block \<Rightarrow> block" where
  "put32 off v = set_bytes off (le32 v)"

lemma length_le [simp]: "length (le16 v) = 2" "length (le32 w) = 4"
  by (simp_all add: le16_def le32_def)

lemma length_set_bytes [simp]:
  "off + length xs \<le> length b \<Longrightarrow> length (set_bytes off xs b) = length b"
  by (simp add: set_bytes_def)

lemma length_put [simp]:
  "off + 2 \<le> length b \<Longrightarrow> length (put16 off v b) = length b"
  "off + 4 \<le> length b \<Longrightarrow> length (put32 off w b) = length b"
  by (simp_all add: put16_def put32_def)

lemma get_set_bytes:
  "off + length xs \<le> length b \<Longrightarrow> n = length xs \<Longrightarrow> get_bytes off n (set_bytes off xs b) = xs"
  by (simp add: get_bytes_def set_bytes_def)

lemma get_set_bytes_other:
  assumes "off + length xs \<le> length b" "o2 + n \<le> off \<or> off + length xs \<le> o2"
  shows "get_bytes o2 n (set_bytes off xs b) = get_bytes o2 n b"
proof (rule nth_equalityI)
  show "length (get_bytes o2 n (set_bytes off xs b)) = length (get_bytes o2 n b)"
    using assms(1) by (simp add: get_bytes_def)
  fix i assume "i < length (get_bytes o2 n (set_bytes off xs b))"
  then have i: "i < n" "o2 + i < length b" using assms(1) by (auto simp: get_bytes_def)
  then show "get_bytes o2 n (set_bytes off xs b) ! i = get_bytes o2 n b ! i"
    using assms by (auto simp: get_bytes_def set_bytes_def nth_append)
qed

lemma of_le16_le16 [simp]: "of_le16 (le16 v) = v"
  by (simp add: le16_def, rule bit_word_eqI) (auto simp: bit_simps dest: bit_index_below)

lemma of_le32_le32 [simp]: "of_le32 (le32 v) = v"
  by (simp add: le32_def, rule bit_word_eqI) (auto simp: bit_simps dest: bit_index_below)

lemma get_put [simp]:
  "off + 2 \<le> length b \<Longrightarrow> get16 off (put16 off v b) = v"
  "off + 4 \<le> length b \<Longrightarrow> get32 off (put32 off w b) = w"
  by (simp_all add: get16_def put16_def get32_def put32_def get_set_bytes)

lemma get_put_other:
  "\<lbrakk>off + 2 \<le> length b; o2 + 2 \<le> off \<or> off + 2 \<le> o2\<rbrakk> \<Longrightarrow> get16 o2 (put16 off v b) = get16 o2 b"
  "\<lbrakk>off + 4 \<le> length b; o2 + 2 \<le> off \<or> off + 4 \<le> o2\<rbrakk> \<Longrightarrow> get16 o2 (put32 off w b) = get16 o2 b"
  "\<lbrakk>off + 2 \<le> length b; o2 + 4 \<le> off \<or> off + 2 \<le> o2\<rbrakk> \<Longrightarrow> get32 o2 (put16 off v b) = get32 o2 b"
  "\<lbrakk>off + 4 \<le> length b; o2 + 4 \<le> off \<or> off + 4 \<le> o2\<rbrakk> \<Longrightarrow> get32 o2 (put32 off w b) = get32 o2 b"
  by (simp_all add: get16_def put16_def get32_def put32_def get_set_bytes_other)

section \<open>The superblock\<close>

record superblock =
  sb_size :: u32
  sb_nblocks :: u32
  sb_ninodes :: u32
  sb_nlog :: u32
  sb_logstart :: u32
  sb_inodestart :: u32
  sb_bmapstart :: u32

definition get_sb :: "block \<Rightarrow> superblock" where
  "get_sb b = \<lparr>sb_size = get32 0 b, sb_nblocks = get32 4 b, sb_ninodes = get32 8 b,
     sb_nlog = get32 12 b, sb_logstart = get32 16 b, sb_inodestart = get32 20 b,
     sb_bmapstart = get32 24 b\<rparr>"

definition put_sb :: "superblock \<Rightarrow> block \<Rightarrow> block" where
  "put_sb sb b = put32 24 (sb_bmapstart sb) (put32 20 (sb_inodestart sb) (put32 16 (sb_logstart sb)
     (put32 12 (sb_nlog sb) (put32 8 (sb_ninodes sb) (put32 4 (sb_nblocks sb) (put32 0 (sb_size sb) b))))))"

lemma get_put_sb: "28 \<le> length b \<Longrightarrow> get_sb (put_sb sb b) = sb"
  by (simp add: get_sb_def put_sb_def get_put_other)

text \<open>
  The block of inode \<open>i\<close> and the block of the bitmap bit of block \<open>b\<close>.
\<close>

definition IBLOCK :: "u32 \<Rightarrow> superblock \<Rightarrow> u32" where
  "IBLOCK i sb = i div of_nat IPB + sb_inodestart sb"

definition BBLOCK :: "u32 \<Rightarrow> superblock \<Rightarrow> u32" where
  "BBLOCK b sb = b div of_nat BPB + sb_bmapstart sb"

section \<open>Inodes on disk\<close>

record dinode =
  d_type :: u16
  d_major :: u16
  d_minor :: u16
  d_nlink :: u16
  d_size :: u32
  d_addrs :: "u32 list"

text \<open>\<^verbatim>\<open>sizeof(struct dinode)\<close> is 64; the addresses are at offset 12. \<open>off\<close> is where the inode starts.\<close>

definition get_addrs :: "nat \<Rightarrow> block \<Rightarrow> u32 list" where
  "get_addrs off b = map (\<lambda>i. get32 (off + 4 * i) b) [0..<NDIRECT + 1]"

definition put_addrs :: "nat \<Rightarrow> u32 list \<Rightarrow> block \<Rightarrow> block" where
  "put_addrs off as b = set_bytes off (concat (map le32 as)) b"

definition get_dinode :: "nat \<Rightarrow> block \<Rightarrow> dinode" where
  "get_dinode off b = \<lparr>d_type = get16 off b, d_major = get16 (off + 2) b,
     d_minor = get16 (off + 4) b, d_nlink = get16 (off + 6) b, d_size = get32 (off + 8) b,
     d_addrs = get_addrs (off + 12) b\<rparr>"

definition put_dinode :: "nat \<Rightarrow> dinode \<Rightarrow> block \<Rightarrow> block" where
  "put_dinode off d b = put_addrs (off + 12) (d_addrs d) (put32 (off + 8) (d_size d)
     (put16 (off + 6) (d_nlink d) (put16 (off + 4) (d_minor d) (put16 (off + 2) (d_major d)
     (put16 off (d_type d) b)))))"

lemma length_concat_le32 [simp]: "length (concat (map le32 as)) = 4 * length as"
  by (induction as) simp_all

lemma concat_le32_nth:
  "i < length as \<Longrightarrow> take 4 (drop (4 * i) (concat (map le32 as) @ ys)) = le32 (as ! i)"
proof (induction as arbitrary: i)
  case (Cons a as)
  show ?case
  proof (cases i)
    case (Suc j)
    have "drop (4 * i) (concat (map le32 (a # as)) @ ys) = drop (4 * j) (concat (map le32 as) @ ys)"
      by (simp add: Suc)
    with Cons Suc show ?thesis by simp
  qed simp
qed simp

lemma get_put_addrs:
  assumes "off + 4 * length as \<le> length b" "i < length as"
  shows "get32 (off + 4 * i) (put_addrs off as b) = as ! i"
proof -
  have "take 4 (drop (4 * i) (concat (map le32 as) @ drop (off + 4 * length as) b)) = le32 (as ! i)"
    using assms(2) by (rule concat_le32_nth)
  then show ?thesis
    using assms by (simp add: get32_def put_addrs_def get_bytes_def set_bytes_def)
qed

lemma get_put_addrs_other:
  "\<lbrakk>off + 4 * length as \<le> length b; o2 + 2 \<le> off\<rbrakk> \<Longrightarrow> get16 o2 (put_addrs off as b) = get16 o2 b"
  "\<lbrakk>off + 4 * length as \<le> length b; o2 + 4 \<le> off\<rbrakk> \<Longrightarrow> get32 o2 (put_addrs off as b) = get32 o2 b"
  by (simp_all add: get16_def get32_def put_addrs_def get_set_bytes_other)

lemma get_addrs_put:
  assumes "off + 52 \<le> length b" "length as = 13"
  shows "get_addrs off (put_addrs off as b) = as"
  using assms by (intro nth_equalityI) (simp_all add: get_addrs_def get_put_addrs NDIRECT_def)

lemma get_put_dinode:
  assumes "off + 64 \<le> length b" "length (d_addrs d) = 13"
  shows "get_dinode off (put_dinode off d b) = d"
  using assms
  by (simp add: get_dinode_def put_dinode_def get_put_other get_put_addrs_other get_addrs_put)

lemma length_put_addrs [simp]:
  "off + 4 * length as \<le> length b \<Longrightarrow> length (put_addrs off as b) = length b"
  by (simp add: put_addrs_def)

lemma length_put_dinode [simp]:
  "\<lbrakk>off + 64 \<le> length b; length (d_addrs d) = 13\<rbrakk> \<Longrightarrow> length (put_dinode off d b) = length b"
  by (simp add: put_dinode_def)

section \<open>Directory entries\<close>

record dirent =
  de_inum :: u16
  de_name :: "u8 list"

definition of_dirent :: "dirent \<Rightarrow> u8 list" where
  "of_dirent de = le16 (de_inum de) @ de_name de"

definition to_dirent :: "u8 list \<Rightarrow> dirent" where
  "to_dirent xs = \<lparr>de_inum = of_le16 xs, de_name = take DIRSIZ (drop 2 xs)\<rparr>"

definition sizeof_dirent :: nat where "sizeof_dirent = 16"

lemma to_of_dirent: "length (de_name de) = DIRSIZ \<Longrightarrow> to_dirent (of_dirent de) = de"
proof -
  assume len: "length (de_name de) = DIRSIZ"
  have "of_le16 (le16 v @ ys) = v" for v ys
    using of_le16_le16 [of v] by (simp add: le16_def)
  moreover have "drop 2 (le16 v @ ys) = ys" for v ys by (simp add: le16_def)
  ultimately show ?thesis using len by (simp add: to_dirent_def of_dirent_def)
qed

end
