(* ===== verification/Bio.thy ===== *)
theory Bio
  imports Sleeplock Fs_Layout
begin

text \<open>
  The buffer cache (\<^verbatim>\<open>bio.c\<close>) over the disk that lives in memory (\<^verbatim>\<open>memide.c\<close>). Buffers are
  indices into \<^verbatim>\<open>bcache.buf\<close>; index \<open>NBUF\<close> is \<^verbatim>\<open>bcache.head\<close>, the head of the circular doubly linked
  list in the order of last use. The lock of a buffer is the sleep lock \<open>SL_buf\<close> of its index.
\<close>

definition B_VALID :: u32 where "B_VALID = 0x2"
definition B_DIRTY :: u32 where "B_DIRTY = 0x4"

record buf =
  b_flags :: u32
  b_dev :: u32
  b_blockno :: u32
  b_refcnt :: u32
  b_prev :: nat
  b_next :: nat
  b_data :: block

record bst = slst +
  bufs :: "nat \<Rightarrow> buf"
  disk :: "u32 \<Rightarrow> block"
  disksize :: u32
  sym_img_size :: u32

definition BHEAD :: nat where "BHEAD = NBUF"

definition upd_buf :: "nat \<Rightarrow> (buf \<Rightarrow> buf) \<Rightarrow> 'a bst_scheme \<Rightarrow> 'a bst_scheme" where
  "upd_buf b f s = s\<lparr>bufs := (bufs s)(b := f (bufs s b))\<rparr>"

section \<open>The memory disk\<close>

definition ideinit :: "'a bst_scheme \<Rightarrow> 'a bst_scheme" where
  "ideinit s = s\<lparr>disksize := sym_img_size s div of_nat BSIZE\<rparr>"

definition iderw :: "nat \<Rightarrow> 'a bst_scheme \<Rightarrow> 'a bst_scheme stop + 'a bst_scheme" where
  "iderw b s =
     bnd (holdingsleep (SL_buf b) s) (\<lambda>(h, s).
       let f = b_flags (bufs s b); n = b_blockno (bufs s b) in
       if \<not> h then Inl (Panic ''iderw: buf not locked'')
       else if f AND (B_VALID OR B_DIRTY) = B_VALID then Inl (Panic ''iderw: nothing to do'')
       else if b_dev (bufs s b) \<noteq> 1 then Inl (Panic ''iderw: request not for disk 1'')
       else if n \<ge> disksize s then Inl (Panic ''iderw: block out of range'')
       else
         let s = (if f AND B_DIRTY \<noteq> 0
                  then let s = upd_buf b (\<lambda>q. q\<lparr>b_flags := b_flags q AND NOT B_DIRTY\<rparr>) s
                       in s\<lparr>disk := (disk s)(n := b_data (bufs s b))\<rparr>
                  else upd_buf b (\<lambda>q. q\<lparr>b_data := disk s n\<rparr>) s)
         in Inr (upd_buf b (\<lambda>q. q\<lparr>b_flags := b_flags q OR B_VALID\<rparr>) s))"

section \<open>The cache\<close>

definition binit_one :: "nat \<Rightarrow> 'a bst_scheme \<Rightarrow> 'a bst_scheme" where
  "binit_one b s =
     (let s = upd_buf b (\<lambda>q. q\<lparr>b_next := b_next (bufs s BHEAD)\<rparr>) s;
          s = upd_buf b (\<lambda>q. q\<lparr>b_prev := BHEAD\<rparr>) s;
          s = initsleeplock (SL_buf b) s;
          s = upd_buf (b_next (bufs s BHEAD)) (\<lambda>q. q\<lparr>b_prev := b\<rparr>) s
      in upd_buf BHEAD (\<lambda>q. q\<lparr>b_next := b\<rparr>) s)"

definition binit :: "'a bst_scheme \<Rightarrow> 'a bst_scheme" where
  "binit s =
     (let s = initlock L_bcache s;
          s = upd_buf BHEAD (\<lambda>q. q\<lparr>b_prev := BHEAD\<rparr>) s;
          s = upd_buf BHEAD (\<lambda>q. q\<lparr>b_next := BHEAD\<rparr>) s
      in fold binit_one [0..<NBUF] s)"

text \<open>
  The two searches of \<^verbatim>\<open>bget\<close> follow the list until they are back at the head. The first
  argument bounds the number of steps; a list that does not lead back to the head within
  \<open>NBUF\<close> buffers is followed for ever.
\<close>

fun bget_cached :: "nat \<Rightarrow> nat \<Rightarrow> u32 \<Rightarrow> u32 \<Rightarrow> 'a bst_scheme \<Rightarrow> 'a bst_scheme stop + nat option" where
  "bget_cached 0 b dev blockno s = Inl (Spin s)"
| "bget_cached (Suc n) b dev blockno s =
     (if b = BHEAD then Inr None
      else if b_dev (bufs s b) = dev \<and> b_blockno (bufs s b) = blockno then Inr (Some b)
      else bget_cached n (b_next (bufs s b)) dev blockno s)"

fun bget_unused :: "nat \<Rightarrow> nat \<Rightarrow> 'a bst_scheme \<Rightarrow> 'a bst_scheme stop + nat option" where
  "bget_unused 0 b s = Inl (Spin s)"
| "bget_unused (Suc n) b s =
     (if b = BHEAD then Inr None
      else if b_refcnt (bufs s b) = 0 \<and> b_flags (bufs s b) AND B_DIRTY = 0 then Inr (Some b)
      else bget_unused n (b_prev (bufs s b)) s)"

definition bget_lock :: "nat \<Rightarrow> 'a bst_scheme \<Rightarrow> 'a bst_scheme stop + (nat \<times> 'a bst_scheme)" where
  "bget_lock b s =
     bnd (release L_bcache s) (\<lambda>s. bnd (acquiresleep (SL_buf b) s) (\<lambda>s. Inr (b, s)))"

definition bget :: "u32 \<Rightarrow> u32 \<Rightarrow> 'a bst_scheme \<Rightarrow> 'a bst_scheme stop + (nat \<times> 'a bst_scheme)" where
  "bget dev blockno s =
     bnd (acquire L_bcache s) (\<lambda>s.
     bnd (bget_cached (Suc NBUF) (b_next (bufs s BHEAD)) dev blockno s) (\<lambda>r. case r of
       Some b \<Rightarrow> bget_lock b (upd_buf b (\<lambda>q. q\<lparr>b_refcnt := b_refcnt q + 1\<rparr>) s)
     | None \<Rightarrow>
         bnd (bget_unused (Suc NBUF) (b_prev (bufs s BHEAD)) s) (\<lambda>r. case r of
           Some b \<Rightarrow> bget_lock b (upd_buf b (\<lambda>q. q\<lparr>b_dev := dev, b_blockno := blockno,
                       b_flags := 0, b_refcnt := 1\<rparr>) s)
         | None \<Rightarrow> Inl (Panic ''bget: no buffers''))))"

definition bread :: "u32 \<Rightarrow> u32 \<Rightarrow> 'a bst_scheme \<Rightarrow> 'a bst_scheme stop + (nat \<times> 'a bst_scheme)" where
  "bread dev blockno s =
     bnd (bget dev blockno s) (\<lambda>(b, s).
       if b_flags (bufs s b) AND B_VALID = 0 then bnd (iderw b s) (\<lambda>s. Inr (b, s))
       else Inr (b, s))"

definition bwrite :: "nat \<Rightarrow> 'a bst_scheme \<Rightarrow> 'a bst_scheme stop + 'a bst_scheme" where
  "bwrite b s =
     bnd (holdingsleep (SL_buf b) s) (\<lambda>(h, s).
       if \<not> h then Inl (Panic ''bwrite'')
       else iderw b (upd_buf b (\<lambda>q. q\<lparr>b_flags := b_flags q OR B_DIRTY\<rparr>) s))"

definition brelse_front :: "nat \<Rightarrow> 'a bst_scheme \<Rightarrow> 'a bst_scheme" where
  "brelse_front b s =
     (let s = upd_buf (b_next (bufs s b)) (\<lambda>q. q\<lparr>b_prev := b_prev (bufs s b)\<rparr>) s;
          s = upd_buf (b_prev (bufs s b)) (\<lambda>q. q\<lparr>b_next := b_next (bufs s b)\<rparr>) s;
          s = upd_buf b (\<lambda>q. q\<lparr>b_next := b_next (bufs s BHEAD)\<rparr>) s;
          s = upd_buf b (\<lambda>q. q\<lparr>b_prev := BHEAD\<rparr>) s;
          s = upd_buf (b_next (bufs s BHEAD)) (\<lambda>q. q\<lparr>b_prev := b\<rparr>) s
      in upd_buf BHEAD (\<lambda>q. q\<lparr>b_next := b\<rparr>) s)"

definition brelse :: "nat \<Rightarrow> 'a bst_scheme \<Rightarrow> 'a bst_scheme stop + 'a bst_scheme" where
  "brelse b s =
     bnd (holdingsleep (SL_buf b) s) (\<lambda>(h, s).
       if \<not> h then Inl (Panic ''brelse'')
       else bnd (releasesleep (SL_buf b) s) (\<lambda>s.
            bnd (acquire L_bcache s) (\<lambda>s.
              let s = upd_buf b (\<lambda>q. q\<lparr>b_refcnt := b_refcnt q - 1\<rparr>) s;
                  s = (if b_refcnt (bufs s b) = 0 then brelse_front b s else s)
              in release L_bcache s)))"

end
