(* ===== verification/Log.thy ===== *)
theory Log
  imports Bio
begin

text \<open>
  The write-ahead log (\<^verbatim>\<open>log.c\<close>): group commit, the two-phase write of a transaction and
  recovery at boot. \<^verbatim>\<open>readsb\<close> of \<^verbatim>\<open>fs.c\<close>, which \<^verbatim>\<open>initlog\<close> calls, is here too. The loops of
  \<^verbatim>\<open>begin_op\<close> stop inside \<^verbatim>\<open>sleep\<close> and go on in \<open>begin_op_in\<close>.
\<close>

record log =
  log_start :: u32
  log_size :: int
  log_outstanding :: int
  log_committing :: bool
  log_dev :: u32
  lh_n :: int
  lh_block :: "u32 list"

record lst = bst +
  log :: log

definition upd_log :: "(log \<Rightarrow> log) \<Rightarrow> 'a lst_scheme \<Rightarrow> 'a lst_scheme" where
  "upd_log f s = s\<lparr>log := f (log s)\<rparr>"

definition readsb :: "u32 \<Rightarrow> 'a bst_scheme \<Rightarrow> 'a bst_scheme stop + (superblock \<times> 'a bst_scheme)" where
  "readsb dev s =
     bnd (bread dev 1 s) (\<lambda>(bp, s).
       let sb = get_sb (b_data (bufs s bp)) in
       bnd (brelse bp s) (\<lambda>s. Inr (sb, s)))"

section \<open>Moving blocks between log and home\<close>

definition install_one :: "nat \<Rightarrow> 'a lst_scheme \<Rightarrow> 'a lst_scheme stop + 'a lst_scheme" where
  "install_one k s =
     bnd (bread (log_dev (log s)) (log_start (log s) + of_nat k + 1) s) (\<lambda>(lbuf, s).
     if k \<ge> LOGSIZE then Inl (Fault ''lh.block'') else
     bnd (bread (log_dev (log s)) (lh_block (log s) ! k) s) (\<lambda>(dbuf, s).
       let s = upd_buf dbuf (\<lambda>q. q\<lparr>b_data := b_data (bufs s lbuf)\<rparr>) s in
     bnd (bwrite dbuf s) (\<lambda>s.
     bnd (brelse lbuf s) (\<lambda>s. brelse dbuf s))))"

definition install_trans :: "'a lst_scheme \<Rightarrow> 'a lst_scheme stop + 'a lst_scheme" where
  "install_trans s = each install_one [0..<nat (lh_n (log s))] s"

definition write_log_one :: "nat \<Rightarrow> 'a lst_scheme \<Rightarrow> 'a lst_scheme stop + 'a lst_scheme" where
  "write_log_one k s =
     bnd (bread (log_dev (log s)) (log_start (log s) + of_nat k + 1) s) (\<lambda>(to, s).
     if k \<ge> LOGSIZE then Inl (Fault ''lh.block'') else
     bnd (bread (log_dev (log s)) (lh_block (log s) ! k) s) (\<lambda>(frm, s).
       let s = upd_buf to (\<lambda>q. q\<lparr>b_data := b_data (bufs s frm)\<rparr>) s in
     bnd (bwrite to s) (\<lambda>s.
     bnd (brelse frm s) (\<lambda>s. brelse to s))))"

definition write_log :: "'a lst_scheme \<Rightarrow> 'a lst_scheme stop + 'a lst_scheme" where
  "write_log s = each write_log_one [0..<nat (lh_n (log s))] s"

section \<open>The header block\<close>

definition read_head_one :: "block \<Rightarrow> nat \<Rightarrow> 'a lst_scheme \<Rightarrow> 'a lst_scheme stop + 'a lst_scheme" where
  "read_head_one d i s =
     (if i \<ge> LOGSIZE then Inl (Fault ''lh.block'')
      else Inr (upd_log (\<lambda>l. l\<lparr>lh_block := (lh_block l)[i := get32 (4 + 4 * i) d]\<rparr>) s))"

definition read_head :: "'a lst_scheme \<Rightarrow> 'a lst_scheme stop + 'a lst_scheme" where
  "read_head s =
     bnd (bread (log_dev (log s)) (log_start (log s)) s) (\<lambda>(buf, s).
       let d = b_data (bufs s buf);
           s = upd_log (\<lambda>l. l\<lparr>lh_n := sint (get32 0 d)\<rparr>) s in
     bnd (each (read_head_one d) [0..<nat (lh_n (log s))] s) (\<lambda>s. brelse buf s))"

definition write_head_one :: "nat \<Rightarrow> nat \<Rightarrow> 'a lst_scheme \<Rightarrow> 'a lst_scheme stop + 'a lst_scheme" where
  "write_head_one buf i s =
     (if i \<ge> LOGSIZE then Inl (Fault ''lh.block'')
      else Inr (upd_buf buf (\<lambda>q. q\<lparr>b_data := put32 (4 + 4 * i) (lh_block (log s) ! i) (b_data q)\<rparr>) s))"

definition write_head :: "'a lst_scheme \<Rightarrow> 'a lst_scheme stop + 'a lst_scheme" where
  "write_head s =
     bnd (bread (log_dev (log s)) (log_start (log s)) s) (\<lambda>(buf, s).
       let s = upd_buf buf (\<lambda>q. q\<lparr>b_data := put32 0 (of_int (lh_n (log s))) (b_data q)\<rparr>) s in
     bnd (each (write_head_one buf) [0..<nat (lh_n (log s))] s) (\<lambda>s.
     bnd (bwrite buf s) (\<lambda>s. brelse buf s)))"

section \<open>Recovery and commit\<close>

definition recover_from_log :: "'a lst_scheme \<Rightarrow> 'a lst_scheme stop + 'a lst_scheme" where
  "recover_from_log s =
     bnd (read_head s) (\<lambda>s.
     bnd (install_trans s) (\<lambda>s.
       write_head (upd_log (\<lambda>l. l\<lparr>lh_n := 0\<rparr>) s)))"

text \<open>\<^verbatim>\<open>sizeof(struct logheader)\<close> is below \<open>BSIZE\<close>, so the first test of \<^verbatim>\<open>initlog\<close> never panics.\<close>

definition sizeof_logheader :: nat where "sizeof_logheader = 4 + 4 * LOGSIZE"

definition initlog :: "u32 \<Rightarrow> 'a lst_scheme \<Rightarrow> 'a lst_scheme stop + 'a lst_scheme" where
  "initlog dev s =
     (if sizeof_logheader \<ge> BSIZE then Inl (Panic ''initlog: too big logheader'')
      else let s = initlock L_log s in
           bnd (readsb dev s) (\<lambda>(sb, s).
             recover_from_log (upd_log (\<lambda>l. l\<lparr>log_start := sb_logstart sb,
               log_size := sint (sb_nlog sb), log_dev := dev\<rparr>) s)))"

definition commit :: "'a lst_scheme \<Rightarrow> 'a lst_scheme stop + 'a lst_scheme" where
  "commit s =
     (if lh_n (log s) > 0
      then bnd (write_log s) (\<lambda>s.
           bnd (write_head s) (\<lambda>s.
           bnd (install_trans s) (\<lambda>s.
             write_head (upd_log (\<lambda>l. l\<lparr>lh_n := 0\<rparr>) s))))
      else Inr s)"

section \<open>Transactions\<close>

definition begin_op_loop :: "'a lst_scheme \<Rightarrow> 'a lst_scheme stop + 'a lst_scheme" where
  "begin_op_loop s =
     (if log_committing (log s) then sleep C_log L_log s
      else if lh_n (log s) + (log_outstanding (log s) + 1) * int MAXOPBLOCKS > int LOGSIZE
      then sleep C_log L_log s
      else release L_log (upd_log (\<lambda>l. l\<lparr>log_outstanding := log_outstanding l + 1\<rparr>) s))"

definition begin_op :: "'a lst_scheme \<Rightarrow> 'a lst_scheme stop + 'a lst_scheme" where
  "begin_op s = bnd (acquire L_log s) begin_op_loop"

definition begin_op_in :: "nat \<Rightarrow> 'a lst_scheme \<Rightarrow> 'a lst_scheme stop + 'a lst_scheme" where
  "begin_op_in i s = bnd (sleep_in i L_log s) begin_op_loop"

text \<open>\<^verbatim>\<open>end_op\<close>: the accounting under the lock, and the commit with the lock dropped.\<close>

definition end_op_account :: "'a lst_scheme \<Rightarrow> 'a lst_scheme stop + (bool \<times> 'a lst_scheme)" where
  "end_op_account s =
     bnd (acquire L_log s) (\<lambda>s.
       let s = upd_log (\<lambda>l. l\<lparr>log_outstanding := log_outstanding l - 1\<rparr>) s in
       if log_committing (log s) then Inl (Panic ''log.committing'')
       else if log_outstanding (log s) = 0
       then let s = upd_log (\<lambda>l. l\<lparr>log_committing := True\<rparr>) s
            in bnd (release L_log s) (\<lambda>s. Inr (True, s))
       else bnd (wakeup C_log s) (\<lambda>s. bnd (release L_log s) (\<lambda>s. Inr (False, s))))"

definition end_op_finish :: "'a lst_scheme \<Rightarrow> 'a lst_scheme stop + 'a lst_scheme" where
  "end_op_finish s =
     bnd (acquire L_log s) (\<lambda>s.
       let s = upd_log (\<lambda>l. l\<lparr>log_committing := False\<rparr>) s in
       bnd (wakeup C_log s) (release L_log))"

definition end_op :: "'a lst_scheme \<Rightarrow> 'a lst_scheme stop + 'a lst_scheme" where
  "end_op s =
     bnd (end_op_account s) (\<lambda>(do_commit, s).
       if do_commit then bnd (commit s) end_op_finish else Inr s)"

text \<open>
  The search of \<^verbatim>\<open>log_write\<close> for a block that is already in the log ends at \<open>lh.n\<close>, which the first
  test keeps below \<open>LOGSIZE\<close>.
\<close>

fun log_slot :: "u32 list \<Rightarrow> u32 \<Rightarrow> nat \<Rightarrow> nat \<Rightarrow> nat" where
  "log_slot bs blockno 0 i = i"
| "log_slot bs blockno (Suc k) i = (if bs ! i = blockno then i else log_slot bs blockno k (i + 1))"

definition log_write :: "nat \<Rightarrow> 'a lst_scheme \<Rightarrow> 'a lst_scheme stop + 'a lst_scheme" where
  "log_write b s =
     (if lh_n (log s) \<ge> int LOGSIZE \<or> lh_n (log s) \<ge> log_size (log s) - 1
      then Inl (Panic ''too big a transaction'')
      else if log_outstanding (log s) < 1 then Inl (Panic ''log_write outside of trans'')
      else bnd (acquire L_log s) (\<lambda>s.
        let blockno = b_blockno (bufs s b);
            i = log_slot (lh_block (log s)) blockno (nat (lh_n (log s))) 0;
            s = upd_log (\<lambda>l. l\<lparr>lh_block := (lh_block l)[i := blockno]\<rparr>) s;
            s = (if int i = lh_n (log s) then upd_log (\<lambda>l. l\<lparr>lh_n := lh_n l + 1\<rparr>) s else s);
            s = upd_buf b (\<lambda>q. q\<lparr>b_flags := b_flags q OR B_DIRTY\<rparr>) s
        in release L_log s))"

end
