(* ===== verification/Ring.thy ===== *)
theory Ring
  imports Main
begin

text \<open>
  Circular doubly linked lists by their two pointer functions. \<open>seg nx pv a xs b\<close> says that
  following \<open>nx\<close> from \<open>a\<close> leads through \<open>xs\<close> to \<open>b\<close> and \<open>pv\<close> leads back. A ring through \<open>h\<close> is a segment
  from \<open>h\<close> to itself. Unlinking a node and linking one in behind \<open>h\<close> are the two updates that
  \<^verbatim>\<open>brelse\<close> and \<^verbatim>\<open>binit\<close> make.
\<close>

fun seg :: "('a \<Rightarrow> 'a) \<Rightarrow> ('a \<Rightarrow> 'a) \<Rightarrow> 'a \<Rightarrow> 'a list \<Rightarrow> 'a \<Rightarrow> bool" where
  "seg nx pv a [] b \<longleftrightarrow> nx a = b \<and> pv b = a"
| "seg nx pv a (x # xs) b \<longleftrightarrow> nx a = x \<and> pv x = a \<and> seg nx pv x xs b"

definition ring :: "('a \<Rightarrow> 'a) \<Rightarrow> ('a \<Rightarrow> 'a) \<Rightarrow> 'a \<Rightarrow> 'a list \<Rightarrow> bool" where
  "ring nx pv h xs \<longleftrightarrow> distinct (h # xs) \<and> seg nx pv h xs h"

lemma seg_append: "seg nx pv a (xs @ x # ys) b \<longleftrightarrow> seg nx pv a xs x \<and> seg nx pv x ys b"
  by (induction xs arbitrary: a) auto

lemma seg_upd_next: "c \<notin> set (a # xs) \<Longrightarrow> seg (nx(c := v)) pv a xs b = seg nx pv a xs b"
  by (induction xs arbitrary: a) auto

lemma seg_upd_prev: "c \<notin> set (b # xs) \<Longrightarrow> seg nx (pv(c := v)) a xs b = seg nx pv a xs b"
  by (induction xs arbitrary: a) auto

lemma seg_ends: "seg nx pv a xs b \<Longrightarrow> nx a = hd (xs @ [b]) \<and> pv b = last (a # xs)"
  by (induction xs arbitrary: a) auto

lemma hd_snoc_in: "hd (xs @ [b]) \<in> set (b # xs)"
  by (cases xs) auto

lemma seg_remove:
  assumes "seg nx pv a ys b" "seg nx pv b zs c" "distinct (a # ys @ zs)" "c \<notin> set (ys @ zs)"
  shows "seg (nx(pv b := nx b)) (pv(nx b := pv b)) a (ys @ zs) c"
  using assms
proof (induction ys arbitrary: a)
  case Nil
  then show ?case
  proof (cases zs)
    case (Cons z zs')
    with Nil have e: "pv b = a" "nx b = z" by auto
    have "seg (nx(a := z)) (pv(z := a)) z zs' c"
      using Nil Cons by (subst seg_upd_next, simp, subst seg_upd_prev) auto
    then show ?thesis unfolding e Cons append_Nil seg.simps(2) by (simp only: fun_upd_same simp_thms)
  qed simp
next
  case (Cons y ys)
  have p: "pv b \<in> set (y # ys)" using seg_ends [OF Cons.prems(1)] by auto
  have n: "nx b \<in> set (c # zs)" using seg_ends [OF Cons.prems(2)] hd_snoc_in [of zs c] by simp
  have "pv b \<noteq> a" using p Cons.prems by auto
  moreover have "nx b \<noteq> y" using n Cons.prems by auto
  ultimately show ?case using Cons by simp
qed

lemma ring_remove:
  assumes "ring nx pv h (ys @ b # zs)"
  shows "ring (nx(pv b := nx b)) (pv(nx b := pv b)) h (ys @ zs)"
  using assms by (auto simp: ring_def seg_append intro!: seg_remove)

lemma ring_insert:
  assumes "ring nx pv h xs" "b \<notin> set (h # xs)"
  shows "ring (nx(b := nx h, h := b)) (pv(b := h, nx h := b)) h (b # xs)"
proof (cases xs)
  case Nil
  with assms show ?thesis by (simp add: ring_def)
next
  case (Cons x xs')
  with assms have d: "distinct (b # h # x # xs')" and s: "nx h = x" "seg nx pv x xs' h"
    by (auto simp: ring_def)
  have "seg (nx(b := x, h := b)) (pv(b := h, x := b)) x xs' h"
    using d s by (auto simp: seg_upd_next seg_upd_prev)
  with d s Cons show ?thesis by (auto simp: ring_def)
qed

lemma ring_empty: "ring nx pv h [] \<longleftrightarrow> nx h = h \<and> pv h = h"
  by (simp add: ring_def)

text \<open>Following the ring in either direction.\<close>

fun walk :: "nat \<Rightarrow> ('a \<Rightarrow> 'a) \<Rightarrow> 'a \<Rightarrow> 'a \<Rightarrow> 'a list" where
  "walk 0 nx h a = []"
| "walk (Suc n) nx h a = (if a = h then [] else a # walk n nx h (nx a))"

lemma seg_rev: "seg nx pv a xs b \<Longrightarrow> seg pv nx b (rev xs) a"
  by (induction xs arbitrary: a) (auto simp: seg_append)

lemma walk_seg:
  "\<lbrakk>seg nx pv a xs h; h \<notin> set xs; length xs < n\<rbrakk> \<Longrightarrow> walk n nx h (nx a) = xs"
proof (induction xs arbitrary: a n)
  case (Cons x xs)
  then show ?case by (cases n) auto
qed (auto simp: gr0_conv_Suc)

lemma walk_ring: "\<lbrakk>ring nx pv h xs; length xs < n\<rbrakk> \<Longrightarrow> walk n nx h (nx h) = xs"
  by (auto simp: ring_def intro: walk_seg)

lemma walk_ring_back: "\<lbrakk>ring nx pv h xs; length xs < n\<rbrakk> \<Longrightarrow> walk n pv h (pv h) = rev xs"
proof -
  assume r: "ring nx pv h xs" "length xs < n"
  then have "seg pv nx h (rev xs) h" by (simp add: ring_def seg_rev)
  with r show ?thesis using walk_seg [of pv nx h "rev xs" h n] by (simp add: ring_def)
qed

end
