(* ===== verification/Bio_Cache.thy ===== *)
theory Bio_Cache
  imports Bio Ring
begin

text \<open>
  What the buffer cache does, seen through the contents of blocks. \<open>view s n\<close> is the contents of block
  \<open>n\<close> that the next reader gets: the valid buffer of the block, or the disk. The lemmas describe
  \<^verbatim>\<open>bread\<close>, \<^verbatim>\<open>bwrite\<close> and \<^verbatim>\<open>brelse\<close> by their effect on the view, the disk, the set of locked blocks and the
  set of pinned (dirty) blocks, for a process that runs with no spin lock held and finds the
  buffers it needs unlocked.
\<close>

section \<open>The list of buffers\<close>

definition nextf :: "'a bst_scheme \<Rightarrow> nat \<Rightarrow> nat" where
  "nextf s b = b_next (bufs s b)"

definition prevf :: "'a bst_scheme \<Rightarrow> nat \<Rightarrow> nat" where
  "prevf s b = b_prev (bufs s b)"

lemma nextf_upd [simp]:
  "nextf (upd_buf a (\<lambda>q. q\<lparr>b_next := v\<rparr>) s) = (nextf s)(a := v)"
  "nextf (upd_buf a (\<lambda>q. q\<lparr>b_prev := v\<rparr>) s) = nextf s"
  by (auto simp: nextf_def upd_buf_def fun_eq_iff)

lemma prevf_upd [simp]:
  "prevf (upd_buf a (\<lambda>q. q\<lparr>b_prev := v\<rparr>) s) = (prevf s)(a := v)"
  "prevf (upd_buf a (\<lambda>q. q\<lparr>b_next := v\<rparr>) s) = prevf s"
  by (auto simp: prevf_def upd_buf_def fun_eq_iff)

definition bring :: "'a bst_scheme \<Rightarrow> nat list \<Rightarrow> bool" where
  "bring s xs \<longleftrightarrow> ring (nextf s) (prevf s) BHEAD xs \<and> set xs = {..<NBUF}"

definition mru :: "'a bst_scheme \<Rightarrow> nat list" where
  "mru s = walk (Suc NBUF) (nextf s) BHEAD (nextf s BHEAD)"

lemma bring_length: "bring s xs \<Longrightarrow> length xs = NBUF"
  using distinct_card [of xs] by (auto simp: bring_def ring_def)

lemma bring_mru: "bring s xs \<Longrightarrow> mru s = xs"
proof -
  assume xs: "bring s xs"
  then have "ring (nextf s) (prevf s) BHEAD xs" by (simp add: bring_def)
  moreover have "length xs < Suc NBUF" using bring_length [OF xs] by simp
  ultimately show ?thesis unfolding mru_def by (rule walk_ring)
qed

definition holds_block :: "u32 \<Rightarrow> u32 \<Rightarrow> buf \<Rightarrow> bool" where
  "holds_block dev n q \<longleftrightarrow> b_dev q = dev \<and> b_blockno q = n"

definition unused :: "buf \<Rightarrow> bool" where
  "unused q \<longleftrightarrow> b_refcnt q = 0 \<and> b_flags q AND B_DIRTY = 0"

lemma bget_cached_seg:
  "\<lbrakk>seg (nextf s) pv a xs BHEAD; BHEAD \<notin> set xs; length xs < n\<rbrakk>
   \<Longrightarrow> bget_cached n (b_next (bufs s a)) dev k s
       = Inr (List.find (\<lambda>b. holds_block dev k (bufs s b)) xs)"
proof (induction xs arbitrary: a n)
  case (Cons x xs)
  then show ?case by (cases n) (auto simp: holds_block_def nextf_def)
qed (auto simp: gr0_conv_Suc nextf_def)

lemma bget_unused_seg:
  "\<lbrakk>seg (prevf s) pv a xs BHEAD; BHEAD \<notin> set xs; length xs < n\<rbrakk>
   \<Longrightarrow> bget_unused n (b_prev (bufs s a)) s = Inr (List.find (\<lambda>b. unused (bufs s b)) xs)"
proof (induction xs arbitrary: a n)
  case (Cons x xs)
  then show ?case by (cases n) (auto simp: unused_def prevf_def)
qed (auto simp: gr0_conv_Suc prevf_def)

lemma bget_searches:
  assumes "bring s xs"
  shows "bget_cached (Suc NBUF) (b_next (bufs s BHEAD)) dev k s
      = Inr (List.find (\<lambda>b. holds_block dev k (bufs s b)) xs)"
    and "bget_unused (Suc NBUF) (b_prev (bufs s BHEAD)) s
      = Inr (List.find (\<lambda>b. unused (bufs s b)) (rev xs))"
proof -
  have xs: "seg (nextf s) (prevf s) BHEAD xs BHEAD" "BHEAD \<notin> set xs"
    using assms by (auto simp: bring_def ring_def)
  then show "bget_cached (Suc NBUF) (b_next (bufs s BHEAD)) dev k s
      = Inr (List.find (\<lambda>b. holds_block dev k (bufs s b)) xs)"
    using bring_length [OF assms] by (intro bget_cached_seg) auto
  show "bget_unused (Suc NBUF) (b_prev (bufs s BHEAD)) s
      = Inr (List.find (\<lambda>b. unused (bufs s b)) (rev xs))"
    using xs bring_length [OF assms] by (intro bget_unused_seg [OF seg_rev]) auto
qed

lemma bring_cong:
  "\<lbrakk>\<And>b. b_next (bufs t b) = b_next (bufs s b); \<And>b. b_prev (bufs t b) = b_prev (bufs s b)\<rbrakk>
   \<Longrightarrow> bring t xs = bring s xs"
  by (simp add: bring_def nextf_def [abs_def] prevf_def [abs_def])

text \<open>\<^verbatim>\<open>brelse\<close> moves the buffer to the front of the list.\<close>

definition to_front :: "nat \<Rightarrow> nat list \<Rightarrow> nat list" where
  "to_front b xs = b # filter (\<lambda>x. x \<noteq> b) xs"

lemma upd_pointer_keeps:
  "b_flags (bufs (upd_buf a (\<lambda>q. q\<lparr>b_next := v\<rparr>) s) x) = b_flags (bufs s x)"
  "b_dev (bufs (upd_buf a (\<lambda>q. q\<lparr>b_next := v\<rparr>) s) x) = b_dev (bufs s x)"
  "b_blockno (bufs (upd_buf a (\<lambda>q. q\<lparr>b_next := v\<rparr>) s) x) = b_blockno (bufs s x)"
  "b_refcnt (bufs (upd_buf a (\<lambda>q. q\<lparr>b_next := v\<rparr>) s) x) = b_refcnt (bufs s x)"
  "b_data (bufs (upd_buf a (\<lambda>q. q\<lparr>b_next := v\<rparr>) s) x) = b_data (bufs s x)"
  "b_flags (bufs (upd_buf a (\<lambda>q. q\<lparr>b_prev := v\<rparr>) s) x) = b_flags (bufs s x)"
  "b_dev (bufs (upd_buf a (\<lambda>q. q\<lparr>b_prev := v\<rparr>) s) x) = b_dev (bufs s x)"
  "b_blockno (bufs (upd_buf a (\<lambda>q. q\<lparr>b_prev := v\<rparr>) s) x) = b_blockno (bufs s x)"
  "b_refcnt (bufs (upd_buf a (\<lambda>q. q\<lparr>b_prev := v\<rparr>) s) x) = b_refcnt (bufs s x)"
  "b_data (bufs (upd_buf a (\<lambda>q. q\<lparr>b_prev := v\<rparr>) s) x) = b_data (bufs s x)"
  by (simp_all add: upd_buf_def)

lemma brelse_front_keeps:
  "b_flags (bufs (brelse_front b s) x) = b_flags (bufs s x)"
  "b_dev (bufs (brelse_front b s) x) = b_dev (bufs s x)"
  "b_blockno (bufs (brelse_front b s) x) = b_blockno (bufs s x)"
  "b_refcnt (bufs (brelse_front b s) x) = b_refcnt (bufs s x)"
  "b_data (bufs (brelse_front b s) x) = b_data (bufs s x)"
  by (simp_all only: brelse_front_def Let_def upd_pointer_keeps)

lemma brelse_front_frame: "brelse_front b s = s\<lparr>bufs := bufs (brelse_front b s)\<rparr>"
proof -
  have eq: "t = s\<lparr>bufs := bufs t\<rparr> \<Longrightarrow> upd_buf a f t = s\<lparr>bufs := bufs (upd_buf a f t)\<rparr>" for t :: "'a bst_scheme" and a f
    by (cases s, cases t) (simp add: upd_buf_def)
  show ?thesis unfolding brelse_front_def Let_def by (intro eq) simp
qed

lemma brelse_front_pointers:
  assumes "nextf s b \<noteq> b" "prevf s b \<noteq> b" "b \<noteq> BHEAD"
  shows "nextf (brelse_front b s) =
      (let nx = (nextf s)(prevf s b := nextf s b) in nx(b := nx BHEAD, BHEAD := b))"
    and "prevf (brelse_front b s) =
      (let nx = (nextf s)(prevf s b := nextf s b) in ((prevf s)(nextf s b := prevf s b))(b := BHEAD, nx BHEAD := b))"
proof -
  define s1 where "s1 = upd_buf (nextf s b) (\<lambda>q. q\<lparr>b_prev := prevf s b\<rparr>) s"
  define s2 where "s2 = upd_buf (prevf s1 b) (\<lambda>q. q\<lparr>b_next := nextf s1 b\<rparr>) s1"
  define s3 where "s3 = upd_buf b (\<lambda>q. q\<lparr>b_next := nextf s2 BHEAD\<rparr>) s2"
  define s4 where "s4 = upd_buf b (\<lambda>q. q\<lparr>b_prev := BHEAD\<rparr>) s3"
  define s5 where "s5 = upd_buf (nextf s4 BHEAD) (\<lambda>q. q\<lparr>b_prev := b\<rparr>) s4"
  have s6: "brelse_front b s = upd_buf BHEAD (\<lambda>q. q\<lparr>b_next := b\<rparr>) s5"
    by (simp only: brelse_front_def s1_def s2_def s3_def s4_def s5_def nextf_def prevf_def Let_def)
  have 1: "nextf s1 = nextf s" "prevf s1 = (prevf s)(nextf s b := prevf s b)"
    by (simp_all add: s1_def)
  have 2: "nextf s2 = (nextf s)(prevf s b := nextf s b)" "prevf s2 = prevf s1"
    using assms by (simp_all add: s2_def 1)
  have 4: "nextf s4 = (nextf s2)(b := nextf s2 BHEAD)" "prevf s4 = (prevf s1)(b := BHEAD)"
    by (simp_all add: s4_def s3_def 2)
  have 5: "nextf s5 = nextf s4" "prevf s5 = (prevf s4)(nextf s4 BHEAD := b)"
    by (simp_all add: s5_def)
  have h: "nextf s4 BHEAD = nextf s2 BHEAD" using assms(3) by (simp add: 4)
  show "nextf (brelse_front b s) =
      (let nx = (nextf s)(prevf s b := nextf s b) in nx(b := nx BHEAD, BHEAD := b))"
    by (simp add: s6 5 4 2 Let_def)
  show "prevf (brelse_front b s) =
      (let nx = (nextf s)(prevf s b := nextf s b) in ((prevf s)(nextf s b := prevf s b))(b := BHEAD, nx BHEAD := b))"
    unfolding s6 prevf_upd 5(2) h unfolding 4 1 2 Let_def ..
qed

lemma brelse_front_ring:
  assumes "bring s xs" "b < NBUF"
  shows "bring (brelse_front b s) (to_front b xs)"
proof -
  have r: "ring (nextf s) (prevf s) BHEAD xs" and set: "set xs = {..<NBUF}"
    using assms(1) by (auto simp: bring_def)
  then obtain ys zs where xs: "xs = ys @ b # zs"
    using assms(2) by (metis lessThan_iff split_list)
  have d: "distinct (BHEAD # xs)" using r by (simp add: ring_def)
  then have "filter (\<lambda>x. x \<noteq> b) ys = ys" "filter (\<lambda>x. x \<noteq> b) zs = zs"
    unfolding xs by (auto intro!: filter_True)
  then have f: "to_front b xs = b # ys @ zs" by (simp add: to_front_def xs)
  have b: "b \<noteq> BHEAD" "b \<notin> set (BHEAD # ys @ zs)" using d xs by auto
  have r': "ring ((nextf s)(prevf s b := nextf s b)) ((prevf s)(nextf s b := prevf s b)) BHEAD (ys @ zs)"
    using r unfolding xs by (rule ring_remove)
  have s: "seg (nextf s) (prevf s) BHEAD ys b" "seg (nextf s) (prevf s) b zs BHEAD"
    using r by (auto simp: ring_def xs seg_append)
  have "prevf s b \<in> set (BHEAD # ys)" using seg_ends [OF s(1)] by auto
  moreover have "nextf s b \<in> set (BHEAD # zs)" using seg_ends [OF s(2)] hd_snoc_in [of zs BHEAD] by simp
  ultimately have ne: "nextf s b \<noteq> b" "prevf s b \<noteq> b" using b(2) by auto
  have "set (b # ys @ zs) = {..<NBUF}" using set xs by auto
  then show ?thesis
    unfolding bring_def f brelse_front_pointers [OF ne b(1)] Let_def
    using ring_insert [OF r' b(2)] by blast
qed

section \<open>Flags\<close>

definition valid :: "buf \<Rightarrow> bool" where
  "valid q \<longleftrightarrow> b_flags q AND B_VALID \<noteq> 0"

definition dirty :: "buf \<Rightarrow> bool" where
  "dirty q \<longleftrightarrow> b_flags q AND B_DIRTY \<noteq> 0"

lemma bit_flags [simp]: "bit B_VALID n \<longleftrightarrow> n = 1" "bit B_DIRTY n \<longleftrightarrow> n = 2"
proof -
  have "B_VALID = 2 ^ 1" "B_DIRTY = 2 ^ 2" by (simp_all add: B_VALID_def B_DIRTY_def)
  then have "bit B_VALID n \<longleftrightarrow> bit (2 ^ 1 :: u32) n" "bit B_DIRTY n \<longleftrightarrow> bit (2 ^ 2 :: u32) n"
    by (simp_all only:)
  then show "bit B_VALID n \<longleftrightarrow> n = 1" "bit B_DIRTY n \<longleftrightarrow> n = 2"
    unfolding bit_exp_iff by auto
qed

lemma and_flag: "x AND B_VALID = 0 \<longleftrightarrow> \<not> bit x 1" "x AND B_DIRTY = 0 \<longleftrightarrow> \<not> bit x 2" for x :: u32
proof -
  have "x AND m = 0 \<longleftrightarrow> (\<forall>n<32. bit m n \<longrightarrow> \<not> bit x n)" for m :: u32
    by (auto simp: bit_eq_iff bit_and_iff)
  then show "x AND B_VALID = 0 \<longleftrightarrow> \<not> bit x 1" "x AND B_DIRTY = 0 \<longleftrightarrow> \<not> bit x 2" by simp_all
qed

lemma valid_bit: "valid q \<longleftrightarrow> bit (b_flags q) 1" and dirty_bit: "dirty q \<longleftrightarrow> bit (b_flags q) 2"
  by (simp_all add: valid_def dirty_def and_flag)

lemma nothing_to_do: "x AND (B_VALID OR B_DIRTY) = B_VALID \<longleftrightarrow> bit x 1 \<and> \<not> bit x 2" for x :: u32
proof
  assume eq: "x AND (B_VALID OR B_DIRTY) = B_VALID"
  have "bit (x AND (B_VALID OR B_DIRTY)) n = bit B_VALID n" for n by (simp only: eq)
  from this [of 1] this [of 2] show "bit x 1 \<and> \<not> bit x 2" by (auto simp: bit_simps)
qed (auto intro!: bit_word_eqI simp: bit_simps)

lemma unused_eq: "unused q \<longleftrightarrow> b_refcnt q = 0 \<and> \<not> dirty q"
  by (simp add: unused_def dirty_def)

section \<open>The invariant and the view\<close>

definition locked_buf :: "'a bst_scheme \<Rightarrow> nat \<Rightarrow> bool" where
  "locked_buf s b \<longleftrightarrow> sl_locked (sleeplocks s (SL_buf b)) \<noteq> 0"

definition block_of :: "'a bst_scheme \<Rightarrow> nat \<Rightarrow> u32 \<Rightarrow> bool" where
  "block_of s b n \<longleftrightarrow> b < NBUF \<and> b_dev (bufs s b) = 1 \<and> b_blockno (bufs s b) = n"

text \<open>
  Between the operations of one process, with no other process waiting for a buffer: at most
  one buffer per block; a buffer is referenced exactly while it is locked; clean valid
  unlocked buffers agree with the disk.
\<close>

definition cache_ok :: "'a bst_scheme \<Rightarrow> bool" where
  "cache_ok s \<longleftrightarrow> (\<exists>xs. bring s xs)
     \<and> (\<forall>a b n. block_of s a n \<and> block_of s b n \<longrightarrow> a = b)
     \<and> (\<forall>b<NBUF. b_refcnt (bufs s b) = (if locked_buf s b then 1 else 0))
     \<and> (\<forall>b<NBUF. locked_buf s b \<or> dirty (bufs s b) \<longrightarrow> b_dev (bufs s b) = 1)
     \<and> (\<forall>b<NBUF. dirty (bufs s b) \<longrightarrow> valid (bufs s b))
     \<and> (\<forall>b n. block_of s b n \<and> valid (bufs s b) \<and> \<not> dirty (bufs s b) \<and> \<not> locked_buf s b
          \<longrightarrow> b_data (bufs s b) = disk s n)
     \<and> (\<forall>b<NBUF. length (b_data (bufs s b)) = BSIZE) \<and> (\<forall>n. length (disk s n) = BSIZE)"

definition view :: "'a bst_scheme \<Rightarrow> u32 \<Rightarrow> block" where
  "view s n = (case List.find (\<lambda>b. block_of s b n \<and> valid (bufs s b)) [0..<NBUF] of
     Some b \<Rightarrow> b_data (bufs s b) | None \<Rightarrow> disk s n)"

definition pinned :: "'a bst_scheme \<Rightarrow> u32 set" where
  "pinned s = {n. \<exists>b. block_of s b n \<and> dirty (bufs s b)}"

definition locked_blocks :: "'a bst_scheme \<Rightarrow> u32 set" where
  "locked_blocks s = {n. \<exists>b. block_of s b n \<and> locked_buf s b}"

definition owns :: "'a bst_scheme \<Rightarrow> nat \<Rightarrow> u32 \<Rightarrow> bool" where
  "owns s b n \<longleftrightarrow> block_of s b n \<and> valid (bufs s b) \<and> locked_buf s b"

lemma view_cases:
  "(\<exists>b. block_of s b n \<and> valid (bufs s b) \<and> view s n = b_data (bufs s b))
   \<or> (\<forall>b. block_of s b n \<longrightarrow> \<not> valid (bufs s b)) \<and> view s n = disk s n"
proof (cases "List.find (\<lambda>b. block_of s b n \<and> valid (bufs s b)) [0..<NBUF]")
  case None
  then have "view s n = disk s n" by (simp add: view_def)
  moreover have "\<not> (block_of s b n \<and> valid (bufs s b))" for b
    using None by (auto simp: find_None_iff block_of_def)
  ultimately show ?thesis by blast
next
  case (Some b)
  then have "view s n = b_data (bufs s b)" by (simp add: view_def)
  moreover have "block_of s b n \<and> valid (bufs s b)" using Some by (auto simp: find_Some_iff)
  ultimately show ?thesis by blast
qed

lemma cache_okD:
  assumes "cache_ok s"
  shows "\<exists>xs. bring s xs"
    and "\<And>a b n. block_of s a n \<Longrightarrow> block_of s b n \<Longrightarrow> a = b"
    and "\<And>b. b < NBUF \<Longrightarrow> b_refcnt (bufs s b) = (if locked_buf s b then 1 else 0)"
    and "\<And>b. b < NBUF \<Longrightarrow> locked_buf s b \<or> dirty (bufs s b) \<Longrightarrow> b_dev (bufs s b) = 1"
    and "\<And>b. b < NBUF \<Longrightarrow> dirty (bufs s b) \<Longrightarrow> valid (bufs s b)"
    and "\<And>b n. \<lbrakk>block_of s b n; valid (bufs s b); \<not> dirty (bufs s b); \<not> locked_buf s b\<rbrakk>
          \<Longrightarrow> b_data (bufs s b) = disk s n"
    and "\<And>b. b < NBUF \<Longrightarrow> length (b_data (bufs s b)) = BSIZE" "\<And>n. length (disk s n) = BSIZE"
  using assms unfolding cache_ok_def by blast+

lemma block_of_less: "block_of s b n \<Longrightarrow> b < NBUF"
  by (simp add: block_of_def)

lemma view_buf: "\<lbrakk>cache_ok s; block_of s b n; valid (bufs s b)\<rbrakk> \<Longrightarrow> view s n = b_data (bufs s b)"
  using view_cases [of s n] cache_okD(2) [of s] by metis

lemma view_disk: "(\<And>b. block_of s b n \<Longrightarrow> \<not> valid (bufs s b)) \<Longrightarrow> view s n = disk s n"
  using view_cases [of s n] by blast

lemma owns_data: "cache_ok s \<Longrightarrow> owns s b n \<Longrightarrow> b_data (bufs s b) = view s n"
  by (simp add: owns_def view_buf [symmetric])

lemma owns_unique: "\<lbrakk>cache_ok s; owns s a n; owns s b n\<rbrakk> \<Longrightarrow> a = b"
  using cache_okD(2) [of s a n b] by (simp add: owns_def)

lemma length_view: "cache_ok s \<Longrightarrow> length (view s n) = BSIZE"
  using view_cases [of s n] cache_okD(7,8) [of s] by (auto dest: block_of_less)

lemma view_clean:
  assumes "cache_ok s" "n \<notin> pinned s" "n \<notin> locked_blocks s"
  shows "view s n = disk s n"
  using view_cases [of s n] cache_okD(6) [OF assms(1)] assms(2,3)
  unfolding pinned_def locked_blocks_def by fastforce

section \<open>Steps\<close>

text \<open>
  A process that runs in the kernel with no spin lock held by anyone. The second argument is
  the process.
\<close>

definition idle :: "'a kst_scheme \<Rightarrow> nat \<Rightarrow> bool" where
  "idle s i \<longleftrightarrow> cpu_ok (hw s) \<and> (\<forall>lk. free_lock (hw s) lk) \<and> cpu_proc (cpus (hw s) (me (hw s))) = Some i"

definition wakes :: "(nat \<Rightarrow> proc) \<Rightarrow> (nat \<Rightarrow> proc) \<Rightarrow> bool" where
  "wakes P Q \<longleftrightarrow> (\<forall>i. Q i = P i \<or> p_state (P i) = SLEEPING \<and> Q i = (P i)\<lparr>p_state := RUNNABLE\<rparr>)"

definition bio_step :: "'a bst_scheme \<Rightarrow> 'a bst_scheme \<Rightarrow> bool" where
  "bio_step s t \<longleftrightarrow> (\<exists>h P L B D. t = s\<lparr>hw := h, procs := P, sleeplocks := L, bufs := B, disk := D\<rparr>
     \<and> (h = hw s \<or> h = rested (hw s)) \<and> wakes (procs s) P \<and> (\<forall>i. L (SL_inode i) = sleeplocks s (SL_inode i)))"

lemma wakes_refl [simp]: "wakes P P"
  by (simp add: wakes_def)

lemma wakes_woken: "wakes P (woken ch P)"
  by (simp add: wakes_def woken_def)

lemma wakes_trans: "wakes P Q \<Longrightarrow> wakes Q R \<Longrightarrow> wakes P R"
  unfolding wakes_def by (metis proc.select_convs(4) proc.surjective proc.update_convs(4) procstate.distinct(15))

lemma bio_stepI:
  "\<lbrakk>t = s\<lparr>hw := h, procs := P, sleeplocks := L, bufs := B, disk := D\<rparr>; h = hw s \<or> h = rested (hw s);
    wakes (procs s) P; \<And>i. L (SL_inode i) = sleeplocks s (SL_inode i)\<rbrakk> \<Longrightarrow> bio_step s t"
  unfolding bio_step_def by blast

lemma bio_step_trans:
  assumes "bio_step s t" "bio_step t u" shows "bio_step s u"
proof -
  from assms(1) obtain h P L B D where t: "t = s\<lparr>hw := h, procs := P, sleeplocks := L, bufs := B, disk := D\<rparr>"
    "h = hw s \<or> h = rested (hw s)" "wakes (procs s) P" "\<And>i. L (SL_inode i) = sleeplocks s (SL_inode i)"
    unfolding bio_step_def by blast
  from assms(2) obtain h' P' L' B' D' where u: "u = t\<lparr>hw := h', procs := P', sleeplocks := L', bufs := B', disk := D'\<rparr>"
    "h' = hw t \<or> h' = rested (hw t)" "wakes (procs t) P'" "\<And>i. L' (SL_inode i) = sleeplocks t (SL_inode i)"
    unfolding bio_step_def by blast
  show ?thesis
  proof (rule bio_stepI)
    show "u = s\<lparr>hw := h', procs := P', sleeplocks := L', bufs := B', disk := D'\<rparr>" by (simp add: u(1) t(1))
    show "h' = hw s \<or> h' = rested (hw s)" using u(2) t(1,2) by auto
    show "wakes (procs s) P'" using wakes_trans [OF t(3)] u(3) t(1) by simp
    show "L' (SL_inode i) = sleeplocks s (SL_inode i)" for i using u(4) t(1,4) by simp
  qed
qed

lemma bio_step_refl [simp]: "bio_step s s"
  by (rule bio_stepI [where h = "hw s" and P = "procs s" and L = "sleeplocks s" and B = "bufs s"
      and D = "disk s"]) simp_all

lemma idle_rested: "idle s i \<Longrightarrow> idle (s\<lparr>hw := rested (hw s)\<rparr>) i"
  by (simp add: idle_def)

lemma bio_step_idle: "bio_step s t \<Longrightarrow> idle s i \<Longrightarrow> idle t i"
  by (auto simp: bio_step_def idle_def)

lemma bio_step_same:
  assumes "bio_step s t"
  shows "disksize t = disksize s" "mem t = mem s" "freelist t = freelist s"
    "sleeplocks t (SL_inode j) = sleeplocks s (SL_inode j)"
  using assms by (auto simp: bio_step_def)

lemma find_unique:
  assumes "b \<in> set xs" "P b" "\<And>x. x \<in> set xs \<Longrightarrow> P x \<Longrightarrow> x = b"
  shows "List.find P xs = Some b"
proof (cases "List.find P xs")
  case None
  then have "\<not> P b" using assms(1) by (simp add: find_None_iff)
  with assms(2) show ?thesis by blast
next
  case (Some x)
  then have "x \<in> set xs" "P x" by (auto simp: find_Some_iff)
  then have "x = b" by (rule assms(3))
  with Some show ?thesis by simp
qed

section \<open>Reading a block\<close>

lemma bget_lock_eq:
  assumes "idle s i" "\<not> locked_buf s b" "t = s\<lparr>hw := took L_bcache (hw s), bufs := B\<rparr>"
  shows "bget_lock b t = Inr (b, s\<lparr>hw := rested (hw s), bufs := B,
      sleeplocks := (sleeplocks s)(SL_buf b := \<lparr>sl_locked = 1, sl_pid = p_pid (procs s i)\<rparr>)\<rparr>)"
proof -
  let ?u = "s\<lparr>hw := rested (hw s), bufs := B\<rparr>"
  have ok: "cpu_ok (hw s)" "free_lock (hw s) L_bcache" using assms(1) by (auto simp: idle_def)
  have "release L_bcache t = Inr (t\<lparr>hw := rested (hw s)\<rparr>)"
    using ok assms(3) by (intro release_took) simp_all
  also have "t\<lparr>hw := rested (hw s)\<rparr> = ?u" by (simp add: assms(3))
  finally have 1: "release L_bcache t = Inr ?u" .
  have "acquiresleep (SL_buf b) ?u = Inr (?u\<lparr>hw := rested (hw ?u),
     sleeplocks := (sleeplocks ?u)(SL_buf b := \<lparr>sl_locked = 1, sl_pid = p_pid (procs ?u i)\<rparr>)\<rparr>)"
    using assms(1,2) by (intro acquiresleep_free) (simp_all add: idle_def locked_buf_def)
  then have 2: "acquiresleep (SL_buf b) ?u = Inr (?u\<lparr>
     sleeplocks := (sleeplocks s)(SL_buf b := \<lparr>sl_locked = 1, sl_pid = p_pid (procs s i)\<rparr>)\<rparr>)"
    by simp
  show ?thesis unfolding bget_lock_def 1 bnd_simps 2 ..
qed

lemma bget_hit:
  assumes "idle s i" "bring s xs" "List.find (\<lambda>b. holds_block dev n (bufs s b)) xs = Some b"
    and "\<not> locked_buf s b"
  shows "bget dev n s = Inr (b, s\<lparr>hw := rested (hw s),
      bufs := (bufs s)(b := (bufs s b)\<lparr>b_refcnt := b_refcnt (bufs s b) + 1\<rparr>),
      sleeplocks := (sleeplocks s)(SL_buf b := \<lparr>sl_locked = 1, sl_pid = p_pid (procs s i)\<rparr>)\<rparr>)"
proof -
  let ?s = "s\<lparr>hw := took L_bcache (hw s)\<rparr>"
  have 1: "acquire L_bcache s = Inr ?s" using assms(1) by (intro acquire_eq) (auto simp: idle_def)
  have r: "bring ?s xs" using assms(2) by (subst bring_cong [of _ s]) simp_all
  have 2: "bget_cached (Suc NBUF) (b_next (bufs ?s BHEAD)) dev n ?s = Inr (Some b)"
    unfolding bget_searches(1) [OF r] using assms(3) by simp
  show ?thesis
    unfolding bget_def 1 bnd_simps 2 option.case
    using assms(1,4) by (rule bget_lock_eq) (simp add: upd_buf_def)
qed

lemma bget_miss:
  assumes "idle s i" "bring s xs" "List.find (\<lambda>b. holds_block dev n (bufs s b)) xs = None"
    and "List.find (\<lambda>b. unused (bufs s b)) (rev xs) = Some b" "\<not> locked_buf s b"
  shows "bget dev n s = Inr (b, s\<lparr>hw := rested (hw s),
      bufs := (bufs s)(b := (bufs s b)\<lparr>b_dev := dev, b_blockno := n, b_flags := 0, b_refcnt := 1\<rparr>),
      sleeplocks := (sleeplocks s)(SL_buf b := \<lparr>sl_locked = 1, sl_pid = p_pid (procs s i)\<rparr>)\<rparr>)"
proof -
  let ?s = "s\<lparr>hw := took L_bcache (hw s)\<rparr>"
  have 1: "acquire L_bcache s = Inr ?s" using assms(1) by (intro acquire_eq) (auto simp: idle_def)
  have r: "bring ?s xs" using assms(2) by (subst bring_cong [of _ s]) simp_all
  have 2: "bget_cached (Suc NBUF) (b_next (bufs ?s BHEAD)) dev n ?s = Inr None"
    unfolding bget_searches(1) [OF r] using assms(3) by simp
  have 3: "bget_unused (Suc NBUF) (b_prev (bufs ?s BHEAD)) ?s = Inr (Some b)"
    unfolding bget_searches(2) [OF r] using assms(4) by simp
  show ?thesis
    unfolding bget_def 1 bnd_simps 2 3 option.case
    using assms(1,5) by (rule bget_lock_eq) (simp add: upd_buf_def)
qed

lemma iderw_eq:
  assumes "idle s i" "locked_buf s b" "b_dev (bufs s b) = 1" "b_blockno (bufs s b) < disksize s"
    and "dirty (bufs s b) \<or> \<not> valid (bufs s b)"
  shows "iderw b s = Inr (if dirty (bufs s b)
     then s\<lparr>hw := rested (hw s), disk := (disk s)(b_blockno (bufs s b) := b_data (bufs s b)),
        bufs := (bufs s)(b := (bufs s b)\<lparr>b_flags := b_flags (bufs s b) AND NOT B_DIRTY OR B_VALID\<rparr>)\<rparr>
     else s\<lparr>hw := rested (hw s), bufs := (bufs s)(b := (bufs s b)\<lparr>
        b_data := disk s (b_blockno (bufs s b)), b_flags := b_flags (bufs s b) OR B_VALID\<rparr>)\<rparr>)"
proof -
  let ?s = "s\<lparr>hw := rested (hw s)\<rparr>" and ?q = "bufs s b"
  have h: "holdingsleep (SL_buf b) s = Inr (True, ?s)"
    using assms(1,2) by (subst holdingsleep_eq) (auto simp: idle_def locked_buf_def)
  have nd: "b_flags ?q AND (B_VALID OR B_DIRTY) \<noteq> B_VALID"
    using assms(5) by (auto simp: nothing_to_do valid_bit dirty_bit)
  have "iderw b s = Inr (upd_buf b (\<lambda>q. q\<lparr>b_flags := b_flags q OR B_VALID\<rparr>)
     (if dirty ?q then (upd_buf b (\<lambda>q. q\<lparr>b_flags := b_flags q AND NOT B_DIRTY\<rparr>) ?s)\<lparr>
        disk := (disk s)(b_blockno ?q := b_data ?q)\<rparr>
      else upd_buf b (\<lambda>q. q\<lparr>b_data := disk s (b_blockno ?q)\<rparr>) ?s))"
    unfolding iderw_def h bnd_simps prod.case Let_def
    using nd assms(3,4) by (simp add: dirty_def not_le upd_buf_def [of b "\<lambda>q. q\<lparr>b_flags := b_flags q AND NOT B_DIRTY\<rparr>"])
  then show ?thesis by (cases "dirty ?q") (simp_all add: upd_buf_def)
qed

text \<open>There is an unused buffer as long as the pinned and locked blocks do not fill the cache.\<close>

lemma unused_exists:
  assumes "cache_ok s" "finite A" "pinned s \<union> locked_blocks s \<subseteq> A" "card A < NBUF"
  shows "\<exists>b<NBUF. unused (bufs s b)"
proof (rule ccontr)
  assume none: "\<not> (\<exists>b<NBUF. unused (bufs s b))"
  have busy: "locked_buf s b \<or> dirty (bufs s b)" if b: "b < NBUF" for b
  proof (rule ccontr)
    assume "\<not> (locked_buf s b \<or> dirty (bufs s b))"
    then have "unused (bufs s b)" using cache_okD(3) [OF assms(1) b] by (simp add: unused_eq)
    with none b show False by blast
  qed
  have blk: "block_of s b (b_blockno (bufs s b))" if "b < NBUF" for b
    using cache_okD(4) [OF assms(1) that busy [OF that]] that by (simp add: block_of_def)
  have "inj_on (\<lambda>b. b_blockno (bufs s b)) {..<NBUF}"
  proof (rule inj_onI)
    fix a b assume ab: "a \<in> {..<NBUF}" "b \<in> {..<NBUF}" "b_blockno (bufs s a) = b_blockno (bufs s b)"
    have "block_of s a (b_blockno (bufs s b))" using blk [of a] ab by simp
    moreover have "block_of s b (b_blockno (bufs s b))" using blk [of b] ab by simp
    ultimately show "a = b" by (rule cache_okD(2) [OF assms(1)])
  qed
  moreover have "(\<lambda>b. b_blockno (bufs s b)) ` {..<NBUF} \<subseteq> A"
  proof (rule image_subsetI)
    fix b assume "b \<in> {..<NBUF}"
    then have "b_blockno (bufs s b) \<in> pinned s \<union> locked_blocks s"
      using blk [of b] busy [of b] by (auto simp: pinned_def locked_blocks_def)
    with assms(3) show "b_blockno (bufs s b) \<in> A" by blast
  qed
  ultimately have "card {..<NBUF} \<le> card A" using assms(2) by (rule card_inj_on_le)
  with assms(4) show False by simp
qed

text \<open>What \<^verbatim>\<open>bread\<close> leaves in the buffer it returns.\<close>

definition fetched :: "'a bst_scheme \<Rightarrow> u32 \<Rightarrow> nat \<Rightarrow> buf \<Rightarrow> bool" where
  "fetched s n b q \<longleftrightarrow> b < NBUF \<and> b_dev q = 1 \<and> b_blockno q = n \<and> b_refcnt q = 1 \<and> valid q
     \<and> b_data q = view s n \<and> b_next q = b_next (bufs s b) \<and> b_prev q = b_prev (bufs s b)
     \<and> (if block_of s b n then dirty q = dirty (bufs s b)
        else \<not> dirty q \<and> unused (bufs s b) \<and> (\<forall>j. \<not> block_of s j n))"

definition with_buf :: "nat \<Rightarrow> nat \<Rightarrow> buf \<Rightarrow> 'a bst_scheme \<Rightarrow> 'a bst_scheme" where
  "with_buf i b q s = s\<lparr>hw := rested (hw s), bufs := (bufs s)(b := q),
     sleeplocks := (sleeplocks s)(SL_buf b := \<lparr>sl_locked = 1, sl_pid = p_pid (procs s i)\<rparr>)\<rparr>"

lemma idle_with_buf: "idle s i \<Longrightarrow> idle (with_buf i b q s) i"
  by (simp add: idle_def with_buf_def)

lemma bread_valid:
  assumes "bget dev n s = Inr (b, with_buf i b q s)" "valid q"
  shows "bread dev n s = Inr (b, with_buf i b q s)"
  using assms by (simp add: bread_def valid_def with_buf_def)

lemma bread_invalid:
  assumes "bget 1 n s = Inr (b, with_buf i b q s)" "\<not> valid q" "\<not> dirty q" "idle s i"
    and "b_dev q = 1" "b_blockno q = n" "n < disksize s"
  shows "bread 1 n s = Inr (b, with_buf i b (q\<lparr>b_data := disk s n, b_flags := b_flags q OR B_VALID\<rparr>) s)"
proof -
  let ?t = "with_buf i b q s"
  have q: "bufs ?t b = q" "disk ?t = disk s" "hw ?t = rested (hw s)" by (simp_all add: with_buf_def)
  have "iderw b ?t = Inr (?t\<lparr>hw := rested (hw ?t), bufs := (bufs ?t)(b := q\<lparr>
      b_data := disk s n, b_flags := b_flags q OR B_VALID\<rparr>)\<rparr>)"
    using assms(2-7) idle_with_buf [OF assms(4), of b q]
    by (subst iderw_eq) (auto simp: with_buf_def locked_buf_def)
  also have "\<dots> = Inr (with_buf i b (q\<lparr>b_data := disk s n, b_flags := b_flags q OR B_VALID\<rparr>) s)"
    by (simp add: with_buf_def)
  finally show ?thesis using assms(1,2) q(1) by (simp add: bread_def valid_def)
qed

lemma valid_upd [simp]:
  "valid (q\<lparr>b_refcnt := r\<rparr>) = valid q" "dirty (q\<lparr>b_refcnt := r\<rparr>) = dirty q"
  "valid (q\<lparr>b_data := d\<rparr>) = valid q" "dirty (q\<lparr>b_data := d\<rparr>) = dirty q"
  "valid (q\<lparr>b_flags := f OR B_VALID\<rparr>)" "dirty (q\<lparr>b_flags := f OR B_VALID\<rparr>) = bit f 2"
  "\<not> valid (q\<lparr>b_flags := 0\<rparr>)" "\<not> dirty (q\<lparr>b_flags := 0\<rparr>)"
  by (simp_all add: valid_bit dirty_bit bit_simps)

lemma bread_fetched:
  assumes "idle s i" "cache_ok s" "n < disksize s" "n \<notin> locked_blocks s"
    and "(\<exists>b. block_of s b n) \<or> (\<exists>b<NBUF. unused (bufs s b))"
  shows "\<exists>b q. bread 1 n s = Inr (b, with_buf i b q s) \<and> fetched s n b q"
proof -
  obtain xs where xs: "bring s xs" using cache_okD(1) [OF assms(2)] by blast
  then have set: "set xs = {..<NBUF}" by (simp add: bring_def)
  show ?thesis
  proof (cases "\<exists>b. block_of s b n")
    case True
    then obtain b where b: "block_of s b n" by blast
    have less: "b < NBUF" using b by (rule block_of_less)
    have free: "\<not> locked_buf s b" using assms(4) b by (auto simp: locked_blocks_def)
    have "List.find (\<lambda>b. holds_block 1 n (bufs s b)) xs = Some b"
    proof (rule find_unique)
      show "b \<in> set xs" "holds_block 1 n (bufs s b)"
        using b set by (auto simp: block_of_def holds_block_def)
      fix x assume "x \<in> set xs" "holds_block 1 n (bufs s x)"
      then have "block_of s x n" using set by (simp add: block_of_def holds_block_def)
      then show "x = b" using b by (rule cache_okD(2) [OF assms(2)])
    qed
    from bget_hit [OF assms(1) xs this free]
    have g: "bget 1 n s = Inr (b, with_buf i b ((bufs s b)\<lparr>b_refcnt := b_refcnt (bufs s b) + 1\<rparr>) s)"
      by (simp add: with_buf_def)
    have ref: "b_refcnt (bufs s b) = 0" using cache_okD(3) [OF assms(2) less] free by simp
    show ?thesis
    proof (cases "valid (bufs s b)")
      case True
      from bread_valid [OF g] True view_buf [OF assms(2) b True] b less ref show ?thesis
        by (auto simp: fetched_def block_of_def)
    next
      case False
      then have clean: "\<not> dirty (bufs s b)" using cache_okD(5) [OF assms(2) less] by blast
      have "view s n = disk s n"
        using False cache_okD(2) [OF assms(2) b] by (intro view_disk) blast
      then have "fetched s n b ((bufs s b)\<lparr>b_refcnt := 1, b_data := disk s n,
          b_flags := b_flags (bufs s b) OR B_VALID\<rparr>)"
        using b less clean by (simp add: fetched_def block_of_def dirty_bit valid_bit bit_simps)
      moreover have "bread 1 n s = Inr (b, with_buf i b ((bufs s b)\<lparr>b_refcnt := 1, b_data := disk s n,
          b_flags := b_flags (bufs s b) OR B_VALID\<rparr>) s)"
        using bread_invalid [OF g] False clean assms(1,3) b ref by (simp add: block_of_def)
      ultimately show ?thesis by blast
    qed
  next
    case False
    with assms(5) obtain a where "a < NBUF" "unused (bufs s a)" by blast
    then have "List.find (\<lambda>b. unused (bufs s b)) (rev xs) \<noteq> None"
      using set by (auto simp: find_None_iff)
    then obtain b where b: "List.find (\<lambda>b. unused (bufs s b)) (rev xs) = Some b" by blast
    then have "b \<in> set (rev xs)" and u: "unused (bufs s b)" by (auto simp: find_Some_iff simp del: set_rev)
    then have less: "b < NBUF" using set by simp
    have free: "\<not> locked_buf s b"
      using u cache_okD(3) [OF assms(2) less] by (auto simp: unused_eq split: if_splits)
    have none: "List.find (\<lambda>b. holds_block 1 n (bufs s b)) xs = None"
      using False set by (auto simp: find_None_iff holds_block_def block_of_def)
    have "bget 1 n s = Inr (b, with_buf i b ((bufs s b)\<lparr>b_dev := 1, b_blockno := n, b_flags := 0, b_refcnt := 1\<rparr>) s)"
      using bget_miss [OF assms(1) xs none b free] by (simp add: with_buf_def)
    from bread_invalid [OF this] assms(1,3)
    have "bread 1 n s = Inr (b, with_buf i b ((bufs s b)\<lparr>b_dev := 1, b_blockno := n, b_flags := 0,
        b_refcnt := 1, b_data := disk s n, b_flags := 0 OR B_VALID\<rparr>) s)"
      by (simp add: valid_bit dirty_bit)
    moreover have "fetched s n b ((bufs s b)\<lparr>b_dev := 1, b_blockno := n, b_flags := 0,
        b_refcnt := 1, b_data := disk s n, b_flags := 0 OR B_VALID\<rparr>)"
      using less False u view_disk [of s n] by (auto simp: fetched_def valid_bit dirty_bit bit_simps)
    ultimately show ?thesis by blast
  qed
qed

section \<open>Changing one buffer\<close>

definition one_buf :: "'a bst_scheme \<Rightarrow> nat \<Rightarrow> buf \<Rightarrow> 'a bst_scheme \<Rightarrow> bool" where
  "one_buf s b q t \<longleftrightarrow> b < NBUF \<and> bufs t = (bufs s)(b := q) \<and> (\<forall>j. j \<noteq> b \<longrightarrow> locked_buf t j = locked_buf s j)"

lemma one_buf_block:
  "one_buf s b q t \<Longrightarrow> block_of t j n \<longleftrightarrow> (if j = b then b_dev q = 1 \<and> b_blockno q = n else block_of s j n)"
  by (auto simp: one_buf_def block_of_def)

lemma one_buf_bufs: "one_buf s b q t \<Longrightarrow> bufs t j = (if j = b then q else bufs s j)"
  by (simp add: one_buf_def)

lemma view_other:
  assumes o: "one_buf s b q t" and "\<not> block_of s b m" "\<not> (b_dev q = 1 \<and> b_blockno q = m)" "disk t m = disk s m"
  shows "view t m = view s m"
proof -
  have "(\<lambda>j. block_of t j m \<and> valid (bufs t j)) = (\<lambda>j. block_of s j m \<and> valid (bufs s j))"
    using assms(2,3) one_buf_block [OF o] one_buf_bufs [OF o] by auto
  moreover have "b_data (bufs t j) = b_data (bufs s j)" if "block_of s j m" for j
    using assms(2) that one_buf_bufs [OF o, of j] by (cases "j = b") auto
  moreover have "block_of s j m"
    if "find (\<lambda>j. block_of s j m \<and> valid (bufs s j)) [0..<NBUF] = Some j" for j
    using that by (auto simp: find_Some_iff)
  ultimately show ?thesis
    using assms(4) by (simp add: view_def split: option.split)
qed

lemma cache_ok_one:
  assumes ok: "cache_ok s" and o: "one_buf s b q t" and ring: "\<exists>xs. bring t xs"
    and uniq: "\<And>j. j \<noteq> b \<Longrightarrow> b_dev q = 1 \<Longrightarrow> \<not> block_of s j (b_blockno q)"
    and ref: "b_refcnt q = (if locked_buf t b then 1 else 0)"
    and dev: "locked_buf t b \<or> dirty q \<Longrightarrow> b_dev q = 1" and dv: "dirty q \<Longrightarrow> valid q"
    and coh: "\<lbrakk>b_dev q = 1; valid q; \<not> dirty q; \<not> locked_buf t b\<rbrakk> \<Longrightarrow> b_data q = disk t (b_blockno q)"
    and len: "length (b_data q) = BSIZE" "\<And>n. length (disk t n) = BSIZE"
    and dsk: "\<And>j n. j \<noteq> b \<Longrightarrow> block_of s j n \<Longrightarrow> disk t n = disk s n"
  shows "cache_ok t"
proof -
  note blk = one_buf_block [OF o] and bf = one_buf_bufs [OF o]
  have lk: "locked_buf t j = locked_buf s j" if "j \<noteq> b" for j using o that by (simp add: one_buf_def)
  show ?thesis unfolding cache_ok_def
  proof (intro conjI allI impI)
    show "\<exists>xs. bring t xs" by (rule ring)
  next
    fix a c n assume "block_of t a n \<and> block_of t c n"
    then show "a = c" using uniq blk cache_okD(2) [OF ok] by (metis (full_types))
  next
    fix j assume "j < NBUF"
    then show "b_refcnt (bufs t j) = (if locked_buf t j then 1 else 0)"
      using ref lk [of j] bf [of j] cache_okD(3) [OF ok, of j] by (cases "j = b") auto
  next
    fix j assume "j < NBUF" "locked_buf t j \<or> dirty (bufs t j)"
    then show "b_dev (bufs t j) = 1"
      using dev lk [of j] bf [of j] cache_okD(4) [OF ok, of j] by (cases "j = b") auto
  next
    fix j assume "j < NBUF" "dirty (bufs t j)"
    then show "valid (bufs t j)"
      using dv bf [of j] cache_okD(5) [OF ok, of j] by (cases "j = b") auto
  next
    fix j n assume "block_of t j n \<and> valid (bufs t j) \<and> \<not> dirty (bufs t j) \<and> \<not> locked_buf t j"
    then show "b_data (bufs t j) = disk t n"
      using coh dsk [of j n] lk [of j] bf [of j] blk [of j n] cache_okD(6) [OF ok, of j n]
      by (cases "j = b") auto
  next
    fix j assume "j < NBUF"
    then show "length (b_data (bufs t j)) = BSIZE"
      using len(1) bf [of j] cache_okD(7) [OF ok, of j] by (cases "j = b") auto
  next
    fix n show "length (disk t n) = BSIZE" by (rule len(2))
  qed
qed

text \<open>
  A buffer that gave up its old block, if it had another, was clean and free: then only the block it
  holds now can enter or leave the pinned and the locked blocks.
\<close>

definition gives_up :: "'a bst_scheme \<Rightarrow> nat \<Rightarrow> u32 \<Rightarrow> bool" where
  "gives_up s b n \<longleftrightarrow> (\<forall>m. block_of s b m \<and> m \<noteq> n \<longrightarrow> \<not> dirty (bufs s b) \<and> \<not> locked_buf s b)"

lemma gives_up_same: "block_of s b n \<Longrightarrow> gives_up s b n"
  by (simp add: gives_up_def block_of_def)

lemma one_buf_sets:
  assumes o: "one_buf s b q t" and ok: "cache_ok t" and b: "block_of t b n" and g: "gives_up s b n"
  shows "pinned t = (if dirty q then insert n (pinned s) else pinned s - {n})"
    and "locked_blocks t = (if locked_buf t b then insert n (locked_blocks s) else locked_blocks s - {n})"
proof -
  note blk = one_buf_block [OF o] and bf = one_buf_bufs [OF o]
  have lk: "locked_buf t j = locked_buf s j" if "j \<noteq> b" for j using o that by (simp add: one_buf_def)
  have n: "block_of t j n \<longleftrightarrow> j = b" for j using b cache_okD(2) [OF ok] by blast
  have m: "block_of t j m \<and> P j \<longleftrightarrow> block_of s j m \<and> P' j"
    if "m \<noteq> n" "\<And>j. j \<noteq> b \<Longrightarrow> P j = P' j" "block_of s b m \<Longrightarrow> \<not> P' b" for j m P P'
    using that b blk [of j m] blk [of b n] by (cases "j = b") auto
  have "m \<in> pinned t \<longleftrightarrow> m \<in> (if dirty q then insert n (pinned s) else pinned s - {n})" for m
  proof (cases "m = n")
    case True then show ?thesis using n bf by (auto simp: pinned_def)
  next
    case False
    then have "block_of t j m \<and> dirty (bufs t j) \<longleftrightarrow> block_of s j m \<and> dirty (bufs s j)" for j
      using g bf by (intro m) (auto simp: gives_up_def)
    then show ?thesis using False by (simp add: pinned_def)
  qed
  then show "pinned t = (if dirty q then insert n (pinned s) else pinned s - {n})" by blast
  have "m \<in> locked_blocks t \<longleftrightarrow> m \<in> (if locked_buf t b then insert n (locked_blocks s) else locked_blocks s - {n})" for m
  proof (cases "m = n")
    case True then show ?thesis using n by (auto simp: locked_blocks_def)
  next
    case False
    then have "block_of t j m \<and> locked_buf t j \<longleftrightarrow> block_of s j m \<and> locked_buf s j" for j
      using g lk by (intro m) (auto simp: gives_up_def)
    then show ?thesis using False by (simp add: locked_blocks_def)
  qed
  then show "locked_blocks t = (if locked_buf t b then insert n (locked_blocks s) else locked_blocks s - {n})" by blast
qed

text \<open>What a step of the cache does to the abstract state.\<close>

definition acts ::
  "'a bst_scheme \<Rightarrow> 'a bst_scheme \<Rightarrow> (u32 \<Rightarrow> block) \<Rightarrow> (u32 \<Rightarrow> block) \<Rightarrow> u32 set \<Rightarrow> u32 set \<Rightarrow> bool" where
  "acts s t v d p l \<longleftrightarrow> bio_step s t \<and> cache_ok t \<and> view t = v \<and> disk t = d \<and> pinned t = p
     \<and> locked_blocks t = l \<and> (\<forall>b n. owns s b n \<and> n \<in> l \<longrightarrow> owns t b n)"

lemma actsD:
  assumes "acts s t v d p l"
  shows "bio_step s t" "cache_ok t" "view t = v" "disk t = d" "pinned t = p" "locked_blocks t = l"
    "owns s b n \<Longrightarrow> n \<in> l \<Longrightarrow> owns t b n"
  using assms by (auto simp: acts_def)

lemma acts_trans:
  assumes "acts s t v d p l" "acts t u v' d' p' l'" "l' \<subseteq> l"
  shows "acts s u v' d' p' l'"
  using assms bio_step_trans [of s t u] unfolding acts_def by blast

lemma acts_one:
  assumes ok: "cache_ok s" "cache_ok t" and o: "one_buf s b q t" and st: "bio_step s t"
    and b: "b_dev q = 1" "b_blockno q = n" and g: "gives_up s b n" and v: "valid q"
    and d: "\<And>m. m \<noteq> n \<Longrightarrow> disk t m = disk s m"
    and clean: "\<And>m. block_of s b m \<Longrightarrow> m \<noteq> n \<Longrightarrow> view s m = disk s m"
  shows "acts s t ((view s)(n := b_data q)) (disk t) (if dirty q then insert n (pinned s) else pinned s - {n})
     (if locked_buf t b then insert n (locked_blocks s) else locked_blocks s - {n})"
proof -
  note blk = one_buf_block [OF o] and bf = one_buf_bufs [OF o]
  have b': "block_of t b n" using b blk by simp
  have lk: "locked_buf t j = locked_buf s j" if "j \<noteq> b" for j using o that by (simp add: one_buf_def)
  have "view t m = ((view s)(n := b_data q)) m" for m
  proof (cases "m = n")
    case True then show ?thesis using view_buf [OF ok(2) b'] v bf by simp
  next
    case ne: False
    show ?thesis
    proof (cases "block_of s b m")
      case True
      have "\<not> block_of t j m" for j
        using cache_okD(2) [OF ok(1) True, of j] blk [of j m] ne b by (cases "j = b") auto
      then have "view t m = disk t m" by (intro view_disk) blast
      then show ?thesis using ne d clean True by simp
    next
      case False
      then show ?thesis using view_other [OF o False _ d] ne b by simp
    qed
  qed
  moreover have "owns t j m"
    if "owns s j m" "m \<in> (if locked_buf t b then insert n (locked_blocks s) else locked_blocks s - {n})" for j m
  proof (cases "j = b")
    case True
    then have "m = n" using that(1) g by (auto simp: owns_def gives_up_def)
    then show ?thesis using True b' v bf that(2) by (auto simp: owns_def split: if_splits)
  next
    case False then show ?thesis using that(1) blk bf lk by (simp add: owns_def)
  qed
  ultimately show ?thesis
    using one_buf_sets [OF o ok(2) b' g] st ok(2) unfolding acts_def by blast
qed

section \<open>The specification of bread\<close>

lemma one_with_buf: "b < NBUF \<Longrightarrow> one_buf s b q (with_buf i b q s)"
  by (simp add: one_buf_def with_buf_def locked_buf_def)

lemma locked_with_buf [simp]: "locked_buf (with_buf i b q s) b"
  by (simp add: with_buf_def locked_buf_def)

lemma bio_step_with_buf: "bio_step s (with_buf i b q s)"
  unfolding with_buf_def
  by (rule bio_stepI [where h = "rested (hw s)" and P = "procs s" and D = "disk s" and B = "(bufs s)(b := q)"
        and L = "(sleeplocks s)(SL_buf b := \<lparr>sl_locked = 1, sl_pid = p_pid (procs s i)\<rparr>)"]) simp_all

lemma bring_one:
  assumes "one_buf s b q t" "b_next q = b_next (bufs s b)" "b_prev q = b_prev (bufs s b)" "cache_ok s"
  shows "\<exists>xs. bring t xs"
proof -
  have "nextf t = nextf s" "prevf t = prevf s"
    using assms(1-3) by (auto simp: one_buf_def nextf_def prevf_def)
  then show ?thesis using cache_okD(1) [OF assms(4)] by (simp add: bring_def)
qed

lemma pinned_at: "cache_ok s \<Longrightarrow> block_of s b n \<Longrightarrow> n \<in> pinned s \<longleftrightarrow> dirty (bufs s b)"
  unfolding pinned_def using cache_okD(2) [of s b n] by blast

lemma acts_fetched:
  assumes ok: "cache_ok s" and f: "fetched s n b q"
  shows "acts s (with_buf i b q s) (view s) (disk s) (pinned s) (insert n (locked_blocks s))"
    and "owns (with_buf i b q s) b n"
proof -
  let ?t = "with_buf i b q s"
  have q: "b < NBUF" "b_dev q = 1" "b_blockno q = n" "b_refcnt q = 1" "valid q" "b_data q = view s n"
    "b_next q = b_next (bufs s b)" "b_prev q = b_prev (bufs s b)"
    using f by (auto simp: fetched_def)
  note o = one_with_buf [OF q(1), of s q i]
  have free: "\<not> dirty (bufs s b) \<and> \<not> locked_buf s b \<and> \<not> dirty q" if "\<not> block_of s b n"
    using f that cache_okD(3) [OF ok q(1)] by (auto simp: fetched_def unused_eq split: if_splits)
  have uniq: "\<not> block_of s j n" if "j \<noteq> b" for j
    using f cache_okD(2) [OF ok, of j n b] that by (auto simp: fetched_def split: if_splits)
  have dsk: "disk ?t = disk s" by (simp add: with_buf_def)
  have ok': "cache_ok ?t"
    using q uniq cache_okD(8) [OF ok] length_view [OF ok]
    by (intro cache_ok_one [OF ok o bring_one [OF o q(7,8) ok]]) (auto simp: dsk)
  have g: "gives_up s b n" using free by (auto simp: gives_up_def block_of_def)
  have clean: "view s m = disk s m" if "block_of s b m" "m \<noteq> n" for m
  proof (cases "valid (bufs s b)")
    case True
    moreover have "\<not> block_of s b n" using that by (auto simp: block_of_def)
    ultimately show ?thesis using free view_buf [OF ok that(1)] cache_okD(6) [OF ok that(1)] by simp
  next
    case False
    then show ?thesis using that(1) cache_okD(2) [OF ok that(1)] by (intro view_disk) blast
  qed
  have p: "(if dirty q then insert n (pinned s) else pinned s - {n}) = pinned s"
  proof (cases "block_of s b n")
    case True
    then have "dirty q = dirty (bufs s b)" using f by (simp add: fetched_def)
    moreover have "n \<in> pinned s \<longleftrightarrow> dirty (bufs s b)"
      by (rule pinned_at [OF ok True])
    ultimately show ?thesis by auto
  next
    case False
    then have "\<not> block_of s j n" for j using uniq [of j] by blast
    then have "n \<notin> pinned s" by (simp add: pinned_def)
    then show ?thesis using free [OF False] by simp
  qed
  show "acts s ?t (view s) (disk s) (pinned s) (insert n (locked_blocks s))"
    using acts_one [OF ok ok' o bio_step_with_buf q(2,3) g q(5) _ clean] q(6) p dsk by simp
  show "owns ?t b n"
    using one_buf_block [OF o, of b n] one_buf_bufs [OF o, of b] q by (simp add: owns_def)
qed

lemma bread_spec:
  assumes "idle s i" "cache_ok s" "n < disksize s" "n \<notin> locked_blocks s"
    and "n \<in> pinned s \<or> card (pinned s \<union> locked_blocks s) < NBUF"
  obtains b t where "bread 1 n s = Inr (b, t)" "owns t b n"
    "acts s t (view s) (disk s) (pinned s) (insert n (locked_blocks s))"
proof -
  have "finite (pinned s \<union> locked_blocks s)" by simp
  then have "(\<exists>b. block_of s b n) \<or> (\<exists>b<NBUF. unused (bufs s b))"
    using assms(5) unused_exists [OF assms(2) _ order_refl] by (auto simp: pinned_def)
  then obtain b q where "bread 1 n s = Inr (b, with_buf i b q s)" "fetched s n b q"
    using bread_fetched [OF assms(1-4)] by blast
  then show thesis using that acts_fetched [OF assms(2)] by blast
qed

section \<open>Changing, writing, pinning and releasing a locked buffer\<close>

lemma one_upd_buf: "b < NBUF \<Longrightarrow> one_buf s b (f (bufs s b)) (upd_buf b f s)"
  by (simp add: one_buf_def upd_buf_def locked_buf_def)

lemma bio_step_upd_buf: "bio_step s (upd_buf b f s)"
  unfolding upd_buf_def
  by (rule bio_stepI [where h = "hw s" and P = "procs s" and D = "disk s" and B = "(bufs s)(b := f (bufs s b))"
        and L = "sleeplocks s"]) simp_all

lemma ownsD:
  assumes "cache_ok s" "owns s b n"
  shows "b < NBUF" "block_of s b n" "b_dev (bufs s b) = 1" "b_blockno (bufs s b) = n" "b_refcnt (bufs s b) = 1"
    "valid (bufs s b)" "locked_buf s b" "n \<in> locked_blocks s" "gives_up s b n"
    "m \<noteq> n \<Longrightarrow> \<not> block_of s b m" "j \<noteq> b \<Longrightarrow> \<not> block_of s j n"
  using assms(2) cache_okD(3) [OF assms(1), of b] cache_okD(2) [OF assms(1), of j n b]
  by (auto simp: owns_def locked_blocks_def gives_up_def block_of_def)

lemma pinned_owned:
  assumes "cache_ok s" "owns s b n"
  shows "n \<in> pinned s \<longleftrightarrow> dirty (bufs s b)"
  by (rule pinned_at [OF assms(1) ownsD(2) [OF assms]])

text \<open>A locked buffer may get other contents and other flags, as long as it stays valid.\<close>

lemma acts_owned:
  assumes ok: "cache_ok s" and ow: "owns s b n" and o: "one_buf s b q t" and st: "bio_step s t"
    and q: "b_dev q = 1" "b_blockno q = n" "b_refcnt q = 1" "valid q" "length (b_data q) = BSIZE"
      "b_next q = b_next (bufs s b)" "b_prev q = b_prev (bufs s b)"
    and l: "locked_buf t b" and d: "\<And>m. m \<noteq> n \<Longrightarrow> disk t m = disk s m" "length (disk t n) = BSIZE"
  shows "acts s t ((view s)(n := b_data q)) (disk t)
    (if dirty q then insert n (pinned s) else pinned s - {n}) (locked_blocks s)"
proof -
  note b = ownsD [OF ok ow]
  have ok': "cache_ok t"
  proof (rule cache_ok_one [OF ok o bring_one [OF o q(6,7) ok]])
    show "length (disk t m) = BSIZE" for m using d cache_okD(8) [OF ok, of m] by (cases "m = n") auto
    show "disk t m = disk s m" if "j \<noteq> b" "block_of s j m" for j m
      using that b(11) d(1) by (cases "m = n") auto
  qed (use q l b(11) in auto)
  show ?thesis
    using acts_one [OF ok ok' o st q(1,2) b(9) q(4) d(1)] b(8,10) l by (simp add: insert_absorb)
qed

lemma set_data_spec:
  assumes "cache_ok s" "owns s b n" "length d = BSIZE"
  shows "acts s (upd_buf b (\<lambda>q. q\<lparr>b_data := d\<rparr>) s) ((view s)(n := d)) (disk s) (pinned s) (locked_blocks s)"
    and "owns (upd_buf b (\<lambda>q. q\<lparr>b_data := d\<rparr>) s) b n"
proof -
  let ?t = "upd_buf b (\<lambda>q. q\<lparr>b_data := d\<rparr>) s"
  note b = ownsD [OF assms(1,2)]
  have "acts s ?t ((view s)(n := d)) (disk ?t) (if dirty (bufs s b) then insert n (pinned s) else pinned s - {n}) (locked_blocks s)"
    using acts_owned [OF assms(1,2) one_upd_buf [OF b(1), of s "\<lambda>q. q\<lparr>b_data := d\<rparr>"] bio_step_upd_buf]
      b assms(3) cache_okD(8) [OF assms(1), of n] by (simp add: upd_buf_def locked_buf_def)
  moreover have "(if dirty (bufs s b) then insert n (pinned s) else pinned s - {n}) = pinned s"
    using pinned_owned [OF assms(1,2)] by auto
  moreover have "disk ?t = disk s" by (simp add: upd_buf_def)
  ultimately show a: "acts s ?t ((view s)(n := d)) (disk s) (pinned s) (locked_blocks s)" by simp
  show "owns ?t b n" by (rule actsD(7) [OF a assms(2) b(8)])
qed

lemma pin_spec:
  assumes "cache_ok s" "owns s b n"
  shows "acts s (upd_buf b (\<lambda>q. q\<lparr>b_flags := b_flags q OR B_DIRTY\<rparr>) s) (view s) (disk s) (insert n (pinned s)) (locked_blocks s)"
    and "owns (upd_buf b (\<lambda>q. q\<lparr>b_flags := b_flags q OR B_DIRTY\<rparr>) s) b n"
proof -
  let ?t = "upd_buf b (\<lambda>q. q\<lparr>b_flags := b_flags q OR B_DIRTY\<rparr>) s"
  note b = ownsD [OF assms]
  have vd: "valid (q\<lparr>b_flags := f OR B_DIRTY\<rparr>) = bit f 1" "dirty (q\<lparr>b_flags := f OR B_DIRTY\<rparr>)" for q f
    by (simp_all add: valid_bit dirty_bit bit_simps)
  have "acts s ?t ((view s)(n := b_data (bufs s b))) (disk ?t) (insert n (pinned s)) (locked_blocks s)"
    using acts_owned [OF assms one_upd_buf [OF b(1), of s "\<lambda>q. q\<lparr>b_flags := b_flags q OR B_DIRTY\<rparr>"] bio_step_upd_buf]
      b b(6) [unfolded valid_bit] cache_okD(7,8) [OF assms(1)] by (simp add: upd_buf_def locked_buf_def vd)
  moreover have "disk ?t = disk s" by (simp add: upd_buf_def)
  ultimately show a: "acts s ?t (view s) (disk s) (insert n (pinned s)) (locked_blocks s)"
    using owns_data [OF assms] by simp
  show "owns ?t b n" by (rule actsD(7) [OF a assms(2) b(8)])
qed

lemma bwrite_eq:
  assumes "idle s i" "cache_ok s" "owns s b n" "n < disksize s"
  shows "bwrite b s = Inr (s\<lparr>hw := rested (hw s), disk := (disk s)(n := b_data (bufs s b)),
     bufs := (bufs s)(b := (bufs s b)\<lparr>b_flags := (b_flags (bufs s b) OR B_DIRTY) AND NOT B_DIRTY OR B_VALID\<rparr>)\<rparr>)"
proof -
  let ?t = "upd_buf b (\<lambda>q. q\<lparr>b_flags := b_flags q OR B_DIRTY\<rparr>) (s\<lparr>hw := rested (hw s)\<rparr>)"
  note b = ownsD [OF assms(2,3)]
  have h: "holdingsleep (SL_buf b) s = Inr (True, s\<lparr>hw := rested (hw s)\<rparr>)"
    using assms(1) b(7) by (subst holdingsleep_eq) (auto simp: idle_def locked_buf_def)
  have i: "idle ?t i" using idle_rested [OF assms(1)] by (simp add: idle_def upd_buf_def)
  have d: "dirty (bufs ?t b)" by (simp add: upd_buf_def dirty_bit bit_simps)
  have "iderw b ?t = Inr (?t\<lparr>hw := rested (hw ?t), disk := (disk ?t)(b_blockno (bufs ?t b) := b_data (bufs ?t b)),
        bufs := (bufs ?t)(b := (bufs ?t b)\<lparr>b_flags := b_flags (bufs ?t b) AND NOT B_DIRTY OR B_VALID\<rparr>)\<rparr>)"
    by (subst iderw_eq [OF i]) (use d b assms(4) in \<open>simp_all add: upd_buf_def locked_buf_def\<close>)
  then show ?thesis unfolding bwrite_def h bnd_simps prod.case using b(4) by (simp add: upd_buf_def)
qed

lemma bwrite_spec:
  assumes "idle s i" "cache_ok s" "owns s b n" "n < disksize s"
  obtains t where "bwrite b s = Inr t" "owns t b n"
    "acts s t (view s) ((disk s)(n := view s n)) (pinned s - {n}) (locked_blocks s)"
proof -
  let ?q = "(bufs s b)\<lparr>b_flags := (b_flags (bufs s b) OR B_DIRTY) AND NOT B_DIRTY OR B_VALID\<rparr>"
  let ?d = "(disk s)(n := b_data (bufs s b))"
  let ?t = "s\<lparr>hw := rested (hw s), disk := ?d, bufs := (bufs s)(b := ?q)\<rparr>"
  note b = ownsD [OF assms(2,3)]
  have o: "one_buf s b ?q ?t" using b(1) by (simp add: one_buf_def locked_buf_def)
  have st: "bio_step s ?t"
    by (rule bio_stepI [where h = "rested (hw s)" and P = "procs s" and D = ?d and B = "(bufs s)(b := ?q)"
        and L = "sleeplocks s"]) simp_all
  have q: "valid ?q" "\<not> dirty ?q" by (simp_all add: valid_bit dirty_bit bit_simps)
  have l: "length (b_data (bufs s b)) = BSIZE" using cache_okD(7) [OF assms(2) b(1)] .
  have "acts s ?t ((view s)(n := b_data (bufs s b))) ?d (pinned s - {n}) (locked_blocks s)"
    using acts_owned [OF assms(2,3) o st] b l q by (simp add: locked_buf_def)
  then have a: "acts s ?t (view s) ((disk s)(n := view s n)) (pinned s - {n}) (locked_blocks s)"
    using owns_data [OF assms(2,3)] by simp
  show thesis
    by (rule that [OF bwrite_eq [OF assms] actsD(7) [OF a assms(3) b(8)] a])
qed

lemma upd_buf_hw: "upd_buf a f (s\<lparr>hw := h\<rparr>) = (upd_buf a f s)\<lparr>hw := h\<rparr>"
  by (cases s) (simp add: upd_buf_def)

lemma brelse_front_hw: "brelse_front b (s\<lparr>hw := h\<rparr>) = (brelse_front b s)\<lparr>hw := h\<rparr>"
  by (simp add: brelse_front_def upd_buf_hw Let_def)

text \<open>\<^verbatim>\<open>brelse\<close> unlocks the buffer and moves it to the front of the list.\<close>

lemma brelse_eq:
  assumes "idle s i" "cache_ok s" "owns s b n"
  shows "brelse b s = Inr (brelse_front b (s\<lparr>hw := rested (hw s),
     sleeplocks := (sleeplocks s)(SL_buf b := \<lparr>sl_locked = 0, sl_pid = 0\<rparr>),
     procs := woken (Some (C_sleep (SL_buf b))) (procs s),
     bufs := (bufs s)(b := (bufs s b)\<lparr>b_refcnt := 0\<rparr>)\<rparr>))"
proof -
  note b = ownsD [OF assms(2,3)]
  let ?r = "s\<lparr>hw := rested (hw s)\<rparr>"
  let ?u = "s\<lparr>hw := rested (hw s), sleeplocks := (sleeplocks s)(SL_buf b := \<lparr>sl_locked = 0, sl_pid = 0\<rparr>),
     procs := woken (Some (C_sleep (SL_buf b))) (procs s)\<rparr>"
  have i: "cpu_ok (hw s)" "free_lock (hw s) lk" for lk using assms(1) by (auto simp: idle_def)
  have i': "cpu_ok (hw ?r)" "free_lock (hw ?r) lk" for lk using idle_rested [OF assms(1)] by (auto simp: idle_def)
  have h: "holdingsleep (SL_buf b) s = Inr (True, ?r)"
    using i b(7) by (simp add: holdingsleep_eq locked_buf_def)
  have rs: "releasesleep (SL_buf b) ?r = Inr ?u" using releasesleep_eq [OF i' i'(2)] by simp
  let ?v = "?u\<lparr>hw := took L_bcache (rested (hw s))\<rparr>"
  let ?w = "upd_buf b (\<lambda>q. q\<lparr>b_refcnt := b_refcnt q - 1\<rparr>) ?v"
  have aq: "acquire L_bcache ?u = Inr ?v" using i' by (subst acquire_eq) simp_all
  have "hw (brelse_front b ?w) = took L_bcache (hw ?r)"
    by (subst brelse_front_frame) (simp add: upd_buf_def)
  then have rl: "release L_bcache (brelse_front b ?w) = Inr ((brelse_front b ?w)\<lparr>hw := rested (hw ?r)\<rparr>)"
    by (rule release_took [OF i'])
  have r0: "b_refcnt (bufs ?w b) = 0" using b(5) by (simp add: upd_buf_def)
  have "brelse b s = Inr (brelse_front b (?w\<lparr>hw := rested (hw ?r)\<rparr>))"
    unfolding brelse_def h bnd_simps prod.case rs aq Let_def if_P [OF r0] brelse_front_hw
    using rl by simp
  also have "?w\<lparr>hw := rested (hw ?r)\<rparr> = ?u\<lparr>bufs := (bufs s)(b := (bufs s b)\<lparr>b_refcnt := 0\<rparr>)\<rparr>"
    using b(5) by (cases s) (simp add: upd_buf_def)
  finally show ?thesis by simp
qed

lemma brelse_front_bring:
  assumes "cache_ok s" "b < NBUF" "\<And>j. b_next (bufs t j) = b_next (bufs s j)" "\<And>j. b_prev (bufs t j) = b_prev (bufs s j)"
  shows "bring (brelse_front b t) (to_front b (mru s))"
proof -
  obtain xs where "bring s xs" using cache_okD(1) [OF assms(1)] by blast
  then have "bring t xs" "mru s = xs" using bring_cong [OF assms(3,4)] bring_mru by auto
  then show ?thesis using brelse_front_ring assms(2) by simp
qed

lemma acts_moved:
  assumes "cache_ok s" "b < NBUF"
  shows "acts s (brelse_front b s) (view s) (disk s) (pinned s) (locked_blocks s)"
proof -
  let ?t = "brelse_front b s"
  note k = brelse_front_keeps [of b s]
  have f: "disk ?t = disk s" "sleeplocks ?t = sleeplocks s"
    by (subst brelse_front_frame, simp)+
  have e: "block_of ?t = block_of s" "locked_buf ?t = locked_buf s" "\<And>j. valid (bufs ?t j) = valid (bufs s j)"
    "\<And>j. dirty (bufs ?t j) = dirty (bufs s j)"
    by (auto simp: fun_eq_iff block_of_def locked_buf_def valid_def dirty_def k f)
  have "bring ?t (to_front b (mru s))" by (rule brelse_front_bring [OF assms]) simp_all
  then have "cache_ok ?t" using cache_okD [OF assms(1)] unfolding cache_ok_def by (simp add: e f k) blast
  moreover have "view ?t = view s" by (simp add: fun_eq_iff view_def e f k split: option.split)
  moreover have "bio_step s ?t"
    by (subst brelse_front_frame, rule bio_stepI [where h = "hw s" and P = "procs s" and D = "disk s"
          and B = "bufs ?t" and L = "sleeplocks s"]) simp_all
  ultimately show ?thesis by (simp add: acts_def pinned_def locked_blocks_def owns_def e f)
qed

lemma brelse_spec:
  assumes "idle s i" "cache_ok s" "owns s b n" and c: "n \<in> pinned s \<or> view s n = disk s n"
  obtains t where "brelse b s = Inr t" "mru t = to_front b (mru s)"
    "acts s t (view s) (disk s) (pinned s) (locked_blocks s - {n})"
proof -
  note b = ownsD [OF assms(2,3)]
  let ?L = "(sleeplocks s)(SL_buf b := \<lparr>sl_locked = 0, sl_pid = 0\<rparr>)"
  let ?P = "woken (Some (C_sleep (SL_buf b))) (procs s)"
  let ?q = "(bufs s b)\<lparr>b_refcnt := 0\<rparr>"
  let ?t = "s\<lparr>hw := rested (hw s), sleeplocks := ?L, procs := ?P, bufs := (bufs s)(b := ?q)\<rparr>"
  let ?u = "brelse_front b ?t"
  have o: "one_buf s b ?q ?t" using b(1) by (simp add: one_buf_def locked_buf_def)
  have st: "bio_step s ?t"
    by (rule bio_stepI [where h = "rested (hw s)" and P = ?P and D = "disk s" and B = "(bufs s)(b := ?q)"
        and L = ?L]) (simp_all add: wakes_woken)
  have l: "\<not> locked_buf ?t b" by (simp add: locked_buf_def)
  have d: "b_data (bufs s b) = disk s n" if "\<not> dirty (bufs s b)"
    using c that pinned_owned [OF assms(2,3)] owns_data [OF assms(2,3)] by simp
  have ok: "cache_ok ?t"
    by (rule cache_ok_one [OF assms(2) o bring_one [OF o _ _ assms(2)]])
      (use b d l cache_okD(7,8) [OF assms(2)] in auto)
  have "acts s ?t ((view s)(n := b_data (bufs s b))) (disk s) (pinned s) (locked_blocks s - {n})"
    using acts_one [OF assms(2) ok o st _ _ b(9)] b l pinned_owned [OF assms(2,3)]
    by (auto simp: insert_absorb split: if_splits)
  then have a: "acts s ?t (view s) (disk s) (pinned s) (locked_blocks s - {n})"
    using owns_data [OF assms(2,3)] by simp
  have "acts ?t ?u (view ?t) (disk ?t) (pinned ?t) (locked_blocks ?t)" by (rule acts_moved [OF ok b(1)])
  then have "acts s ?u (view s) (disk s) (pinned s) (locked_blocks s - {n})"
    using acts_trans [OF a] actsD(3-6) [OF a] by simp
  moreover have "mru ?u = to_front b (mru s)"
    by (rule bring_mru, rule brelse_front_bring [OF assms(2) b(1)]) simp_all
  ultimately show thesis using that brelse_eq [OF assms(1-3)] by blast
qed

section \<open>The empty cache\<close>

text \<open>The buffers as they are at boot, all zero.\<close>

definition blank :: "'a bst_scheme \<Rightarrow> bool" where
  "blank s \<longleftrightarrow> (\<forall>b<NBUF. b_flags (bufs s b) = 0 \<and> b_dev (bufs s b) = 0 \<and> b_refcnt (bufs s b) = 0
      \<and> length (b_data (bufs s b)) = BSIZE) \<and> (\<forall>n. length (disk s n) = BSIZE)"

definition unlinked :: "buf \<Rightarrow> u32 \<times> u32 \<times> u32 \<times> u32 \<times> block" where
  "unlinked q = (b_flags q, b_dev q, b_blockno q, b_refcnt q, b_data q)"

lemma nextf_initsleeplock [simp]:
  "nextf (initsleeplock lk s) = nextf s" "prevf (initsleeplock lk s) = prevf s"
  "bufs (initsleeplock lk s) = bufs s" "disk (initsleeplock lk s) = disk s"
  "sleeplocks (initsleeplock lk s) = (sleeplocks s)(lk := \<lparr>sl_locked = 0, sl_pid = 0\<rparr>)"
  by (simp_all add: nextf_def [abs_def] prevf_def [abs_def] initsleeplock_def initlock_def upd_lock_def upd_sleep_def Let_def)

lemma binit_one_pointers:
  assumes "b \<noteq> BHEAD"
  shows "nextf (binit_one b s) = (nextf s)(b := nextf s BHEAD, BHEAD := b)"
    and "prevf (binit_one b s) = (prevf s)(b := BHEAD, nextf s BHEAD := b)"
proof -
  define s1 where "s1 = upd_buf b (\<lambda>q. q\<lparr>b_next := nextf s BHEAD\<rparr>) s"
  define s2 where "s2 = initsleeplock (SL_buf b) (upd_buf b (\<lambda>q. q\<lparr>b_prev := BHEAD\<rparr>) s1)"
  define s3 where "s3 = upd_buf (nextf s2 BHEAD) (\<lambda>q. q\<lparr>b_prev := b\<rparr>) s2"
  have s4: "binit_one b s = upd_buf BHEAD (\<lambda>q. q\<lparr>b_next := b\<rparr>) s3"
    by (simp only: binit_one_def s1_def s2_def s3_def nextf_def Let_def)
  have 2: "nextf s2 = (nextf s)(b := nextf s BHEAD)" "prevf s2 = (prevf s)(b := BHEAD)"
    by (simp_all add: s2_def s1_def)
  then have h: "nextf s2 BHEAD = nextf s BHEAD" using assms by simp
  show "nextf (binit_one b s) = (nextf s)(b := nextf s BHEAD, BHEAD := b)"
    by (simp add: s4 s3_def 2)
  show "prevf (binit_one b s) = (prevf s)(b := BHEAD, nextf s BHEAD := b)"
    by (simp add: s4 s3_def h) (simp add: 2)
qed

lemma unlinked_upd [simp]:
  "unlinked (bufs (upd_buf a (\<lambda>q. q\<lparr>b_next := v\<rparr>) s) x) = unlinked (bufs s x)"
  "unlinked (bufs (upd_buf a (\<lambda>q. q\<lparr>b_prev := v\<rparr>) s) x) = unlinked (bufs s x)"
  by (simp_all add: unlinked_def upd_pointer_keeps)

lemma upd_buf_frame [simp]:
  "disk (upd_buf a f s) = disk s" "sleeplocks (upd_buf a f s) = sleeplocks s"
  by (simp_all add: upd_buf_def)

lemma binit_one_keeps:
  "unlinked (bufs (binit_one b s) x) = unlinked (bufs s x)" "disk (binit_one b s) = disk s"
  "sleeplocks (binit_one b s) = (sleeplocks s)(SL_buf b := \<lparr>sl_locked = 0, sl_pid = 0\<rparr>)"
  by (simp_all add: binit_one_def Let_def)

lemma binit_loop:
  assumes "ring (nextf s) (prevf s) BHEAD []" "k \<le> NBUF"
  shows "let t = fold binit_one [0..<k] s in ring (nextf t) (prevf t) BHEAD (rev [0..<k])
     \<and> (\<forall>x. unlinked (bufs t x) = unlinked (bufs s x)) \<and> disk t = disk s
     \<and> (\<forall>b<k. sl_locked (sleeplocks t (SL_buf b)) = 0)"
  using assms(2)
proof (induction k)
  case 0 then show ?case using assms(1) by simp
next
  case (Suc k)
  let ?t = "fold binit_one [0..<k] s"
  have IH: "ring (nextf ?t) (prevf ?t) BHEAD (rev [0..<k])" "\<forall>x. unlinked (bufs ?t x) = unlinked (bufs s x)"
    "disk ?t = disk s" "\<forall>b<k. sl_locked (sleeplocks ?t (SL_buf b)) = 0"
    using Suc by (auto simp: Let_def)
  have k: "k \<noteq> BHEAD" "k \<notin> set (BHEAD # rev [0..<k])" using Suc.prems by (auto simp: BHEAD_def)
  have "fold binit_one [0..<Suc k] s = binit_one k ?t" by simp
  then show ?case
    using ring_insert [OF IH(1) k(2)] IH(2-4)
    by (simp add: binit_one_pointers [OF k(1)] binit_one_keeps Let_def less_Suc_eq)
qed

lemma binit_spec:
  assumes "blank s"
  shows "cache_ok (binit s)" "mru (binit s) = rev [0..<NBUF]" "disk (binit s) = disk s"
    "pinned (binit s) = {}" "locked_blocks (binit s) = {}" "view (binit s) = disk s"
proof -
  define s0 where "s0 = upd_buf BHEAD (\<lambda>q. q\<lparr>b_next := BHEAD\<rparr>) (upd_buf BHEAD (\<lambda>q. q\<lparr>b_prev := BHEAD\<rparr>) (initlock L_bcache s))"
  let ?t = "binit s"
  have t: "?t = fold binit_one [0..<NBUF] s0" by (simp add: binit_def s0_def Let_def)
  have "ring (nextf s0) (prevf s0) BHEAD []" by (simp add: s0_def ring_empty)
  from binit_loop [OF this order_refl]
  have r: "ring (nextf ?t) (prevf ?t) BHEAD (rev [0..<NBUF])"
    and "\<And>x. unlinked (bufs ?t x) = unlinked (bufs s0 x)" and d: "disk ?t = disk s0"
    and l: "\<And>b. b < NBUF \<Longrightarrow> \<not> locked_buf ?t b"
    by (simp_all add: t Let_def locked_buf_def)
  then have u: "unlinked (bufs ?t x) = unlinked (bufs s x)" for x by (simp add: s0_def initlock_def upd_lock_def)
  have ring: "bring ?t (rev [0..<NBUF])" using r by (auto simp: bring_def)
  then show "mru ?t = rev [0..<NBUF]" by (rule bring_mru)
  show d': "disk ?t = disk s" using d by (simp add: s0_def initlock_def upd_lock_def)
  have b: "b_flags (bufs ?t b) = 0" "b_dev (bufs ?t b) = 0" "b_refcnt (bufs ?t b) = 0"
    "length (b_data (bufs ?t b)) = BSIZE" if "b < NBUF" for b
    using assms u [of b] that by (simp_all add: blank_def unlinked_def)
  then have none: "\<not> block_of ?t b n" for b n by (auto simp: block_of_def)
  show "cache_ok ?t" unfolding cache_ok_def
    using ring b l none assms d' by (auto simp: dirty_def blank_def)
  show "pinned ?t = {}" "locked_blocks ?t = {}" using none by (auto simp: pinned_def locked_blocks_def)
  show "view ?t = disk s" using view_disk [of ?t] none d' by fastforce
qed

end
