(* ===== verification/Bio_Runs.thy ===== *)
theory Bio_Runs
  imports Bio_Cache
begin

text \<open>
  Runs of buffer operations, as the log and the file system use them: each rule takes the contents
  that readers see, the disk, the pinned blocks and the locked blocks before an operation to those
  after it.
\<close>

section \<open>States between operations\<close>

lemma hw_blocks:
  "view (s\<lparr>hw := h\<rparr>) = view s" "pinned (s\<lparr>hw := h\<rparr>) = pinned s" "locked_blocks (s\<lparr>hw := h\<rparr>) = locked_blocks s"
  "cache_ok (s\<lparr>hw := h\<rparr>) = cache_ok s" "owns (s\<lparr>hw := h\<rparr>) = owns s"
  by (simp_all add: fun_eq_iff view_def pinned_def locked_blocks_def cache_ok_def owns_def
      block_of_def locked_buf_def bring_def nextf_def [abs_def] prevf_def [abs_def] cong: option.case_cong)

lemma procs_blocks:
  "view (s\<lparr>procs := P\<rparr>) = view s" "pinned (s\<lparr>procs := P\<rparr>) = pinned s" "locked_blocks (s\<lparr>procs := P\<rparr>) = locked_blocks s"
  "cache_ok (s\<lparr>procs := P\<rparr>) = cache_ok s" "owns (s\<lparr>procs := P\<rparr>) = owns s"
  by (simp_all add: fun_eq_iff view_def pinned_def locked_blocks_def cache_ok_def owns_def
      block_of_def locked_buf_def bring_def nextf_def [abs_def] prevf_def [abs_def] cong: option.case_cong)

text \<open>A state between operations: no spin lock is held and no buffer is locked.\<close>

definition calm :: "'a bst_scheme \<Rightarrow> nat \<Rightarrow> bool" where
  "calm s i \<longleftrightarrow> idle s i \<and> cache_ok s \<and> locked_blocks s = {}"

lemma calmD: "calm s i \<Longrightarrow> idle s i" "calm s i \<Longrightarrow> cache_ok s" "calm s i \<Longrightarrow> locked_blocks s = {}"
  by (auto simp: calm_def)

lemma acts_calm: "acts s t v d p {} \<Longrightarrow> calm s i \<Longrightarrow> calm t i"
  using bio_step_idle [of s t i] by (auto simp: calm_def acts_def)

lemma calm_clean: "calm s i \<Longrightarrow> n \<in> pinned s \<or> view s n = disk s n"
  using view_clean [of s n] by (auto simp: calm_def)

section \<open>Runs of buffer operations\<close>

text \<open>
  \<open>reached s0 i s v d p l\<close>: buffer operations of process \<open>i\<close> led from \<open>s0\<close> to \<open>s\<close>, where the readers see
  \<open>v\<close>, the disk holds \<open>d\<close>, the blocks \<open>p\<close> are pinned and the blocks \<open>l\<close> are locked.
\<close>

definition reached ::
  "'a bst_scheme \<Rightarrow> nat \<Rightarrow> 'a bst_scheme \<Rightarrow> (u32 \<Rightarrow> block) \<Rightarrow> (u32 \<Rightarrow> block) \<Rightarrow> u32 set \<Rightarrow> u32 set \<Rightarrow> bool" where
  "reached s0 i s v d p l \<longleftrightarrow> bio_step s0 s \<and> idle s i \<and> cache_ok s \<and> view s = v \<and> disk s = d
     \<and> pinned s = p \<and> locked_blocks s = l"

lemma reachedD:
  assumes "reached s0 i s v d p l"
  shows "bio_step s0 s" "idle s i" "cache_ok s" "view s = v" "disk s = d" "pinned s = p" "locked_blocks s = l"
    "disksize s = disksize s0"
  using assms bio_step_same(1) by (auto simp: reached_def)

lemma reached_refl: "idle s i \<Longrightarrow> cache_ok s \<Longrightarrow> reached s i s (view s) (disk s) (pinned s) (locked_blocks s)"
  by (simp add: reached_def)

lemma reached_acts: "reached s0 i s v d p l \<Longrightarrow> acts s t v' d' p' l' \<Longrightarrow> reached s0 i t v' d' p' l'"
  using bio_step_trans [of s0 s t] bio_step_idle [of s t i] by (auto simp: reached_def acts_def)

lemma owns_locked: "owns s b n \<Longrightarrow> n \<in> locked_blocks s"
  by (auto simp: owns_def locked_blocks_def)

lemma bread_reached:
  assumes r: "reached s0 i s v d p l" and n: "n < disksize s0" "n \<notin> l" "n \<in> p \<or> card (p \<union> l) < NBUF"
  shows "\<exists>b t. bread 1 n s = Inr (b, t) \<and> reached s0 i t v d p (insert n l) \<and> owns t b n
     \<and> (\<forall>c m. owns s c m \<longrightarrow> owns t c m)"
proof -
  note s = reachedD [OF r]
  obtain b t where b: "bread 1 n s = Inr (b, t)" "owns t b n" and a: "acts s t v d p (insert n l)"
    using bread_spec [OF s(2,3), of n] n unfolding s(4-8) by blast
  have "owns t c m" if "owns s c m" for c m
    using actsD(7) [OF a that] owns_locked [OF that] s(7) by simp
  then show ?thesis using b reached_acts [OF r a] by blast
qed

lemma set_data_reached:
  assumes r: "reached s0 i s v d p l" and b: "owns s b n" "length x = BSIZE"
  shows "reached s0 i (upd_buf b (\<lambda>q. q\<lparr>b_data := x\<rparr>) s) (v(n := x)) d p l"
    and "owns s c m \<Longrightarrow> owns (upd_buf b (\<lambda>q. q\<lparr>b_data := x\<rparr>) s) c m"
proof -
  note s = reachedD [OF r]
  have a: "acts s (upd_buf b (\<lambda>q. q\<lparr>b_data := x\<rparr>) s) (v(n := x)) d p l"
    using set_data_spec(1) [OF s(3) b] unfolding s(4-7) .
  show "reached s0 i (upd_buf b (\<lambda>q. q\<lparr>b_data := x\<rparr>) s) (v(n := x)) d p l" by (rule reached_acts [OF r a])
  show "owns (upd_buf b (\<lambda>q. q\<lparr>b_data := x\<rparr>) s) c m" if "owns s c m"
    using actsD(7) [OF a that] owns_locked [OF that] s(7) by simp
qed

lemma bwrite_reached:
  assumes r: "reached s0 i s v d p l" and b: "owns s b n" "n < disksize s0"
  shows "\<exists>t. bwrite b s = Inr t \<and> reached s0 i t v (d(n := v n)) (p - {n}) l \<and> (\<forall>c m. owns s c m \<longrightarrow> owns t c m)"
proof -
  note s = reachedD [OF r]
  obtain t where t: "bwrite b s = Inr t" and a: "acts s t v (d(n := v n)) (p - {n}) l"
    using bwrite_spec [OF s(2,3) b(1)] b(2) unfolding s(4-8) by blast
  have "owns t c m" if "owns s c m" for c m
    using actsD(7) [OF a that] owns_locked [OF that] s(7) by simp
  then show ?thesis using t reached_acts [OF r a] by blast
qed

lemma brelse_reached:
  assumes r: "reached s0 i s v d p l" and b: "owns s b n" "n \<in> p \<or> v n = d n"
  shows "\<exists>t. brelse b s = Inr t \<and> reached s0 i t v d p (l - {n}) \<and> (\<forall>c m. owns s c m \<and> m \<noteq> n \<longrightarrow> owns t c m)"
proof -
  note s = reachedD [OF r]
  obtain t where t: "brelse b s = Inr t" and a: "acts s t v d p (l - {n})"
    using brelse_spec [OF s(2,3) b(1)] b(2) unfolding s(4-7) by blast
  have "owns t c m" if "owns s c m" "m \<noteq> n" for c m
    using actsD(7) [OF a that(1)] owns_locked [OF that(1)] s(7) that(2) by simp
  then show ?thesis using t reached_acts [OF r a] by blast
qed

lemma pin_reached:
  assumes r: "reached s0 i s v d p l" and b: "owns s b n"
  shows "reached s0 i (upd_buf b (\<lambda>q. q\<lparr>b_flags := b_flags q OR B_DIRTY\<rparr>) s) v d (insert n p) l"
    and "owns s c m \<Longrightarrow> owns (upd_buf b (\<lambda>q. q\<lparr>b_flags := b_flags q OR B_DIRTY\<rparr>) s) c m"
proof -
  note s = reachedD [OF r]
  have a: "acts s (upd_buf b (\<lambda>q. q\<lparr>b_flags := b_flags q OR B_DIRTY\<rparr>) s) v d (insert n p) l"
    using pin_spec(1) [OF s(3) b] unfolding s(4-7) .
  show "reached s0 i (upd_buf b (\<lambda>q. q\<lparr>b_flags := b_flags q OR B_DIRTY\<rparr>) s) v d (insert n p) l"
    by (rule reached_acts [OF r a])
  show "owns (upd_buf b (\<lambda>q. q\<lparr>b_flags := b_flags q OR B_DIRTY\<rparr>) s) c m" if "owns s c m"
    using actsD(7) [OF a that] owns_locked [OF that] s(7) by simp
qed

lemma reached_data: "reached s0 i s v d p l \<Longrightarrow> owns s b n \<Longrightarrow> b_data (bufs s b) = v n \<and> length (v n) = BSIZE"
  using owns_data [of s b n] length_view [of s n] by (auto simp: reached_def)

lemma reached_rested: "reached s0 i s v d p l \<Longrightarrow> reached s0 i (s\<lparr>hw := rested (hw s)\<rparr>) v d p l"
proof -
  assume r: "reached s0 i s v d p l"
  have b: "bio_step s (s\<lparr>hw := rested (hw s)\<rparr>)"
    by (rule bio_stepI [where h = "rested (hw s)" and P = "procs s" and L = "sleeplocks s" and B = "bufs s" and D = "disk s"]) simp_all
  have "acts s (s\<lparr>hw := rested (hw s)\<rparr>) (view s) (disk s) (pinned s) (locked_blocks s)"
    using b reachedD(3) [OF r] by (simp add: acts_def hw_blocks)
  then show ?thesis using reached_acts [OF r] reachedD(4-7) [OF r] by simp
qed


section \<open>A kernel with an empty cache\<close>

text \<open>A processor that runs process 0, another one idle, no lock held, zeroed buffers, over a disk of 1000 blocks.\<close>

definition lone_hw :: hardware where
  "lone_hw = two_cpus\<lparr>cpus := (\<lambda>c. (cpus two_cpus c)\<lparr>cpu_proc := if c = 0 then Some 0 else None\<rparr>)\<rparr>"

definition zeroed :: "(u32 \<Rightarrow> block) \<Rightarrow> 'a \<Rightarrow> 'a bst_scheme" where
  "zeroed d z = \<lparr>hw = lone_hw, mem = (\<lambda>_. 0), freelist = 0, use_lock = True, sym_end = 0x80100000,
     sym_data = 0x80101000, kpgdir = 0,
     procs = (\<lambda>_. no_proc)(0 := no_proc\<lparr>p_state := RUNNING, p_pid := 1\<rparr>), nextpid = 2, initproc = Some 0,
     sym_trapret = 0, sym_forkret = 0, sym_ts = (\<lambda>_. 0), sleeplocks = (\<lambda>_. \<lparr>sl_locked = 0, sl_pid = 0\<rparr>),
     bufs = (\<lambda>_. \<lparr>b_flags = 0, b_dev = 0, b_blockno = 0, b_refcnt = 0, b_prev = 0, b_next = 0, b_data = replicate BSIZE 0\<rparr>),
     disk = d, disksize = 1000, sym_img_size = 512000, \<dots> = z\<rparr>"

lemma idle_zeroed: "idle (zeroed d z) 0"
  by (simp add: idle_def zeroed_def lone_hw_def two_cpus_def cpu_ok_def this_cpu_def me_def free_lock_def
      intr_on_def upt_rec)

lemma idle_upd_buf [simp]: "idle (upd_buf b f s) i = idle s i"
  by (simp add: idle_def upd_buf_def)

lemma idle_initlock: "idle s i \<Longrightarrow> idle (initlock lk s) i"
  by (auto simp: idle_def initlock_def upd_lock_def free_lock_def cpu_ok_def this_cpu_def me_def intr_on_def)

lemma idle_initsleeplock: "idle s i \<Longrightarrow> idle (initsleeplock lk s) i"
  using idle_initlock [of s i "L_sleep lk"] by (simp add: initsleeplock_def upd_sleep_def idle_def Let_def)

lemma idle_binit_one: "idle s i \<Longrightarrow> idle (binit_one b s) i"
  by (simp add: binit_one_def Let_def idle_initsleeplock)

lemma idle_binit: "idle s i \<Longrightarrow> idle (binit s) i"
proof -
  assume "idle s i"
  then have "idle (initlock L_bcache s) i" by (rule idle_initlock)
  moreover have "idle t i \<Longrightarrow> idle (fold binit_one xs t) i" for xs and t :: "'a bst_scheme"
    by (induction xs arbitrary: t) (simp_all add: idle_binit_one)
  ultimately show ?thesis by (simp add: binit_def Let_def)
qed

lemma binit_one_frame: "disksize (binit_one b s) = disksize s" "bst.more (binit_one b s) = bst.more s"
  by (simp_all add: binit_one_def upd_buf_def initsleeplock_def initlock_def upd_sleep_def upd_lock_def Let_def)

lemma binit_frame: "disksize (binit s) = disksize s" "bst.more (binit s) = bst.more s"
proof -
  have "disksize (fold binit_one xs t) = disksize t \<and> bst.more (fold binit_one xs t) = bst.more t"
    for xs and t :: "'a bst_scheme"
    by (induction xs arbitrary: t) (simp_all add: binit_one_frame)
  then show "disksize (binit s) = disksize s" "bst.more (binit s) = bst.more s"
    by (simp_all add: binit_def upd_buf_def initlock_def upd_lock_def Let_def)
qed

lemma calm_binit: "idle s i \<Longrightarrow> blank s \<Longrightarrow> calm (binit s) i"
  by (simp add: calm_def binit_spec idle_binit)

lemma blank_zeroed: "(\<And>n. length (d n) = BSIZE) \<Longrightarrow> blank (zeroed d z)"
  by (simp add: blank_def zeroed_def)

section \<open>Properties of the buffer cache\<close>

lemma calm_disk:
  fixes z :: 'a
  assumes "\<And>n. length (d n) = BSIZE"
  obtains s :: "'a bst_scheme" where "calm s 0" "bst.more s = z" "disksize s = 1000"
    "view s = d" "disk s = d" "pinned s = {}" "mru s = rev [0..<NBUF]"
proof -
  have b: "blank (zeroed d z)" by (rule blank_zeroed) (rule assms)
  show thesis
    using that [of "binit (zeroed d z)"] calm_binit [OF idle_zeroed b] binit_spec [OF b]
    by (simp add: binit_frame) (simp add: zeroed_def)
qed

lemmas calm_zeroed = calm_disk [of "\<lambda>_. replicate BSIZE 0", OF length_replicate]

text \<open>
  C8: \<^verbatim>\<open>bread\<close> of a block that nobody holds, while a buffer is free for it, returns a locked buffer with
  the contents that the last writer left: those in the cache if the block is cached, those on disk
  otherwise. It keeps the invariant of the cache, the contents of all blocks, the disk and the
  pinned blocks; a buffer it recycles was not needed.
\<close>

theorem bread_reads_block:
  assumes "idle s i" "cache_ok s" "n < disksize s" "n \<notin> locked_blocks s"
    and "card (pinned s \<union> locked_blocks s) < NBUF"
  shows "\<exists>b t. bread 1 n s = Inr (b, t) \<and> owns t b n \<and> b_data (bufs t b) = view s n \<and> idle t i \<and> cache_ok t
    \<and> view t = view s \<and> disk t = disk s \<and> pinned t = pinned s \<and> locked_blocks t = insert n (locked_blocks s)
    \<and> (\<forall>c m. owns s c m \<longrightarrow> owns t c m)"
proof -
  obtain b t where b: "bread 1 n s = Inr (b, t)" "owns t b n" "\<forall>c m. owns s c m \<longrightarrow> owns t c m"
    and r: "reached s i t (view s) (disk s) (pinned s) (insert n (locked_blocks s))"
    using bread_reached [OF reached_refl [OF assms(1,2)] assms(3,4)] assms(5) by blast
  then show ?thesis using reachedD [OF r] reached_data [OF r b(2)] by blast
qed

theorem bread_reads_block_witness:
  "\<exists>(s::bst) b t. bread 1 7 s = Inr (b, t) \<and> b_data (bufs t b) = replicate BSIZE 0 \<and> locked_blocks t = {7}"
proof -
  obtain s :: bst where s: "calm s 0" "view s = (\<lambda>_. replicate BSIZE 0)" "pinned s = {}" "disksize s = 1000"
    using calm_zeroed by metis
  then have "7 < disksize s" by simp
  moreover have "card (pinned s \<union> locked_blocks s) < NBUF" using s by (simp add: calm_def NBUF_def MAXOPBLOCKS_def)
  ultimately show ?thesis
    using bread_reads_block [of s 0 7] calmD [OF s(1)] s(2) by fastforce
qed



end
