(* ===== verification/Log_Disk.thy ===== *)
theory Log_Disk
  imports Log Bio_Runs
begin

text \<open>
  The steps of the log (\<^verbatim>\<open>log.c\<close>) by their effect on the disk: copying blocks to the log, writing the
  header, installing the blocks at home and clearing the header, with and without a crash before.
  \<open>log_abs\<close> reads from a disk the file system blocks the disk stands for: a block that the header lists
  has the contents of its log block, every other block is in its place.
\<close>

section \<open>Copying a block through the cache\<close>

lemma bio_step_log: "bio_step s t \<Longrightarrow> log t = log s" for s :: "'a lst_scheme"
  by (auto simp: bio_step_def)

text \<open>The end of both copy loops: the buffers of \<open>a\<close> and \<open>b\<close> are locked, \<open>b\<close> gets the contents of \<open>a\<close>.\<close>

lemma copy_tail:
  assumes r: "reached s0 i s v d p {a, b}" and o: "owns s x a" "owns s y b" and ne: "a \<noteq> b"
    and b: "b < disksize s0" and c: "a \<in> p \<or> v a = d a"
  shows "\<exists>t. bnd (bwrite y (upd_buf y (\<lambda>q. q\<lparr>b_data := b_data (bufs s x)\<rparr>) s))
        (\<lambda>s. bnd (brelse x s) (brelse y)) = Inr t \<and> reached s0 i t (v(b := v a)) (d(b := v a)) (p - {b}) {}"
proof -
  let ?s = "upd_buf y (\<lambda>q. q\<lparr>b_data := b_data (bufs s x)\<rparr>) s"
  have x: "b_data (bufs s x) = v a" "length (b_data (bufs s x)) = BSIZE"
    using reached_data [OF r o(1)] by auto
  have r1: "reached s0 i ?s (v(b := v a)) d p {a, b}" and o1: "owns ?s x a" "owns ?s y b"
    using set_data_reached [OF r o(2) x(2)] o by (auto simp: x)
  obtain s2 where w: "bwrite y ?s = Inr s2" and r2: "reached s0 i s2 (v(b := v a)) (d(b := v a)) (p - {b}) {a, b}"
    and o2: "owns s2 x a" "owns s2 y b"
    using bwrite_reached [OF r1 o1(2) b] o1 by auto
  have "a \<in> p - {b} \<or> (v(b := v a)) a = (d(b := v a)) a" using c ne by auto
  then obtain s3 where e: "brelse x s2 = Inr s3" and r3: "reached s0 i s3 (v(b := v a)) (d(b := v a)) (p - {b}) {b}"
    and o3: "owns s3 y b"
    using brelse_reached [OF r2 o2(1)] o2(2) ne by (auto simp: insert_Diff_if)
  obtain t where "brelse y s3 = Inr t" "reached s0 i t (v(b := v a)) (d(b := v a)) (p - {b}) {}"
    using brelse_reached [OF r3 o3] by auto
  then show ?thesis using w e by simp
qed

section \<open>The blocks of the log\<close>

definition slot :: "u32 \<Rightarrow> nat \<Rightarrow> u32" where
  "slot S k = S + of_nat k + 1"

definition region :: "u32 \<Rightarrow> u32 set" where
  "region S = {m. unat S \<le> unat m \<and> unat m \<le> unat S + LOGSIZE}"

text \<open>The log lies inside the disk.\<close>

definition log_fits :: "u32 \<Rightarrow> u32 \<Rightarrow> bool" where
  "log_fits S sz \<longleftrightarrow> unat S + LOGSIZE < unat sz"

lemma unat_log_slot: "log_fits S sz \<Longrightarrow> k < LOGSIZE \<Longrightarrow> unat (slot S k) = unat S + k + 1"
proof -
  assume a: "log_fits S sz" "k < LOGSIZE"
  have "unat sz < 2 ^ 32" using unsigned_less [of sz] by simp
  then have lt: "unat S + k + 1 < 2 ^ 32" using a by (simp add: log_fits_def)
  have e: "slot S k = of_nat (unat S + k + 1)" by (simp add: slot_def)
  show ?thesis unfolding e using lt by (subst unat_of_nat) (simp add: take_bit_nat_eq_self)
qed

lemma slot_facts:
  assumes "log_fits S sz" "k < LOGSIZE"
  shows "slot S k \<in> region S" "slot S k \<noteq> S" "slot S k < sz" "S \<in> region S" "S < sz"
    and "j < LOGSIZE \<Longrightarrow> slot S j = slot S k \<longleftrightarrow> j = k"
proof -
  note u = unat_log_slot [OF assms]
  show "slot S k \<in> region S" "S \<in> region S" using u assms by (auto simp: region_def)
  show "slot S k \<noteq> S" using u by auto
  show "slot S k < sz" "S < sz" using u assms by (simp_all add: log_fits_def word_less_nat_alt)
  show "slot S j = slot S k \<longleftrightarrow> j = k" if "j < LOGSIZE"
    using u unat_log_slot [OF assms(1) that] by auto
qed

lemma write_log_one_reached:
  assumes r: "reached s0 i s v d p {}" and fit: "log_fits (log_start (log s0)) (disksize s0)"
    and dev: "log_dev (log s0) = 1" and k: "k < LOGSIZE" and h: "lh_block (log s0) ! k = h"
    and home: "h \<notin> region (log_start (log s0))" "h < disksize s0" "h \<in> p"
    and p: "p \<inter> region (log_start (log s0)) = {}" "card p < NBUF"
  shows "\<exists>t. write_log_one k s = Inr t \<and>
    reached s0 i t (v(slot (log_start (log s0)) k := v h)) (d(slot (log_start (log s0)) k := v h)) p {}"
proof -
  let ?b = "slot (log_start (log s0)) k"
  note f = slot_facts [OF fit k]
  have b: "?b \<notin> p" "?b \<noteq> h" using f(1) p(1) home(1) by auto
  obtain y s1 where x: "bread 1 ?b s = Inr (y, s1)" and r1: "reached s0 i s1 v d p {?b}" and o: "owns s1 y ?b"
    using bread_reached [OF r f(3)] p(2) by auto
  obtain x s2 where y: "bread 1 h s1 = Inr (x, s2)" and r2: "reached s0 i s2 v d p {h, ?b}"
    and o2: "owns s2 x h" "owns s2 y ?b"
    using bread_reached [OF r1 home(2)] home(3) b o by auto
  have l: "log s = log s0" "log s1 = log s0"
    using bio_step_log reachedD(1) [OF r] reachedD(1) [OF r1] by blast+
  show ?thesis
    using copy_tail [OF r2 o2 b(2) [symmetric] f(3)] home(3) b(1) k
    unfolding write_log_one_def l dev slot_def [symmetric] x y h bnd_simps prod.case Let_def by auto
qed

lemma install_one_reached:
  assumes r: "reached s0 i s v d p {}" and fit: "log_fits (log_start (log s0)) (disksize s0)"
    and dev: "log_dev (log s0) = 1" and k: "k < LOGSIZE" and h: "lh_block (log s0) ! k = h"
    and home: "h \<notin> region (log_start (log s0))" "h < disksize s0" "h \<in> p \<or> card p + 1 < NBUF"
    and p: "p \<inter> region (log_start (log s0)) = {}" "card p < NBUF" and clean: "\<And>m. m \<in> p \<or> v m = d m"
  shows "\<exists>t. install_one k s = Inr t \<and> reached s0 i t (v(h := v (slot (log_start (log s0)) k)))
      (d(h := v (slot (log_start (log s0)) k))) (p - {h}) {}"
proof -
  let ?a = "slot (log_start (log s0)) k"
  note f = slot_facts [OF fit k]
  have a: "?a \<notin> p" "?a \<noteq> h" using f(1) p(1) home(1) by auto
  obtain x s1 where x: "bread 1 ?a s = Inr (x, s1)" and r1: "reached s0 i s1 v d p {?a}" and o: "owns s1 x ?a"
    using bread_reached [OF r f(3)] p(2) by auto
  have "h \<in> p \<or> card (p \<union> {?a}) < NBUF" using home(3) a(1) by (auto simp: card_insert_if)
  then obtain y s2 where y: "bread 1 h s1 = Inr (y, s2)" and r2: "reached s0 i s2 v d p {?a, h}"
    and o2: "owns s2 x ?a" "owns s2 y h"
    using bread_reached [OF r1 home(2)] a o by (auto simp: insert_commute)
  have l: "log s = log s0" "log s1 = log s0"
    using bio_step_log reachedD(1) [OF r] reachedD(1) [OF r1] by blast+
  show ?thesis
    using copy_tail [OF r2 o2 a(2) home(2)] clean [of ?a] k
    unfolding install_one_def l dev slot_def [symmetric] x y h bnd_simps prod.case Let_def by auto
qed

section \<open>The header block\<close>

text \<open>The bytes that \<^verbatim>\<open>write_head\<close> leaves in the header block, and what \<^verbatim>\<open>read_head\<close> reads from it.\<close>

definition put_header :: "nat \<Rightarrow> u32 list \<Rightarrow> block \<Rightarrow> block" where
  "put_header n bs b = fold (\<lambda>i. put32 (4 + 4 * i) (bs ! i)) [0..<n] (put32 0 (of_nat n) b)"

definition hdr_n :: "block \<Rightarrow> nat" where
  "hdr_n b = nat (sint (get32 0 b))"

definition hdr_blocks :: "block \<Rightarrow> u32 list" where
  "hdr_blocks b = map (\<lambda>i. get32 (4 + 4 * i) b) [0..<hdr_n b]"

lemma header_room: "i < LOGSIZE \<Longrightarrow> 4 + 4 * i + 4 \<le> BSIZE"
  by (simp add: LOGSIZE_def MAXOPBLOCKS_def BSIZE_def)

lemma put_header_get:
  assumes "length b = BSIZE" "n \<le> LOGSIZE"
  shows "length (put_header n bs b) = BSIZE" "get32 0 (put_header n bs b) = of_nat n"
    "i < n \<Longrightarrow> get32 (4 + 4 * i) (put_header n bs b) = bs ! i"
proof -
  have "length (fold (\<lambda>i. put32 (4 + 4 * i) (bs ! i)) [0..<k] c) = BSIZE
     \<and> get32 0 (fold (\<lambda>i. put32 (4 + 4 * i) (bs ! i)) [0..<k] c) = get32 0 c
     \<and> (\<forall>i<k. get32 (4 + 4 * i) (fold (\<lambda>i. put32 (4 + 4 * i) (bs ! i)) [0..<k] c) = bs ! i)"
    if "k \<le> n" "length c = BSIZE" for k c
    using that(1)
  proof (induction k)
    case (Suc k)
    then have room: "4 + 4 * k + 4 \<le> BSIZE" using assms(2) by (intro header_room) simp
    have "get32 (4 + 4 * j) (put32 (4 + 4 * k) w x) = get32 (4 + 4 * j) x" if "j < k" "length x = BSIZE" for j w x
      using that room by (intro get_put_other(4)) auto
    then show ?case using Suc room by (auto simp: get_put_other less_Suc_eq)
  qed (use that in simp)
  moreover have "length (put32 0 (of_nat n) b) = BSIZE" using assms(1) by (simp add: BSIZE_def)
  ultimately show "length (put_header n bs b) = BSIZE" "get32 0 (put_header n bs b) = of_nat n"
    "i < n \<Longrightarrow> get32 (4 + 4 * i) (put_header n bs b) = bs ! i"
    using assms(1) by (auto simp: put_header_def BSIZE_def)
qed

lemma sint_of_small: "n \<le> LOGSIZE \<Longrightarrow> sint (of_nat n :: u32) = int n"
  by (simp add: LOGSIZE_def MAXOPBLOCKS_def signed_of_nat signed_take_bit_int_eq_self)

lemma hdr_put_header:
  assumes "length b = BSIZE" "n \<le> LOGSIZE" "n \<le> length bs"
  shows "hdr_n (put_header n bs b) = n" "hdr_blocks (put_header n bs b) = take n bs"
proof -
  show n: "hdr_n (put_header n bs b) = n"
    using put_header_get(2) [OF assms(1,2)] sint_of_small [OF assms(2)] by (simp add: hdr_n_def)
  show "hdr_blocks (put_header n bs b) = take n bs"
    unfolding hdr_blocks_def n using put_header_get(3) [OF assms(1,2)] assms(3)
    by (intro nth_equalityI) simp_all
qed

lemma write_head_loop:
  assumes "k \<le> LOGSIZE"
  shows "each (write_head_one b) [0..<k] s = Inr (upd_buf b (\<lambda>q. q\<lparr>b_data :=
     fold (\<lambda>i. put32 (4 + 4 * i) (lh_block (log s) ! i)) [0..<k] (b_data q)\<rparr>) s)"
  using assms
proof (induction k)
  case 0 then show ?case by (simp add: upd_buf_def)
next
  case (Suc k)
  then show ?case by (simp add: each_append write_head_one_def upd_buf_def)
qed

lemma write_head_reached:
  assumes r: "reached s0 i s v d p {}" and fit: "log_fits (log_start (log s0)) (disksize s0)"
    and dev: "log_dev (log s0) = 1" and n: "lh_n (log s0) = int n" "n \<le> LOGSIZE"
    and p: "p \<inter> region (log_start (log s0)) = {}" "card p < NBUF"
  defines "x \<equiv> put_header n (lh_block (log s0)) (v (log_start (log s0)))"
  shows "\<exists>t. write_head s = Inr t \<and> reached s0 i t (v(log_start (log s0) := x)) (d(log_start (log s0) := x)) p {}"
proof -
  let ?S = "log_start (log s0)"
  have S: "?S \<in> region ?S" "?S < disksize s0"
    using fit by (auto simp: region_def log_fits_def word_less_nat_alt)
  obtain b s1 where b: "bread 1 ?S s = Inr (b, s1)" and r1: "reached s0 i s1 v d p {?S}" and o1: "owns s1 b ?S"
    using bread_reached [OF r S(2)] p(2) by auto
  have l: "log s = log s0" "log s1 = log s0"
    using bio_step_log reachedD(1) [OF r] reachedD(1) [OF r1] by blast+
  let ?s2 = "upd_buf b (\<lambda>q. q\<lparr>b_data := x\<rparr>) s1"
  note bd = reached_data [OF r1 o1]
  have "length x = BSIZE" using put_header_get(1) [OF _ n(2)] bd by (simp add: x_def)
  then have r2: "reached s0 i ?s2 (v(?S := x)) d p {?S}" and o2: "owns ?s2 b ?S"
    using set_data_reached [OF r1 o1] o1 by auto
  have "p - {?S} = p" using p(1) S(1) by blast
  then obtain s3 where w: "bwrite b ?s2 = Inr s3" and r3: "reached s0 i s3 (v(?S := x)) (d(?S := x)) p {?S}" and o3: "owns s3 b ?S"
    using bwrite_reached [OF r2 o2 S(2)] o2 by auto
  obtain t where e: "brelse b s3 = Inr t" "reached s0 i t (v(?S := x)) (d(?S := x)) p {}"
    using brelse_reached [OF r3 o3] by auto
  let ?u = "upd_buf b (\<lambda>q. q\<lparr>b_data := put32 0 (of_int (lh_n (log s0))) (b_data q)\<rparr>) s1"
  have lu: "log ?u = log s0" by (simp add: upd_buf_def l)
  have u: "each (write_head_one b) [0..<nat (lh_n (log ?u))] ?u = Inr ?s2"
    unfolding lu using write_head_loop [OF n(2), of b ?u]
    by (simp add: upd_buf_def l n(1) x_def put_header_def bd)
  show ?thesis
    unfolding write_head_def l dev b bnd_simps prod.case Let_def u
    using w e by simp
qed

lemma bio_step_upd_log:
  assumes "bio_step s t" shows "bio_step (upd_log f s) (upd_log f t)"
proof -
  from assms obtain h P L B D where t: "t = s\<lparr>hw := h, procs := P, sleeplocks := L, bufs := B, disk := D\<rparr>"
    "h = hw s \<or> h = rested (hw s)" "wakes (procs s) P" "\<And>i. L (SL_inode i) = sleeplocks s (SL_inode i)"
    unfolding bio_step_def by blast
  show ?thesis
    by (rule bio_stepI [where h = h and P = P and L = L and B = B and D = D])
      (use t in \<open>cases s; simp add: upd_log_def\<close>)+
qed

lemma upd_log_blocks [simp]:
  "view (upd_log f s) = view s" "disk (upd_log f s) = disk s" "pinned (upd_log f s) = pinned s"
  "locked_blocks (upd_log f s) = locked_blocks s" "cache_ok (upd_log f s) = cache_ok s"
  "owns (upd_log f s) = owns s" "idle (upd_log f s) = idle s" "disksize (upd_log f s) = disksize s"
  "log (upd_log f s) = f (log s)"
  by (simp_all add: fun_eq_iff view_def pinned_def locked_blocks_def cache_ok_def owns_def idle_def upd_log_def
      block_of_def locked_buf_def bring_def nextf_def [abs_def] prevf_def [abs_def] cong: option.case_cong)

lemma reached_upd_log:
  "reached s0 i s v d p l \<Longrightarrow> reached (upd_log f s0) i (upd_log f s) v d p l"
  using bio_step_upd_log [of s0 s f] by (auto simp: reached_def)

definition load_header :: "block \<Rightarrow> log \<Rightarrow> log" where
  "load_header x l = l\<lparr>lh_n := sint (get32 0 x), lh_block := hdr_blocks x @ drop (hdr_n x) (lh_block l)\<rparr>"

lemma read_head_loop:
  assumes "k \<le> LOGSIZE" "length (lh_block (log s)) = LOGSIZE"
  shows "each (read_head_one x) [0..<k] s = Inr (upd_log (\<lambda>l. l\<lparr>lh_block :=
     map (\<lambda>i. get32 (4 + 4 * i) x) [0..<k] @ drop k (lh_block l)\<rparr>) s)"
  using assms
proof (induction k)
  case 0 then show ?case by (simp add: upd_log_def)
next
  case (Suc k)
  then have "(map (\<lambda>i. get32 (4 + 4 * i) x) [0..<k] @ drop k (lh_block (log s)))[k := get32 (4 + 4 * k) x]
     = map (\<lambda>i. get32 (4 + 4 * i) x) [0..<Suc k] @ drop (Suc k) (lh_block (log s))"
    by (simp add: list_update_append Cons_nth_drop_Suc [symmetric])
  with Suc show ?case by (simp add: each_append read_head_one_def upd_log_def)
qed

lemma read_head_reached:
  assumes r: "reached s0 i s v d p {}" and fit: "log_fits (log_start (log s0)) (disksize s0)"
    and dev: "log_dev (log s0) = 1" and len: "length (lh_block (log s0)) = LOGSIZE"
    and p: "log_start (log s0) \<notin> p" "card p < NBUF" "v (log_start (log s0)) = d (log_start (log s0))"
  defines "x \<equiv> v (log_start (log s0))"
  assumes n: "hdr_n x \<le> LOGSIZE"
  shows "\<exists>t. read_head s = Inr t \<and> reached (upd_log (load_header x) s0) i t v d p {}"
proof -
  let ?S = "log_start (log s0)"
  have S: "?S \<in> region ?S" "?S < disksize s0"
    using fit by (auto simp: region_def log_fits_def word_less_nat_alt)
  obtain b s1 where b: "bread 1 ?S s = Inr (b, s1)" and r1: "reached s0 i s1 v d p {?S}" and o1: "owns s1 b ?S"
    using bread_reached [OF r S(2)] p(2) by auto
  have l: "log s = log s0" "log s1 = log s0"
    using bio_step_log reachedD(1) [OF r] reachedD(1) [OF r1] by blast+
  have bd: "b_data (bufs s1 b) = x" using reached_data [OF r1 o1] by (simp add: x_def)
  let ?u = "upd_log (\<lambda>l. l\<lparr>lh_n := sint (get32 0 x)\<rparr>) s1"
  have "each (read_head_one x) [0..<nat (lh_n (log ?u))] ?u = Inr (upd_log (load_header x) s1)"
    using read_head_loop [OF n, of ?u x] len
    by (simp add: l hdr_n_def [symmetric]) (simp add: upd_log_def load_header_def hdr_blocks_def l)
  moreover obtain t where "brelse b (upd_log (load_header x) s1) = Inr t"
    "reached (upd_log (load_header x) s0) i t v d p {}"
    using brelse_reached [OF reached_upd_log [OF r1]] o1 p(3) by fastforce
  ultimately show ?thesis unfolding read_head_def l dev b bnd_simps prod.case Let_def bd by simp
qed

section \<open>The contents a disk stands for\<close>

definition installed :: "u32 \<Rightarrow> u32 list \<Rightarrow> nat \<Rightarrow> (u32 \<Rightarrow> block) \<Rightarrow> u32 \<Rightarrow> block" where
  "installed S bs k d = fold (\<lambda>i e. e(bs ! i := d (slot S i))) [0..<k] d"

definition log_abs :: "u32 \<Rightarrow> (u32 \<Rightarrow> block) \<Rightarrow> u32 \<Rightarrow> block" where
  "log_abs S d = installed S (hdr_blocks (d S)) (hdr_n (d S)) d"

definition logged :: "u32 \<Rightarrow> u32 list \<Rightarrow> nat \<Rightarrow> (u32 \<Rightarrow> block) \<Rightarrow> (u32 \<Rightarrow> block) \<Rightarrow> u32 \<Rightarrow> block" where
  "logged S bs k v d = fold (\<lambda>i e. e(slot S i := v (bs ! i))) [0..<k] d"

lemma installed_0 [simp]: "installed S bs 0 d = d" and logged_0 [simp]: "logged S bs 0 v d = d"
  by (simp_all add: installed_def logged_def)

lemma installed_Suc: "installed S bs (Suc k) d = (installed S bs k d)(bs ! k := d (slot S k))"
  by (simp add: installed_def)

lemma logged_Suc: "logged S bs (Suc k) v d = (logged S bs k v d)(slot S k := v (bs ! k))"
  by (simp add: logged_def)

text \<open>The home blocks of a transaction: distinct blocks of the disk outside the log.\<close>

definition homes :: "u32 \<Rightarrow> u32 \<Rightarrow> u32 list \<Rightarrow> bool" where
  "homes S sz bs \<longleftrightarrow> length bs \<le> LOGSIZE \<and> distinct bs \<and> (\<forall>b \<in> set bs. b \<notin> region S \<and> b < sz)"

lemma installed_other: "k \<le> length bs \<Longrightarrow> m \<notin> set (take k bs) \<Longrightarrow> installed S bs k d m = d m"
  by (induction k) (auto simp: installed_Suc take_Suc_conv_app_nth)

lemma installed_home:
  "\<lbrakk>k \<le> length bs; distinct bs; i < k\<rbrakk> \<Longrightarrow> installed S bs k d (bs ! i) = d (slot S i)"
  by (induction k) (auto simp: installed_Suc less_Suc_eq nth_eq_iff_index_eq)

lemma installed_cong:
  "\<lbrakk>k \<le> length bs; d m = e m; \<And>i. i < k \<Longrightarrow> d (slot S i) = e (slot S i)\<rbrakk> \<Longrightarrow> installed S bs k d m = installed S bs k e m"
  by (induction k) (auto simp: installed_Suc)

lemma installed_take: "n \<le> length bs \<Longrightarrow> k \<le> n \<Longrightarrow> installed S (take n bs) k d = installed S bs k d"
  by (induction k) (auto simp: installed_Suc)

lemma logged_other: "(\<And>i. i < k \<Longrightarrow> m \<noteq> slot S i) \<Longrightarrow> logged S bs k v d m = d m"
  by (induction k) (auto simp: logged_Suc)

lemma logged_slot:
  "\<lbrakk>log_fits S sz; k \<le> LOGSIZE; i < k\<rbrakk> \<Longrightarrow> logged S bs k v d (slot S i) = v (bs ! i)"
  by (induction k) (auto simp: logged_Suc less_Suc_eq slot_facts(6))

lemma logged_outside:
  assumes "log_fits S sz" "k \<le> LOGSIZE" "m \<notin> region S \<or> m = S"
  shows "logged S bs k v d m = d m"
  using assms slot_facts(1,2) [OF assms(1)] by (intro logged_other) (metis order_less_le_trans)

lemma homesD:
  assumes "homes S sz bs" "i < length bs"
  shows "bs ! i \<notin> region S" "bs ! i < sz" "i < LOGSIZE"
  using assms by (auto simp: homes_def)

text \<open>A transaction that is in the log: its header is written and its contents lie in the log blocks.\<close>

definition in_log :: "u32 \<Rightarrow> u32 \<Rightarrow> u32 list \<Rightarrow> (u32 \<Rightarrow> block) \<Rightarrow> (u32 \<Rightarrow> block) \<Rightarrow> bool" where
  "in_log S sz bs v d \<longleftrightarrow> hdr_blocks (d S) = bs \<and> (\<forall>i<length bs. d (slot S i) = v (bs ! i))
     \<and> (\<forall>m. m \<notin> region S \<and> m \<notin> set bs \<longrightarrow> d m = v m)"

lemma length_hdr_blocks [simp]: "length (hdr_blocks x) = hdr_n x"
  by (simp add: hdr_blocks_def)

lemma log_abs_in_log:
  assumes "in_log S sz bs v d" "homes S sz bs" "m \<notin> region S"
  shows "log_abs S d m = v m"
proof -
  have bs: "hdr_blocks (d S) = bs" "hdr_n (d S) = length bs"
    using assms(1) length_hdr_blocks [of "d S"] by (auto simp: in_log_def)
  show ?thesis
  proof (cases "m \<in> set bs")
    case True
    then obtain i where i: "i < length bs" "m = bs ! i" by (auto simp: in_set_conv_nth)
    then show ?thesis using assms(1,2) installed_home [of "length bs" bs i] unfolding log_abs_def bs
      by (simp add: in_log_def homes_def)
  next
    case False
    then show ?thesis using assms(1,3) installed_other [of "length bs" bs m] unfolding log_abs_def bs
      by (simp add: in_log_def)
  qed
qed

lemma log_abs_empty: "hdr_n (d S) = 0 \<Longrightarrow> log_abs S d = d"
  by (simp add: log_abs_def)

text \<open>Installing some of the blocks keeps the transaction in the log.\<close>

lemma in_log_installed:
  assumes il: "in_log S sz bs v d" and h: "homes S sz bs" and k: "k \<le> length bs" and fit: "log_fits S sz"
  shows "in_log S sz bs v (installed S bs k d)"
proof -
  have out: "installed S bs k d m = d m" if "m \<in> region S \<or> m \<notin> set bs" for m
    using that h k by (intro installed_other) (auto simp: homes_def dest: in_set_takeD)
  have S: "S \<in> region S" by (simp add: region_def)
  have "slot S i \<in> region S" if "i < length bs" for i
    using slot_facts(1) [OF fit homesD(3) [OF h that]] .
  then show ?thesis using il S by (simp add: in_log_def out)
qed

section \<open>The loops of commit and recovery\<close>

definition log_at :: "'a lst_scheme \<Rightarrow> bool" where
  "log_at s \<longleftrightarrow> log_dev (log s) = 1 \<and> log_fits (log_start (log s)) (disksize s)"

lemma homes_take:
  assumes "homes S sz (take n bs)" "n \<le> length bs" "k < n"
  shows "bs ! k \<notin> region S" "bs ! k < sz" "k < LOGSIZE" "bs ! k \<notin> set (take k bs)" "bs ! k \<in> set (take n bs)"
proof -
  have k: "k < length (take n bs)" "take n bs ! k = bs ! k" using assms by auto
  show "bs ! k \<notin> region S" "bs ! k < sz" "k < LOGSIZE" using homesD [OF assms(1) k(1)] k(2) by auto
  show "bs ! k \<in> set (take n bs)" using k nth_mem by metis
  have "distinct (take (Suc k) bs)"
    using assms distinct_take [of "take n bs" "Suc k"] by (simp add: homes_def min_absorb1)
  then show "bs ! k \<notin> set (take k bs)" using assms by (simp add: take_Suc_conv_app_nth)
qed

lemma write_log_loop:
  assumes r: "reached s0 i s v d p {}" and lg: "log_at s0"
    and h: "homes (log_start (log s0)) (disksize s0) (take n (lh_block (log s0)))" "n \<le> length (lh_block (log s0))"
      "set (take n (lh_block (log s0))) \<subseteq> p"
    and p: "p \<inter> region (log_start (log s0)) = {}" "card p < NBUF" and k: "k \<le> n"
  shows "\<exists>t. each write_log_one [0..<k] s = Inr t
    \<and> reached s0 i t (logged (log_start (log s0)) (lh_block (log s0)) k v v)
        (logged (log_start (log s0)) (lh_block (log s0)) k v d) p {}"
  using k
proof (induction k)
  case 0 then show ?case using r by simp
next
  case (Suc k)
  let ?S = "log_start (log s0)" and ?bs = "lh_block (log s0)"
  obtain t where t: "each write_log_one [0..<k] s = Inr t"
    and rt: "reached s0 i t (logged ?S ?bs k v v) (logged ?S ?bs k v d) p {}"
    using Suc by auto
  have fit: "log_fits ?S (disksize s0)" and dev: "log_dev (log s0) = 1" using lg by (auto simp: log_at_def)
  have kn: "k < n" using Suc by simp
  note hk = homes_take [OF h(1,2) kn]
  have "logged ?S ?bs k v v (?bs ! k) = v (?bs ! k)"
    using hk(1,3) by (intro logged_outside [OF fit]) auto
  then show ?case
    using write_log_one_reached [OF rt fit dev hk(3) refl hk(1,2) _ p] hk(5) h(3) t
    unfolding logged_Suc by (auto simp: each_append fun_upd_def)
qed

lemma installed_slot:
  assumes "homes S sz (take n bs)" "n \<le> length bs" "k \<le> n" "m \<in> region S"
  shows "installed S bs k d m = d m"
proof (rule installed_other)
  show "k \<le> length bs" using assms by simp
  have "set (take k bs) \<subseteq> set (take n bs)" by (rule set_take_subset_set_take [OF assms(3)])
  then show "m \<notin> set (take k bs)" using assms(1,4) by (auto simp: homes_def)
qed

lemma installed_clean:
  assumes "\<And>m. m \<in> p \<or> v m = d m" "\<And>i. i < k \<Longrightarrow> slot S i \<notin> p" "k \<le> length bs"
  shows "m \<in> p - set (take k bs) \<or> installed S bs k v m = installed S bs k d m"
  using assms(2,3)
proof (induction k arbitrary: m)
  case 0 then show ?case using assms(1) by simp
next
  case (Suc k)
  then have "v (slot S k) = d (slot S k)" using assms(1) by blast
  then show ?case using Suc.IH [of m] Suc.prems by (auto simp: installed_Suc take_Suc_conv_app_nth)
qed

lemma install_loop:
  assumes r: "reached s0 i s v d p {}" and lg: "log_at s0"
    and h: "homes (log_start (log s0)) (disksize s0) (take n (lh_block (log s0)))" "n \<le> length (lh_block (log s0))"
      "set (take n (lh_block (log s0))) \<subseteq> p \<or> card p + 1 < NBUF"
    and p: "p \<inter> region (log_start (log s0)) = {}" "card p < NBUF" and clean: "\<And>m. m \<in> p \<or> v m = d m"
    and k: "k \<le> n"
  shows "\<exists>t. each install_one [0..<k] s = Inr t
    \<and> reached s0 i t (installed (log_start (log s0)) (lh_block (log s0)) k v)
        (installed (log_start (log s0)) (lh_block (log s0)) k d) (p - set (take k (lh_block (log s0)))) {}"
  using k
proof (induction k)
  case 0 then show ?case using r by simp
next
  case (Suc k)
  let ?S = "log_start (log s0)" and ?bs = "lh_block (log s0)"
  let ?p = "p - set (take k ?bs)"
  obtain t where t: "each install_one [0..<k] s = Inr t"
    and rt: "reached s0 i t (installed ?S ?bs k v) (installed ?S ?bs k d) ?p {}"
    using Suc by auto
  have fit: "log_fits ?S (disksize s0)" and dev: "log_dev (log s0) = 1" using lg by (auto simp: log_at_def)
  have kn: "k < n" using Suc by simp
  note hk = homes_take [OF h(1,2) kn]
  have sl: "slot ?S j \<in> region ?S" if "j < n" for j
    using slot_facts(1) [OF fit homes_take(3) [OF h(1,2) that]] .
  have cl: "m \<in> ?p \<or> installed ?S ?bs k v m = installed ?S ?bs k d m" for m
    using sl p(1) kn h(2) by (intro installed_clean [OF clean]) auto
  have c: "card ?p \<le> card p" by (rule card_mono) auto
  have "?bs ! k \<in> ?p \<or> card ?p + 1 < NBUF" using h(3) hk(4,5) c by auto
  moreover have "?p \<inter> region ?S = {}" "card ?p < NBUF" using p c by auto
  ultimately obtain u where "install_one k t = Inr u" and
    "reached s0 i u ((installed ?S ?bs k v)(?bs ! k := installed ?S ?bs k v (slot ?S k)))
       ((installed ?S ?bs k d)(?bs ! k := installed ?S ?bs k v (slot ?S k))) (?p - {?bs ! k}) {}"
    using install_one_reached [OF rt fit dev hk(3) refl hk(1,2) _ _ _ cl] by blast
  moreover have "installed ?S ?bs k v (slot ?S k) = v (slot ?S k)"
    using installed_slot [OF h(1,2) _ sl] kn by simp
  moreover have "v (slot ?S k) = d (slot ?S k)" using clean sl [OF kn] p(1) by blast
  moreover have "?p - {?bs ! k} = p - set (take (Suc k) ?bs)"
    using kn h(2) by (auto simp: take_Suc_conv_app_nth)
  ultimately show ?case using t unfolding installed_Suc by (simp add: each_append fun_upd_def)
qed

section \<open>The steps of a commit\<close>

text \<open>
  A transaction of \<open>n\<close> blocks that is ready to commit: every block that \<^verbatim>\<open>log_write\<close> recorded is pinned in
  the cache, no other block is, and the header on disk is empty.
\<close>

definition ready :: "'a lst_scheme \<Rightarrow> nat \<Rightarrow> nat \<Rightarrow> bool" where
  "ready s i n \<longleftrightarrow> calm s i \<and> log_at s \<and> lh_n (log s) = int n \<and> n \<le> length (lh_block (log s)) \<and> n < NBUF
     \<and> homes (log_start (log s)) (disksize s) (take n (lh_block (log s)))
     \<and> pinned s = set (take n (lh_block (log s))) \<and> hdr_n (disk s (log_start (log s))) = 0"

definition clear_log :: "log \<Rightarrow> log" where
  "clear_log l = l\<lparr>lh_n := 0\<rparr>"

definition commit_steps :: "nat \<Rightarrow> ('a lst_scheme \<Rightarrow> 'a lst_scheme stop + 'a lst_scheme) list" where
  "commit_steps n = map write_log_one [0..<n] @ [write_head] @ map install_one [0..<n]
     @ [\<lambda>s. write_head (upd_log clear_log s)]"

lemma each_map: "each (\<lambda>f. f) (map g xs) s = each g xs s"
proof (induction xs arbitrary: s)
  case (Cons x xs)
  then show ?case by (cases "g x s") simp_all
qed simp

lemma readyD:
  assumes "ready s i n"
  shows "reached s i s (view s) (disk s) (pinned s) {}" "log_at s" "lh_n (log s) = int n"
    "homes (log_start (log s)) (disksize s) (take n (lh_block (log s)))" "n \<le> length (lh_block (log s))"
    "pinned s = set (take n (lh_block (log s)))" "pinned s \<inter> region (log_start (log s)) = {}" "card (pinned s) < NBUF"
    "n \<le> LOGSIZE" "m \<in> pinned s \<or> view s m = disk s m" "hdr_n (disk s (log_start (log s))) = 0"
proof -
  show "reached s i s (view s) (disk s) (pinned s) {}"
    using assms reached_refl [of s i] by (simp add: ready_def calm_def)
  show "m \<in> pinned s \<or> view s m = disk s m" using assms calm_clean by (auto simp: ready_def)
  show "card (pinned s) < NBUF"
    using assms distinct_card [of "take n (lh_block (log s))"] by (auto simp: ready_def homes_def)
  show "pinned s \<inter> region (log_start (log s)) = {}" using assms by (auto simp: ready_def homes_def)
  show "n \<le> LOGSIZE" using assms by (auto simp: ready_def homes_def min_def split: if_splits)
qed (use assms in \<open>auto simp: ready_def\<close>)

lemma stage_logged:
  assumes "ready s i n" "k \<le> n"
  obtains t where "each write_log_one [0..<k] s = Inr t"
    "reached s i t (logged (log_start (log s)) (lh_block (log s)) k (view s) (view s))
      (logged (log_start (log s)) (lh_block (log s)) k (view s) (disk s)) (pinned s) {}"
  using write_log_loop [OF readyD(1,2,4,5) [OF assms(1)] _ readyD(7,8) [OF assms(1)] assms(2)] readyD(6) [OF assms(1)] by blast

lemma log_at_fits: "log_at s \<Longrightarrow> log_fits (log_start (log s)) (disksize s)" and log_at_dev: "log_at s \<Longrightarrow> log_dev (log s) = 1"
  by (simp_all add: log_at_def)

lemma stage_header:
  assumes a: "ready s i n"
  defines "S \<equiv> log_start (log s)" and "bs \<equiv> lh_block (log s)"
  defines "x \<equiv> put_header n bs (view s S)"
  obtains t where "bnd (each write_log_one [0..<n] s) write_head = Inr t"
    "reached s i t ((logged S bs n (view s) (view s))(S := x)) ((logged S bs n (view s) (disk s))(S := x)) (pinned s) {}"
proof -
  obtain t where t: "each write_log_one [0..<n] s = Inr t"
    and r: "reached s i t (logged S bs n (view s) (view s)) (logged S bs n (view s) (disk s)) (pinned s) {}"
    using stage_logged [OF a order_refl] unfolding S_def bs_def by blast
  note fit = log_at_fits [OF readyD(2) [OF a]]
  have "logged S bs n (view s) (view s) S = view s S"
    using logged_outside [OF fit readyD(9) [OF a]] unfolding S_def by blast
  then show thesis
    using that write_head_reached [OF r fit log_at_dev [OF readyD(2) [OF a]] readyD(3,9,7,8) [OF a]] t
    unfolding S_def [symmetric] bs_def [symmetric] x_def by auto
qed

lemma in_log_header:
  assumes a: "ready s i n"
  defines "S \<equiv> log_start (log s)" and "bs \<equiv> lh_block (log s)"
  defines "x \<equiv> put_header n bs (view s S)"
  shows "in_log S (disksize s) (take n bs) (view s) ((logged S bs n (view s) (disk s))(S := x))"
proof -
  note fit = log_at_fits [OF readyD(2) [OF a], folded S_def]
  have "length (view s S) = BSIZE" using a length_view by (auto simp: ready_def calm_def)
  then have "hdr_blocks x = take n bs"
    using hdr_put_header(2) [OF _ readyD(9) [OF a]] readyD(5) [OF a] by (simp add: x_def bs_def)
  moreover have "((logged S bs n (view s) (disk s))(S := x)) (slot S i) = view s (take n bs ! i)"
    if i: "i < length (take n bs)" for i
    using i readyD(9) [OF a] logged_slot [OF fit readyD(9) [OF a], of i bs] slot_facts(2) [OF fit, of i] by auto
  moreover have "((logged S bs n (view s) (disk s))(S := x)) m = view s m" if "m \<notin> region S" "m \<notin> set (take n bs)" for m
  proof -
    have "m \<noteq> S" using that(1) by (auto simp: region_def)
    moreover have "view s m = disk s m" using that(2) readyD(6,10) [OF a] by (auto simp: bs_def)
    ultimately show ?thesis using logged_outside [OF fit readyD(9) [OF a]] that(1) by simp
  qed
  ultimately show ?thesis by (auto simp: in_log_def)
qed

lemma header_clean:
  assumes a: "ready s i n"
  shows "m \<in> pinned s \<or> ((logged S bs k (view s) (view s))(S := x)) m = ((logged S bs k (view s) (disk s))(S := x)) m"
proof (induction k)
  case 0 then show ?case using readyD(10) [OF a, of m] by simp
next
  case (Suc k) then show ?case by (auto simp: logged_Suc)
qed

lemma stage_installed:
  assumes a: "ready s i n" and k: "k \<le> n"
  defines "S \<equiv> log_start (log s)" and "bs \<equiv> lh_block (log s)"
  defines "x \<equiv> put_header n bs (view s S)"
  defines "d \<equiv> (logged S bs n (view s) (disk s))(S := x)"
  obtains t v where "bnd (bnd (each write_log_one [0..<n] s) write_head) (each install_one [0..<k]) = Inr t"
    "reached s i t v (installed S bs k d) (pinned s - set (take k bs)) {}"
    "\<And>m. m \<in> pinned s - set (take k bs) \<or> v m = installed S bs k d m"
proof -
  let ?v = "(logged S bs n (view s) (view s))(S := x)"
  obtain t where t: "bnd (each write_log_one [0..<n] s) write_head = Inr t" and r: "reached s i t ?v d (pinned s) {}"
    using stage_header [OF a] unfolding S_def bs_def x_def d_def by blast
  have cl: "m \<in> pinned s \<or> ?v m = d m" for m unfolding d_def by (rule header_clean [OF a])
  obtain u where u: "each install_one [0..<k] t = Inr u"
    and ru: "reached s i u (installed S bs k ?v) (installed S bs k d) (pinned s - set (take k bs)) {}"
    using install_loop [OF r readyD(2,4,5) [OF a] _ readyD(7,8) [OF a] cl k] readyD(6) [OF a]
    unfolding S_def bs_def by blast
  have "slot S j \<notin> pinned s" if "j < k" for j
    using slot_facts(1) [OF log_at_fits [OF readyD(2) [OF a]], of j] readyD(7,9) [OF a] that k unfolding S_def by auto
  then have "m \<in> pinned s - set (take k bs) \<or> installed S bs k ?v m = installed S bs k d m" for m
    using k readyD(5) [OF a] by (intro installed_clean [OF cl]) (auto simp: bs_def)
  then show thesis using that [OF _ ru] t u by simp
qed

lemma stage_cleared:
  assumes r: "reached s i t v d {} {}" and lg: "log_at s" and len: "length (v (log_start (log s))) = BSIZE"
  obtains u x where "write_head (upd_log clear_log t) = Inr u" "hdr_n x = 0"
    "reached (upd_log clear_log s) i u (v(log_start (log s) := x)) (d(log_start (log s) := x)) {} {}"
proof -
  let ?s = "upd_log clear_log s" and ?S = "log_start (log s)"
  let ?x = "put_header 0 (lh_block (log s)) (v ?S)"
  have c: "log_start (clear_log l) = log_start l" "log_dev (clear_log l) = log_dev l" "lh_n (clear_log l) = int 0"
    "lh_block (clear_log l) = lh_block l" for l by (simp_all add: clear_log_def)
  have "log_fits (log_start (log ?s)) (disksize ?s)" "log_dev (log ?s) = 1" using lg by (auto simp: log_at_def c)
  from write_head_reached [OF reached_upd_log [OF r] this, of 0]
  obtain u where "write_head (upd_log clear_log t) = Inr u" "reached ?s i u (v(?S := ?x)) (d(?S := ?x)) {} {}"
    by (auto simp: c NBUF_def MAXOPBLOCKS_def)
  moreover have "hdr_n ?x = 0" using hdr_put_header(1) [OF len, of 0] by simp
  ultimately show thesis using that by blast
qed

lemma length_reached: "reached s0 i s v d p l \<Longrightarrow> length (v m) = BSIZE"
  using length_view [of s m] by (auto simp: reached_def)

lemma stage_done:
  assumes a: "ready s i n"
  obtains t v d where "bnd (bnd (bnd (each write_log_one [0..<n] s) write_head) (each install_one [0..<n]))
      (\<lambda>s. write_head (upd_log clear_log s)) = Inr t"
    "reached (upd_log clear_log s) i t v d {} {}" "hdr_n (d (log_start (log s))) = 0"
    "\<And>m. m \<notin> region (log_start (log s)) \<Longrightarrow> d m = view s m" "v = d"
    "\<exists>x. d = (installed (log_start (log s)) (lh_block (log s)) n ((logged (log_start (log s)) (lh_block (log s)) n
        (view s) (disk s))(log_start (log s) := put_header n (lh_block (log s)) (view s (log_start (log s))))))
      (log_start (log s) := x)"
proof -
  let ?S = "log_start (log s)" and ?bs = "lh_block (log s)"
  let ?d = "(logged ?S ?bs n (view s) (disk s))(?S := put_header n ?bs (view s ?S))"
  have p: "pinned s - set (take n ?bs) = {}" using readyD(6) [OF a] by simp
  obtain t v where t: "bnd (bnd (each write_log_one [0..<n] s) write_head) (each install_one [0..<n]) = Inr t"
    and r: "reached s i t v (installed ?S ?bs n ?d) {} {}" and v: "\<And>m. v m = installed ?S ?bs n ?d m"
    using stage_installed [OF a order_refl, unfolded p empty_iff simp_thms] by blast
  obtain u x where u: "write_head (upd_log clear_log t) = Inr u" "hdr_n x = 0"
    "reached (upd_log clear_log s) i u (v(?S := x)) ((installed ?S ?bs n ?d)(?S := x)) {} {}"
    using stage_cleared [OF r readyD(2) [OF a] length_reached [OF r]] by blast
  have "installed ?S ?bs n ?d m = view s m" if "m \<notin> region ?S" for m
  proof -
    note il = in_log_header [OF a]
    have h: "hdr_blocks (?d ?S) = take n ?bs" "hdr_n (?d ?S) = n"
      using il length_hdr_blocks [of "?d ?S"] readyD(5) [OF a] by (auto simp: in_log_def)
    then show ?thesis using log_abs_in_log [OF il readyD(4) [OF a] that] readyD(5) [OF a]
      by (simp add: log_abs_def installed_take)
  qed
  moreover have "m \<noteq> ?S" if "m \<notin> region ?S" for m using that by (auto simp: region_def)
  moreover have "v = installed ?S ?bs n ?d" using v by blast
  ultimately show thesis using that [OF _ u(3)] t u(1,2) by (simp, blast)
qed

section \<open>Recovery\<close>

lemma in_log_self:
  assumes "homes S sz (hdr_blocks (d S))"
  shows "in_log S sz (hdr_blocks (d S)) (log_abs S d) d"
  using assms installed_home [of "hdr_n (d S)" "hdr_blocks (d S)"] installed_other [of "hdr_n (d S)" "hdr_blocks (d S)"]
  by (auto simp: in_log_def homes_def log_abs_def)

lemma load_header_simps [simp]:
  "log_start (load_header x l) = log_start l" "log_dev (load_header x l) = log_dev l"
  "take (hdr_n x) (lh_block (load_header x l)) = hdr_blocks x" "nat (lh_n (load_header x l)) = hdr_n x"
  by (simp_all add: load_header_def hdr_n_def)

text \<open>A state after a crash: an empty cache, and of the memory only where the log is.\<close>

definition rebooted :: "'a lst_scheme \<Rightarrow> nat \<Rightarrow> bool" where
  "rebooted u i \<longleftrightarrow> calm u i \<and> pinned u = {} \<and> log_at u \<and> length (lh_block (log u)) = LOGSIZE"

definition recover_steps :: "nat \<Rightarrow> ('a lst_scheme \<Rightarrow> 'a lst_scheme stop + 'a lst_scheme) list" where
  "recover_steps n = [read_head] @ map install_one [0..<n] @ [\<lambda>s. write_head (upd_log clear_log s)]"

lemma recover_installed:
  assumes u: "rebooted u i" and h: "homes (log_start (log u)) (disksize u) (hdr_blocks (disk u (log_start (log u))))"
  defines "S \<equiv> log_start (log u)"
  defines "x \<equiv> disk u S"
  assumes k: "k \<le> hdr_n x"
  obtains t where "bnd (read_head u) (each install_one [0..<k]) = Inr t"
    "reached (upd_log (load_header x) u) i t (installed S (hdr_blocks x) k (disk u)) (installed S (hdr_blocks x) k (disk u)) {} {}"
proof -
  let ?u = "upd_log (load_header x) u"
  have c: "calm u i" "pinned u = {}" "log_at u" "length (lh_block (log u)) = LOGSIZE"
    using u by (auto simp: rebooted_def)
  have v: "view u = disk u" using calm_clean [OF c(1)] c(2) by blast
  then have r: "reached u i u (disk u) (disk u) {} {}"
    using reached_refl [of u i] c(1,2) by (simp add: calm_def)
  have n: "hdr_n x \<le> LOGSIZE" using h by (simp add: homes_def x_def S_def)
  have nb: "0 < NBUF" "Suc 0 < NBUF" by (simp_all add: NBUF_def MAXOPBLOCKS_def)
  obtain t where t: "read_head u = Inr t" "reached ?u i t (disk u) (disk u) {} {}"
    using read_head_reached [OF r log_at_fits [OF c(3)] log_at_dev [OF c(3)] c(4)] n nb
    by (auto simp: x_def S_def)
  have lb: "hdr_n x \<le> length (lh_block (log ?u))" by (simp add: load_header_def)
  have lg: "log_at ?u" "homes (log_start (log ?u)) (disksize ?u) (take (hdr_n x) (lh_block (log ?u)))"
    using c(3) h by (auto simp: log_at_def x_def S_def)
  obtain t' where t': "each install_one [0..<k] t = Inr t'"
    and "reached ?u i t' (installed S (lh_block (log ?u)) k (disk u)) (installed S (lh_block (log ?u)) k (disk u)) {} {}"
    using install_loop [OF t(2) lg lb _ _ _ _ k] nb by (auto simp: S_def)
  moreover have "installed S (lh_block (log ?u)) k (disk u) = installed S (hdr_blocks x) k (disk u)"
    using installed_take [OF lb k, of S "disk u"] by simp
  ultimately show thesis using that t(1) by simp
qed

lemma recover_run:
  assumes u: "rebooted u i" and h: "homes (log_start (log u)) (disksize u) (hdr_blocks (disk u (log_start (log u))))"
  shows "recover_from_log u = bnd (bnd (read_head u) (each install_one [0..<hdr_n (disk u (log_start (log u)))]))
     (\<lambda>s. write_head (upd_log clear_log s))"
proof -
  let ?x = "disk u (log_start (log u))"
  obtain s where s: "read_head u = Inr s" "reached (upd_log (load_header ?x) u) i s (disk u) (disk u) {} {}"
    using recover_installed [OF u h le0] by auto
  then have "log s = load_header ?x (log u)" using bio_step_log [OF reachedD(1) [OF s(2)]] by simp
  then show ?thesis using s(1) by (simp add: recover_from_log_def install_trans_def clear_log_def [abs_def])
qed

lemma recover_done:
  assumes u: "rebooted u i" and h: "homes (log_start (log u)) (disksize u) (hdr_blocks (disk u (log_start (log u))))"
  obtains w x where "recover_from_log u = Inr w" "hdr_n x = 0" "view w = disk w"
    "disk w = (log_abs (log_start (log u)) (disk u))(log_start (log u) := x)"
    "calm w i" "pinned w = {}" "log w = clear_log (load_header (disk u (log_start (log u))) (log u))" "disksize w = disksize u"
proof -
  let ?S = "log_start (log u)"
  let ?x = "disk u ?S"
  let ?u = "upd_log (load_header ?x) u" and ?d = "log_abs ?S (disk u)"
  obtain t where t: "bnd (read_head u) (each install_one [0..<hdr_n ?x]) = Inr t" and r: "reached ?u i t ?d ?d {} {}"
    using recover_installed [OF u h order_refl] by (auto simp: log_abs_def)
  have lg: "log_at ?u" using u by (auto simp: rebooted_def log_at_def)
  obtain w y where w: "write_head (upd_log clear_log t) = Inr w" "hdr_n y = 0"
    "reached (upd_log clear_log ?u) i w (?d(?S := y)) (?d(?S := y)) {} {}"
    using stage_cleared [OF r lg length_reached [OF r]] by auto
  have "recover_from_log u = Inr w"
    using w(1) unfolding recover_run [OF u h] t bnd_simps .
  moreover have "log w = clear_log (load_header ?x (log u))"
    using bio_step_log [OF reachedD(1) [OF w(3)]] by simp
  ultimately show thesis using that w(2) reachedD [OF w(3)] by (simp add: calm_def)
qed


end
