(* ===== verification/Log_Crash.thy ===== *)
theory Log_Crash
  imports Log_Disk
begin

text \<open>
  What the log promises. Every write of \<^verbatim>\<open>commit\<close> and of \<^verbatim>\<open>recover_from_log\<close> keeps the contents the disk
  stands for, except for the one write of the header that commits; a transaction that ends has
  its blocks on disk.
\<close>

section \<open>Crashes\<close>

lemma each_single: "each f [y] = f y"
proof
  show "each f [y] s = f y s" for s by (cases "f y s") simp_all
qed

lemma run_commit_steps:
  fixes s :: "'a lst_scheme"
  shows
  "j \<le> n \<Longrightarrow> each (\<lambda>f. f) (take j (commit_steps n)) s = each write_log_one [0..<j] s"
  "k \<le> n \<Longrightarrow> each (\<lambda>f. f) (take (n + 1 + k) (commit_steps n)) s =
     bnd (bnd (each write_log_one [0..<n] s) write_head) (each install_one [0..<k])"
  "each (\<lambda>f. f) (take (2 * n + 2) (commit_steps n)) s =
     bnd (bnd (bnd (each write_log_one [0..<n] s) write_head) (each install_one [0..<n])) (\<lambda>s. write_head (upd_log clear_log s))"
proof -
  note e = each_single
  have ea: "each f (xs @ ys) = (\<lambda>s. bnd (each f xs s) (each f ys))" "each (\<lambda>f. f) (map g zs) = each g zs"
    for f :: "'d \<Rightarrow> 'b \<Rightarrow> 'c + 'b" and g :: "'d \<Rightarrow> 'b \<Rightarrow> 'c + 'b" and xs ys zs
    by (rule ext, simp add: each_append each_map)+
  show "each (\<lambda>f. f) (take j (commit_steps n)) s = each write_log_one [0..<j] s" if "j \<le> n"
    using that by (simp add: commit_steps_def take_map take_upt each_map)
  show "each (\<lambda>f. f) (take (n + 1 + k) (commit_steps n)) s =
     bnd (bnd (each write_log_one [0..<n] s) write_head) (each install_one [0..<k])" if "k \<le> n"
  proof -
    have "take (n + 1 + k) (commit_steps n :: ('a lst_scheme \<Rightarrow> _) list) = map write_log_one [0..<n] @ [write_head] @ map install_one [0..<k]"
      using that by (simp add: commit_steps_def take_map take_upt)
    then show ?thesis by (simp only: ea bnd_assoc e)
  qed
  have "take (2 * n + 2) (commit_steps n :: ('a lst_scheme \<Rightarrow> _) list) = commit_steps n" by (simp add: commit_steps_def)
  then show "each (\<lambda>f. f) (take (2 * n + 2) (commit_steps n)) s =
     bnd (bnd (bnd (each write_log_one [0..<n] s) write_head) (each install_one [0..<n])) (\<lambda>s. write_head (upd_log clear_log s))"
    by (simp only: commit_steps_def ea bnd_assoc e)
qed

text \<open>Every crash point of a commit leaves the old contents or the new ones.\<close>

lemma commit_prefix:
  assumes a: "ready s i n" and j: "j \<le> 2 * n + 2"
  defines "S \<equiv> log_start (log s)"
  obtains t where "each (\<lambda>f. f) (take j (commit_steps n)) s = Inr t"
    "homes S (disksize s) (hdr_blocks (disk t S))"
    "\<And>m. m \<notin> region S \<Longrightarrow> log_abs S (disk t) m = (if j \<le> n then disk s m else view s m)"
proof -
  let ?bs = "lh_block (log s)"
  let ?d = "(logged S ?bs n (view s) (disk s))(S := put_header n ?bs (view s S))"
  have fit: "log_fits S (disksize s)" using readyD(2) [OF a] log_at_fits by (simp add: S_def)
  have empty: "homes S (disksize s) (hdr_blocks b)" if "hdr_n b = 0" for b using that by (simp add: homes_def hdr_blocks_def)
  consider "j \<le> n" | k where "j = n + 1 + k" "k \<le> n" | "j = 2 * n + 2"
  proof (cases "j \<le> n \<or> j = 2 * n + 2")
    case False
    then have "j = n + 1 + (j - n - 1)" "j - n - 1 \<le> n" using j by auto
    then show thesis by (rule that(2))
  qed (use that in blast)
  then show thesis
  proof cases
    case 1
    then obtain t where t: "each write_log_one [0..<j] s = Inr t" "disk t = logged S ?bs j (view s) (disk s)"
      using stage_logged [OF a 1] reachedD(5) unfolding S_def by metis
    have out: "disk t m = disk s m" if "m \<notin> region S \<or> m = S" for m
      using logged_outside [OF fit _ that] 1 readyD(9) [OF a] t(2) by simp
    then have h: "hdr_n (disk t S) = 0" using readyD(11) [OF a] by (simp add: S_def)
    show thesis
      by (rule that [of t]) (use t(1) 1 h empty out log_abs_empty [of "disk t" S] run_commit_steps(1) [OF 1, of s] in auto)
  next
    case (2 k)
    obtain t where t: "bnd (bnd (each write_log_one [0..<n] s) write_head) (each install_one [0..<k]) = Inr t"
      "disk t = installed S ?bs k ?d"
      using stage_installed [OF a 2(2)] reachedD(5) unfolding S_def by metis
    have "in_log S (disksize s) (take n ?bs) (view s) (installed S (take n ?bs) k ?d)"
      by (rule in_log_installed)
        (use in_log_header [OF a] readyD(4,5) [OF a] 2 fit in \<open>auto simp: S_def\<close>)
    then have il: "in_log S (disksize s) (take n ?bs) (view s) (disk t)"
      using installed_take [OF readyD(5) [OF a] 2(2)] t(2) by simp
    have hm: "homes S (disksize s) (take n ?bs)" using readyD(4) [OF a] by (simp add: S_def)
    show thesis
      by (rule that [of t])
        (use t(1) 2 il hm log_abs_in_log [OF il hm] run_commit_steps(2) [OF 2(2), of s] in \<open>auto simp: in_log_def\<close>)
  next
    case 3
    obtain t where t: "each (\<lambda>f. f) (take j (commit_steps n)) s = Inr t" "hdr_n (disk t S) = 0"
      "\<And>m. m \<notin> region S \<Longrightarrow> disk t m = view s m"
      using stage_done [OF a] reachedD(5) unfolding S_def 3 run_commit_steps(3) by metis
    show thesis
      by (rule that [of t]) (use t 3 empty log_abs_empty [of "disk t" S] in auto)
  qed
qed

lemma commit_disks:
  assumes a: "ready s i n"
  defines "S \<equiv> log_start (log s)" and "bs \<equiv> lh_block (log s)"
  defines "d \<equiv> (logged S bs n (view s) (disk s))(S := put_header n bs (view s S))"
  shows "\<lbrakk>j \<le> n; each (\<lambda>f. f) (take j (commit_steps n)) s = Inr t\<rbrakk> \<Longrightarrow> disk t = logged S bs j (view s) (disk s)"
    and "\<lbrakk>k \<le> n; each (\<lambda>f. f) (take (n + 1 + k) (commit_steps n)) s = Inr t\<rbrakk> \<Longrightarrow> disk t = installed S bs k d"
    and "each (\<lambda>f. f) (take (2 * n + 2) (commit_steps n)) s = Inr t \<Longrightarrow> \<exists>x. disk t = (installed S bs n d)(S := x)"
proof -
  show "disk t = logged S bs j (view s) (disk s)" if j: "j \<le> n" "each (\<lambda>f. f) (take j (commit_steps n)) s = Inr t"
  proof -
    obtain u where "each write_log_one [0..<j] s = Inr u" "disk u = logged S bs j (view s) (disk s)"
      using stage_logged [OF a j(1)] reachedD(5) unfolding S_def bs_def by metis
    then show ?thesis using j(2) unfolding run_commit_steps(1) [OF j(1)] by simp
  qed
  show "disk t = installed S bs k d" if k: "k \<le> n" "each (\<lambda>f. f) (take (n + 1 + k) (commit_steps n)) s = Inr t"
  proof -
    obtain u where "bnd (bnd (each write_log_one [0..<n] s) write_head) (each install_one [0..<k]) = Inr u"
      "disk u = installed S bs k d"
      using stage_installed [OF a k(1)] reachedD(5) unfolding S_def bs_def d_def by metis
    then show ?thesis using k(2) unfolding run_commit_steps(2) [OF k(1)] by (metis sum.inject(2))
  qed
  show "\<exists>x. disk t = (installed S bs n d)(S := x)" if f: "each (\<lambda>f. f) (take (2 * n + 2) (commit_steps n)) s = Inr t"
  proof -
    obtain u where "bnd (bnd (bnd (each write_log_one [0..<n] s) write_head) (each install_one [0..<n]))
        (\<lambda>s. write_head (upd_log clear_log s)) = Inr u" "\<exists>x. disk u = (installed S bs n d)(S := x)"
      using stage_done [OF a] reachedD(5) unfolding S_def bs_def d_def by metis
    then show ?thesis using f unfolding run_commit_steps(3) by (metis sum.inject(2))
  qed
qed

lemma commit_step_writes:
  assumes a: "ready s i n" and j: "j < 2 * n + 2" and t: "each (\<lambda>f. f) (take j (commit_steps n)) s = Inr t"
    and u: "each (\<lambda>f. f) (take (Suc j) (commit_steps n)) s = Inr u"
  shows "\<exists>m x. disk u = (disk t)(m := x)"
proof -
  note c = commit_disks [OF a]
  consider "j < n" | "j = n" | k where "j = n + 1 + k" "k < n" | "j = n + 1 + n"
  proof (cases "j \<le> n \<or> j = n + 1 + n")
    case False
    then have "j = n + 1 + (j - n - 1)" "j - n - 1 < n" using j by auto
    then show thesis by (rule that(3))
  qed (use that in force)
  then show ?thesis
  proof cases
    case 1
    then show ?thesis using c(1) [OF _ t] c(1) [OF _ u] by (auto simp: logged_Suc)
  next
    case 2
    then show ?thesis using c(1) [OF _ t] c(2) [of 0 u] u by auto
  next
    case (3 k)
    then show ?thesis using c(2) [of k t] c(2) [of "Suc k" u] t u by (auto simp: installed_Suc)
  next
    case 4
    then have "Suc j = 2 * n + 2" by simp
    then show ?thesis using c(2) [of n t] c(3) [of u] t u 4 by (auto simp: mult_2)
  qed
qed

lemma commit_runs:
  assumes a: "ready s i n" and "0 < n"
  obtains t where "commit s = Inr t" "each (\<lambda>f. f) (take (2 * n + 2) (commit_steps n)) s = Inr t"
    "calm t i" "pinned t = {}" "view t = disk t" "hdr_n (disk t (log_start (log s))) = 0"
    "\<And>m. m \<notin> region (log_start (log s)) \<Longrightarrow> disk t m = view s m" "log t = clear_log (log s)" "disksize t = disksize s"
proof -
  obtain t v d where t: "bnd (bnd (bnd (each write_log_one [0..<n] s) write_head) (each install_one [0..<n]))
      (\<lambda>s. write_head (upd_log clear_log s)) = Inr t"
    and r: "reached (upd_log clear_log s) i t v d {} {}" and h: "hdr_n (d (log_start (log s))) = 0"
    and o: "\<And>m. m \<notin> region (log_start (log s)) \<Longrightarrow> d m = view s m" "v = d"
    using stage_done [OF a] by metis
  obtain s2 where s2: "bnd (each write_log_one [0..<n] s) write_head = Inr s2"
    and r2: "bio_step s s2"
    using stage_header [OF a] reachedD(1) by metis
  have wl: "write_log s = each write_log_one [0..<n] s" by (simp add: write_log_def readyD(3) [OF a])
  have it: "install_trans s2 = each install_one [0..<n] s2"
    by (simp add: install_trans_def bio_step_log [OF r2] readyD(3) [OF a])
  have "commit s = bnd (bnd (bnd (write_log s) write_head) install_trans) (\<lambda>s. write_head (upd_log clear_log s))"
    using assms(2) readyD(3) [OF a] by (simp add: commit_def bnd_assoc clear_log_def [abs_def])
  then have "commit s = Inr t" using t s2 it wl by simp
  moreover have "log t = clear_log (log s)" using bio_step_log [OF reachedD(1) [OF r]] by simp
  moreover have "each (\<lambda>f. f) (take (2 * n + 2) (commit_steps n)) s = Inr t"
    using t by (simp only: run_commit_steps(3))
  ultimately show thesis
    using that h o reachedD [OF r] by (simp add: calm_def)
qed

section \<open>Recording a block in the transaction\<close>

definition record_block :: "u32 \<Rightarrow> log \<Rightarrow> log" where
  "record_block m l = (if m \<in> set (take (nat (lh_n l)) (lh_block l)) then l
     else l\<lparr>lh_block := (lh_block l)[nat (lh_n l) := m], lh_n := lh_n l + 1\<rparr>)"

lemma log_slot_found:
  "\<lbrakk>i + k \<le> length bs; m \<in> set (take k (drop i bs))\<rbrakk> \<Longrightarrow> log_slot bs m k i < i + k \<and> bs ! log_slot bs m k i = m"
proof (induction bs m k i rule: log_slot.induct)
  case (2 bs m k i)
  then have "take (Suc k) (drop i bs) = bs ! i # take k (drop (i + 1) bs)"
    by (simp add: Cons_nth_drop_Suc [symmetric])
  then show ?case using 2 by auto
qed simp

lemma log_slot_new:
  "\<lbrakk>i + k \<le> length bs; m \<notin> set (take k (drop i bs))\<rbrakk> \<Longrightarrow> log_slot bs m k i = i + k"
proof (induction bs m k i rule: log_slot.induct)
  case (2 bs m k i)
  then have "take (Suc k) (drop i bs) = bs ! i # take k (drop (i + 1) bs)"
    by (simp add: Cons_nth_drop_Suc [symmetric])
  then show ?case using 2 by auto
qed simp

lemma record_block_eq:
  fixes m :: u32
  assumes n: "lh_n l = int n" "n \<le> length (lh_block l)"
  defines "j \<equiv> log_slot (lh_block l) m n 0"
  shows "(let l = l\<lparr>lh_block := (lh_block l)[j := m]\<rparr> in if int j = lh_n l then l\<lparr>lh_n := lh_n l + 1\<rparr> else l)
     = record_block m l"
proof (cases "m \<in> set (take n (lh_block l))")
  case True
  then have "j < n" "lh_block l ! j = m" using log_slot_found [of 0 n "lh_block l" m] n(2) by (auto simp: j_def)
  then show ?thesis using True n by (simp add: record_block_def list_update_same_conv)
next
  case False
  then have "j = n" using log_slot_new [of 0 n "lh_block l" m] n(2) by (simp add: j_def)
  then show ?thesis using False n by (simp add: record_block_def)
qed

lemma log_write_reached:
  assumes r: "reached s0 i s v d p l" and b: "owns s b m" and o: "log_outstanding (log s0) \<ge> 1"
    and n: "lh_n (log s0) = int n" "n < LOGSIZE" "int n < log_size (log s0) - 1" "length (lh_block (log s0)) = LOGSIZE"
  shows "\<exists>t. log_write b s = Inr t \<and> reached (upd_log (record_block m) s0) i t v d (insert m p) l
     \<and> (\<forall>c k. owns s c k \<longrightarrow> owns t c k)"
proof -
  have l: "log s = log s0" using bio_step_log reachedD(1) [OF r] by blast
  have id: "cpu_ok (hw s)" "free_lock (hw s) L_log" using reachedD(2) [OF r] by (auto simp: idle_def)
  have bn: "b_blockno (bufs s b) = m" using b by (simp add: owns_def block_of_def)
  let ?r = "s\<lparr>hw := rested (hw s)\<rparr>"
  let ?t = "upd_buf b (\<lambda>q. q\<lparr>b_flags := b_flags q OR B_DIRTY\<rparr>) (upd_log (record_block m) ?r)"
  let ?j = "log_slot (lh_block (log s0)) m n 0"
  let ?a = "s\<lparr>hw := took L_log (hw s)\<rparr>"
  let ?u = "upd_log (\<lambda>l. l\<lparr>lh_block := (lh_block l)[?j := m]\<rparr>) ?a"
  let ?w = "if int ?j = lh_n (log ?u) then upd_log (\<lambda>l. l\<lparr>lh_n := lh_n l + 1\<rparr>) ?u else ?u"
  let ?x = "upd_buf b (\<lambda>q. q\<lparr>b_flags := b_flags q OR B_DIRTY\<rparr>) ?w"
  have w: "?w = upd_log (record_block m) ?a"
    using record_block_eq [OF n(1), of m] n(2,4) l by (cases s) (simp add: upd_log_def Let_def split: if_splits)
  have "log_write b s = release L_log ?x"
    unfolding log_write_def l acquire_eq [OF id] bnd_simps Let_def using n o
    by (simp add: bn l)
  also have "\<dots> = Inr (?x\<lparr>hw := rested (hw s)\<rparr>)"
    by (rule release_took [OF id]) (simp add: w upd_buf_def upd_log_def)
  also have "?x\<lparr>hw := rested (hw s)\<rparr> = ?t"
    unfolding w by (cases s) (simp add: upd_buf_def upd_log_def)
  finally have "log_write b s = Inr ?t" .
  moreover have "owns (upd_log (record_block m) ?r) c k = owns s c k" for c k by (simp add: hw_blocks)
  ultimately show ?thesis
    using pin_reached [OF reached_upd_log [OF reached_rested [OF r]], of "record_block m" b m] b by auto
qed

section \<open>Beginning a transaction\<close>

lemma begin_op_admits:
  assumes "idle s i" "\<not> log_committing (log s)"
    and "lh_n (log s) + (log_outstanding (log s) + 1) * int MAXOPBLOCKS \<le> int LOGSIZE"
  shows "begin_op s = Inr (upd_log (\<lambda>l. l\<lparr>log_outstanding := log_outstanding l + 1\<rparr>) (s\<lparr>hw := rested (hw s)\<rparr>))"
proof -
  have id: "cpu_ok (hw s)" "free_lock (hw s) L_log" using assms(1) by (auto simp: idle_def)
  let ?a = "upd_log (\<lambda>l. l\<lparr>log_outstanding := log_outstanding l + 1\<rparr>) (s\<lparr>hw := took L_log (hw s)\<rparr>)"
  have "begin_op s = release L_log ?a"
    using assms(2,3) by (simp add: begin_op_def acquire_eq [OF id] begin_op_loop_def)
  also have "\<dots> = Inr (?a\<lparr>hw := rested (hw s)\<rparr>)"
    by (rule release_took [OF id]) (simp add: upd_log_def)
  also have "?a\<lparr>hw := rested (hw s)\<rparr> = upd_log (\<lambda>l. l\<lparr>log_outstanding := log_outstanding l + 1\<rparr>) (s\<lparr>hw := rested (hw s)\<rparr>)"
    by (cases s) (simp add: upd_log_def)
  finally show ?thesis .
qed

section \<open>Ending a transaction\<close>

lemma end_op_account_last:
  assumes i: "idle s i" and o: "log_outstanding (log s) = 1" "\<not> log_committing (log s)"
  shows "end_op_account s = Inr (True, upd_log (\<lambda>l. l\<lparr>log_outstanding := 0, log_committing := True\<rparr>) (s\<lparr>hw := rested (hw s)\<rparr>))"
proof -
  have id: "cpu_ok (hw s)" "free_lock (hw s) L_log" using i by (auto simp: idle_def)
  let ?a = "upd_log (\<lambda>l. l\<lparr>log_committing := True\<rparr>) (upd_log (\<lambda>l. l\<lparr>log_outstanding := log_outstanding l - 1\<rparr>) (s\<lparr>hw := took L_log (hw s)\<rparr>))"
  have "release L_log ?a = Inr (?a\<lparr>hw := rested (hw s)\<rparr>)"
    by (rule release_took [OF id]) (simp add: upd_log_def)
  then show ?thesis
    unfolding end_op_account_def acquire_eq [OF id] bnd_simps Let_def using o
    by (cases s) (simp add: upd_log_def)
qed

lemma end_op_finish_eq:
  assumes i: "idle s i"
  shows "end_op_finish s = Inr (upd_log (\<lambda>l. l\<lparr>log_committing := False\<rparr>)
     (s\<lparr>hw := rested (hw s), procs := woken (Some C_log) (procs s)\<rparr>))"
proof -
  have id: "cpu_ok (hw s)" "free_lock (hw s) L_log" "free_lock (hw s) L_ptable" using i by (auto simp: idle_def)
  let ?u = "upd_log (\<lambda>l. l\<lparr>log_committing := False\<rparr>) (s\<lparr>hw := took L_log (hw s)\<rparr>)"
  let ?w = "?u\<lparr>hw := rested (hw ?u), procs := woken (Some C_log) (procs ?u)\<rparr>"
  have w: "wakeup C_log ?u = Inr ?w" by (rule wakeup_eq) (use id in \<open>simp_all add: upd_log_def\<close>)
  have "release L_log ?w = Inr (?w\<lparr>hw := rested (hw s)\<rparr>)"
    by (rule release_took [OF id(1,2)]) (simp add: upd_log_def id)
  then show ?thesis
    unfolding end_op_finish_def acquire_eq [OF id(1,2)] bnd_simps Let_def w
    by (cases s) (simp add: upd_log_def)
qed

lemma end_op_spec:
  assumes a: "ready s i n" and o: "log_outstanding (log s) = 1" "\<not> log_committing (log s)"
  obtains t where "end_op s = Inr t" "calm t i" "pinned t = {}" "view t = disk t"
    "hdr_n (disk t (log_start (log s))) = 0"
    "\<And>m. m \<notin> region (log_start (log s)) \<Longrightarrow> disk t m = view s m"
    "log t = (log s)\<lparr>lh_n := 0, log_outstanding := 0, log_committing := False\<rparr>"
    "procs t = woken (Some C_log) (procs t)" "disksize t = disksize s"
proof -
  let ?s = "upd_log (\<lambda>l. l\<lparr>log_outstanding := 0, log_committing := True\<rparr>) (s\<lparr>hw := rested (hw s)\<rparr>)"
  have i: "idle s i" using a by (simp add: ready_def calm_def)
  have a': "ready ?s i n"
    using a idle_rested [OF i] by (simp add: ready_def calm_def hw_blocks log_at_def)
  obtain u where u: "commit ?s = Inr u" "calm u i" "pinned u = {}" "view u = disk u" "hdr_n (disk u (log_start (log s))) = 0"
    "\<And>m. m \<notin> region (log_start (log s)) \<Longrightarrow> disk u m = view s m" "log u = clear_log (log ?s)" "disksize u = disksize s"
  proof (cases "n = 0")
    case True
    then have "commit ?s = Inr ?s" "pinned s = {}" "clear_log (log ?s) = log ?s"
      using readyD(3,6) [OF a] by (simp_all add: commit_def clear_log_def)
    moreover have "view s = disk s" using readyD(10) [OF a] \<open>pinned s = {}\<close> by blast
    ultimately show thesis using that [of ?s] a' readyD(11) [OF a] by (simp add: ready_def hw_blocks)
  next
    case False
    then show thesis using commit_runs [OF a'] that by (auto simp: hw_blocks)
  qed
  let ?t = "upd_log (\<lambda>l. l\<lparr>log_committing := False\<rparr>) (u\<lparr>hw := rested (hw u), procs := woken (Some C_log) (procs u)\<rparr>)"
  have iu: "idle u i" using u(2) by (simp add: calm_def)
  have "end_op s = Inr ?t"
    using end_op_account_last [OF i o] u(1) end_op_finish_eq [OF iu] by (simp add: end_op_def)
  moreover have "calm ?t i" using u(2) idle_rested [OF iu] by (simp add: calm_def hw_blocks procs_blocks idle_def)
  moreover have "woken (Some C_log) (woken (Some C_log) P) = woken (Some C_log) P" for P by (simp add: woken_def fun_eq_iff)
  ultimately show thesis
    using that [of ?t] u(3-8) by (simp add: hw_blocks procs_blocks clear_log_def) (simp add: upd_log_def)
qed

section \<open>Writing a block inside a transaction\<close>

text \<open>\<^verbatim>\<open>bread\<close>, a change of the data, \<^verbatim>\<open>log_write\<close> and \<^verbatim>\<open>brelse\<close>: how the file system writes.\<close>

definition log_room :: "log \<Rightarrow> nat \<Rightarrow> bool" where
  "log_room l n \<longleftrightarrow> log_outstanding l \<ge> 1 \<and> lh_n l = int n \<and> n < LOGSIZE \<and> int n < log_size l - 1
     \<and> length (lh_block l) = LOGSIZE"

lemma txn_write_reached:
  assumes r: "reached s0 i s v d p {}" and lr: "log_room (log s0) n" and dev: "dv = 1"
    and m: "m < disksize s0" and p: "card p < NBUF" and f: "length (f (v m)) = BSIZE"
  shows "\<exists>t. bnd (bread dv m s) (\<lambda>(b, s). bnd (log_write b (upd_buf b (\<lambda>q. q\<lparr>b_data := f (b_data q)\<rparr>) s)) (brelse b)) = Inr t
     \<and> reached (upd_log (record_block m) s0) i t (v(m := f (v m))) d (insert m p) {}"
proof -
  obtain b s1 where b: "bread 1 m s = Inr (b, s1)" and r1: "reached s0 i s1 v d p {m}" and o1: "owns s1 b m"
    using bread_reached [OF r m] p by auto
  let ?s2 = "upd_buf b (\<lambda>q. q\<lparr>b_data := f (v m)\<rparr>) s1"
  have e: "upd_buf b (\<lambda>q. q\<lparr>b_data := f (b_data q)\<rparr>) s1 = ?s2"
    using reached_data [OF r1 o1] by (simp add: upd_buf_def)
  have r2: "reached s0 i ?s2 (v(m := f (v m))) d p {m}" and o2: "owns ?s2 b m"
    using set_data_reached [OF r1 o1 f] o1 by auto
  obtain s3 where w: "log_write b ?s2 = Inr s3" "owns s3 b m"
    and r3: "reached (upd_log (record_block m) s0) i s3 (v(m := f (v m))) d (insert m p) {m}"
    using log_write_reached [OF r2 o2] lr o2 by (auto simp: log_room_def)
  obtain t where "brelse b s3 = Inr t" "reached (upd_log (record_block m) s0) i t (v(m := f (v m))) d (insert m p) {}"
    using brelse_reached [OF r3 w(2)] by auto
  then show ?thesis using b e w(1) dev by simp
qed

section \<open>A transaction of one block\<close>

definition new_log :: log where
  "new_log = \<lparr>log_start = 2, log_size = 30, log_outstanding = 1, log_committing = False, log_dev = 1, lh_n = 0,
     lh_block = replicate LOGSIZE 0\<rparr>"

lemma more_log: "bst.more s = lst.fields l \<Longrightarrow> log s = l" for s :: lst
  by (cases s) (simp add: lst.defs)

lemma new_log_at:
  fixes s :: lst
  assumes "log s = new_log" "disksize s = 1000"
  shows "log_at s" "log_fits 2 1000" "100 \<notin> region 2"
  using assms by (simp_all add: log_at_def new_log_def log_fits_def region_def LOGSIZE_def MAXOPBLOCKS_def)

lemma hdr_n_zero: "hdr_n (replicate BSIZE 0) = 0"
  by (simp add: hdr_n_def get32_def get_bytes_def BSIZE_def numeral_eq_Suc)

lemma fresh_log:
  obtains s :: lst where "rebooted s 0" "log s = new_log" "view s = (\<lambda>_. replicate BSIZE 0)"
    "disk s = (\<lambda>_. replicate BSIZE 0)" "disksize s = 1000"
proof -
  obtain s :: lst where s: "calm s 0" "bst.more s = lst.fields new_log" "disksize s = 1000"
    "view s = (\<lambda>_. replicate BSIZE 0)" "disk s = (\<lambda>_. replicate BSIZE 0)" "pinned s = {}"
    using calm_zeroed by metis
  note l = more_log [OF s(2)]
  have "rebooted s 0" using s l new_log_at [OF l s(3)] by (simp add: rebooted_def new_log_def)
  then show thesis using that l s by blast
qed

lemma one_block_txn:
  obtains s :: lst where "ready s 0 1" "view s = (\<lambda>_. replicate BSIZE 0)(100 := replicate BSIZE 1)"
    "disk s = (\<lambda>_. replicate BSIZE 0)" "log_start (log s) = 2" "log_outstanding (log s) = 1"
    "\<not> log_committing (log s)" "disksize s = 1000"
proof -
  obtain s :: lst where s: "rebooted s 0" "log s = new_log" "view s = (\<lambda>_. replicate BSIZE 0)"
    "disk s = (\<lambda>_. replicate BSIZE 0)" "disksize s = 1000"
    using fresh_log .
  then have c: "idle s 0" "cache_ok s" "locked_blocks s = {}" "pinned s = {}" by (auto simp: rebooted_def calm_def)
  have r: "reached s 0 s (view s) (disk s) {} {}" using reached_refl [OF c(1,2)] c(3,4) by simp
  have lr: "log_room (log s) 0" by (simp add: log_room_def s(2) new_log_def LOGSIZE_def MAXOPBLOCKS_def)
  obtain t where t: "reached (upd_log (record_block 100) s) 0 t ((view s)(100 := replicate BSIZE 1)) (disk s) {100} {}"
    using txn_write_reached [OF r lr refl, of 100 "\<lambda>_. replicate BSIZE 1"] s(5) by (auto simp: NBUF_def MAXOPBLOCKS_def)
  note d = reachedD [OF t]
  have l: "log t = new_log\<lparr>lh_block := (replicate LOGSIZE 0)[0 := 100], lh_n := 1\<rparr>"
    using bio_step_log [OF d(1)] s(2) by (simp add: record_block_def new_log_def)
  have tk: "take (Suc 0) ((replicate LOGSIZE 0)[0 := (100::u32)]) = [100]" by (simp add: LOGSIZE_def MAXOPBLOCKS_def numeral_eq_Suc)
  have "ready t 0 1"
    using d s(4,5) new_log_at [OF s(2,5)] hdr_n_zero
    by (simp add: ready_def calm_def l tk log_at_def new_log_def homes_def) (simp add: NBUF_def LOGSIZE_def MAXOPBLOCKS_def)
  then show thesis using that [of t] d s l by (simp add: new_log_def)
qed

section \<open>Properties of the log\<close>



lemma run_recover_steps:
  fixes u :: "'a lst_scheme"
  shows "k \<le> n \<Longrightarrow> each (\<lambda>f. f) (take (Suc k) (recover_steps n)) u = bnd (read_head u) (each install_one [0..<k])"
    and "each (\<lambda>f. f) (take (n + 2) (recover_steps n)) u =
      bnd (bnd (read_head u) (each install_one [0..<n])) (\<lambda>s. write_head (upd_log clear_log s))"
proof -
  have em: "each (\<lambda>f. f) (map g zs) = each g zs" "each (\<lambda>f. f) (xs @ ys) = (\<lambda>s. bnd (each (\<lambda>f. f) xs s) (each (\<lambda>f. f) ys))"
    for g :: "'d \<Rightarrow> 'b \<Rightarrow> 'c + 'b" and zs and xs ys :: "('b \<Rightarrow> 'c + 'b) list"
    by (rule ext, simp add: each_map each_append)+
  show "each (\<lambda>f. f) (take (Suc k) (recover_steps n)) u = bnd (read_head u) (each install_one [0..<k])" if "k \<le> n"
    using that by (simp add: recover_steps_def take_map take_upt em)
  have "take (n + 2) (recover_steps n :: ('a lst_scheme \<Rightarrow> _) list) = recover_steps n" by (simp add: recover_steps_def)
  then show "each (\<lambda>f. f) (take (n + 2) (recover_steps n)) u =
      bnd (bnd (read_head u) (each install_one [0..<n])) (\<lambda>s. write_head (upd_log clear_log s))"
    by (simp only: recover_steps_def each_append each_single em bnd_assoc append_Cons append_Nil each.simps)
qed

lemma recover_prefix:
  fixes u :: "'a lst_scheme"
  assumes u: "rebooted u i" and h: "homes (log_start (log u)) (disksize u) (hdr_blocks (disk u (log_start (log u))))"
  defines "S \<equiv> log_start (log u)"
  assumes j: "j \<le> hdr_n (disk u S) + 2"
  obtains t where "each (\<lambda>f. f) (take j (recover_steps (hdr_n (disk u S)))) u = Inr t"
    "homes S (disksize u) (hdr_blocks (disk t S))"
    "\<And>m. m \<notin> region S \<Longrightarrow> log_abs S (disk t) m = log_abs S (disk u) m"
    "j = hdr_n (disk u S) + 2 \<Longrightarrow> recover_from_log u = Inr t"
proof -
  let ?n = "hdr_n (disk u S)" and ?bs = "hdr_blocks (disk u S)"
  have fit: "log_fits S (disksize u)" using u log_at_fits by (auto simp: rebooted_def S_def)
  consider "j = 0" | k where "j = Suc k" "k \<le> ?n" | "j = ?n + 2"
    using j by (cases j) (auto simp: le_Suc_eq)
  then show thesis
  proof cases
    case 1 then show ?thesis using that [of u] h by (simp add: S_def)
  next
    case (2 k)
    obtain t where t: "bnd (read_head u) (each install_one [0..<k]) = Inr t" "disk t = installed S ?bs k (disk u)"
      using recover_installed [OF u h 2(2) [unfolded S_def]] reachedD(5) unfolding S_def by metis
    have hm: "homes S (disksize u) ?bs" using h by (simp add: S_def)
    have il: "in_log S (disksize u) ?bs (log_abs S (disk u)) (disk t)"
      unfolding t(2) using 2(2) by (intro in_log_installed [OF in_log_self [of S _ "disk u", OF hm] hm _ fit]) simp
    then have "hdr_blocks (disk t S) = ?bs" by (simp add: in_log_def)
    then show ?thesis
      using that [of t] t(1) 2 hm log_abs_in_log [OF il hm] run_recover_steps(1) [OF 2(2), of u] by auto
  next
    case 3
    obtain w x where w: "recover_from_log u = Inr w" "hdr_n x = 0" "disk w = (log_abs S (disk u))(S := x)"
      using recover_done [OF u h] unfolding S_def by metis
    have "bnd (bnd (read_head u) (each install_one [0..<?n])) (\<lambda>s. write_head (upd_log clear_log s)) = Inr w"
      using w(1) recover_run [OF u h] by (simp add: S_def)
    then have "each (\<lambda>f. f) (take j (recover_steps ?n)) u = Inr w" by (simp only: 3 run_recover_steps(2))
    moreover have "hdr_blocks (disk w S) = []" using w(2,3) by (simp add: hdr_blocks_def)
    moreover have "log_abs S (disk w) m = log_abs S (disk u) m" if "m \<notin> region S" for m
      using w(2,3) log_abs_empty [of "disk w" S] that by (auto simp: region_def)
    ultimately show ?thesis using that [of w] w(1) by (simp add: homes_def)
  qed
qed





text \<open>
  C28: \<^verbatim>\<open>begin_op\<close> promises every operation it admits \<open>MAXOPBLOCKS\<close> blocks of the log, against \<open>LOGSIZE\<close>; but
  \<^verbatim>\<open>log_write\<close> gives up one block earlier, since one of the \<open>log.size\<close> blocks is the header. On a
  file system with \<open>nlog = LOGSIZE\<close>, the third of three operations is admitted although one of them
  panics when together they write the blocks they were promised.
\<close>

theorem log_overcommitted:
  assumes "idle s i" "\<not> log_committing (log s)" "lh_n (log s) = 0" "log_outstanding (log s) = 2"
    and "log_size (log s) = int LOGSIZE"
  shows "\<exists>t. begin_op s = Inr t \<and> log_outstanding (log t) = 3
    \<and> (\<forall>b u. log_size (log u) = log_size (log t) \<and> lh_n (log u) = log_outstanding (log t) * int MAXOPBLOCKS - 1
         \<longrightarrow> log_write b u = Inl (Panic ''too big a transaction''))"
proof -
  have "lh_n (log s) + (log_outstanding (log s) + 1) * int MAXOPBLOCKS \<le> int LOGSIZE"
    using assms by (simp add: LOGSIZE_def MAXOPBLOCKS_def)
  note b = begin_op_admits [OF assms(1,2) this]
  let ?t = "upd_log (\<lambda>l. l\<lparr>log_outstanding := log_outstanding l + 1\<rparr>) (s\<lparr>hw := rested (hw s)\<rparr>)"
  have "log_write b u = Inl (Panic ''too big a transaction'')"
    if "log_size (log u) = log_size (log ?t)" "lh_n (log u) = log_outstanding (log ?t) * int MAXOPBLOCKS - 1"
    for b and u :: "'b lst_scheme"
    using that assms by (simp add: log_write_def LOGSIZE_def MAXOPBLOCKS_def)
  then show ?thesis using b assms(4) by auto
qed

theorem log_overcommitted_witness:
  "\<exists>(s::lst) t. begin_op s = Inr t \<and> log_outstanding (log t) = 3
     \<and> log_write 0 (upd_log (\<lambda>l. l\<lparr>lh_n := 29\<rparr>) t) = Inl (Panic ''too big a transaction'')"
proof -
  obtain s :: lst where s: "rebooted s 0" "log s = new_log" using fresh_log by metis
  let ?s = "upd_log (\<lambda>l. l\<lparr>log_outstanding := 2\<rparr>) s"
  have "idle ?s 0" using s(1) by (simp add: rebooted_def calm_def)
  moreover have "\<not> log_committing (log ?s)" "lh_n (log ?s) = 0" "log_outstanding (log ?s) = 2" "log_size (log ?s) = int LOGSIZE"
    by (simp_all add: s(2) new_log_def LOGSIZE_def MAXOPBLOCKS_def)
  ultimately obtain t where "begin_op ?s = Inr t" "log_outstanding (log t) = 3"
    "\<And>b (u::lst). log_size (log u) = log_size (log t) \<and> lh_n (log u) = log_outstanding (log t) * int MAXOPBLOCKS - 1
         \<Longrightarrow> log_write b u = Inl (Panic ''too big a transaction'')"
    using log_overcommitted [of ?s 0] by blast
  then show ?thesis by (intro exI [of _ ?s] exI [of _ t]) (simp add: MAXOPBLOCKS_def)
qed

end
