(* ===== verification/Umem.thy ===== *)
theory Umem
  imports Vm
begin

text \<open>
  How kernel code reads and writes through a pointer a user process passed in: the
  processor translates the address with the page directory in its \<^verbatim>\<open>cr3\<close> register. Kernel
  addresses are the addresses of the byte memory. An access to a page that is not present, or
  a write to one that is not writable, is a page fault.
\<close>

definition upte :: "u32 \<Rightarrow> 'a kmst_scheme \<Rightarrow> u32" where
  "upte va s =
     (let pgdir = P2V (cr3 (hw s) (lapicid (hw s)));
          pde = rd32 (pgdir + 4 * PDX va) s in
      if pde AND PTE_P = 0 then 0 else rd32 (P2V (PTE_ADDR pde) + 4 * PTX va) s)"

definition ukaddr :: "u32 \<Rightarrow> 'a kmst_scheme \<Rightarrow> u32" where
  "ukaddr va s = P2V (PTE_ADDR (upte va s)) + (va AND 0xFFF)"

definition uload :: "u32 \<Rightarrow> 'a kmst_scheme \<Rightarrow> 'a kmst_scheme stop + u8" where
  "uload va s =
     (if va \<ge> KERNBASE then Inr (mem s va)
      else if upte va s AND PTE_P = 0 then Inl (Fault ''page fault'')
      else Inr (mem s (ukaddr va s)))"

definition ustore :: "u32 \<Rightarrow> u8 \<Rightarrow> 'a kmst_scheme \<Rightarrow> 'a kmst_scheme stop + 'a kmst_scheme" where
  "ustore va v s =
     (if va \<ge> KERNBASE then Inr (s\<lparr>mem := (mem s)(va := v)\<rparr>)
      else if upte va s AND PTE_P = 0 \<or> upte va s AND PTE_W = 0 then Inl (Fault ''page fault'')
      else Inr (s\<lparr>mem := (mem s)(ukaddr va s := v)\<rparr>))"

fun uread :: "nat \<Rightarrow> u32 \<Rightarrow> 'a kmst_scheme \<Rightarrow> 'a kmst_scheme stop + u8 list" where
  "uread 0 va s = Inr []"
| "uread (Suc n) va s = bnd (uload va s) (\<lambda>c. bnd (uread n (va + 1) s) (\<lambda>cs. Inr (c # cs)))"

fun uwrite :: "u32 \<Rightarrow> u8 list \<Rightarrow> 'a kmst_scheme \<Rightarrow> 'a kmst_scheme stop + 'a kmst_scheme" where
  "uwrite va [] s = Inr s"
| "uwrite va (c # cs) s = bnd (ustore va c s) (uwrite (va + 1) cs)"

text \<open>
  Where a routine such as \<^verbatim>\<open>readi\<close> leaves the bytes it reads: at an address, or in a local
  variable of the caller, which gets them back as a list in both cases.
\<close>

datatype dest = At u32 | Local

definition deliver :: "dest \<Rightarrow> nat \<Rightarrow> u8 list \<Rightarrow> 'a kmst_scheme \<Rightarrow> 'a kmst_scheme stop + 'a kmst_scheme" where
  "deliver d i xs s = (case d of At a \<Rightarrow> uwrite (a + of_nat i) xs s | Local \<Rightarrow> Inr s)"

end
