(* ===== verification/Fs.thy ===== *)
theory Fs
  imports Log Umem
begin

text \<open>
  Disk blocks and inodes (the first half of \<^verbatim>\<open>fs.c\<close>): the block allocator, the inode cache, inode
  locking and reference counts, the mapping from file blocks to disk blocks, truncation. An
  inode pointer is an index into \<^verbatim>\<open>icache.inode\<close>; its lock is the sleep lock \<open>SL_inode\<close> of the
  index.
\<close>

definition T_DIR :: u16 where "T_DIR = 1"
definition T_FILE :: u16 where "T_FILE = 2"
definition T_DEV :: u16 where "T_DEV = 3"

record inode =
  i_dev :: u32
  i_inum :: u32
  i_ref :: int
  i_valid :: bool
  i_type :: u16
  i_major :: u16
  i_minor :: u16
  i_nlink :: u16
  i_size :: u32
  i_addrs :: "u32 list"

record fsst = lst +
  sb :: superblock
  icache :: "nat \<Rightarrow> inode"

definition upd_inode :: "nat \<Rightarrow> (inode \<Rightarrow> inode) \<Rightarrow> 'a fsst_scheme \<Rightarrow> 'a fsst_scheme" where
  "upd_inode ip f s = s\<lparr>icache := (icache s)(ip := f (icache s ip))\<rparr>"

section \<open>Blocks\<close>

definition bzero :: "u32 \<Rightarrow> u32 \<Rightarrow> 'a fsst_scheme \<Rightarrow> 'a fsst_scheme stop + 'a fsst_scheme" where
  "bzero dev bno s =
     bnd (bread dev bno s) (\<lambda>(bp, s).
       let s = upd_buf bp (\<lambda>q. q\<lparr>b_data := replicate BSIZE 0\<rparr>) s in
     bnd (log_write bp s) (brelse bp))"

definition bit_mask :: "nat \<Rightarrow> u8" where
  "bit_mask bi = push_bit (bi mod 8) 1"

text \<open>The inner loop of \<^verbatim>\<open>balloc\<close>: the first clear bit of the bitmap block for \<open>b\<close>.\<close>

definition free_bit :: "nat \<Rightarrow> nat \<Rightarrow> block \<Rightarrow> nat option" where
  "free_bit b sz d =
     List.find (\<lambda>bi. b + bi < sz \<and> d ! (bi div 8) AND bit_mask bi = 0) [0..<BPB]"

function balloc_loop ::
  "u32 \<Rightarrow> nat \<Rightarrow> nat \<Rightarrow> 'a fsst_scheme \<Rightarrow> 'a fsst_scheme stop + (u32 \<times> 'a fsst_scheme)" where
  "balloc_loop dev sz b s =
     (if b < sz
      then bnd (bread dev (BBLOCK (of_nat b) (sb s)) s) (\<lambda>(bp, s).
        case free_bit b sz (b_data (bufs s bp)) of
          Some bi \<Rightarrow>
            let s = upd_buf bp (\<lambda>q. q\<lparr>b_data := (b_data q)[bi div 8 :=
                      b_data q ! (bi div 8) OR bit_mask bi]\<rparr>) s in
            bnd (log_write bp s) (\<lambda>s.
            bnd (brelse bp s) (\<lambda>s.
            bnd (bzero dev (of_nat (b + bi)) s) (\<lambda>s. Inr (of_nat (b + bi), s))))
        | None \<Rightarrow> bnd (brelse bp s) (\<lambda>s. balloc_loop dev sz (b + BPB) s))
      else Inl (Panic ''balloc: out of blocks''))"
  by pat_completeness auto
termination by (relation "measure (\<lambda>(dev, sz, b, s). sz - b)") (auto simp: fs_consts)

declare balloc_loop.simps [simp del]

definition balloc :: "u32 \<Rightarrow> 'a fsst_scheme \<Rightarrow> 'a fsst_scheme stop + (u32 \<times> 'a fsst_scheme)" where
  "balloc dev s = balloc_loop dev (unat (sb_size (sb s))) 0 s"

definition bfree :: "u32 \<Rightarrow> u32 \<Rightarrow> 'a fsst_scheme \<Rightarrow> 'a fsst_scheme stop + 'a fsst_scheme" where
  "bfree dev b s =
     bnd (readsb dev s) (\<lambda>(x, s).
       let s = s\<lparr>sb := x\<rparr> in
     bnd (bread dev (BBLOCK b (sb s)) s) (\<lambda>(bp, s).
       let bi = unat b mod BPB; d = b_data (bufs s bp) in
       if d ! (bi div 8) AND bit_mask bi = 0 then Inl (Panic ''freeing free block'')
       else let s = upd_buf bp (\<lambda>q. q\<lparr>b_data := d[bi div 8 := d ! (bi div 8) AND NOT (bit_mask bi)]\<rparr>) s
            in bnd (log_write bp s) (brelse bp)))"

section \<open>Inodes\<close>

definition iinit :: "u32 \<Rightarrow> 'a fsst_scheme \<Rightarrow> 'a fsst_scheme stop + 'a fsst_scheme" where
  "iinit dev s =
     (let s = initlock L_icache s;
          s = fold (\<lambda>i. initsleeplock (SL_inode i)) [0..<NINODE] s
      in bnd (readsb dev s) (\<lambda>(x, s). Inr (s\<lparr>sb := x\<rparr>)))"

definition iget :: "u32 \<Rightarrow> u32 \<Rightarrow> 'a fsst_scheme \<Rightarrow> 'a fsst_scheme stop + (nat \<times> 'a fsst_scheme)" where
  "iget dev inum s =
     bnd (acquire L_icache s) (\<lambda>s.
       case List.find (\<lambda>i. i_ref (icache s i) > 0 \<and> i_dev (icache s i) = dev
                         \<and> i_inum (icache s i) = inum) [0..<NINODE] of
         Some ip \<Rightarrow>
           let s = upd_inode ip (\<lambda>i. i\<lparr>i_ref := i_ref i + 1\<rparr>) s
           in bnd (release L_icache s) (\<lambda>s. Inr (ip, s))
       | None \<Rightarrow>
           (case List.find (\<lambda>i. i_ref (icache s i) = 0) [0..<NINODE] of
              None \<Rightarrow> Inl (Panic ''iget: no inodes'')
            | Some ip \<Rightarrow>
                let s = upd_inode ip (\<lambda>i. i\<lparr>i_dev := dev, i_inum := inum, i_ref := 1,
                          i_valid := False\<rparr>) s
                in bnd (release L_icache s) (\<lambda>s. Inr (ip, s))))"

definition inode_off :: "u32 \<Rightarrow> nat" where
  "inode_off inum = (unat inum mod IPB) * 64"

function ialloc_loop ::
  "u32 \<Rightarrow> u16 \<Rightarrow> nat \<Rightarrow> nat \<Rightarrow> 'a fsst_scheme \<Rightarrow> 'a fsst_scheme stop + (nat \<times> 'a fsst_scheme)" where
  "ialloc_loop dev type ninodes inum s =
     (if inum < ninodes
      then bnd (bread dev (IBLOCK (of_nat inum) (sb s)) s) (\<lambda>(bp, s).
        let off = inode_off (of_nat inum) in
        if d_type (get_dinode off (b_data (bufs s bp))) = 0
        then let s = upd_buf bp (\<lambda>q. q\<lparr>b_data := put16 off type
                       (set_bytes off (replicate 64 0) (b_data q))\<rparr>) s in
             bnd (log_write bp s) (\<lambda>s.
             bnd (brelse bp s) (\<lambda>s. iget dev (of_nat inum) s))
        else bnd (brelse bp s) (\<lambda>s. ialloc_loop dev type ninodes (inum + 1) s))
      else Inl (Panic ''ialloc: no inodes''))"
  by pat_completeness auto
termination by (relation "measure (\<lambda>(dev, type, ninodes, inum, s). ninodes - inum)") auto

declare ialloc_loop.simps [simp del]

definition ialloc :: "u32 \<Rightarrow> u16 \<Rightarrow> 'a fsst_scheme \<Rightarrow> 'a fsst_scheme stop + (nat \<times> 'a fsst_scheme)" where
  "ialloc dev type s = ialloc_loop dev type (unat (sb_ninodes (sb s))) 1 s"

definition dinode_of :: "inode \<Rightarrow> dinode" where
  "dinode_of i = \<lparr>d_type = i_type i, d_major = i_major i, d_minor = i_minor i,
     d_nlink = i_nlink i, d_size = i_size i, d_addrs = i_addrs i\<rparr>"

definition iupdate :: "nat \<Rightarrow> 'a fsst_scheme \<Rightarrow> 'a fsst_scheme stop + 'a fsst_scheme" where
  "iupdate ip s =
     (let i = icache s ip in
      bnd (bread (i_dev i) (IBLOCK (i_inum i) (sb s)) s) (\<lambda>(bp, s).
        let s = upd_buf bp (\<lambda>q. q\<lparr>b_data :=
                  put_dinode (inode_off (i_inum i)) (dinode_of (icache s ip)) (b_data q)\<rparr>) s
        in bnd (log_write bp s) (brelse bp)))"

definition idup :: "nat \<Rightarrow> 'a fsst_scheme \<Rightarrow> 'a fsst_scheme stop + (nat \<times> 'a fsst_scheme)" where
  "idup ip s =
     bnd (acquire L_icache s) (\<lambda>s.
       let s = upd_inode ip (\<lambda>i. i\<lparr>i_ref := i_ref i + 1\<rparr>) s
       in bnd (release L_icache s) (\<lambda>s. Inr (ip, s)))"

text \<open>
  \<^verbatim>\<open>ilock\<close>: a null pointer is the index of no inode; the callers that could pass one test for it
  first. \<open>ilock_load\<close> is the part after the lock is taken, where a process that had to wait
  for the lock goes on.
\<close>

definition ilock_load :: "nat \<Rightarrow> 'a fsst_scheme \<Rightarrow> 'a fsst_scheme stop + 'a fsst_scheme" where
  "ilock_load ip s =
     (if \<not> i_valid (icache s ip)
      then let i = icache s ip in
           bnd (bread (i_dev i) (IBLOCK (i_inum i) (sb s)) s) (\<lambda>(bp, s).
             let d = get_dinode (inode_off (i_inum i)) (b_data (bufs s bp));
                 s = upd_inode ip (\<lambda>i. i\<lparr>i_type := d_type d, i_major := d_major d,
                       i_minor := d_minor d, i_nlink := d_nlink d, i_size := d_size d,
                       i_addrs := d_addrs d\<rparr>) s in
             bnd (brelse bp s) (\<lambda>s.
               let s = upd_inode ip (\<lambda>i. i\<lparr>i_valid := True\<rparr>) s in
               if i_type (icache s ip) = 0 then Inl (Panic ''ilock: no type'') else Inr s))
      else Inr s)"

definition ilock :: "nat \<Rightarrow> 'a fsst_scheme \<Rightarrow> 'a fsst_scheme stop + 'a fsst_scheme" where
  "ilock ip s =
     (if i_ref (icache s ip) < 1 then Inl (Panic ''ilock'')
      else bnd (acquiresleep (SL_inode ip) s) (ilock_load ip))"

definition iunlock :: "nat \<Rightarrow> 'a fsst_scheme \<Rightarrow> 'a fsst_scheme stop + 'a fsst_scheme" where
  "iunlock ip s =
     bnd (holdingsleep (SL_inode ip) s) (\<lambda>(h, s).
       if \<not> h \<or> i_ref (icache s ip) < 1 then Inl (Panic ''iunlock'')
       else releasesleep (SL_inode ip) s)"

section \<open>Blocks of a file\<close>

definition bmap :: "nat \<Rightarrow> nat \<Rightarrow> 'a fsst_scheme \<Rightarrow> 'a fsst_scheme stop + (u32 \<times> 'a fsst_scheme)" where
  "bmap ip bn s =
     (if bn < NDIRECT
      then let addr = i_addrs (icache s ip) ! bn in
           if addr = 0
           then bnd (balloc (i_dev (icache s ip)) s) (\<lambda>(addr, s).
                  Inr (addr, upd_inode ip (\<lambda>i. i\<lparr>i_addrs := (i_addrs i)[bn := addr]\<rparr>) s))
           else Inr (addr, s)
      else let bn = bn - NDIRECT in
      if bn < NINDIRECT
      then bnd (let addr = i_addrs (icache s ip) ! NDIRECT in
                if addr = 0
                then bnd (balloc (i_dev (icache s ip)) s) (\<lambda>(addr, s).
                       Inr (addr, upd_inode ip (\<lambda>i. i\<lparr>i_addrs := (i_addrs i)[NDIRECT := addr]\<rparr>) s))
                else Inr (addr, s)) (\<lambda>(addr, s).
           bnd (bread (i_dev (icache s ip)) addr s) (\<lambda>(bp, s).
             let addr = get32 (4 * bn) (b_data (bufs s bp)) in
             bnd (if addr = 0
                  then bnd (balloc (i_dev (icache s ip)) s) (\<lambda>(addr, s).
                         let s = upd_buf bp (\<lambda>q. q\<lparr>b_data := put32 (4 * bn) addr (b_data q)\<rparr>) s
                         in bnd (log_write bp s) (\<lambda>s. Inr (addr, s)))
                  else Inr (addr, s)) (\<lambda>(addr, s).
             bnd (brelse bp s) (\<lambda>s. Inr (addr, s)))))
      else Inl (Panic ''bmap: out of range''))"

definition itrunc_direct :: "nat \<Rightarrow> nat \<Rightarrow> 'a fsst_scheme \<Rightarrow> 'a fsst_scheme stop + 'a fsst_scheme" where
  "itrunc_direct ip i s =
     (if i_addrs (icache s ip) ! i \<noteq> 0
      then bnd (bfree (i_dev (icache s ip)) (i_addrs (icache s ip) ! i) s) (\<lambda>s.
             Inr (upd_inode ip (\<lambda>q. q\<lparr>i_addrs := (i_addrs q)[i := 0]\<rparr>) s))
      else Inr s)"

definition itrunc_indirect ::
  "nat \<Rightarrow> nat \<Rightarrow> nat \<Rightarrow> 'a fsst_scheme \<Rightarrow> 'a fsst_scheme stop + 'a fsst_scheme" where
  "itrunc_indirect ip bp j s =
     (let a = get32 (4 * j) (b_data (bufs s bp)) in
      if a \<noteq> 0 then bfree (i_dev (icache s ip)) a s else Inr s)"

definition itrunc :: "nat \<Rightarrow> 'a fsst_scheme \<Rightarrow> 'a fsst_scheme stop + 'a fsst_scheme" where
  "itrunc ip s =
     bnd (each (itrunc_direct ip) [0..<NDIRECT] s) (\<lambda>s.
     bnd (if i_addrs (icache s ip) ! NDIRECT \<noteq> 0
          then bnd (bread (i_dev (icache s ip)) (i_addrs (icache s ip) ! NDIRECT) s) (\<lambda>(bp, s).
               bnd (each (itrunc_indirect ip bp) [0..<NINDIRECT] s) (\<lambda>s.
               bnd (brelse bp s) (\<lambda>s.
               bnd (bfree (i_dev (icache s ip)) (i_addrs (icache s ip) ! NDIRECT) s) (\<lambda>s.
                 Inr (upd_inode ip (\<lambda>q. q\<lparr>i_addrs := (i_addrs q)[NDIRECT := 0]\<rparr>) s)))))
          else Inr s) (\<lambda>s.
       iupdate ip (upd_inode ip (\<lambda>q. q\<lparr>i_size := 0\<rparr>) s)))"

section \<open>Dropping a reference\<close>

text \<open>\<open>iput_locked\<close> is \<^verbatim>\<open>iput\<close> from the point where it has the inode's lock.\<close>

definition iput_locked :: "nat \<Rightarrow> 'a fsst_scheme \<Rightarrow> 'a fsst_scheme stop + 'a fsst_scheme" where
  "iput_locked ip s =
     bnd (if i_valid (icache s ip) \<and> i_nlink (icache s ip) = 0
          then bnd (acquire L_icache s) (\<lambda>s.
                 let r = i_ref (icache s ip) in
               bnd (release L_icache s) (\<lambda>s.
                 if r = 1
                 then bnd (itrunc ip s) (\<lambda>s.
                      bnd (iupdate ip (upd_inode ip (\<lambda>q. q\<lparr>i_type := 0\<rparr>) s)) (\<lambda>s.
                        Inr (upd_inode ip (\<lambda>q. q\<lparr>i_valid := False\<rparr>) s)))
                 else Inr s))
          else Inr s) (\<lambda>s.
     bnd (releasesleep (SL_inode ip) s) (\<lambda>s.
     bnd (acquire L_icache s) (\<lambda>s.
       release L_icache (upd_inode ip (\<lambda>q. q\<lparr>i_ref := i_ref q - 1\<rparr>) s))))"

definition iput :: "nat \<Rightarrow> 'a fsst_scheme \<Rightarrow> 'a fsst_scheme stop + 'a fsst_scheme" where
  "iput ip s = bnd (acquiresleep (SL_inode ip) s) (iput_locked ip)"

definition iunlockput :: "nat \<Rightarrow> 'a fsst_scheme \<Rightarrow> 'a fsst_scheme stop + 'a fsst_scheme" where
  "iunlockput ip s = bnd (iunlock ip s) (iput ip)"

record stat =
  st_type :: u16
  st_dev :: u32
  st_ino :: u32
  st_nlink :: u16
  st_size :: u32

definition stati :: "nat \<Rightarrow> 'a fsst_scheme \<Rightarrow> stat" where
  "stati ip s = \<lparr>st_type = i_type (icache s ip), st_dev = i_dev (icache s ip),
     st_ino = i_inum (icache s ip), st_nlink = i_nlink (icache s ip),
     st_size = i_size (icache s ip)\<rparr>"

end
