(* ===== verification/Console.thy ===== *)
theory Console
  imports Fs
begin

text \<open>
  Console input and output (\<^verbatim>\<open>console.c\<close>). \<open>uart_out\<close> is what has been sent to the serial port, the
  only output device the code drives. The input buffer is circular, with three counters
  that only grow (modulo \<open>2^32\<close>): read, write (end of the last complete line) and edit.
  The argument of \<open>consoleintr\<close> lists what the keyboard or serial driver returns until it has
  nothing more. The debugging output of \<^verbatim>\<open>cprintf\<close> is left out throughout.
\<close>

definition INPUT_BUF :: nat where "INPUT_BUF = 128"
definition CONSOLE :: nat where "CONSOLE = 1"

text \<open>\<open>devsw m\<close> says that the entry of \<^verbatim>\<open>devsw\<close> for major number \<open>m\<close> holds the console's functions.\<close>

record cst = fsst +
  in_buf :: "u8 list"
  in_r :: u32
  in_w :: u32
  in_e :: u32
  panicked :: bool
  uart_out :: "u8 list"
  devsw :: "nat \<Rightarrow> bool"

datatype outchar = Byte u8 | BACKSPACE

definition uartputc :: "u8 \<Rightarrow> 'a cst_scheme \<Rightarrow> 'a cst_scheme" where
  "uartputc c s = s\<lparr>uart_out := uart_out s @ [c]\<rparr>"

definition consputc :: "outchar \<Rightarrow> 'a cst_scheme \<Rightarrow> 'a cst_scheme stop + 'a cst_scheme" where
  "consputc c s =
     (if panicked s then Inl (Spin (cli s))
      else case c of
        BACKSPACE \<Rightarrow> Inr (uartputc 8 (uartputc 32 (uartputc 8 s)))
      | Byte b \<Rightarrow> Inr (uartputc b s))"

section \<open>Keyboard input\<close>

lemma consputc_keeps:
  "consputc c s = Inr t \<Longrightarrow> in_e t = in_e s \<and> in_w t = in_w s \<and> in_r t = in_r s \<and> in_buf t = in_buf s"
  by (auto simp: consputc_def uartputc_def split: if_splits outchar.splits)

function consoleintr_kill :: "'a cst_scheme \<Rightarrow> 'a cst_scheme stop + 'a cst_scheme" where
  "consoleintr_kill s =
     (if in_e s \<noteq> in_w s \<and> in_buf s ! (unat (in_e s - 1) mod INPUT_BUF) \<noteq> 10
      then let s = s\<lparr>in_e := in_e s - 1\<rparr> in
           bnd (consputc BACKSPACE s) consoleintr_kill
      else Inr s)"
  by pat_completeness auto
termination
proof (relation "measure (\<lambda>s. unat (in_e s - in_w s))", goal_cases)
  case (2 s s' t)
  then have "in_e s - in_w s \<noteq> 0" by simp
  then have "unat (in_e s - in_w s - 1) = unat (in_e s - in_w s) - 1" "0 < unat (in_e s - in_w s)"
    by (simp_all add: unat_minus_one unat_gt_0)
  moreover have "in_e t = in_e s - 1" "in_w t = in_w s"
    using 2 by (auto simp: consputc_keeps)
  ultimately show ?case by (simp add: diff_diff_add add.commute)
qed simp

declare consoleintr_kill.simps [simp del]

definition consoleintr_one :: "u8 \<Rightarrow> 'a cst_scheme \<Rightarrow> 'a cst_scheme stop + 'a cst_scheme" where
  "consoleintr_one c s =
     (if c = 0x10 then Inr s
      else if c = 0x15 then consoleintr_kill s
      else if c = 0x08 \<or> c = 0x7f
      then if in_e s \<noteq> in_w s then consputc BACKSPACE (s\<lparr>in_e := in_e s - 1\<rparr>) else Inr s
      else if c \<noteq> 0 \<and> in_e s - in_r s < of_nat INPUT_BUF
      then let c = (if c = 13 then 10 else c);
               s = s\<lparr>in_buf := (in_buf s)[unat (in_e s) mod INPUT_BUF := c]\<rparr>;
               s = s\<lparr>in_e := in_e s + 1\<rparr> in
           bnd (consputc (Byte c) s) (\<lambda>s.
             if c = 10 \<or> c = 4 \<or> in_e s = in_r s + of_nat INPUT_BUF
             then wakeup C_input (s\<lparr>in_w := in_e s\<rparr>) else Inr s)
      else Inr s)"

definition consoleintr :: "u8 list \<Rightarrow> 'a cst_scheme \<Rightarrow> 'a cst_scheme stop + 'a cst_scheme" where
  "consoleintr cs s =
     bnd (acquire L_cons s) (\<lambda>s. bnd (each consoleintr_one cs s) (release L_cons))"

section \<open>The console as a device\<close>

text \<open>
  \<open>consoleread_copy\<close> moves bytes to the caller until the read is complete (\<open>True\<close>) or the buffer
  is empty and it has to wait (\<open>False\<close>). It returns how many bytes are still wanted and the bytes
  delivered so far.
\<close>

fun consoleread_copy ::
  "dest \<Rightarrow> nat \<Rightarrow> nat \<Rightarrow> u8 list \<Rightarrow> 'a cst_scheme
   \<Rightarrow> 'a cst_scheme stop + (bool \<times> nat \<times> u8 list \<times> 'a cst_scheme)" where
  "consoleread_copy d target 0 acc s = Inr (True, 0, acc, s)"
| "consoleread_copy d target (Suc n) acc s =
     (if in_r s = in_w s then Inr (False, Suc n, acc, s)
      else let c = in_buf s ! (unat (in_r s) mod INPUT_BUF);
               s = s\<lparr>in_r := in_r s + 1\<rparr> in
           if c = 4
           then Inr (True, Suc n, acc, if Suc n < target then s\<lparr>in_r := in_r s - 1\<rparr> else s)
           else bnd (deliver d (length acc) [c] s) (\<lambda>s.
                  if c = 10 then Inr (True, n, acc @ [c], s)
                  else consoleread_copy d target n (acc @ [c]) s))"

definition consoleread_go ::
  "nat \<Rightarrow> dest \<Rightarrow> nat \<Rightarrow> nat \<Rightarrow> u8 list \<Rightarrow> 'a cst_scheme
   \<Rightarrow> 'a cst_scheme stop + (int \<times> u8 list \<times> 'a cst_scheme)" where
  "consoleread_go ip d target n acc s =
     bnd (consoleread_copy d target n acc s) (\<lambda>(finished, n, acc, s).
       if finished
       then bnd (release L_cons s) (\<lambda>s.
            bnd (ilock ip s) (\<lambda>s. Inr (int target - int n, acc, s)))
       else bnd (myproc s) (\<lambda>(p, s). case p of
              None \<Rightarrow> Inl (Fault ''consoleread'')
            | Some i \<Rightarrow>
                if p_killed (procs s i)
                then bnd (release L_cons s) (\<lambda>s. bnd (ilock ip s) (\<lambda>s. Inr (- 1, acc, s)))
                else sleep C_input L_cons s))"

definition consoleread ::
  "nat \<Rightarrow> dest \<Rightarrow> int \<Rightarrow> 'a cst_scheme \<Rightarrow> 'a cst_scheme stop + (int \<times> u8 list \<times> 'a cst_scheme)" where
  "consoleread ip d n s =
     bnd (iunlock ip s) (\<lambda>s.
     bnd (acquire L_cons s) (\<lambda>s. consoleread_go ip d (nat n) (nat n) [] s))"

definition consoleread_in ::
  "nat \<Rightarrow> nat \<Rightarrow> dest \<Rightarrow> nat \<Rightarrow> nat \<Rightarrow> u8 list \<Rightarrow> 'a cst_scheme
   \<Rightarrow> 'a cst_scheme stop + (int \<times> u8 list \<times> 'a cst_scheme)" where
  "consoleread_in i ip d target n acc s =
     bnd (sleep_in i L_cons s) (consoleread_go ip d target n acc)"

definition consolewrite ::
  "nat \<Rightarrow> u8 list \<Rightarrow> 'a cst_scheme \<Rightarrow> 'a cst_scheme stop + (int \<times> 'a cst_scheme)" where
  "consolewrite ip bs s =
     bnd (iunlock ip s) (\<lambda>s.
     bnd (acquire L_cons s) (\<lambda>s.
     bnd (each (\<lambda>b. consputc (Byte b)) bs s) (\<lambda>s.
     bnd (release L_cons s) (\<lambda>s.
     bnd (ilock ip s) (\<lambda>s. Inr (int (length bs), s))))))"

definition consoleinit :: "'a cst_scheme \<Rightarrow> 'a cst_scheme" where
  "consoleinit s = (let s = initlock L_cons s in s\<lparr>devsw := (devsw s)(CONSOLE := True)\<rparr>)"

end
