(* ===== verification/Dir.thy ===== *)
theory Dir
  imports Console
begin

text \<open>
  Contents of inodes, directories and path names (the second half of \<^verbatim>\<open>fs.c\<close>). \<^verbatim>\<open>readi\<close> leaves the
  bytes at its destination and also returns them, for the callers that read into a local
  structure. \<^verbatim>\<open>writei\<close> gets the bytes at its source pointer. Names and paths are the bytes before
  the terminating NUL; a name is at most \<open>DIRSIZ\<close> bytes.
\<close>

section \<open>Reading and writing an inode\<close>

function readi_loop ::
  "nat \<Rightarrow> dest \<Rightarrow> nat \<Rightarrow> nat \<Rightarrow> nat \<Rightarrow> u8 list \<Rightarrow> 'a cst_scheme
   \<Rightarrow> 'a cst_scheme stop + (u8 list \<times> 'a cst_scheme)" where
  "readi_loop ip d n tot off acc s =
     (if tot < n
      then bnd (bmap ip (off div BSIZE) s) (\<lambda>(addr, s).
           bnd (bread (i_dev (icache s ip)) addr s) (\<lambda>(bp, s).
             let m = min (n - tot) (BSIZE - off mod BSIZE);
                 xs = get_bytes (off mod BSIZE) m (b_data (bufs s bp)) in
           bnd (deliver d tot xs s) (\<lambda>s.
           bnd (brelse bp s) (\<lambda>s. readi_loop ip d n (tot + m) (off + m) (acc @ xs) s))))
      else Inr (acc, s))"
  by pat_completeness auto
termination
  by (relation "measure (\<lambda>(ip, d, n, tot, off, acc, s). n - tot)") (auto simp: fs_consts)

declare readi_loop.simps [simp del]

definition readi ::
  "nat \<Rightarrow> dest \<Rightarrow> u32 \<Rightarrow> u32 \<Rightarrow> 'a cst_scheme \<Rightarrow> 'a cst_scheme stop + (int \<times> u8 list \<times> 'a cst_scheme)"
where
  "readi ip d off n s =
     (let i = icache s ip in
      if i_type i = T_DEV
      then if sint (i_major i) < 0 \<or> sint (i_major i) \<ge> int NDEV \<or> \<not> devsw s (unat (i_major i))
           then Inr (- 1, [], s)
           else consoleread ip d (sint n) s
      else if off > i_size i \<or> off + n < off then Inr (- 1, [], s)
      else let n = (if off + n > i_size i then i_size i - off else n) in
           bnd (readi_loop ip d (unat n) 0 (unat off) [] s) (\<lambda>(xs, s). Inr (sint n, xs, s)))"

function writei_loop ::
  "nat \<Rightarrow> u8 list \<Rightarrow> nat \<Rightarrow> nat \<Rightarrow> nat \<Rightarrow> 'a cst_scheme
   \<Rightarrow> 'a cst_scheme stop + 'a cst_scheme" where
  "writei_loop ip src n tot off s =
     (if tot < n
      then bnd (bmap ip (off div BSIZE) s) (\<lambda>(addr, s).
           bnd (bread (i_dev (icache s ip)) addr s) (\<lambda>(bp, s).
             let m = min (n - tot) (BSIZE - off mod BSIZE);
                 s = upd_buf bp (\<lambda>q. q\<lparr>b_data :=
                       set_bytes (off mod BSIZE) (take m (drop tot src)) (b_data q)\<rparr>) s in
           bnd (log_write bp s) (\<lambda>s.
           bnd (brelse bp s) (\<lambda>s. writei_loop ip src n (tot + m) (off + m) s))))
      else Inr s)"
  by pat_completeness auto
termination
  by (relation "measure (\<lambda>(ip, src, n, tot, off, s). n - tot)") (auto simp: fs_consts)

declare writei_loop.simps [simp del]

definition writei ::
  "nat \<Rightarrow> u8 list \<Rightarrow> u32 \<Rightarrow> u32 \<Rightarrow> 'a cst_scheme \<Rightarrow> 'a cst_scheme stop + (int \<times> 'a cst_scheme)"
where
  "writei ip src off n s =
     (let i = icache s ip in
      if i_type i = T_DEV
      then if sint (i_major i) < 0 \<or> sint (i_major i) \<ge> int NDEV \<or> \<not> devsw s (unat (i_major i))
           then Inr (- 1, s)
           else consolewrite ip src s
      else if off > i_size i \<or> off + n < off then Inr (- 1, s)
      else if off + n > of_nat (MAXFILE * BSIZE) then Inr (- 1, s)
      else bnd (writei_loop ip src (unat n) 0 (unat off) s) (\<lambda>s.
             let off = off + n in
             if n > 0 \<and> off > i_size (icache s ip)
             then bnd (iupdate ip (upd_inode ip (\<lambda>q. q\<lparr>i_size := off\<rparr>) s)) (\<lambda>s. Inr (sint n, s))
             else Inr (sint n, s)))"

section \<open>Directories\<close>

definition namecmp :: "u8 list \<Rightarrow> u8 list \<Rightarrow> int" where
  "namecmp a b = strncmp (cstr_of a) (cstr_of b) DIRSIZ"

text \<open>The entry at \<open>off\<close>, which is read into a local variable.\<close>

definition read_dirent ::
  "string \<Rightarrow> nat \<Rightarrow> nat \<Rightarrow> 'a cst_scheme \<Rightarrow> 'a cst_scheme stop + (dirent \<times> 'a cst_scheme)" where
  "read_dirent msg dp off s =
     bnd (readi dp Local (of_nat off) (of_nat sizeof_dirent) s) (\<lambda>(r, xs, s).
       if r \<noteq> int sizeof_dirent then Inl (Panic msg) else Inr (to_dirent xs, s))"

function dirlookup_loop ::
  "nat \<Rightarrow> u8 list \<Rightarrow> nat \<Rightarrow> nat \<Rightarrow> 'a cst_scheme
   \<Rightarrow> 'a cst_scheme stop + ((nat \<times> u32) option \<times> 'a cst_scheme)" where
  "dirlookup_loop dp name sz off s =
     (if off < sz
      then bnd (read_dirent ''dirlookup read'' dp off s) (\<lambda>(de, s).
        if de_inum de = 0 then dirlookup_loop dp name sz (off + sizeof_dirent) s
        else if namecmp name (de_name de) = 0
        then bnd (iget (i_dev (icache s dp)) (ucast (de_inum de)) s) (\<lambda>(ip, s).
               Inr (Some (ip, of_nat off), s))
        else dirlookup_loop dp name sz (off + sizeof_dirent) s)
      else Inr (None, s))"
  by pat_completeness auto
termination
  by (relation "measure (\<lambda>(dp, name, sz, off, s). sz - off)") (auto simp: sizeof_dirent_def)

declare dirlookup_loop.simps [simp del]

definition dirlookup ::
  "nat \<Rightarrow> u8 list \<Rightarrow> 'a cst_scheme \<Rightarrow> 'a cst_scheme stop + ((nat \<times> u32) option \<times> 'a cst_scheme)"
where
  "dirlookup dp name s =
     (if i_type (icache s dp) \<noteq> T_DIR then Inl (Panic ''dirlookup not DIR'')
      else dirlookup_loop dp name (unat (i_size (icache s dp))) 0 s)"

function dirlink_slot ::
  "nat \<Rightarrow> nat \<Rightarrow> nat \<Rightarrow> 'a cst_scheme \<Rightarrow> 'a cst_scheme stop + (nat \<times> 'a cst_scheme)" where
  "dirlink_slot dp sz off s =
     (if off < sz
      then bnd (read_dirent ''dirlink read'' dp off s) (\<lambda>(de, s).
        if de_inum de = 0 then Inr (off, s) else dirlink_slot dp sz (off + sizeof_dirent) s)
      else Inr (off, s))"
  by pat_completeness auto
termination
  by (relation "measure (\<lambda>(dp, sz, off, s). sz - off)") (auto simp: sizeof_dirent_def)

declare dirlink_slot.simps [simp del]

definition dirlink ::
  "nat \<Rightarrow> u8 list \<Rightarrow> u32 \<Rightarrow> 'a cst_scheme \<Rightarrow> 'a cst_scheme stop + (int \<times> 'a cst_scheme)" where
  "dirlink dp name inum s =
     bnd (dirlookup dp name s) (\<lambda>(r, s). case r of
       Some (ip, _) \<Rightarrow> bnd (iput ip s) (\<lambda>s. Inr (- 1, s))
     | None \<Rightarrow>
         bnd (dirlink_slot dp (unat (i_size (icache s dp))) 0 s) (\<lambda>(off, s).
           let de = \<lparr>de_inum = ucast inum, de_name = strncpy_bytes DIRSIZ (cstr_of name)\<rparr> in
         bnd (writei dp (of_dirent de) (of_nat off) (of_nat sizeof_dirent) s) (\<lambda>(r, s).
           if r \<noteq> int sizeof_dirent then Inl (Panic ''dirlink'') else Inr (0, s))))"

section \<open>Paths\<close>

definition SLASH :: u8 where "SLASH = 47"

text \<open>
  \<^verbatim>\<open>skipelem\<close> returns the first element of the path, cut to \<open>DIRSIZ\<close> bytes, and the path after
  the slashes that follow it.
\<close>

definition skipelem :: "u8 list \<Rightarrow> (u8 list \<times> u8 list) option" where
  "skipelem path =
     (let path = dropWhile (\<lambda>c. c = SLASH) path in
      if path = [] then None
      else let s = takeWhile (\<lambda>c. c \<noteq> SLASH) path;
               path = dropWhile (\<lambda>c. c \<noteq> SLASH) path
           in Some (take DIRSIZ s, dropWhile (\<lambda>c. c = SLASH) path))"

lemma dropWhile_shorter: "length (dropWhile P xs) \<le> length xs"
  by (rule length_dropWhile_le)

lemma skipelem_shorter:
  assumes "skipelem path = Some (name, rest)" shows "length rest < length path"
proof -
  let ?p = "dropWhile (\<lambda>c. c = SLASH) path"
  have p: "?p \<noteq> []" "rest = dropWhile (\<lambda>c. c = SLASH) (dropWhile (\<lambda>c. c \<noteq> SLASH) ?p)"
    using assms by (auto simp: skipelem_def Let_def split: if_splits)
  from p(1) obtain c cs where c: "?p = c # cs" "c \<noteq> SLASH"
    by (metis (mono_tags, lifting) hd_dropWhile list.exhaust_sel)
  have "length rest \<le> length (dropWhile (\<lambda>c. c \<noteq> SLASH) cs)"
    unfolding p(2) c(1) using c(2) dropWhile_shorter by simp
  also have "\<dots> < length ?p" using c(1) dropWhile_shorter [of _ cs] by (simp add: le_imp_less_Suc)
  also have "\<dots> \<le> length path" by (rule dropWhile_shorter)
  finally show ?thesis .
qed

function namex_loop ::
  "u8 list \<Rightarrow> bool \<Rightarrow> nat \<Rightarrow> u8 list \<Rightarrow> 'a cst_scheme
   \<Rightarrow> 'a cst_scheme stop + (nat option \<times> u8 list \<times> 'a cst_scheme)" where
  "namex_loop path nameiparent ip name s = (case skipelem path of
     None \<Rightarrow>
       if nameiparent then bnd (iput ip s) (\<lambda>s. Inr (None, name, s)) else Inr (Some ip, name, s)
   | Some (name, path') \<Rightarrow>
       bnd (ilock ip s) (\<lambda>s.
         if i_type (icache s ip) \<noteq> T_DIR then bnd (iunlockput ip s) (\<lambda>s. Inr (None, name, s))
         else if nameiparent \<and> path' = [] then bnd (iunlock ip s) (\<lambda>s. Inr (Some ip, name, s))
         else bnd (dirlookup ip name s) (\<lambda>(r, s). case r of
           None \<Rightarrow> bnd (iunlockput ip s) (\<lambda>s. Inr (None, name, s))
         | Some (nxt, _) \<Rightarrow>
             bnd (iunlockput ip s) (\<lambda>s. namex_loop path' nameiparent nxt name s))))"
  by pat_completeness auto
termination
  by (relation "measure (\<lambda>(path, nameiparent, ip, name, s). length path)")
    (auto dest: skipelem_shorter)

declare namex_loop.simps [simp del]

definition namex ::
  "u8 list \<Rightarrow> bool \<Rightarrow> 'a cst_scheme \<Rightarrow> 'a cst_scheme stop + (nat option \<times> u8 list \<times> 'a cst_scheme)"
where
  "namex path nameiparent s =
     bnd (if path \<noteq> [] \<and> hd path = SLASH then iget ROOTDEV ROOTINO s
          else bnd (myproc s) (\<lambda>(p, s). case p of
                 None \<Rightarrow> Inl (Fault ''namex'')
               | Some i \<Rightarrow> (case p_cwd (procs s i) of
                   None \<Rightarrow> Inl (Fault ''idup'')
                 | Some ip \<Rightarrow> idup ip s))) (\<lambda>(ip, s).
     namex_loop path nameiparent ip [] s)"

definition namei :: "u8 list \<Rightarrow> 'a cst_scheme \<Rightarrow> 'a cst_scheme stop + (nat option \<times> 'a cst_scheme)" where
  "namei path s = bnd (namex path False s) (\<lambda>(ip, _, s). Inr (ip, s))"

definition nameiparent ::
  "u8 list \<Rightarrow> 'a cst_scheme \<Rightarrow> 'a cst_scheme stop + (nat option \<times> u8 list \<times> 'a cst_scheme)" where
  "nameiparent path s = namex path True s"

end
