(* ===== verification/Fs_Blocks.thy ===== *)
theory Fs_Blocks
  imports Log_Crash Dir
begin

text \<open>
  Blocks of the file system inside a transaction: what \<^verbatim>\<open>bread\<close>, \<^verbatim>\<open>log_write\<close> and \<^verbatim>\<open>brelse\<close> do to the contents of the disk as the
  readers see it, and the block allocator on top of them.
\<close>

section \<open>States between block operations\<close>

text \<open>
  \<open>quiet s i l\<close>: process \<open>i\<close> runs, the blocks in \<open>l\<close> are locked, and two more buffers are free to be recycled.
\<close>

definition quiet :: "'a bst_scheme \<Rightarrow> nat \<Rightarrow> u32 set \<Rightarrow> bool" where
  "quiet s i l \<longleftrightarrow> idle s i \<and> cache_ok s \<and> locked_blocks s = l \<and> finite (pinned s) \<and> card (pinned s) + 2 \<le> NBUF"

text \<open>\<open>busy s i l k\<close>: moreover the process is inside a transaction whose log has room for \<open>k\<close> more blocks.\<close>

definition log_space :: "log \<Rightarrow> u32 set \<Rightarrow> nat \<Rightarrow> bool" where
  "log_space g p k \<longleftrightarrow> log_outstanding g \<ge> 1 \<and> length (lh_block g) = LOGSIZE \<and> lh_n g \<ge> 0
     \<and> p = set (take (nat (lh_n g)) (lh_block g)) \<and> lh_n g + int k + 2 \<le> int NBUF \<and> lh_n g + int k < log_size g"

definition busy :: "'a lst_scheme \<Rightarrow> nat \<Rightarrow> u32 set \<Rightarrow> nat \<Rightarrow> bool" where
  "busy s i l k \<longleftrightarrow> idle s i \<and> cache_ok s \<and> locked_blocks s = l \<and> log_space (log s) (pinned s) k"

lemma log_space_card: "log_space g p k \<Longrightarrow> finite p \<and> card p + k + 2 \<le> NBUF"
proof -
  assume a: "log_space g p k"
  have "card p \<le> nat (lh_n g)" using a card_length [of "take (nat (lh_n g)) (lh_block g)"] by (simp add: log_space_def)
  then show ?thesis using a by (auto simp: log_space_def)
qed

lemma busy_quiet: "busy s i l k \<Longrightarrow> quiet s i l"
  using log_space_card [of "log s" "pinned s" k] by (auto simp: busy_def quiet_def)

lemma busy_mono: "busy s i l k \<Longrightarrow> j \<le> k \<Longrightarrow> busy s i l j"
  by (auto simp: busy_def log_space_def)

text \<open>What block operations leave alone.\<close>

definition unmoved :: "'a fsst_scheme \<Rightarrow> 'a fsst_scheme \<Rightarrow> bool" where
  "unmoved s t \<longleftrightarrow> disksize t = disksize s \<and> mem t = mem s \<and> disk t = disk s \<and> sb t = sb s \<and> icache t = icache s
     \<and> fsst.more t = fsst.more s \<and> cr3 (hw t) = cr3 (hw s) \<and> lapicid (hw t) = lapicid (hw s)"

lemma unmoved_refl [simp]: "unmoved s s"
  by (simp add: unmoved_def)

lemma unmoved_trans: "unmoved s t \<Longrightarrow> unmoved t u \<Longrightarrow> unmoved s u"
  by (simp add: unmoved_def)

lemma unmovedD:
  assumes "unmoved s t"
  shows "disksize t = disksize s" "mem t = mem s" "disk t = disk s" "sb t = sb s" "icache t = icache s" "fsst.more t = fsst.more s"
    "cr3 (hw t) = cr3 (hw s)" "lapicid (hw t) = lapicid (hw s)"
  using assms by (simp_all add: unmoved_def)

lemma bio_step_unmoved: "bio_step s t \<Longrightarrow> disk t = disk s \<Longrightarrow> unmoved s t \<and> log t = log s" for s :: "'a fsst_scheme"
  by (auto simp: bio_step_def unmoved_def rested_def)

lemma quiet_reached: "quiet s i l \<Longrightarrow> reached s i s (view s) (disk s) (pinned s) l"
  using reached_refl [of s i] by (simp add: quiet_def)

lemma reached_quiet:
  assumes "reached s0 i t v d p l" "finite p" "card p + 2 \<le> NBUF" shows "quiet t i l"
  using assms by (auto simp: reached_def quiet_def)

lemma bread_quiet:
  fixes s :: "'a fsst_scheme"
  assumes q: "quiet s i l" and n: "n < disksize s" "n \<notin> l" and l: "finite l" "card l \<le> 1"
  shows "\<exists>b t. bread 1 n s = Inr (b, t) \<and> quiet t i (insert n l) \<and> owns t b n \<and> b_data (bufs t b) = view s n
    \<and> view t = view s \<and> pinned t = pinned s \<and> unmoved s t \<and> log t = log s \<and> (\<forall>c m. owns s c m \<longrightarrow> owns t c m)"
proof -
  have "card (pinned s \<union> l) < NBUF"
    using q l card_Un_le [of "pinned s" l] by (simp add: quiet_def)
  then obtain b t where b: "bread 1 n s = Inr (b, t)" and r: "reached s i t (view s) (disk s) (pinned s) (insert n l)"
    and o: "owns t b n" "\<forall>c m. owns s c m \<longrightarrow> owns t c m"
    using bread_reached [OF quiet_reached [OF q] n] by blast
  have "quiet t i (insert n l)" using reached_quiet [OF r] q by (simp add: quiet_def)
  then show ?thesis
    using b o reached_data [OF r o(1)] bio_step_unmoved reachedD [OF r] by blast
qed

lemma brelse_quiet:
  fixes s :: "'a fsst_scheme"
  assumes q: "quiet s i l" and b: "owns s b n" "n \<in> pinned s \<or> view s n = disk s n"
  shows "\<exists>t. brelse b s = Inr t \<and> quiet t i (l - {n}) \<and> view t = view s \<and> pinned t = pinned s \<and> unmoved s t \<and> log t = log s
    \<and> (\<forall>c m. owns s c m \<and> m \<noteq> n \<longrightarrow> owns t c m)"
proof -
  obtain t where t: "brelse b s = Inr t" and r: "reached s i t (view s) (disk s) (pinned s) (l - {n})"
    and o: "\<forall>c m. owns s c m \<and> m \<noteq> n \<longrightarrow> owns t c m"
    using brelse_reached [OF quiet_reached [OF q] b] by blast
  have "quiet t i (l - {n})" using reached_quiet [OF r] q by (simp add: quiet_def)
  then show ?thesis using t o bio_step_unmoved reachedD [OF r] by blast
qed

lemma quiet_clean: "quiet s i l \<Longrightarrow> n \<notin> l \<Longrightarrow> n \<in> pinned s \<or> view s n = disk s n"
  using view_clean [of s n] by (auto simp: quiet_def)

lemma bread_busy:
  fixes s :: "'a fsst_scheme"
  assumes q: "busy s i l k" and n: "n < disksize s" "n \<notin> l" and l: "finite l" "card l \<le> 1"
  shows "\<exists>b t. bread 1 n s = Inr (b, t) \<and> busy t i (insert n l) k \<and> owns t b n \<and> b_data (bufs t b) = view s n
    \<and> view t = view s \<and> pinned t = pinned s \<and> unmoved s t \<and> (\<forall>c m. owns s c m \<longrightarrow> owns t c m)"
  using bread_quiet [OF busy_quiet [OF q] n l] q by (auto simp: busy_def quiet_def)

lemma brelse_busy:
  fixes s :: "'a fsst_scheme"
  assumes q: "busy s i l k" and b: "owns s b n" "n \<in> pinned s \<or> view s n = disk s n"
  shows "\<exists>t. brelse b s = Inr t \<and> busy t i (l - {n}) k \<and> view t = view s \<and> pinned t = pinned s \<and> unmoved s t
    \<and> (\<forall>c m. owns s c m \<and> m \<noteq> n \<longrightarrow> owns t c m)"
  using brelse_quiet [OF busy_quiet [OF q] b] q by (auto simp: busy_def quiet_def)

lemma log_space_record:
  assumes "log_space g p (Suc k)" shows "log_space (record_block m g) (insert m p) k"
proof -
  define n where "n = nat (lh_n g)"
  have g: "lh_n g = int n" "length (lh_block g) = LOGSIZE" "p = set (take n (lh_block g))" "int n + int k + 3 \<le> int NBUF"
    "int n + int k + 1 < log_size g" "log_outstanding g \<ge> 1"
    using assms by (auto simp: log_space_def n_def)
  have n: "n < LOGSIZE" using g(4) by (simp add: NBUF_def LOGSIZE_def)
  show ?thesis
  proof (cases "m \<in> p")
    case True
    then have "record_block m g = g" using g by (simp add: record_block_def)
    moreover have "insert m p = p" using True by auto
    ultimately show ?thesis using assms by (simp add: log_space_def)
  next
    case False
    have "take (Suc n) ((lh_block g)[n := m]) = take n (lh_block g) @ [m]"
      using n g(2) by (simp add: take_Suc_conv_app_nth)
    then show ?thesis using False g by (simp add: record_block_def log_space_def nat_add_distrib)
  qed
qed

lemma upd_log_unmoved: "unmoved s (upd_log f t) = unmoved s t"
  by (simp add: unmoved_def upd_log_def)

lemma log_write_busy:
  fixes s :: "'a fsst_scheme"
  assumes q: "busy s i l (Suc k)" and b: "owns s b n" and x: "length x = BSIZE"
  shows "\<exists>t. log_write b (upd_buf b (\<lambda>q. q\<lparr>b_data := x\<rparr>) s) = Inr t \<and> busy t i l k \<and> view t = (view s)(n := x)
    \<and> pinned t = insert n (pinned s) \<and> unmoved s t \<and> (\<forall>c m. owns s c m \<longrightarrow> owns t c m)"
proof -
  let ?s = "upd_buf b (\<lambda>q. q\<lparr>b_data := x\<rparr>) s"
  have r: "reached s i ?s ((view s)(n := x)) (disk s) (pinned s) l" and o: "owns s c m \<Longrightarrow> owns ?s c m" for c m
    using set_data_reached [OF quiet_reached [OF busy_quiet [OF q]] b x] by auto
  have g: "log_space (log s) (pinned s) (Suc k)" using q by (simp add: busy_def)
  define j where "j = nat (lh_n (log s))"
  have j: "lh_n (log s) = int j" "j < LOGSIZE" "int j < log_size (log s) - 1" "length (lh_block (log s)) = LOGSIZE"
    "log_outstanding (log s) \<ge> 1"
    using g by (auto simp: log_space_def j_def NBUF_def LOGSIZE_def)
  obtain t where t: "log_write b ?s = Inr t" "\<forall>c m. owns ?s c m \<longrightarrow> owns t c m"
    and u: "reached (upd_log (record_block n) s) i t ((view s)(n := x)) (disk s) (insert n (pinned s)) l"
    using log_write_reached [OF r o [OF b] j(5,1-4)] by blast
  have k: "unmoved (upd_log (record_block n) s) t" "log t = record_block n (log s)"
    using bio_step_unmoved [OF reachedD(1) [OF u]] reachedD(5) [OF u] by simp_all
  have "unmoved s (upd_log (record_block n) s)" by (simp add: upd_log_unmoved)
  then have "unmoved s t" using k(1) by (rule unmoved_trans)
  moreover have "busy t i l k" using reachedD [OF u] k(2) log_space_record [OF g] by (simp add: busy_def)
  ultimately show ?thesis using t o reachedD [OF u] by blast
qed

text \<open>\<^verbatim>\<open>bread\<close>, a change of the data, \<^verbatim>\<open>log_write\<close> and \<^verbatim>\<open>brelse\<close>: how the file system writes.\<close>

lemma upd_buf_at: "upd_buf b (\<lambda>q. q\<lparr>b_data := f (b_data q)\<rparr>) s = upd_buf b (\<lambda>q. q\<lparr>b_data := f (b_data (bufs s b))\<rparr>) s"
  by (simp add: upd_buf_def)

lemma write_busy:
  fixes s :: "'a fsst_scheme"
  assumes q: "busy s i l (Suc k)" and n: "n < disksize s" "n \<notin> l" and l: "finite l" "card l \<le> 1"
    and f: "length (f (view s n)) = BSIZE"
  shows "\<exists>t. bnd (bread 1 n s) (\<lambda>(b, s). bnd (log_write b (upd_buf b (\<lambda>q. q\<lparr>b_data := f (b_data q)\<rparr>) s)) (brelse b)) = Inr t
    \<and> busy t i l k \<and> view t = (view s)(n := f (view s n)) \<and> unmoved s t \<and> pinned s \<subseteq> pinned t \<and> (\<forall>c m. owns s c m \<longrightarrow> owns t c m)"
proof -
  obtain b t where b: "bread 1 n s = Inr (b, t)" "busy t i (insert n l) (Suc k)" "owns t b n" "b_data (bufs t b) = view s n"
    and e: "view t = view s" "pinned t = pinned s" "unmoved s t" and o: "\<forall>c m. owns s c m \<longrightarrow> owns t c m"
    using bread_busy [OF q n l] by blast
  obtain u where u: "log_write b (upd_buf b (\<lambda>q. q\<lparr>b_data := f (view s n)\<rparr>) t) = Inr u" "busy u i (insert n l) k"
    "view u = (view s)(n := f (view s n))" "pinned u = insert n (pinned s)" "unmoved t u" "\<forall>c m. owns t c m \<longrightarrow> owns u c m"
    using log_write_busy [OF b(2,3) f] e by auto
  obtain w where w: "brelse b u = Inr w" "busy w i (insert n l - {n}) k" "view w = view u" "pinned w = pinned u" "unmoved u w"
    "\<forall>c m. owns u c m \<and> m \<noteq> n \<longrightarrow> owns w c m"
    using brelse_busy [OF u(2), of b n] u(4,6) b(3) by blast
  have m: "owns s c m \<Longrightarrow> m \<noteq> n" for c m using owns_locked [of s c m] q n(2) by (auto simp: busy_def)
  have "busy w i l k" using w(2) n(2) by simp
  moreover have "unmoved s w" using e(3) u(5) w(5) unmoved_trans by blast
  ultimately show ?thesis using b(1,4) u w e o m upd_buf_at [of b f t] by auto
qed

section \<open>The bitmap of the blocks in use\<close>

definition used :: "(u32 \<Rightarrow> block) \<Rightarrow> superblock \<Rightarrow> nat \<Rightarrow> bool" where
  "used v B j \<longleftrightarrow> bit (v (BBLOCK (of_nat j) B) ! (j mod BPB div 8)) (j mod 8)"

lemma and_bit_mask: "x AND bit_mask n = 0 \<longleftrightarrow> \<not> bit x (n mod 8)"
  by (simp add: bit_mask_def push_bit_of_1 and_exp_eq_0_iff_not_bit)

lemma bit_or_mask: "m < 8 \<Longrightarrow> bit (x OR bit_mask n) m \<longleftrightarrow> bit x m \<or> m = n mod 8"
  by (auto simp: bit_mask_def push_bit_of_1 bit_simps)

lemma bit_clear_mask: "m < 8 \<Longrightarrow> bit (x AND NOT (bit_mask n)) m \<longleftrightarrow> bit x m \<and> m \<noteq> n mod 8"
  by (auto simp: bit_mask_def push_bit_of_1 bit_simps)

lemma same_bit: "b < BPB \<Longrightarrow> c < BPB \<Longrightarrow> b div 8 = c div 8 \<Longrightarrow> b mod 8 = c mod 8 \<Longrightarrow> b = c" for b c :: nat
  by (metis div_mult_mod_eq)

lemma BBLOCK_of_nat:
  assumes "j < 4294967296"
  shows "BBLOCK (of_nat j) B = of_nat (j div BPB) + sb_bmapstart B"
proof -
  have k: "j div BPB < 4294967296" using assms by (meson div_le_dividend le_less_trans)
  have "unat ((of_nat j :: u32) div of_nat BPB) = unat (of_nat (j div BPB) :: u32)"
    unfolding unat_div unat_of_nat32 [OF assms] unat_of_nat32 [OF k] by (simp add: BPB_def BSIZE_def)
  then show ?thesis by (simp add: BBLOCK_def unsigned_word_eqI)
qed

lemma BBLOCK_eq_iff:
  assumes "j < 4294967296" "k < 4294967296"
  shows "BBLOCK (of_nat j) B = BBLOCK (of_nat k) B \<longleftrightarrow> j div BPB = k div BPB"
proof -
  have "j div BPB < 4294967296" "k div BPB < 4294967296" using assms by (meson div_le_dividend le_less_trans)+
  then have "(of_nat (j div BPB) :: u32) = of_nat (k div BPB) \<longleftrightarrow> j div BPB = k div BPB" using unat_of_nat32 by metis
  then show ?thesis using assms by (simp add: BBLOCK_of_nat)
qed

text \<open>Setting and clearing the bit of block \<open>j\<close>.\<close>

definition set_bit_at :: "nat \<Rightarrow> block \<Rightarrow> block" where
  "set_bit_at j d = d[j mod BPB div 8 := d ! (j mod BPB div 8) OR bit_mask (j mod BPB)]"

definition clear_bit_at :: "nat \<Rightarrow> block \<Rightarrow> block" where
  "clear_bit_at j d = d[j mod BPB div 8 := d ! (j mod BPB div 8) AND NOT (bit_mask (j mod BPB))]"

lemma BPB_mod_8 [simp]: "j mod BPB mod 8 = j mod 8"
  by (simp add: BPB_def BSIZE_def mod_mod_cancel)

lemma bit_byte: "length d = BSIZE \<Longrightarrow> j mod BPB div 8 < length d"
  by (simp add: BPB_def BSIZE_def)

lemma used_set:
  assumes "j < 4294967296" "k < 4294967296" "length (v (BBLOCK (of_nat j) B)) = BSIZE"
  shows "used (v(BBLOCK (of_nat j) B := set_bit_at j (v (BBLOCK (of_nat j) B)))) B k \<longleftrightarrow> used v B k \<or> k = j"
proof (cases "k div BPB = j div BPB \<and> k mod BPB div 8 = j mod BPB div 8")
  case True
  then have e: "BBLOCK (of_nat k) B = BBLOCK (of_nat j) B" using BBLOCK_eq_iff assms by blast
  have "k = j \<longleftrightarrow> k mod 8 = j mod 8" using True BPB_mod_8 by (metis div_mult_mod_eq)
  then show ?thesis using True bit_byte [OF assms(3)] by (simp add: used_def e set_bit_at_def bit_or_mask)
next
  case False
  then have "k \<noteq> j" by auto
  then show ?thesis using False BBLOCK_eq_iff [OF assms(2,1)] by (auto simp: used_def set_bit_at_def)
qed

lemma used_clear:
  assumes "j < 4294967296" "k < 4294967296" "length (v (BBLOCK (of_nat j) B)) = BSIZE"
  shows "used (v(BBLOCK (of_nat j) B := clear_bit_at j (v (BBLOCK (of_nat j) B)))) B k \<longleftrightarrow> used v B k \<and> k \<noteq> j"
proof (cases "k div BPB = j div BPB \<and> k mod BPB div 8 = j mod BPB div 8")
  case True
  then have e: "BBLOCK (of_nat k) B = BBLOCK (of_nat j) B" using BBLOCK_eq_iff assms by blast
  have "k = j \<longleftrightarrow> k mod 8 = j mod 8" using True BPB_mod_8 by (metis div_mult_mod_eq)
  then show ?thesis using True bit_byte [OF assms(3)] by (simp add: used_def e clear_bit_at_def bit_clear_mask)
next
  case False
  then have "k \<noteq> j" by auto
  then show ?thesis using False BBLOCK_eq_iff [OF assms(2,1)] by (auto simp: used_def clear_bit_at_def)
qed

lemma length_bit_at [simp]: "length (set_bit_at j d) = length d" "length (clear_bit_at j d) = length d"
  by (simp_all add: set_bit_at_def clear_bit_at_def)

section \<open>The block allocator\<close>

text \<open>
  The file system lies inside the disk, and no block in \<open>l\<close>, nor any block of the bitmap, is marked free.
\<close>

definition bitmap_ok :: "'a fsst_scheme \<Rightarrow> u32 set \<Rightarrow> bool" where
  "bitmap_ok s l \<longleftrightarrow> (\<forall>j < unat (sb_size (sb s)). of_nat j < disksize s \<and> BBLOCK (of_nat j) (sb s) < disksize s
     \<and> BBLOCK (of_nat j) (sb s) \<notin> l
     \<and> (\<not> used (view s) (sb s) j \<longrightarrow> of_nat j \<notin> l \<and> (\<forall>k < unat (sb_size (sb s)). of_nat j \<noteq> BBLOCK (of_nat k) (sb s))))"

lemma free_bit_Some:
  assumes "free_bit b sz d = Some n"
  shows "n < BPB" "b + n < sz" "\<not> bit (d ! (n div 8)) (n mod 8)"
    and "m < n \<Longrightarrow> bit (d ! (m div 8)) (m mod 8)"
proof -
  have f: "n < BPB \<and> b + n < sz \<and> \<not> bit (d ! (n div 8)) (n mod 8) \<and> (\<forall>m<n. \<not> (b + m < sz \<and> \<not> bit (d ! (m div 8)) (m mod 8)))"
    using assms by (auto simp: free_bit_def find_Some_iff and_bit_mask)
  then show "n < BPB" "b + n < sz" "\<not> bit (d ! (n div 8)) (n mod 8)" by auto
  show "bit (d ! (m div 8)) (m mod 8)" if "m < n" using f that by auto
qed

lemma free_bit_None: "free_bit b sz d = None \<Longrightarrow> m < BPB \<Longrightarrow> b + m < sz \<Longrightarrow> bit (d ! (m div 8)) (m mod 8)"
  by (auto simp: free_bit_def find_None_iff and_bit_mask)

lemma bzero_busy:
  fixes s :: "'a fsst_scheme"
  assumes q: "busy s i l (Suc k)" and n: "n < disksize s" "n \<notin> l" and l: "finite l" "card l \<le> 1"
  shows "\<exists>t. bzero 1 n s = Inr t \<and> busy t i l k \<and> view t = (view s)(n := replicate BSIZE 0) \<and> unmoved s t
    \<and> pinned s \<subseteq> pinned t \<and> (\<forall>c m. owns s c m \<longrightarrow> owns t c m)"
  using write_busy [OF q n l, of "\<lambda>_. replicate BSIZE 0"] unfolding bzero_def Let_def by simp

text \<open>What one call of \<^verbatim>\<open>balloc\<close> may do from \<open>s\<close>: report that every block is in use, or take the first free block.\<close>

definition allocates :: "'a fsst_scheme \<Rightarrow> nat \<Rightarrow> u32 set \<Rightarrow> nat \<Rightarrow> 'a fsst_scheme stop + (u32 \<times> 'a fsst_scheme) \<Rightarrow> bool" where
  "allocates s i l k r \<longleftrightarrow>
     (\<forall>j < unat (sb_size (sb s)). used (view s) (sb s) j) \<and> r = Inl (Panic ''balloc: out of blocks'')
   \<or> (\<exists>j t. r = Inr (of_nat j, t) \<and> j < unat (sb_size (sb s)) \<and> \<not> used (view s) (sb s) j \<and> (\<forall>m<j. used (view s) (sb s) m)
       \<and> view t = (view s)(BBLOCK (of_nat j) (sb s) := set_bit_at j (view s (BBLOCK (of_nat j) (sb s))),
                          of_nat j := replicate BSIZE 0)
       \<and> busy t i l k \<and> unmoved s t \<and> pinned s \<subseteq> pinned t \<and> (\<forall>c m. owns s c m \<longrightarrow> owns t c m))"

lemma allocates_later:
  assumes "allocates t i l k r" "view t = view s" "unmoved s t" "pinned t = pinned s" "\<And>c m. owns s c m \<Longrightarrow> owns t c m"
  shows "allocates s i l k r"
proof -
  have r: "j < unat (sb_size (sb s)) \<and> busy u i l k \<and> unmoved t u \<Longrightarrow> unmoved s u" for j u using assms(3) unmoved_trans by blast
  show ?thesis
    using assms(1,4,5) r unfolding allocates_def assms(2) unmovedD [OF assms(3)] by blast
qed

lemma bitmap_ok_later: "bitmap_ok s l \<Longrightarrow> view t = view s \<Longrightarrow> unmoved s t \<Longrightarrow> bitmap_ok t l"
  by (simp add: bitmap_ok_def unmoved_def)

lemma used_at:
  assumes "BPB dvd b" "n < BPB" "b + n < 4294967296"
  shows "BBLOCK (of_nat (b + n)) B = BBLOCK (of_nat b) B" "(b + n) mod BPB = n"
    and "used v B (b + n) \<longleftrightarrow> bit (v (BBLOCK (of_nat b) B) ! (n div 8)) (n mod 8)"
proof -
  obtain c where b: "b = BPB * c" using assms(1) by (auto simp: dvd_def)
  show m: "(b + n) mod BPB = n" using b assms(2) by simp
  have "(b + n) div BPB = b div BPB" using b assms(2) by simp
  then show e: "BBLOCK (of_nat (b + n)) B = BBLOCK (of_nat b) B" using BBLOCK_eq_iff [OF assms(3)] assms(3) by fastforce
  show "used v B (b + n) \<longleftrightarrow> bit (v (BBLOCK (of_nat b) B) ! (n div 8)) (n mod 8)"
    unfolding used_def e m using BPB_mod_8 [of "b + n"] unfolding m by simp
qed

lemma balloc_found:
  fixes s :: "'a fsst_scheme"
  assumes q: "busy s i (insert (BBLOCK (of_nat b) (sb s)) l) (Suc (Suc k))" and ok: "bitmap_ok s l" and l: "finite l" "card l \<le> 1"
    and o: "owns s bp (BBLOCK (of_nat b) (sb s))" and d: "b_data (bufs s bp) = view s (BBLOCK (of_nat b) (sb s))"
    and n: "n < BPB" "b + n < unat (sb_size (sb s))" "\<not> used (view s) (sb s) (b + n)" and b: "BPB dvd b"
  shows "\<exists>t. bnd (log_write bp (upd_buf bp (\<lambda>q. q\<lparr>b_data := (b_data q)[n div 8 := b_data q ! (n div 8) OR bit_mask n]\<rparr>) s))
     (\<lambda>s. bnd (brelse bp s) (\<lambda>s. bnd (bzero 1 (of_nat (b + n)) s) (\<lambda>s. Inr (of_nat (b + n) :: u32, s)))) = Inr (of_nat (b + n), t)
   \<and> view t = (view s)(BBLOCK (of_nat b) (sb s) := set_bit_at (b + n) (view s (BBLOCK (of_nat b) (sb s))), of_nat (b + n) := replicate BSIZE 0)
   \<and> busy t i l k \<and> unmoved s t \<and> pinned s \<subseteq> pinned t \<and> (\<forall>c m. owns s c m \<and> m \<noteq> BBLOCK (of_nat b) (sb s) \<longrightarrow> owns t c m)"
proof -
  define m where "m = BBLOCK (of_nat b) (sb s)"
  define j where "j = b + n"
  have "j < 4294967296" using n(2) unat32_less [of "sb_size (sb s)"] by (simp add: j_def)
  note u = used_at [OF b n(1) this [unfolded j_def]]
  have len: "length (set_bit_at j (view s m)) = BSIZE" using q length_view by (auto simp: busy_def)
  have x: "(b_data (bufs s bp))[n div 8 := b_data (bufs s bp) ! (n div 8) OR bit_mask n] = set_bit_at j (view s m)"
    by (simp add: set_bit_at_def j_def u(2) d m_def)
  have new: "of_nat j < disksize s" "of_nat j \<notin> l" "m \<notin> l"
    using ok n(2,3) u(1) [of "sb s"] unfolding bitmap_ok_def j_def m_def by metis+
  obtain s1 where w: "log_write bp (upd_buf bp (\<lambda>q. q\<lparr>b_data := set_bit_at j (view s m)\<rparr>) s) = Inr s1" "busy s1 i (insert m l) (Suc k)"
    "view s1 = (view s)(m := set_bit_at j (view s m))" "pinned s1 = insert m (pinned s)" "unmoved s s1" "\<forall>c m. owns s c m \<longrightarrow> owns s1 c m"
    using log_write_busy [OF q o len] unfolding m_def by blast
  obtain s2 where r: "brelse bp s1 = Inr s2" "busy s2 i (insert m l - {m}) (Suc k)" "view s2 = view s1" "pinned s2 = pinned s1" "unmoved s1 s2"
    "\<forall>c k. owns s1 c k \<and> k \<noteq> m \<longrightarrow> owns s2 c k"
    using brelse_busy [OF w(2), of bp m] w(4,6) o unfolding m_def by blast
  have l2: "insert m l - {m} = l" using new(3) by auto
  have k2: "unmoved s s2" using w(5) r(5) by (rule unmoved_trans)
  obtain t where t: "bzero 1 (of_nat j) s2 = Inr t" "busy t i l k" "view t = (view s2)(of_nat j := replicate BSIZE 0)" "unmoved s2 t"
    "pinned s2 \<subseteq> pinned t" "\<forall>c m. owns s2 c m \<longrightarrow> owns t c m"
    using bzero_busy [OF r(2) [unfolded l2] _ new(2) l] new(1) unmovedD(1) [OF k2] by auto
  have "unmoved s t" using k2 t(4) by (rule unmoved_trans)
  moreover have "upd_buf bp (\<lambda>q. q\<lparr>b_data := (b_data q)[n div 8 := b_data q ! (n div 8) OR bit_mask n]\<rparr>) s
      = upd_buf bp (\<lambda>q. q\<lparr>b_data := set_bit_at j (view s m)\<rparr>) s"
    using upd_buf_at [of bp "\<lambda>d. d[n div 8 := d ! (n div 8) OR bit_mask n]" s] unfolding x .
  ultimately show ?thesis unfolding m_def [symmetric] j_def [symmetric] using w(1,3,4,6) r(1,3,4,6) t(1,2,3,5,6) by auto
qed

lemma used_limit: "j < unat (sb_size B) \<Longrightarrow> j < 4294967296"
  using unat32_less [of "sb_size B"] by simp

lemma free_bit_first:
  assumes b: "BPB dvd b" "\<forall>m<b. m < unat (sb_size B) \<longrightarrow> used v B m" and f: "free_bit b (unat (sb_size B)) (v (BBLOCK (of_nat b) B)) = Some n"
  shows "\<not> used v B (b + n)" "c < b + n \<Longrightarrow> used v B c" "BBLOCK (of_nat (b + n)) B = BBLOCK (of_nat b) B"
proof -
  note F = free_bit_Some [OF f]
  have lim: "b + n < 4294967296" by (rule used_limit [OF F(2)])
  show "\<not> used v B (b + n)" using used_at(3) [OF b(1) F(1) lim] F(3) by simp
  show "BBLOCK (of_nat (b + n)) B = BBLOCK (of_nat b) B" by (rule used_at(1) [OF b(1) F(1) lim])
  show "used v B c" if c: "c < b + n"
  proof (cases "c < b")
    case False
    then have d: "c - b < n" "c = b + (c - b)" using c by simp_all
    have "c - b < BPB" "b + (c - b) < 4294967296" using d(1) F(1) lim by simp_all
    from used_at(3) [OF b(1) this] F(4) [OF d(1)] d(2) show ?thesis by simp
  qed (use b(2) F(2) in simp)
qed

lemma free_bit_full:
  assumes b: "BPB dvd b" "\<forall>m<b. m < unat (sb_size B) \<longrightarrow> used v B m" and f: "free_bit b (unat (sb_size B)) (v (BBLOCK (of_nat b) B)) = None"
    and c: "c < b + BPB" "c < unat (sb_size B)"
  shows "used v B c"
proof (cases "c < b")
  case False
  then have d: "c = b + (c - b)" "c - b < BPB" "b + (c - b) < unat (sb_size B)" using c by simp_all
  show ?thesis using used_at(3) [OF b(1) d(2) used_limit [OF d(3)], of v B] free_bit_None [OF f d(2,3)] d(1) by simp
qed (use b(2) c in simp)

lemma balloc_loop_allocates:
  fixes s :: "'a fsst_scheme"
  assumes "busy s i l (Suc (Suc k))" "bitmap_ok s l" "finite l" "card l \<le> 1" "BPB dvd b" "\<forall>m<b. m < unat (sb_size (sb s)) \<longrightarrow> used (view s) (sb s) m"
  shows "allocates s i l k (balloc_loop 1 (unat (sb_size (sb s))) b s)"
  using assms
proof (induction "unat (sb_size (sb s)) - b" arbitrary: b s rule: less_induct)
  case less
  let ?sz = "unat (sb_size (sb s))" and ?m = "BBLOCK (of_nat b) (sb s)"
  show ?case
  proof (cases "b < ?sz")
    case False
    then show ?thesis using less.prems(6) by (subst balloc_loop.simps) (auto simp: allocates_def)
  next
    case True
    have m: "?m < disksize s" "?m \<notin> l" using less.prems(2) True by (auto simp: bitmap_ok_def)
    obtain bp t where t: "bread 1 ?m s = Inr (bp, t)" "busy t i (insert ?m l) (Suc (Suc k))" "owns t bp ?m" "b_data (bufs t bp) = view s ?m"
      and e: "view t = view s" "pinned t = pinned s" "unmoved s t" "\<forall>c m. owns s c m \<longrightarrow> owns t c m"
      using bread_busy [OF less.prems(1) m less.prems(3,4)] by blast
    note k = unmovedD [OF e(3)]
    have okt: "bitmap_ok t l" using bitmap_ok_later [OF less.prems(2) e(1,3)] .
    have other: "owns s c n \<Longrightarrow> n \<noteq> ?m" for c n using owns_locked [of s c n] less.prems(1) m(2) by (auto simp: busy_def)
    show ?thesis
    proof (cases "free_bit b ?sz (view s ?m)")
      case (Some n)
      note f = free_bit_Some [OF Some] and first = free_bit_first [OF less.prems(5,6) Some]
      have free: "\<not> used (view t) (sb t) (b + n)" using first(1) unfolding e(1) k(4) .
      obtain u where u: "bnd (log_write bp (upd_buf bp (\<lambda>q. q\<lparr>b_data := (b_data q)[n div 8 := b_data q ! (n div 8) OR bit_mask n]\<rparr>) t))
           (\<lambda>s. bnd (brelse bp s) (\<lambda>s. bnd (bzero 1 (of_nat (b + n)) s) (\<lambda>s. Inr (of_nat (b + n) :: u32, s)))) = Inr (of_nat (b + n), u)"
        "view u = (view s)(?m := set_bit_at (b + n) (view s ?m), of_nat (b + n) := replicate BSIZE 0)"
        "busy u i l k" "unmoved t u" "pinned t \<subseteq> pinned u" "\<forall>c m. owns t c m \<and> m \<noteq> ?m \<longrightarrow> owns u c m"
        using balloc_found [of t i b l k bp n] t(2-4) okt less.prems(3,4,5) f(1,2) free unfolding e(1) k(4) by blast
      have "balloc_loop 1 ?sz b s = Inr (of_nat (b + n), u)"
        using u(1) True Some t(1,4) by (subst balloc_loop.simps) (simp add: Let_def)
      moreover have "unmoved s u" using e(3) u(4) by (rule unmoved_trans)
      ultimately show ?thesis
        unfolding allocates_def using f(2) first u(2,3,5,6) e(2,4) other
        by (intro disjI2 exI [of _ "b + n"] exI [of _ u]) (auto simp del: of_nat_add)
    next
      case None
      obtain u where u: "brelse bp t = Inr u" "busy u i (insert ?m l - {?m}) (Suc (Suc k))" "view u = view t" "pinned u = pinned t" "unmoved t u"
        "\<forall>c m. owns t c m \<and> m \<noteq> ?m \<longrightarrow> owns u c m"
        using brelse_busy [OF t(2,3)] quiet_clean [OF busy_quiet [OF less.prems(1)] m(2)] e(1,2) k(3) by auto
      have ku: "unmoved s u" using e(3) u(5) by (rule unmoved_trans)
      have l2: "insert ?m l - {?m} = l" using m(2) by auto
      note full = free_bit_full [OF less.prems(5,6) None]
      have v: "view u = view s" using u(3) e(1) by simp
      have "allocates u i l k (balloc_loop 1 (unat (sb_size (sb u))) (b + BPB) u)"
        by (rule less.hyps)
          (use True u(2) l2 bitmap_ok_later [OF less.prems(2) v ku] less.prems(3-5) full in \<open>auto simp: v unmovedD [OF ku] BPB_def BSIZE_def\<close>)
      then have "allocates s i l k (balloc_loop 1 ?sz (b + BPB) u)"
        unfolding unmovedD [OF ku] by (rule allocates_later) (use v ku u(4,6) e(2,4) other in auto)
      moreover have "balloc_loop 1 ?sz b s = balloc_loop 1 ?sz (b + BPB) u"
        using True None t(1,4) u(1) by (subst balloc_loop.simps) simp
      ultimately show ?thesis by simp
    qed
  qed
qed

lemma balloc_allocates:
  "busy s i l (Suc (Suc k)) \<Longrightarrow> bitmap_ok s l \<Longrightarrow> finite l \<Longrightarrow> card l \<le> 1 \<Longrightarrow> allocates s i l k (balloc 1 s)"
  using balloc_loop_allocates [of s i l k 0] by (simp add: balloc_def)

section \<open>Freeing a block\<close>

lemma readsb_quiet:
  fixes s :: "'a fsst_scheme"
  assumes q: "quiet s i l" and n: "1 < disksize s" "1 \<notin> l" and l: "finite l" "card l \<le> 1"
  shows "\<exists>t. readsb 1 s = Inr (get_sb (view s 1), t) \<and> quiet t i l \<and> view t = view s \<and> pinned t = pinned s \<and> unmoved s t \<and> log t = log s
    \<and> (\<forall>c m. owns s c m \<longrightarrow> owns t c m)"
proof -
  obtain b t where b: "bread 1 1 s = Inr (b, t)" "quiet t i (insert 1 l)" "owns t b 1" "b_data (bufs t b) = view s 1"
    and e: "view t = view s" "pinned t = pinned s" "unmoved s t" "log t = log s" "\<forall>c m. owns s c m \<longrightarrow> owns t c m"
    using bread_quiet [OF q n l] by blast
  obtain u where u: "brelse b t = Inr u" "quiet u i (insert 1 l - {1})" "view u = view t" "pinned u = pinned t" "unmoved t u" "log u = log t"
    "\<forall>c m. owns t c m \<and> m \<noteq> 1 \<longrightarrow> owns u c m"
    using brelse_quiet [OF b(2,3)] quiet_clean [OF q n(2)] e(1,2) unmovedD(3) [OF e(3)] by auto
  have m: "owns s c k \<Longrightarrow> k \<noteq> 1" for c k using owns_locked [of s c k] q n(2) by (auto simp: quiet_def)
  have "unmoved s u" using e(3) u(5) by (rule unmoved_trans)
  moreover have "insert 1 l - {1} = l" using n(2) by auto
  ultimately show ?thesis using b(1,4) e u m by (auto simp: readsb_def)
qed

lemma bfree_busy:
  fixes s :: "'a fsst_scheme"
  assumes q: "busy s i l (Suc k)" and n: "1 < disksize s" "1 \<notin> l" and l: "finite l" "card l \<le> 1" and sb: "get_sb (view s 1) = sb s"
    and m: "BBLOCK b (sb s) < disksize s" "BBLOCK b (sb s) \<notin> l"
  shows "if used (view s) (sb s) (unat b)
    then \<exists>t. bfree 1 b s = Inr t \<and> busy t i l k \<and> unmoved s t
       \<and> view t = (view s)(BBLOCK b (sb s) := clear_bit_at (unat b) (view s (BBLOCK b (sb s))))
       \<and> pinned s \<subseteq> pinned t \<and> (\<forall>c m. owns s c m \<longrightarrow> owns t c m)
    else bfree 1 b s = Inl (Panic ''freeing free block'')"
proof -
  let ?m = "BBLOCK b (sb s)"
  obtain s1 where s1: "readsb 1 s = Inr (sb s, s1)" "view s1 = view s" "pinned s1 = pinned s" "unmoved s s1" "\<forall>c m. owns s c m \<longrightarrow> owns s1 c m"
    and q1: "busy s1 i l (Suc k)"
    using readsb_quiet [OF busy_quiet [OF q] n l] sb q by (auto simp: busy_def quiet_def)
  have e1: "s1\<lparr>sb := sb s\<rparr> = s1" using unmovedD(4) [OF s1(4)] by simp
  obtain bp t where t: "bread 1 ?m s1 = Inr (bp, t)" "busy t i (insert ?m l) (Suc k)" "owns t bp ?m" "b_data (bufs t bp) = view s ?m"
    and e: "view t = view s" "pinned t = pinned s" "unmoved s1 t" "\<forall>c m. owns s1 c m \<longrightarrow> owns t c m"
    using bread_busy [OF q1 _ _ l, of ?m] m unmovedD(1) [OF s1(4)] s1(2,3) by auto
  have kt: "unmoved s t" using s1(4) e(3) by (rule unmoved_trans)
  have bit: "view s ?m ! (unat b mod BPB div 8) AND bit_mask (unat b mod BPB) = 0 \<longleftrightarrow> \<not> used (view s) (sb s) (unat b)"
    by (simp add: used_def and_bit_mask)
  have step: "bfree 1 b s = (if view s ?m ! (unat b mod BPB div 8) AND bit_mask (unat b mod BPB) = 0 then Inl (Panic ''freeing free block'')
      else bnd (log_write bp (upd_buf bp (\<lambda>q. q\<lparr>b_data := clear_bit_at (unat b) (view s ?m)\<rparr>) t)) (brelse bp))"
    unfolding bfree_def s1(1) bnd_simps Let_def prod.case e1 unmovedD(4) [OF s1(4)] t(1) t(4) clear_bit_at_def by simp
  show ?thesis
  proof (cases "used (view s) (sb s) (unat b)")
    case True
    have len: "length (clear_bit_at (unat b) (view s ?m)) = BSIZE" using q length_view by (auto simp: busy_def)
    obtain u where u: "log_write bp (upd_buf bp (\<lambda>q. q\<lparr>b_data := clear_bit_at (unat b) (view s ?m)\<rparr>) t) = Inr u" "busy u i (insert ?m l) k"
      "view u = (view s)(?m := clear_bit_at (unat b) (view s ?m))" "pinned u = insert ?m (pinned s)" "unmoved t u" "\<forall>c m. owns t c m \<longrightarrow> owns u c m"
      using log_write_busy [OF t(2,3) len] unfolding e(1,2) by blast
    obtain w where w: "brelse bp u = Inr w" "busy w i (insert ?m l - {?m}) k" "view w = view u" "pinned w = pinned u" "unmoved u w"
      "\<forall>c m. owns u c m \<and> m \<noteq> ?m \<longrightarrow> owns w c m"
      using brelse_busy [OF u(2), of bp ?m] u(4,6) t(3) by blast
    have o: "owns s c k \<Longrightarrow> k \<noteq> ?m" for c k using owns_locked [of s c k] q m(2) by (auto simp: busy_def)
    have "unmoved s w" using kt u(5) w(5) unmoved_trans by blast
    moreover have "insert ?m l - {?m} = l" using m(2) by auto
    ultimately show ?thesis using True step bit u w s1(5) e(4) o by auto
  qed (use step bit in simp)
qed

lemma busy_length: "busy s i l k \<Longrightarrow> length (view s b) = BSIZE"
  using length_view by (auto simp: busy_def)

lemma balloc_marks:
  fixes s :: "'a fsst_scheme"
  assumes b: "busy s i l (Suc (Suc k))" and ok: "bitmap_ok s l" and l: "finite l" "card l \<le> 1"
    and free: "\<exists>j < unat (sb_size (sb s)). \<not> used (view s) (sb s) j"
  obtains j t where "balloc 1 s = Inr (of_nat j, t)" "j < unat (sb_size (sb s))" "\<not> used (view s) (sb s) j" "\<And>m. m < j \<Longrightarrow> used (view s) (sb s) m"
    "busy t i l k" "unmoved s t" "view t (of_nat j) = replicate BSIZE 0"
    "\<And>m. m < unat (sb_size (sb s)) \<Longrightarrow> used (view t) (sb t) m \<longleftrightarrow> used (view s) (sb s) m \<or> m = j"
    "\<And>b. b \<noteq> of_nat j \<Longrightarrow> b \<noteq> BBLOCK (of_nat j) (sb s) \<Longrightarrow> view t b = view s b"
    "pinned s \<subseteq> pinned t" "\<And>c m. owns s c m \<Longrightarrow> owns t c m"
proof -
  obtain j t where j: "balloc 1 s = Inr (of_nat j, t)" "j < unat (sb_size (sb s))" "\<not> used (view s) (sb s) j" "\<forall>m<j. used (view s) (sb s) m"
    and v: "view t = (view s)(BBLOCK (of_nat j) (sb s) := set_bit_at j (view s (BBLOCK (of_nat j) (sb s))), of_nat j := replicate BSIZE 0)"
    and t: "busy t i l k" "unmoved s t" "pinned s \<subseteq> pinned t" "\<forall>c m. owns s c m \<longrightarrow> owns t c m"
    using balloc_allocates [OF b ok l] free unfolding allocates_def by blast
  have m: "used (view t) (sb t) m \<longleftrightarrow> used (view s) (sb s) m \<or> m = j" if m: "m < unat (sb_size (sb s))" for m
  proof -
    have "of_nat j \<noteq> BBLOCK (of_nat m) (sb s)" using ok j(2,3) m by (simp add: bitmap_ok_def)
    then show ?thesis
      using used_set [of j m "view s" "sb s", OF used_limit [OF j(2)] used_limit [OF m] busy_length [OF b]] unfolding v unmovedD(4) [OF t(2)] by (simp add: used_def)
  qed
  show thesis by (rule that [OF j(1-3) _ t(1,2) _ m]) (use j(4) t(3,4) in \<open>simp_all add: v\<close>)
qed

lemma bfree_unmarks:
  fixes s :: "'a fsst_scheme"
  assumes b: "busy s i l (Suc k)" and ok: "bitmap_ok s l" and n: "1 < disksize s" "1 \<notin> l" and l: "finite l" "card l \<le> 1"
    and sb: "get_sb (view s 1) = sb s" and j: "j < unat (sb_size (sb s))" "used (view s) (sb s) j"
  obtains t where "bfree 1 (of_nat j) s = Inr t" "busy t i l k" "unmoved s t"
    "\<And>m. m < unat (sb_size (sb s)) \<Longrightarrow> used (view t) (sb t) m \<longleftrightarrow> used (view s) (sb s) m \<and> m \<noteq> j"
    "\<And>b. b \<noteq> BBLOCK (of_nat j) (sb s) \<Longrightarrow> view t b = view s b" "pinned s \<subseteq> pinned t" "\<And>c m. owns s c m \<Longrightarrow> owns t c m"
proof -
  have m: "BBLOCK (of_nat j) (sb s) < disksize s" "BBLOCK (of_nat j) (sb s) \<notin> l" using ok j(1) by (auto simp: bitmap_ok_def)
  have u: "unat (of_nat j :: u32) = j" by (rule unat_of_nat32 [OF used_limit [OF j(1)]])
  obtain t where t: "bfree 1 (of_nat j) s = Inr t" "busy t i l k" "unmoved s t" "pinned s \<subseteq> pinned t" "\<forall>c m. owns s c m \<longrightarrow> owns t c m"
    and v: "view t = (view s)(BBLOCK (of_nat j) (sb s) := clear_bit_at j (view s (BBLOCK (of_nat j) (sb s))))"
    using bfree_busy [OF b n l sb m] j(2) unfolding u by auto
  have "used (view t) (sb t) m \<longleftrightarrow> used (view s) (sb s) m \<and> m \<noteq> j" if m: "m < unat (sb_size (sb s))" for m
    using used_clear [of j m "view s" "sb s", OF used_limit [OF j(1)] used_limit [OF m] busy_length [OF b]] unfolding v unmovedD(4) [OF t(3)] .
  then show thesis by (rule that [OF t(1-3)]) (use t(4,5) in \<open>simp_all add: v\<close>)
qed

section \<open>Properties of the block allocator\<close>

text \<open>
  C13: the block allocator. \<^verbatim>\<open>balloc\<close> panics when every block is marked in the bitmap; otherwise it returns the first block that is
  not, fills it with zeros, marks it and changes no other mark and no other block. \<^verbatim>\<open>bfree\<close> takes away the mark of its block and
  changes no other mark and no other block; it panics on a block that is not marked.
\<close>

theorem block_allocator:
  fixes s :: "'a fsst_scheme"
  assumes "busy s i {} (Suc (Suc k))" "bitmap_ok s {}" "1 < disksize s" "get_sb (view s 1) = sb s"
  shows "((\<forall>j < unat (sb_size (sb s)). used (view s) (sb s) j) \<and> balloc 1 s = Inl (Panic ''balloc: out of blocks'')
      \<or> (\<exists>j t. balloc 1 s = Inr (of_nat j, t) \<and> j < unat (sb_size (sb s)) \<and> \<not> used (view s) (sb s) j \<and> (\<forall>m<j. used (view s) (sb s) m)
          \<and> busy t i {} k \<and> unmoved s t \<and> view t (of_nat j) = replicate BSIZE 0
          \<and> (\<forall>m < unat (sb_size (sb s)). used (view t) (sb t) m \<longleftrightarrow> used (view s) (sb s) m \<or> m = j)
          \<and> (\<forall>b. b \<noteq> of_nat j \<and> b \<noteq> BBLOCK (of_nat j) (sb s) \<longrightarrow> view t b = view s b)))
    \<and> (\<forall>j < unat (sb_size (sb s)). if used (view s) (sb s) j
         then \<exists>t. bfree 1 (of_nat j) s = Inr t \<and> busy t i {} (Suc k) \<and> unmoved s t
           \<and> (\<forall>m < unat (sb_size (sb s)). used (view t) (sb t) m \<longleftrightarrow> used (view s) (sb s) m \<and> m \<noteq> j)
           \<and> (\<forall>b. b \<noteq> BBLOCK (of_nat j) (sb s) \<longrightarrow> view t b = view s b)
         else bfree 1 (of_nat j) s = Inl (Panic ''freeing free block''))"
proof (intro conjI allI impI)
  show "(\<forall>j < unat (sb_size (sb s)). used (view s) (sb s) j) \<and> balloc 1 s = Inl (Panic ''balloc: out of blocks'')
      \<or> (\<exists>j t. balloc 1 s = Inr (of_nat j, t) \<and> j < unat (sb_size (sb s)) \<and> \<not> used (view s) (sb s) j \<and> (\<forall>m<j. used (view s) (sb s) m)
          \<and> busy t i {} k \<and> unmoved s t \<and> view t (of_nat j) = replicate BSIZE 0
          \<and> (\<forall>m < unat (sb_size (sb s)). used (view t) (sb t) m \<longleftrightarrow> used (view s) (sb s) m \<or> m = j)
          \<and> (\<forall>b. b \<noteq> of_nat j \<and> b \<noteq> BBLOCK (of_nat j) (sb s) \<longrightarrow> view t b = view s b))"
  proof (cases "\<forall>j < unat (sb_size (sb s)). used (view s) (sb s) j")
    case True
    then show ?thesis using balloc_allocates [OF assms(1,2)] by (auto simp: allocates_def)
  next
    case False
    then have f: "\<exists>j < unat (sb_size (sb s)). \<not> used (view s) (sb s) j" by blast
    obtain j t where "balloc 1 s = Inr (of_nat j, t)" "j < unat (sb_size (sb s))" "\<not> used (view s) (sb s) j" "\<And>m. m < j \<Longrightarrow> used (view s) (sb s) m"
      "busy t i {} k" "unmoved s t" "view t (of_nat j) = replicate BSIZE 0"
      "\<And>m. m < unat (sb_size (sb s)) \<Longrightarrow> used (view t) (sb t) m \<longleftrightarrow> used (view s) (sb s) m \<or> m = j"
      "\<And>b. b \<noteq> of_nat j \<Longrightarrow> b \<noteq> BBLOCK (of_nat j) (sb s) \<Longrightarrow> view t b = view s b"
      by (rule balloc_marks [OF assms(1,2) _ _ f]) auto
    then show ?thesis by (intro disjI2 exI [of _ j] exI [of _ t] conjI allI impI) auto
  qed
next
  fix j assume j: "j < unat (sb_size (sb s))"
  have u: "unat (of_nat j :: u32) = j" by (rule unat_of_nat32 [OF used_limit [OF j]])
  have b: "busy s i {} (Suc (Suc k))" by (rule assms(1))
  show "if used (view s) (sb s) j
         then \<exists>t. bfree 1 (of_nat j) s = Inr t \<and> busy t i {} (Suc k) \<and> unmoved s t
           \<and> (\<forall>m < unat (sb_size (sb s)). used (view t) (sb t) m \<longleftrightarrow> used (view s) (sb s) m \<and> m \<noteq> j)
           \<and> (\<forall>b. b \<noteq> BBLOCK (of_nat j) (sb s) \<longrightarrow> view t b = view s b)
         else bfree 1 (of_nat j) s = Inl (Panic ''freeing free block'')"
  proof (cases "used (view s) (sb s) j")
    case True
    obtain t where "bfree 1 (of_nat j) s = Inr t" "busy t i {} (Suc k)" "unmoved s t"
      "\<And>m. m < unat (sb_size (sb s)) \<Longrightarrow> used (view t) (sb t) m \<longleftrightarrow> used (view s) (sb s) m \<and> m \<noteq> j"
      "\<And>b. b \<noteq> BBLOCK (of_nat j) (sb s) \<Longrightarrow> view t b = view s b"
      by (rule bfree_unmarks [OF b assms(2,3) _ _ _ assms(4) j True]) auto
    then show ?thesis using True by auto
  next
    case False
    then show ?thesis
      using bfree_busy [OF b assms(3) _ _ _ assms(4), of "of_nat j"] assms(2) j unfolding u by (simp add: bitmap_ok_def)
  qed
qed

text \<open>A file system of 40 blocks whose first eight blocks, the bitmap in block 5 among them, are in use.\<close>

definition small_sb :: superblock where
  "small_sb = \<lparr>sb_size = 40, sb_nblocks = 32, sb_ninodes = 8, sb_nlog = 2, sb_logstart = 2, sb_inodestart = 4, sb_bmapstart = 5\<rparr>"

definition small_disk :: "u32 \<Rightarrow> block" where
  "small_disk n = (if n = 1 then put_sb small_sb (replicate BSIZE 0) else if n = 5 then 255 # replicate 511 0 else replicate BSIZE 0)"

lemma more_fields:
  fixes s :: "'a fsst_scheme"
  assumes "bst.more s = \<lparr>log = g, sb = B, icache = f, \<dots> = z\<rparr>"
  shows "log s = g" "sb s = B" "icache s = f" "fsst.more s = z"
  using assms by (cases s; simp)+

lemma small_fs:
  fixes z :: 'a and d :: "u32 \<Rightarrow> block"
  assumes "\<And>n. length (d n) = BSIZE"
  obtains s :: "'a fsst_scheme" where "busy s 0 {} 25" "view s = d" "disk s = d" "sb s = small_sb" "disksize s = 1000" "icache s = f"
    "fsst.more s = z" "log s = new_log"
proof -
  obtain s :: "'a fsst_scheme" where s: "calm s 0" "bst.more s = \<lparr>log = new_log, sb = small_sb, icache = f, \<dots> = z\<rparr>" "disksize s = 1000"
    "view s = d" "disk s = d" "pinned s = {}"
    by (rule calm_disk [OF assms])
  note m = more_fields [OF s(2)]
  have "log_space new_log {} 25" by (simp add: log_space_def new_log_def NBUF_def LOGSIZE_def MAXOPBLOCKS_def)
  then have "busy s 0 {} 25" using s(1,6) m(1) by (simp add: busy_def calm_def)
  then show thesis using that s m by blast
qed

lemma small_disk_used: "j < 40 \<Longrightarrow> used small_disk small_sb j \<longleftrightarrow> j < 8"
proof -
  assume j: "j < 40"
  have e: "BBLOCK (of_nat j) small_sb = 5" using j by (simp add: BBLOCK_of_nat BPB_def BSIZE_def small_sb_def)
  have "j mod BPB = j" using j by (simp add: BPB_def BSIZE_def)
  moreover have "bit (255 :: u8) j" if "j < 8"
  proof -
    have "(255 :: u8) = mask 8" by (simp add: mask_eq_exp_minus_1)
    then show ?thesis using that by (simp only: bit_mask_iff) simp
  qed
  ultimately show ?thesis using j unfolding used_def e by (cases "j < 8") (auto simp: small_disk_def nth_Cons')
qed

lemma small_disk_length: "length (small_disk n) = BSIZE"
  by (simp add: small_disk_def put_sb_def BSIZE_def)

lemma small_bitmap_ok:
  fixes s :: "'a fsst_scheme"
  assumes "\<And>j. j < 40 \<Longrightarrow> used (view s) small_sb j \<longleftrightarrow> j < 8" "sb s = small_sb" "disksize s = 1000"
  shows "bitmap_ok s {}"
proof -
  have b: "BBLOCK (of_nat j) small_sb = 5" if "j < 40" for j using that by (simp add: BBLOCK_of_nat BPB_def BSIZE_def small_sb_def)
  have "(of_nat j :: u32) < 1000" if "j < 40" for j using that by (simp add: word_less_nat_alt unat_of_nat32)
  moreover have "(of_nat j :: u32) \<noteq> 5" if "j < 40" "\<not> j < 8" for j
  proof -
    have "unat (of_nat j :: u32) \<noteq> unat (5 :: u32)" using that unat_of_nat32 [of j] by simp
    then show ?thesis by auto
  qed
  ultimately show ?thesis unfolding bitmap_ok_def assms(2,3) using assms(1) b by (simp add: small_sb_def)
qed

theorem block_allocator_witness:
  "\<exists>(s::fsst) t u. balloc 1 s = Inr (8, t) \<and> used (view t) small_sb 8 \<and> \<not> used (view s) small_sb 8
     \<and> bfree 1 5 s = Inr u \<and> \<not> used (view u) small_sb 5"
proof -
  obtain s :: fsst where s: "busy s 0 {} 25" "view s = small_disk" "sb s = small_sb" "disksize s = 1000"
    by (rule small_fs [OF small_disk_length])
  have sb: "get_sb (view s 1) = sb s" unfolding s by (simp add: small_disk_def get_put_sb BSIZE_def)
  have b: "busy s 0 {} (Suc (Suc 0))" by (rule busy_mono [OF s(1)]) simp
  have d: "1 < disksize s" unfolding s(4) by simp
  have m: "bitmap_ok s {}" by (rule small_bitmap_ok [OF _ s(3,4)]) (simp only: s(2) small_disk_used)
  note A = block_allocator [OF b m d sb, unfolded s(2,3)]
  have n: "unat (sb_size small_sb) = 40" by (simp add: small_sb_def)
  have "\<not> (\<forall>j<40. used small_disk small_sb j)" using small_disk_used [of 8] by (intro notI) simp
  then obtain j t where j: "balloc 1 s = Inr (of_nat j, t)" "j < 40" "\<not> used small_disk small_sb j" "\<forall>m<j. used small_disk small_sb m"
    "used (view t) (sb t) j" "unmoved s t"
    using conjunct1 [OF A] unfolding n by blast
  have "\<not> j < 8" using j(2,3) small_disk_used [of j] by simp
  moreover have "\<not> 8 < j" using j(4) small_disk_used [of 8] by (intro notI) simp
  ultimately have e: "j = 8" by simp
  obtain u where u: "bfree 1 (of_nat 5) s = Inr u" "\<not> used (view u) (sb u) 5" "unmoved s u"
  proof -
    have "used small_disk small_sb 5" using small_disk_used [of 5] by simp
    with conjunct2 [OF A, rule_format, of 5] obtain u where "bfree 1 (of_nat 5) s = Inr u" "unmoved s u"
      "\<forall>m<40. used (view u) (sb u) m \<longleftrightarrow> used small_disk small_sb m \<and> m \<noteq> 5"
      unfolding n by (simp only: if_True) auto
    then show thesis by (intro that) simp_all
  qed
  show ?thesis
    by (intro exI [of _ s] exI [of _ t] exI [of _ u] conjI)
      (use j e u unmovedD(4) [OF j(6)] unmovedD(4) [OF u(3)] s(2,3) in simp_all)
qed

end
