(* ===== verification/Fs_Files.thy ===== *)
theory Fs_Files
  imports Fs_Blocks
begin

text \<open>
  Files: the bytes of an inode as the readers of the disk see them, and what \<^verbatim>\<open>bmap\<close>, \<^verbatim>\<open>readi\<close> and \<^verbatim>\<open>writei\<close> do to them.
\<close>

section \<open>The bytes of a file\<close>

definition fblk :: "(u32 \<Rightarrow> block) \<Rightarrow> inode \<Rightarrow> nat \<Rightarrow> u32" where
  "fblk v q bn = (if bn < NDIRECT then i_addrs q ! bn
     else if i_addrs q ! NDIRECT = 0 then 0 else get32 (4 * (bn - NDIRECT)) (v (i_addrs q ! NDIRECT)))"

definition fbyte :: "(u32 \<Rightarrow> block) \<Rightarrow> inode \<Rightarrow> nat \<Rightarrow> u8" where
  "fbyte v q x = (if fblk v q (x div BSIZE) = 0 then 0 else v (fblk v q (x div BSIZE)) ! (x mod BSIZE))"

text \<open>The bytes from \<open>off\<close> on.\<close>

definition fbytes :: "(u32 \<Rightarrow> block) \<Rightarrow> inode \<Rightarrow> nat \<Rightarrow> nat \<Rightarrow> u8 list" where
  "fbytes v q off n = map (fbyte v q) [off..<off + n]"

text \<open>The blocks from \<open>off\<close> to \<open>off + n\<close> are mapped to blocks of the disk.\<close>

definition mapped :: "(u32 \<Rightarrow> block) \<Rightarrow> u32 \<Rightarrow> inode \<Rightarrow> nat \<Rightarrow> nat \<Rightarrow> bool" where
  "mapped v D q off n \<longleftrightarrow> off + n \<le> MAXFILE * BSIZE \<and> (\<forall>x. off \<le> x \<and> x < off + n \<longrightarrow>
     fblk v q (x div BSIZE) \<noteq> 0 \<and> fblk v q (x div BSIZE) < D \<and> (NDIRECT \<le> x div BSIZE \<longrightarrow> i_addrs q ! NDIRECT < D))"

lemma length_fbytes [simp]: "length (fbytes v q off n) = n"
  by (simp add: fbytes_def)

lemma fbytes_append: "m \<le> n \<Longrightarrow> fbytes v q off n = fbytes v q off m @ fbytes v q (off + m) (n - m)"
  unfolding fbytes_def map_append [symmetric] upt_add_eq_append [OF le_add1, symmetric] by simp

lemma div_chunk: "m \<le> BSIZE - off mod BSIZE \<Longrightarrow> j < m \<Longrightarrow> (off + j) div BSIZE = off div BSIZE \<and> (off + j) mod BSIZE = off mod BSIZE + j"
proof -
  assume a: "m \<le> BSIZE - off mod BSIZE" "j < m"
  have "off mod BSIZE + j < BSIZE" using a by simp
  moreover have "off + j = BSIZE * (off div BSIZE) + (off mod BSIZE + j)" using mult_div_mod_eq [of BSIZE off] by simp
  ultimately show ?thesis by (metis BSIZE_def div_mult_self4 add.commute div_less add_0 mod_mult_self2 mod_less zero_neq_numeral)
qed

lemma fbytes_chunk:
  assumes "m \<le> BSIZE - off mod BSIZE" "length (v (fblk v q (off div BSIZE))) = BSIZE" "fblk v q (off div BSIZE) \<noteq> 0"
  shows "get_bytes (off mod BSIZE) m (v (fblk v q (off div BSIZE))) = fbytes v q off m"
  using assms div_chunk [OF assms(1)] by (intro nth_equalityI) (auto simp: get_bytes_def fbytes_def fbyte_def)

section \<open>Delivering bytes\<close>

text \<open>Storing bytes changes the memory only, and depends on nothing but the memory and the page directory in use.\<close>

definition same_map :: "'a kmst_scheme \<Rightarrow> 'a kmst_scheme \<Rightarrow> bool" where
  "same_map s t \<longleftrightarrow> mem t = mem s \<and> cr3 (hw t) = cr3 (hw s) \<and> lapicid (hw t) = lapicid (hw s)"

lemma same_map_access:
  assumes "same_map s t"
  shows "upte va t = upte va s" "ukaddr va t = ukaddr va s" "mem t = mem s"
  using assms by (simp_all add: same_map_def upte_def ukaddr_def rd32_def Let_def)

lemma ustore_same:
  assumes "same_map s t"
  shows "(ustore va c s = Inl (Fault ''page fault'') \<and> ustore va c t = Inl (Fault ''page fault''))
    \<or> (\<exists>M. ustore va c s = Inr (s\<lparr>mem := M\<rparr>) \<and> ustore va c t = Inr (t\<lparr>mem := M\<rparr>))"
  unfolding ustore_def same_map_access [OF assms] by auto

lemma same_map_mem: "same_map s t \<Longrightarrow> same_map (s\<lparr>mem := M\<rparr>) (t\<lparr>mem := M\<rparr>)"
  by (simp add: same_map_def)

lemma uwrite_same:
  "same_map s t \<Longrightarrow> (uwrite va cs s = Inl (Fault ''page fault'') \<and> uwrite va cs t = Inl (Fault ''page fault''))
    \<or> (\<exists>M. uwrite va cs s = Inr (s\<lparr>mem := M\<rparr>) \<and> uwrite va cs t = Inr (t\<lparr>mem := M\<rparr>))"
proof (induction cs arbitrary: va s t)
  case Nil
  have "s = s\<lparr>mem := mem s\<rparr>" "t = t\<lparr>mem := mem s\<rparr>" using same_map_access(3) [OF Nil] by simp_all
  then show ?case by (metis uwrite.simps(1))
next
  case (Cons c cs)
  show ?case
  proof (cases "ustore va c s")
    case (Inl e)
    then show ?thesis using ustore_same [OF Cons.prems, of va c] by auto
  next
    case (Inr s')
    then obtain M where M: "ustore va c s = Inr (s\<lparr>mem := M\<rparr>)" "ustore va c t = Inr (t\<lparr>mem := M\<rparr>)"
      using ustore_same [OF Cons.prems, of va c] by auto
    show ?thesis using Cons.IH [OF same_map_mem [OF Cons.prems], of "va + 1" M] M by auto
  qed
qed

lemma uwrite_append: "uwrite va (xs @ ys) s = bnd (uwrite va xs s) (uwrite (va + of_nat (length xs)) ys)"
proof (induction xs arbitrary: va s)
  case (Cons x xs)
  then show ?case by (cases "ustore va x s") (simp_all add: ac_simps)
qed simp

definition land :: "dest \<Rightarrow> nat \<Rightarrow> u8 list \<Rightarrow> 'a kmst_scheme \<Rightarrow> (u32 \<Rightarrow> u8) option" where
  "land d j xs s = (case deliver d j xs s of Inl _ \<Rightarrow> None | Inr t \<Rightarrow> Some (mem t))"

lemma deliver_land:
  assumes "same_map s t"
  shows "deliver d j xs t = (case land d j xs s of None \<Rightarrow> Inl (Fault ''page fault'') | Some M \<Rightarrow> Inr (t\<lparr>mem := M\<rparr>))"
proof (cases d)
  case (At a)
  then show ?thesis using uwrite_same [OF assms, of "a + of_nat j" xs] by (auto simp: deliver_def land_def)
next
  case Local
  then show ?thesis using same_map_access(3) [OF assms] by (simp add: deliver_def land_def)
qed

lemma land_append:
  "land d j (xs @ ys) s = (case land d j xs s of None \<Rightarrow> None | Some M \<Rightarrow> land d (j + length xs) ys (s\<lparr>mem := M\<rparr>))"
proof -
  have r: "same_map s s" by (simp add: same_map_def)
  show ?thesis
  proof (cases d)
    case (At a)
    show ?thesis using uwrite_same [OF r, of "a + of_nat j" xs]
      by (auto simp: At land_def deliver_def uwrite_append ac_simps)
  qed (simp add: land_def deliver_def)
qed

lemma land_same: "same_map s t \<Longrightarrow> land d j xs t = land d j xs s"
  unfolding land_def [of d j xs t] by (simp add: deliver_land split: option.split)

lemma land_Local [simp]: "land Local j xs s = Some (mem s)"
  by (simp add: land_def deliver_def)

lemma mem_blocks [simp]:
  "view (s\<lparr>mem := M\<rparr>) = view s" "pinned (s\<lparr>mem := M\<rparr>) = pinned s" "locked_blocks (s\<lparr>mem := M\<rparr>) = locked_blocks s"
  "cache_ok (s\<lparr>mem := M\<rparr>) = cache_ok s" "owns (s\<lparr>mem := M\<rparr>) = owns s" "idle (s\<lparr>mem := M\<rparr>) = idle s"
  by (simp_all add: fun_eq_iff view_def pinned_def locked_blocks_def cache_ok_def owns_def idle_def
      block_of_def locked_buf_def bring_def nextf_def [abs_def] prevf_def [abs_def] cong: option.case_cong)

lemma quiet_mem [simp]: "quiet (s\<lparr>mem := M\<rparr>) i l = quiet s i l"
  by (simp add: quiet_def)

lemma unmoved_mem: "unmoved s t \<Longrightarrow> unmoved (s\<lparr>mem := M\<rparr>) (t\<lparr>mem := M\<rparr>)"
  by (simp add: unmoved_def)

lemma unmoved_same_map: "unmoved s t \<Longrightarrow> same_map s t"
  by (simp add: unmoved_def same_map_def)

section \<open>Reading a file\<close>

lemma bmap_mapped:
  fixes s :: "'a fsst_scheme"
  assumes q: "quiet s i {}" and dev: "i_dev (icache s ip) = 1" and bn: "bn < MAXFILE" "fblk (view s) (icache s ip) bn \<noteq> 0"
    and ind: "NDIRECT \<le> bn \<Longrightarrow> i_addrs (icache s ip) ! NDIRECT < disksize s"
  shows "\<exists>t. bmap ip bn s = Inr (fblk (view s) (icache s ip) bn, t) \<and> quiet t i {} \<and> view t = view s \<and> pinned t = pinned s
    \<and> unmoved s t \<and> log t = log s"
proof (cases "bn < NDIRECT")
  case True
  then show ?thesis using q bn(2) by (auto simp: bmap_def fblk_def Let_def)
next
  case False
  let ?a = "i_addrs (icache s ip) ! NDIRECT" and ?j = "bn - NDIRECT"
  have a: "?a \<noteq> 0" "get32 (4 * ?j) (view s ?a) \<noteq> 0" "?j < NINDIRECT" using False bn by (auto simp: fblk_def MAXFILE_def split: if_splits)
  obtain bp t where t: "bread 1 ?a s = Inr (bp, t)" "quiet t i {?a}" "owns t bp ?a" "b_data (bufs t bp) = view s ?a"
    "view t = view s" "pinned t = pinned s" "unmoved s t" "log t = log s"
    using bread_quiet [OF q, of ?a] ind False by auto
  obtain u where u: "brelse bp t = Inr u" "quiet u i {}" "view u = view t" "pinned u = pinned t" "unmoved t u" "log u = log t"
    using brelse_quiet [OF t(2,3)] quiet_clean [OF q, of ?a] t(5,6) unmovedD(3) [OF t(7)] by auto
  have "unmoved s u" using t(7) u(5) by (rule unmoved_trans)
  moreover have "bmap ip bn s = Inr (fblk (view s) (icache s ip) bn, u)"
    using False a t u by (simp add: bmap_def fblk_def Let_def dev)
  ultimately show ?thesis using t u by auto
qed

lemma mapped_step:
  assumes "mapped v D q off n" "m \<le> n" shows "mapped v D q (off + m) (n - m)"
  unfolding mapped_def
proof (intro conjI allI)
  show "off + m + (n - m) \<le> MAXFILE * BSIZE" using assms by (simp add: mapped_def)
  fix x show "off + m \<le> x \<and> x < off + m + (n - m) \<longrightarrow> fblk v q (x div BSIZE) \<noteq> 0 \<and> fblk v q (x div BSIZE) < D \<and>
      (NDIRECT \<le> x div BSIZE \<longrightarrow> i_addrs q ! NDIRECT < D)"
    using assms spec [OF conjunct2 [OF assms(1) [unfolded mapped_def]], of x] by simp
qed

lemma mappedD:
  assumes "mapped v D q off n" "0 < n"
  shows "off div BSIZE < MAXFILE" "fblk v q (off div BSIZE) \<noteq> 0" "fblk v q (off div BSIZE) < D"
    "NDIRECT \<le> off div BSIZE \<Longrightarrow> i_addrs q ! NDIRECT < D"
proof -
  have "off < MAXFILE * BSIZE" using assms by (simp add: mapped_def)
  then show "off div BSIZE < MAXFILE" by (simp add: less_mult_imp_div_less)
  show "fblk v q (off div BSIZE) \<noteq> 0" "fblk v q (off div BSIZE) < D" "NDIRECT \<le> off div BSIZE \<Longrightarrow> i_addrs q ! NDIRECT < D"
    using assms unfolding mapped_def by auto
qed

text \<open>One round of the loop of \<^verbatim>\<open>readi\<close>: the bytes it copies, and the state after it released the buffer.\<close>

lemma readi_chunk:
  fixes s :: "'a fsst_scheme"
  assumes q: "quiet s i {}" and dev: "i_dev (icache s ip) = 1" and mp: "mapped (view s) (disksize s) (icache s ip) off n" "0 < n"
    and m: "m \<le> BSIZE - off mod BSIZE"
  obtains b s1 bp s2 where "bmap ip (off div BSIZE) s = Inr (b, s1)" "bread (i_dev (icache s1 ip)) b s1 = Inr (bp, s2)" "unmoved s s2"
    "get_bytes (off mod BSIZE) m (b_data (bufs s2 bp)) = fbytes (view s) (icache s ip) off m"
    "\<And>M. \<exists>u. brelse bp (s2\<lparr>mem := M\<rparr>) = Inr u \<and> quiet u i {} \<and> view u = view s \<and> pinned u = pinned s \<and> unmoved (s\<lparr>mem := M\<rparr>) u \<and> log u = log s"
proof -
  let ?q = "icache s ip" and ?v = "view s"
  let ?b = "fblk ?v ?q (off div BSIZE)"
  note D = mappedD [OF mp]
  obtain s1 where s1: "bmap ip (off div BSIZE) s = Inr (?b, s1)" "quiet s1 i {}" "view s1 = ?v" "pinned s1 = pinned s" "unmoved s s1" "log s1 = log s"
    using bmap_mapped [OF q dev D(1,2,4)] by blast
  obtain bp s2 where s2: "bread 1 ?b s1 = Inr (bp, s2)" "quiet s2 i {?b}" "owns s2 bp ?b" "b_data (bufs s2 bp) = ?v ?b"
    "view s2 = ?v" "pinned s2 = pinned s" "unmoved s1 s2" "log s2 = log s"
    using bread_quiet [OF s1(2), of ?b] D(3) unmovedD(1) [OF s1(5)] s1(3,4,6) by auto
  have k2: "unmoved s s2" using s1(5) s2(7) by (rule unmoved_trans)
  have len: "length (?v ?b) = BSIZE" using q length_view by (auto simp: quiet_def)
  have x: "get_bytes (off mod BSIZE) m (b_data (bufs s2 bp)) = fbytes ?v ?q off m" using fbytes_chunk [of m off ?v ?q, OF m len D(2)] s2(4) by simp
  have "\<exists>u. brelse bp (s2\<lparr>mem := M\<rparr>) = Inr u \<and> quiet u i {} \<and> view u = view s \<and> pinned u = pinned s \<and> unmoved (s\<lparr>mem := M\<rparr>) u \<and> log u = log s" for M
  proof -
    have qM: "quiet (s2\<lparr>mem := M\<rparr>) i {?b}" "owns (s2\<lparr>mem := M\<rparr>) bp ?b" using s2(2,3) by simp_all
    obtain u where u: "brelse bp (s2\<lparr>mem := M\<rparr>) = Inr u" "quiet u i {}" "view u = ?v" "pinned u = pinned s" "unmoved (s2\<lparr>mem := M\<rparr>) u" "log u = log s"
      using brelse_quiet [OF qM] quiet_clean [OF q, of ?b] s2(5,6,8) unmovedD(3) [OF k2] by auto
    then show ?thesis using unmoved_trans [OF unmoved_mem [OF k2] u(5)] by blast
  qed
  then show thesis using that [OF s1(1) _ k2 x] s2(1) unmovedD(5) [OF s1(5)] dev by simp
qed

lemma readi_loop_reads:
  fixes s :: "'a cst_scheme"
  assumes "quiet s i {}" "i_dev (icache s ip) = 1" "mapped (view s) (disksize s) (icache s ip) off (n - tot)" "tot \<le> n"
  shows "case land d tot (fbytes (view s) (icache s ip) off (n - tot)) s of
     None \<Rightarrow> readi_loop ip d n tot off acc s = Inl (Fault ''page fault'')
   | Some M \<Rightarrow> \<exists>t. readi_loop ip d n tot off acc s = Inr (acc @ fbytes (view s) (icache s ip) off (n - tot), t) \<and> quiet t i {}
       \<and> view t = view s \<and> pinned t = pinned s \<and> unmoved (s\<lparr>mem := M\<rparr>) t \<and> log t = log s"
  using assms
proof (induction "n - tot" arbitrary: tot off acc s rule: less_induct)
  case less
  show ?case
  proof (cases "tot < n")
    case False
    then have "land d tot [] s = Some (mem s)" by (cases d) (simp_all add: land_def deliver_def)
    then show ?thesis using False less.prems by (subst readi_loop.simps) (simp add: fbytes_def)
  next
    case True
    define m where "m = min (n - tot) (BSIZE - off mod BSIZE)"
    define xs where "xs = fbytes (view s) (icache s ip) off m"
    have "off mod BSIZE < BSIZE" by (simp add: BSIZE_def)
    then have m: "m \<le> n - tot" "m \<le> BSIZE - off mod BSIZE" "0 < m" "0 < n - tot" using True by (auto simp: m_def)
    obtain b s1 bp s2 where s1: "bmap ip (off div BSIZE) s = Inr (b, s1)" and s2: "bread (i_dev (icache s1 ip)) b s1 = Inr (bp, s2)" "unmoved s s2"
      and x: "get_bytes (off mod BSIZE) m (b_data (bufs s2 bp)) = xs"
      and rel: "\<And>M. \<exists>u. brelse bp (s2\<lparr>mem := M\<rparr>) = Inr u \<and> quiet u i {} \<and> view u = view s \<and> pinned u = pinned s \<and> unmoved (s\<lparr>mem := M\<rparr>) u \<and> log u = log s"
      by (rule readi_chunk [OF less.prems(1-3) m(4,2), folded xs_def]) (rule that)
    have dl: "deliver d tot xs s2 = (case land d tot xs s of None \<Rightarrow> Inl (Fault ''page fault'') | Some M \<Rightarrow> Inr (s2\<lparr>mem := M\<rparr>))"
      by (rule deliver_land [OF unmoved_same_map [OF s2(2)]])
    have step: "readi_loop ip d n tot off acc s = bnd (deliver d tot xs s2) (\<lambda>s. bnd (brelse bp s) (\<lambda>s. readi_loop ip d n (tot + m) (off + m) (acc @ xs) s))"
      using True s1 s2(1) x by (subst readi_loop.simps) (simp add: Let_def m_def [symmetric])
    have split: "fbytes (view s) (icache s ip) off (n - tot) = xs @ fbytes (view s) (icache s ip) (off + m) (n - tot - m)" "length xs = m"
      using fbytes_append [OF m(1)] by (simp_all add: xs_def)
    show ?thesis
    proof (cases "land d tot xs s")
      case None
      then show ?thesis unfolding split(1) land_append step dl by simp
    next
      case (Some M)
      obtain u where u: "brelse bp (s2\<lparr>mem := M\<rparr>) = Inr u" "quiet u i {}" "view u = view s" "pinned u = pinned s" "unmoved (s\<lparr>mem := M\<rparr>) u" "log u = log s"
        using rel by blast
      have iu: "i_dev (icache u ip) = 1" "icache u ip = icache s ip" using unmovedD(5) [OF u(5)] less.prems(2) by simp_all
      have mu: "mapped (view u) (disksize u) (icache u ip) (off + m) (n - (tot + m))"
        using mapped_step [OF less.prems(3) m(1)] u(3) iu(2) unmovedD(1) [OF u(5)] by (simp add: diff_diff_add)
      have lt: "n - (tot + m) < n - tot" "tot + m \<le> n" using m True by simp_all
      note IH = less.hyps [OF lt(1) u(2) iu(1) mu lt(2), of "acc @ xs", unfolded u(3) iu(2) land_same [OF unmoved_same_map [OF u(5)]]]
      have e: "readi_loop ip d n tot off acc s = readi_loop ip d n (tot + m) (off + m) (acc @ xs) u"
        unfolding step dl Some option.case bnd_simps u(1) ..
      have trans: "unmoved (u\<lparr>mem := N\<rparr>) t \<Longrightarrow> unmoved (s\<lparr>mem := N\<rparr>) t" for N t
        using unmoved_trans [OF unmoved_mem [OF u(5), of N], of t] by simp
      show ?thesis unfolding split(1) land_append Some e using IH trans u(4,6) split(2)
        by (auto simp: diff_diff_add split: option.splits)
    qed
  qed
qed

definition contents :: "(u32 \<Rightarrow> block) \<Rightarrow> inode \<Rightarrow> u8 list" where
  "contents v q = fbytes v q 0 (unat (i_size q))"

lemma length_contents [simp]: "length (contents v q) = unat (i_size q)"
  by (simp add: contents_def)

lemma fbytes_part: "off + m \<le> n \<Longrightarrow> fbytes v q off m = take m (drop off (fbytes v q 0 n))"
  by (intro nth_equalityI) (simp_all add: fbytes_def)

lemma u32_wraps: "a + b < a \<longleftrightarrow> 4294967296 \<le> unat a + unat b" for a b :: u32
proof (cases "unat a + unat b < 4294967296")
  case True
  then show ?thesis by (simp add: word_less_nat_alt unat_add32)
next
  case False
  have "unat (a + b) = unat a + unat b - 4294967296"
    using False unat32_less [of a] unat32_less [of b] by (simp add: unat_word_ariths mod_if)
  then show ?thesis using False unat32_less [of b] by (simp add: word_less_nat_alt)
qed

lemma sint_small: "unat n < 2147483648 \<Longrightarrow> sint n = int (unat n)" for n :: u32
  unfolding sint32 by (rule if_P)

lemma MAXFILE_bytes: "MAXFILE * BSIZE = 71680"
  by (simp add: MAXFILE_def NDIRECT_def NINDIRECT_def BSIZE_def)

text \<open>How many bytes \<^verbatim>\<open>readi\<close> finds at \<open>off\<close> when it is asked for \<open>n\<close>.\<close>

definition readable :: "u32 \<Rightarrow> u32 \<Rightarrow> u32 \<Rightarrow> u32" where
  "readable z off n = (if off + n > z then z - off else n)"

lemma unat_readable:
  assumes "off \<le> z" "\<not> off + n < off"
  shows "unat (readable z off n) = min (unat n) (unat z - unat off)"
proof -
  have "unat off + unat n < 4294967296" using assms(2) by (simp add: u32_wraps)
  then have "unat (off + n) = unat off + unat n" by (rule unat_add32)
  then show ?thesis using assms(1) by (auto simp: readable_def word_less_nat_alt word_le_nat_alt unat_sub32)
qed

text \<open>
  C6: \<^verbatim>\<open>readi\<close> on a file whose blocks are all mapped returns exactly the bytes of the file from \<open>off\<close> on, at most \<open>n\<close> and at most up to
  its end, however they are spread over direct and indirect blocks, cached or not; it leaves them at the destination and changes
  nothing else of what can be seen. An offset behind the end or a length that wraps around gives -1; a destination that is not
  mapped is a page fault.
\<close>

theorem readi_reads_contents:
  fixes s :: "'a cst_scheme"
  assumes "quiet s i {}" "i_dev (icache s ip) = 1" "i_type (icache s ip) \<noteq> T_DEV"
    and "mapped (view s) (disksize s) (icache s ip) 0 (unat (i_size (icache s ip)))"
  shows "if off > i_size (icache s ip) \<or> 4294967296 \<le> unat off + unat n then readi ip d off n s = Inr (- 1, [], s)
    else let xs = take (unat n) (drop (unat off) (contents (view s) (icache s ip))) in
      case land d 0 xs s of
        None \<Rightarrow> readi ip d off n s = Inl (Fault ''page fault'')
      | Some M \<Rightarrow> \<exists>t. readi ip d off n s = Inr (int (length xs), xs, t) \<and> quiet t i {} \<and> unmoved (s\<lparr>mem := M\<rparr>) t
          \<and> view t = view s \<and> pinned t = pinned s \<and> log t = log s"
proof (cases "off > i_size (icache s ip) \<or> off + n < off")
  case True
  then show ?thesis using assms(3) by (auto simp: readi_def Let_def u32_wraps)
next
  case False
  define q where "q = icache s ip"
  define m where "m = unat (readable (i_size q) off n)"
  have len: "unat (i_size q) \<le> 71680" using assms(4) by (simp add: mapped_def MAXFILE_bytes q_def)
  have m: "m = min (unat n) (unat (i_size q) - unat off)" "unat off + m \<le> unat (i_size q)"
    using False unat_readable [of off "i_size q" n] by (auto simp: m_def q_def word_less_nat_alt word_le_nat_alt)
  have xs: "take (unat n) (drop (unat off) (contents (view s) q)) = fbytes (view s) q (unat off) m"
    unfolding contents_def using fbytes_part [OF m(2), of "view s" q] m(1) by (simp add: min_def)
  have mp: "mapped (view s) (disksize s) (icache s ip) (unat off) (m - 0)"
    using mapped_step [OF assms(4), of "unat off"] m(2) unfolding mapped_def q_def by auto
  have sm: "sint (readable (i_size q) off n) = int m"
    using sint_small [of "readable (i_size q) off n"] len m unfolding m_def [symmetric] by simp
  have e: "readi ip d off n s = bnd (readi_loop ip d m 0 (unat off) [] s) (\<lambda>(xs, s). Inr (int m, xs, s))"
    unfolding readi_def Let_def q_def [symmetric] readable_def [symmetric] m_def [symmetric] sm
    using False assms(3) unfolding q_def [symmetric] by simp
  have c: "\<not> (off > i_size q \<or> 4294967296 \<le> unat off + unat n)" using False unfolding q_def u32_wraps .
  show ?thesis unfolding q_def [symmetric] if_not_P [OF c] Let_def xs
  proof (cases "land d 0 (fbytes (view s) q (unat off) m) s")
    case None
    then show "case land d 0 (fbytes (view s) q (unat off) m) s of None \<Rightarrow> readi ip d off n s = Inl (Fault ''page fault'')
      | Some M \<Rightarrow> \<exists>t. readi ip d off n s = Inr (int (length (fbytes (view s) q (unat off) m)), fbytes (view s) q (unat off) m, t)
          \<and> quiet t i {} \<and> unmoved (s\<lparr>mem := M\<rparr>) t \<and> view t = view s \<and> pinned t = pinned s \<and> log t = log s"
      using readi_loop_reads [OF assms(1,2) mp, of d "[]"] e unfolding q_def [symmetric] by simp
  next
    case (Some M)
    then obtain t where "readi_loop ip d m 0 (unat off) [] s = Inr (fbytes (view s) q (unat off) m, t)" "quiet t i {}"
      "view t = view s" "pinned t = pinned s" "unmoved (s\<lparr>mem := M\<rparr>) t" "log t = log s"
      using readi_loop_reads [OF assms(1,2) mp, of d "[]"] unfolding q_def [symmetric] by auto
    then show "case land d 0 (fbytes (view s) q (unat off) m) s of None \<Rightarrow> readi ip d off n s = Inl (Fault ''page fault'')
      | Some M \<Rightarrow> \<exists>t. readi ip d off n s = Inr (int (length (fbytes (view s) q (unat off) m)), fbytes (view s) q (unat off) m, t)
          \<and> quiet t i {} \<and> unmoved (s\<lparr>mem := M\<rparr>) t \<and> view t = view s \<and> pinned t = pinned s \<and> log t = log s"
      using Some e by simp
  qed
qed

text \<open>A file of three bytes in block 6 of the small file system.\<close>

definition small_inode :: inode where
  "small_inode = \<lparr>i_dev = 1, i_inum = 1, i_ref = 1, i_valid = True, i_type = T_FILE, i_major = 0, i_minor = 0, i_nlink = 1, i_size = 3,
     i_addrs = 6 # replicate 12 0\<rparr>"

definition file_disk :: "u32 \<Rightarrow> block" where
  "file_disk n = (if n = 6 then 104 # 105 # 33 # replicate 509 0
     else if n = 4 then put_dinode (inode_off 1) (dinode_of small_inode) (replicate BSIZE 0) else small_disk n)"

lemma file_disk_length: "length (file_disk n) = BSIZE"
  using small_disk_length [of n] by (simp add: file_disk_def dinode_of_def small_inode_def inode_off_def IPB_def BSIZE_def)

lemma small_blk: "fblk v small_inode bn = (if bn = 0 then 6 else 0)"
  by (cases bn) (auto simp: fblk_def small_inode_def NDIRECT_def nth_Cons')

lemma small_size: "unat (i_size small_inode) = 3"
  by (simp add: small_inode_def)

lemma small_file:
  obtains s :: cst where "busy s 0 {} 25" "view s = file_disk" "disk s = file_disk" "sb s = small_sb" "disksize s = 1000" "icache s 0 = small_inode"
    "contents (view s) (icache s 0) = [104, 105, 33]"
proof -
  obtain s :: cst where s: "busy s 0 {} 25" "view s = file_disk" "disk s = file_disk" "sb s = small_sb" "disksize s = 1000" "icache s = (\<lambda>_. small_inode)"
    by (rule small_fs [OF file_disk_length, where f = "\<lambda>_. small_inode" and z = "\<lparr>in_buf = [], in_r = 0, in_w = 0, in_e = 0, panicked = False,
        uart_out = [], devsw = (\<lambda>_. False)\<rparr>"])
  have "contents (view s) (icache s 0) = [104, 105, 33]"
    unfolding contents_def fbytes_def s small_size by (simp add: fbyte_def small_blk file_disk_def upt_rec BSIZE_def)
  then show thesis using that s by simp
qed

theorem readi_reads_contents_witness:
  "\<exists>(s::cst) t. contents (view s) (icache s 0) = [104, 105, 33] \<and> readi 0 Local 1 5 s = Inr (2, [105, 33], t)"
proof -
  obtain s :: cst where s: "busy s 0 {} 25" "view s = file_disk" "disksize s = 1000" "icache s 0 = small_inode"
    "contents (view s) (icache s 0) = [104, 105, 33]"
    by (rule small_file)
  have m: "mapped (view s) (disksize s) (icache s 0) 0 (unat (i_size (icache s 0)))"
    unfolding s mapped_def small_size MAXFILE_bytes by (auto simp: small_blk BSIZE_def NDIRECT_def)
  have "\<exists>t. readi 0 Local 1 5 s = Inr (2, [105, 33], t)"
    using readi_reads_contents [OF busy_quiet [OF s(1)] _ _ m, of 1 5 Local] unfolding s(5)
    by (auto simp: s(4) small_inode_def T_FILE_def T_DEV_def Let_def)
  then show ?thesis using s(5) by blast
qed

end
