(* ===== verification/Fs_Write.thy ===== *)
theory Fs_Write
  imports Fs_Files
begin

text \<open>
  Writing files: \<^verbatim>\<open>bmap\<close> with allocation, \<^verbatim>\<open>writei\<close> and \<^verbatim>\<open>iupdate\<close>. Blocks that are allocated on the way read as zeros before and after,
  so \<^verbatim>\<open>bmap\<close> does not change the bytes of the file, and \<^verbatim>\<open>writei\<close> changes exactly those it is given.
\<close>

section \<open>Blocks in use\<close>

text \<open>A block that is marked in use and is not part of the bitmap.\<close>

definition taken :: "(u32 \<Rightarrow> block) \<Rightarrow> superblock \<Rightarrow> u32 \<Rightarrow> bool" where
  "taken v B b \<longleftrightarrow> unat b < unat (sb_size B) \<and> used v B (unat b) \<and> (\<forall>j < unat (sb_size B). b \<noteq> BBLOCK (of_nat j) B)"

definition fs_ok :: "'a fsst_scheme \<Rightarrow> bool" where
  "fs_ok s \<longleftrightarrow> bitmap_ok s {} \<and> used (view s) (sb s) 0"

definition nfree :: "(u32 \<Rightarrow> block) \<Rightarrow> superblock \<Rightarrow> nat" where
  "nfree v B = card {j. j < unat (sb_size B) \<and> \<not> used v B j}"

lemma taken_disk:
  assumes "fs_ok s" "taken (view s) (sb s) b" shows "b < disksize s"
proof -
  have "of_nat (unat b) < disksize s" using assms unfolding fs_ok_def bitmap_ok_def taken_def by blast
  then show ?thesis by simp
qed

lemma bitmap_ok_locked:
  assumes "fs_ok s" "\<And>b. b \<in> l \<Longrightarrow> taken (view s) (sb s) b"
  shows "bitmap_ok s l"
proof -
  have "BBLOCK (of_nat j) (sb s) \<notin> l" if "j < unat (sb_size (sb s))" for j
    using assms(2) that unfolding taken_def by blast
  moreover have "of_nat j \<notin> l" if "j < unat (sb_size (sb s))" "\<not> used (view s) (sb s) j" for j
    using assms(2) [of "of_nat j"] that unat_of_nat32 [OF used_limit [OF that(1)]] by (auto simp: taken_def)
  ultimately show ?thesis using assms(1) by (auto simp: fs_ok_def bitmap_ok_def)
qed

text \<open>The block \<open>a\<close> has been allocated: it is new, filled with zeros, and no block that was in use has changed.\<close>

definition grown :: "(u32 \<Rightarrow> block) \<Rightarrow> (u32 \<Rightarrow> block) \<Rightarrow> superblock \<Rightarrow> u32 \<Rightarrow> bool" where
  "grown v v' B a \<longleftrightarrow> a \<noteq> 0 \<and> \<not> taken v B a \<and> taken v' B a \<and> v' a = replicate BSIZE 0
     \<and> (\<forall>b. taken v B b \<longrightarrow> taken v' B b \<and> v' b = v b)"

lemma balloc_grows:
  fixes s :: "'a fsst_scheme"
  assumes b: "busy s i l (Suc (Suc k))" and ok: "fs_ok s" and l: "finite l" "card l \<le> 1" "\<And>b. b \<in> l \<Longrightarrow> taken (view s) (sb s) b"
    and free: "0 < nfree (view s) (sb s)"
  obtains a t where "balloc 1 s = Inr (a, t)" "grown (view s) (view t) (sb s) a" "busy t i l k" "unmoved s t" "fs_ok t"
    "nfree (view t) (sb t) = nfree (view s) (sb s) - 1" "pinned s \<subseteq> pinned t" "\<And>c m. owns s c m \<Longrightarrow> owns t c m"
proof -
  let ?B = "sb s" and ?N = "unat (sb_size (sb s))"
  have f: "\<exists>j<?N. \<not> used (view s) ?B j"
    using free unfolding nfree_def by (metis (mono_tags, lifting) Collect_empty_eq card.empty less_numeral_extra(3))
  have ok': "bitmap_ok s l" using bitmap_ok_locked [OF ok] l(3) by blast
  obtain j t where j: "balloc 1 s = Inr (of_nat j, t)" "j < ?N" "\<not> used (view s) ?B j"
    and "\<And>m. m < j \<Longrightarrow> used (view s) ?B m"
    and t: "busy t i l k" "unmoved s t" "view t (of_nat j) = replicate BSIZE 0"
    and u: "\<And>m. m < ?N \<Longrightarrow> used (view t) (sb t) m \<longleftrightarrow> used (view s) ?B m \<or> m = j"
    and e: "\<And>b. b \<noteq> of_nat j \<Longrightarrow> b \<noteq> BBLOCK (of_nat j) ?B \<Longrightarrow> view t b = view s b"
    and p: "pinned s \<subseteq> pinned t" "\<And>c m. owns s c m \<Longrightarrow> owns t c m"
    by (rule balloc_marks [OF b ok' l(1,2) f]) (rule that)
  note kt = unmovedD [OF t(2)]
  have uj: "unat (of_nat j :: u32) = j" by (rule unat_of_nat32 [OF used_limit [OF j(2)]])
  have nb: "of_nat j \<noteq> BBLOCK (of_nat m) ?B" if "m < ?N" for m using ok' j(2,3) that by (simp add: bitmap_ok_def)
  have "j \<noteq> 0" using ok j(3) by (auto simp: fs_ok_def intro: Nat.gr0I)
  then have a0: "(of_nat j :: u32) \<noteq> 0" using uj by auto
  have keep: "taken (view t) ?B b \<and> view t b = view s b" if "taken (view s) ?B b" for b
  proof -
    have "b \<noteq> of_nat j" using that j(3) uj by (auto simp: taken_def)
    moreover have "b \<noteq> BBLOCK (of_nat j) ?B" using that j(2) by (auto simp: taken_def)
    ultimately show ?thesis using that e u kt(4) by (auto simp: taken_def)
  qed
  have "grown (view s) (view t) ?B (of_nat j)"
    unfolding grown_def using a0 t(3) keep uj j(2,3) u [OF j(2)] nb kt(4) by (auto simp: taken_def)
  moreover have "fs_ok t"
    using ok u kt j(2) unfolding fs_ok_def bitmap_ok_def by auto
  moreover have "nfree (view t) (sb t) = nfree (view s) ?B - 1"
  proof -
    have "{m. m < ?N \<and> \<not> used (view t) (sb t) m} = {m. m < ?N \<and> \<not> used (view s) ?B m} - {j}" using u by auto
    then show ?thesis using j(2,3) unfolding nfree_def kt(4) by simp
  qed
  ultimately show thesis using that [OF j(1)] t p by blast
qed

section \<open>The blocks of a file\<close>

definition file_ok :: "(u32 \<Rightarrow> block) \<Rightarrow> superblock \<Rightarrow> inode \<Rightarrow> bool" where
  "file_ok v B q \<longleftrightarrow> length (i_addrs q) = NDIRECT + 1
     \<and> (\<forall>bn<MAXFILE. fblk v q bn \<noteq> 0 \<longrightarrow> taken v B (fblk v q bn) \<and> fblk v q bn \<noteq> i_addrs q ! NDIRECT)
     \<and> (i_addrs q ! NDIRECT \<noteq> 0 \<longrightarrow> taken v B (i_addrs q ! NDIRECT))
     \<and> (\<forall>b1<MAXFILE. \<forall>b2<MAXFILE. fblk v q b1 = fblk v q b2 \<and> fblk v q b1 \<noteq> 0 \<longrightarrow> b1 = b2)"

lemma file_okD:
  assumes "file_ok v B q"
  shows "length (i_addrs q) = NDIRECT + 1"
    "bn < MAXFILE \<Longrightarrow> fblk v q bn \<noteq> 0 \<Longrightarrow> taken v B (fblk v q bn)"
    "bn < MAXFILE \<Longrightarrow> fblk v q bn \<noteq> 0 \<Longrightarrow> fblk v q bn \<noteq> i_addrs q ! NDIRECT"
    "i_addrs q ! NDIRECT \<noteq> 0 \<Longrightarrow> taken v B (i_addrs q ! NDIRECT)"
    "b1 < MAXFILE \<Longrightarrow> b2 < MAXFILE \<Longrightarrow> fblk v q b1 = fblk v q b2 \<Longrightarrow> fblk v q b1 \<noteq> 0 \<Longrightarrow> b1 = b2"
  using assms unfolding file_ok_def by blast+

lemma growsD:
  assumes "grown v v' B a"
  shows "a \<noteq> 0" "\<not> taken v B a" "taken v' B a" "v' a = replicate BSIZE 0" "taken v B b \<Longrightarrow> taken v' B b" "taken v B b \<Longrightarrow> v' b = v b"
  using assms by (auto simp: grown_def)

lemma fblk_grown: "file_ok v B q \<Longrightarrow> grown v v' B a \<Longrightarrow> fblk v' q bn = fblk v q bn"
  using file_okD(4) [of v B q] growsD(6) [of v v' B a] by (simp add: fblk_def)

text \<open>
  One more block is mapped, at \<open>bn\<close> to the new block \<open>a\<close>: the file stays well formed and keeps its bytes.
\<close>

definition extends :: "(u32 \<Rightarrow> block) \<Rightarrow> inode \<Rightarrow> (u32 \<Rightarrow> block) \<Rightarrow> inode \<Rightarrow> superblock \<Rightarrow> nat \<Rightarrow> u32 \<Rightarrow> bool" where
  "extends v q v' q' B bn a \<longleftrightarrow> fblk v q bn = 0 \<and> bn < MAXFILE \<and> \<not> taken v B a \<and> taken v' B a \<and> a \<noteq> 0 \<and> v' a = replicate BSIZE 0
     \<and> (\<forall>b<MAXFILE. fblk v' q' b = (if b = bn then a else fblk v q b))
     \<and> (\<forall>b. taken v B b \<longrightarrow> taken v' B b) \<and> (\<forall>b. taken v B b \<and> b \<noteq> i_addrs q ! NDIRECT \<longrightarrow> v' b = v b)"

lemma fbyte_extends:
  assumes f: "file_ok v B q" and e: "extends v q v' q' B bn a" and x: "x < MAXFILE * BSIZE"
  shows "fbyte v' q' x = fbyte v q x"
proof -
  define b where "b = x div BSIZE"
  have b: "b < MAXFILE" using x by (simp add: b_def less_mult_imp_div_less)
  have m: "x mod BSIZE < BSIZE" by (simp add: BSIZE_def)
  show ?thesis
  proof (cases "b = bn")
    case True
    then show ?thesis using e b m unfolding extends_def fbyte_def b_def [symmetric] by simp
  next
    case False
    then have "fblk v' q' b = fblk v q b" using e b unfolding extends_def by simp
    moreover have "fblk v q b \<noteq> 0 \<Longrightarrow> v' (fblk v q b) = v (fblk v q b)"
      using e file_okD(2,3) [OF f b] unfolding extends_def by blast
    ultimately show ?thesis unfolding fbyte_def b_def [symmetric] by simp
  qed
qed

lemma file_ok_extends:
  assumes f: "file_ok v B q" and e: "extends v q v' q' B bn a" and q': "length (i_addrs q') = NDIRECT + 1"
    and ind: "i_addrs q' ! NDIRECT \<noteq> 0 \<Longrightarrow> taken v' B (i_addrs q' ! NDIRECT)" "a \<noteq> i_addrs q' ! NDIRECT"
    and new: "i_addrs q' ! NDIRECT = i_addrs q ! NDIRECT"
  shows "file_ok v' B q'"
  unfolding file_ok_def
proof (intro conjI allI impI)
  fix b assume b: "b < MAXFILE" "fblk v' q' b \<noteq> 0"
  show "taken v' B (fblk v' q' b)" "fblk v' q' b \<noteq> i_addrs q' ! NDIRECT"
    using b e ind file_okD(2,3) [OF f b(1)] new unfolding extends_def by (auto split: if_splits)
next
  fix b1 b2 assume b: "b1 < MAXFILE" "b2 < MAXFILE" and s: "fblk v' q' b1 = fblk v' q' b2 \<and> fblk v' q' b1 \<noteq> 0"
  have old: "fblk v q b \<noteq> a" if "b < MAXFILE" for b using e file_okD(2) [OF f that] unfolding extends_def by auto
  show "b1 = b2" using s b e old file_okD(5) [OF f b] unfolding extends_def by (auto split: if_splits)
qed (use q' ind in auto)

lemma extends_direct:
  assumes f: "file_ok v B q" and g: "grown v v' B a" and bn: "bn < NDIRECT" "i_addrs q ! bn = 0"
  shows "extends v q v' (q\<lparr>i_addrs := (i_addrs q)[bn := a]\<rparr>) B bn a" "file_ok v' B (q\<lparr>i_addrs := (i_addrs q)[bn := a]\<rparr>)"
proof -
  let ?q = "q\<lparr>i_addrs := (i_addrs q)[bn := a]\<rparr>"
  note G = growsD [OF g]
  have l: "length (i_addrs q) = NDIRECT + 1" by (rule file_okD(1) [OF f])
  have "fblk v' ?q b = (if b = bn then a else fblk v' q b)" for b using bn l by (auto simp: fblk_def nth_list_update)
  then show e: "extends v q v' ?q B bn a"
    unfolding extends_def using fblk_grown [OF f g] G bn by (auto simp: fblk_def MAXFILE_def)
  show "file_ok v' B ?q"
    by (rule file_ok_extends [OF f e]) (use l bn G file_okD(4) [OF f] in \<open>auto simp: nth_list_update\<close>)
qed

lemma get32_zeros: "off + 4 \<le> BSIZE \<Longrightarrow> get32 off (replicate BSIZE 0) = 0"
  by (simp add: get32_def get_bytes_def eval_nat_numeral)

lemma used_upd: "taken v B c \<Longrightarrow> j < unat (sb_size B) \<Longrightarrow> used (v(c := x)) B j = used v B j"
  by (auto simp: used_def taken_def)

lemma taken_upd: "taken v B c \<Longrightarrow> taken (v(c := x)) B b = taken v B b"
  using used_upd [of v B c] by (auto simp: taken_def)

lemma nfree_upd: "taken v B c \<Longrightarrow> nfree (v(c := x)) B = nfree v B"
proof -
  assume "taken v B c"
  then have "{j. j < unat (sb_size B) \<and> \<not> used (v(c := x)) B j} = {j. j < unat (sb_size B) \<and> \<not> used v B j}" using used_upd by auto
  then show ?thesis by (simp add: nfree_def)
qed

text \<open>A new indirect block maps nothing.\<close>

lemma file_ok_indirect:
  assumes f: "file_ok v B q" and g: "grown v v' B a" and z: "i_addrs q ! NDIRECT = 0"
  defines "q' \<equiv> q\<lparr>i_addrs := (i_addrs q)[NDIRECT := a]\<rparr>"
  shows "bn < MAXFILE \<Longrightarrow> fblk v' q' bn = fblk v q bn" "file_ok v' B q'" "x < MAXFILE * BSIZE \<Longrightarrow> fbyte v' q' x = fbyte v q x"
proof -
  note G = growsD [OF g]
  have l: "length (i_addrs q) = NDIRECT + 1" by (rule file_okD(1) [OF f])
  have a: "i_addrs q' ! NDIRECT = a" using l by (simp add: q'_def)
  show k: "fblk v' q' bn = fblk v q bn" if "bn < MAXFILE" for bn
  proof (cases "bn < NDIRECT")
    case True then show ?thesis by (simp add: fblk_def q'_def)
  next
    case False
    have "4 * (bn - NDIRECT) + 4 \<le> BSIZE" using that False by (simp add: MAXFILE_def NINDIRECT_def BSIZE_def)
    then show ?thesis using False G(4) get32_zeros z a by (simp add: fblk_def)
  qed
  have t: "fblk v q b \<noteq> a" if "b < MAXFILE" for b using file_okD(2) [OF f that] G(1,2) by metis
  show "file_ok v' B q'"
    unfolding file_ok_def a using k t file_okD [OF f] G l by (auto simp: q'_def)
  show "fbyte v' q' x = fbyte v q x" if x: "x < MAXFILE * BSIZE"
  proof -
    have b: "x div BSIZE < MAXFILE" using x by (simp add: less_mult_imp_div_less)
    have "fblk v q (x div BSIZE) \<noteq> 0 \<Longrightarrow> v' (fblk v q (x div BSIZE)) = v (fblk v q (x div BSIZE))"
      using file_okD(2) [OF f b] G(6) by blast
    then show ?thesis unfolding fbyte_def k [OF b] by simp
  qed
qed

text \<open>A new entry of the indirect block.\<close>

lemma get_put32_slot:
  assumes "length d = BSIZE" "j < NINDIRECT" "k < NINDIRECT"
  shows "get32 (4 * k) (put32 (4 * j) a d) = (if k = j then a else get32 (4 * k) d)"
proof -
  have j: "4 * j + 4 \<le> length d" using assms by (simp add: NINDIRECT_def BSIZE_def)
  show ?thesis using j get_put(2) [OF j] get_put_other(4) [OF j, of "4 * k"] by (cases k j rule: linorder_cases) auto
qed

lemma extends_indirect:
  assumes f: "file_ok v B q" and g: "grown v v' B a" and bn: "NDIRECT \<le> bn" "bn < MAXFILE" "fblk v q bn = 0" and nz: "i_addrs q ! NDIRECT \<noteq> 0"
    and len: "length (v' (i_addrs q ! NDIRECT)) = BSIZE"
  defines "w \<equiv> v'(i_addrs q ! NDIRECT := put32 (4 * (bn - NDIRECT)) a (v' (i_addrs q ! NDIRECT)))"
  shows "extends v q w q B bn a" "file_ok w B q"
proof -
  let ?i = "i_addrs q ! NDIRECT"
  note G = growsD [OF g]
  have ti: "taken v B ?i" "taken v' B ?i" using file_okD(4) [OF f nz] G(5) by auto
  have tw: "taken w B b = taken v' B b" for b unfolding w_def by (rule taken_upd [OF ti(2)])
  have ai: "a \<noteq> ?i" using ti(1) G(2) by auto
  have "fblk w q b = (if b = bn then a else fblk v' q b)" if "b < MAXFILE" for b
  proof (cases "b < NDIRECT")
    case False
    have "bn - NDIRECT < NINDIRECT" "b - NDIRECT < NINDIRECT" using bn that by (auto simp: MAXFILE_def NDIRECT_def NINDIRECT_def BSIZE_def)
    from get_put32_slot [OF len this] show ?thesis using False bn(1) nz by (auto simp: fblk_def w_def)
  qed (use bn in \<open>auto simp: fblk_def\<close>)
  then show e: "extends v q w q B bn a"
    unfolding extends_def using fblk_grown [OF f g] G bn ai tw by (auto simp: w_def)
  show "file_ok w B q"
    by (rule file_ok_extends [OF f e]) (use file_okD(1) [OF f] ti tw ai in auto)
qed

section \<open>Mapping a block\<close>

lemma inode_blocks [simp]:
  "view (upd_inode ip f s) = view s" "pinned (upd_inode ip f s) = pinned s" "locked_blocks (upd_inode ip f s) = locked_blocks s"
  "cache_ok (upd_inode ip f s) = cache_ok s" "owns (upd_inode ip f s) = owns s" "idle (upd_inode ip f s) = idle s"
  "icache (upd_inode ip f s) = (icache s)(ip := f (icache s ip))" "sb (upd_inode ip f s) = sb s" "disksize (upd_inode ip f s) = disksize s"
  "log (upd_inode ip f s) = log s" "disk (upd_inode ip f s) = disk s" "mem (upd_inode ip f s) = mem s" "hw (upd_inode ip f s) = hw s"
  "fsst.more (upd_inode ip f s) = fsst.more s"
  by (simp_all add: upd_inode_def fun_eq_iff view_def pinned_def locked_blocks_def cache_ok_def owns_def idle_def
      block_of_def locked_buf_def bring_def nextf_def [abs_def] prevf_def [abs_def] cong: option.case_cong)

lemma busy_upd_inode [simp]: "busy (upd_inode ip f s) i l k = busy s i l k"
  by (simp add: busy_def)

lemma fs_ok_upd_inode [simp]: "fs_ok (upd_inode ip f s) = fs_ok s"
  by (simp add: fs_ok_def bitmap_ok_def)

text \<open>
  \<open>bmapped n s ip t\<close>: up to \<open>n\<close> blocks were allocated for the file \<open>ip\<close>, which keeps its bytes and its blocks; other blocks in use are
  as before.
\<close>

definition bmapped :: "nat \<Rightarrow> 'a fsst_scheme \<Rightarrow> nat \<Rightarrow> 'a fsst_scheme \<Rightarrow> bool" where
  "bmapped n s ip t \<longleftrightarrow> fs_ok t \<and> file_ok (view t) (sb t) (icache t ip) \<and> nfree (view s) (sb s) \<le> nfree (view t) (sb t) + n
     \<and> unmoved (upd_inode ip (\<lambda>q. q\<lparr>i_addrs := i_addrs (icache t ip)\<rparr>) s) t
     \<and> (\<forall>x < MAXFILE * BSIZE. fbyte (view t) (icache t ip) x = fbyte (view s) (icache s ip) x)
     \<and> (\<forall>b. taken (view s) (sb s) b \<longrightarrow> taken (view t) (sb s) b \<and> (b \<noteq> i_addrs (icache s ip) ! NDIRECT \<longrightarrow> view t b = view s b))
     \<and> (\<forall>b<MAXFILE. fblk (view t) (icache t ip) b = fblk (view s) (icache s ip) b
          \<or> fblk (view s) (icache s ip) b = 0 \<and> \<not> taken (view s) (sb s) (fblk (view t) (icache t ip) b))
     \<and> (i_addrs (icache t ip) ! NDIRECT = i_addrs (icache s ip) ! NDIRECT \<or> \<not> taken (view s) (sb s) (i_addrs (icache t ip) ! NDIRECT))"

lemma bmapped_sb: "bmapped n s ip t \<Longrightarrow> sb t = sb s"
  by (auto simp: bmapped_def unmoved_def)

lemma bmappedD:
  assumes "bmapped n s ip t"
  shows "icache t = (icache s)(ip := (icache s ip)\<lparr>i_addrs := i_addrs (icache t ip)\<rparr>)" "i_dev (icache t ip) = i_dev (icache s ip)"
    "i_inum (icache t ip) = i_inum (icache s ip)" "i_size (icache t ip) = i_size (icache s ip)" "i_type (icache t ip) = i_type (icache s ip)"
    "disksize t = disksize s" "sb t = sb s" "fs_ok t" "file_ok (view t) (sb t) (icache t ip)" "disk t = disk s" "mem t = mem s"
    "nfree (view s) (sb s) \<le> nfree (view t) (sb t) + n"
proof -
  have k: "unmoved (upd_inode ip (\<lambda>q. q\<lparr>i_addrs := i_addrs (icache t ip)\<rparr>) s) t" using assms by (simp add: bmapped_def)
  show i: "icache t = (icache s)(ip := (icache s ip)\<lparr>i_addrs := i_addrs (icache t ip)\<rparr>)" using unmovedD(5) [OF k] by simp
  show "i_dev (icache t ip) = i_dev (icache s ip)" "i_inum (icache t ip) = i_inum (icache s ip)"
    "i_size (icache t ip) = i_size (icache s ip)" "i_type (icache t ip) = i_type (icache s ip)"
    by (subst i, simp)+
qed (use assms in \<open>auto simp: bmapped_def unmoved_def\<close>)

lemma bmapped_refl: "fs_ok s \<Longrightarrow> file_ok (view s) (sb s) (icache s ip) \<Longrightarrow> bmapped n s ip s"
  by (simp add: bmapped_def unmoved_def)

lemma bmapped_same:
  assumes "bmapped n s ip s" "view t = view s" "unmoved s t" shows "bmapped n s ip t"
  using assms by (auto simp: bmapped_def unmoved_def fs_ok_def bitmap_ok_def)

lemma bmapped_trans:
  assumes a: "bmapped m s ip t" and b: "bmapped n t ip u"
  shows "bmapped (m + n) s ip u"
proof -
  note s = bmapped_sb [OF a]
  have "unmoved (upd_inode ip (\<lambda>q. q\<lparr>i_addrs := i_addrs (icache u ip)\<rparr>) s) u"
  proof -
    obtain Q R where "icache t = (icache s)(ip := (icache s ip)\<lparr>i_addrs := Q\<rparr>)" "icache u = (icache t)(ip := (icache t ip)\<lparr>i_addrs := R\<rparr>)"
      using a b unfolding bmapped_def unmoved_def inode_blocks by blast
    then have "icache u = (icache s)(ip := (icache s ip)\<lparr>i_addrs := i_addrs (icache u ip)\<rparr>)" by simp
    then show ?thesis using a b by (simp add: bmapped_def unmoved_def)
  qed
  moreover have "taken (view u) (sb s) c \<and> (c \<noteq> i_addrs (icache s ip) ! NDIRECT \<longrightarrow> view u c = view s c)" if "taken (view s) (sb s) c" for c
    using a b that unfolding bmapped_def s by metis
  moreover have "fblk (view u) (icache u ip) c = fblk (view s) (icache s ip) c
      \<or> fblk (view s) (icache s ip) c = 0 \<and> \<not> taken (view s) (sb s) (fblk (view u) (icache u ip) c)" if "c < MAXFILE" for c
    using a b that unfolding bmapped_def s by metis
  moreover have "i_addrs (icache u ip) ! NDIRECT = i_addrs (icache s ip) ! NDIRECT \<or> \<not> taken (view s) (sb s) (i_addrs (icache u ip) ! NDIRECT)"
    using a b unfolding bmapped_def s by metis
  ultimately show ?thesis using a b unfolding bmapped_def s by simp
qed

lemma balloc_direct:
  fixes s :: "'a fsst_scheme"
  assumes b: "busy s i {} (Suc (Suc k))" and ok: "fs_ok s" and f: "file_ok (view s) (sb s) (icache s ip)"
    and bn: "bn < NDIRECT" "i_addrs (icache s ip) ! bn = 0" and free: "0 < nfree (view s) (sb s)"
  obtains a t where "balloc 1 s = Inr (a, t)" "a \<noteq> 0" "busy t i {} k"
    "bmapped 1 s ip (upd_inode ip (\<lambda>q. q\<lparr>i_addrs := (i_addrs q)[bn := a]\<rparr>) t)"
proof -
  obtain a t where t: "balloc 1 s = Inr (a, t)" "grown (view s) (view t) (sb s) a" "busy t i {} k" "unmoved s t" "fs_ok t"
    "nfree (view t) (sb t) = nfree (view s) (sb s) - 1"
    by (rule balloc_grows [OF b ok _ _ _ free]) auto
  note k = unmovedD [OF t(4)]
  let ?q = "(icache s ip)\<lparr>i_addrs := (i_addrs (icache s ip))[bn := a]\<rparr>"
  note e = extends_direct [OF f t(2) bn]
  have "bmapped 1 s ip (upd_inode ip (\<lambda>q. q\<lparr>i_addrs := (i_addrs q)[bn := a]\<rparr>) t)"
    unfolding bmapped_def using t(5,6) e(2) fbyte_extends [OF f e(1)] growsD [OF t(2)] k e(1) bn
    by (auto simp: unmoved_def extends_def)
  then show thesis using that t growsD(1) [OF t(2)] by blast
qed

lemma balloc_indirect:
  fixes s :: "'a fsst_scheme"
  assumes b: "busy s i {} (Suc (Suc k))" and ok: "fs_ok s" and f: "file_ok (view s) (sb s) (icache s ip)"
    and z: "i_addrs (icache s ip) ! NDIRECT = 0" and free: "0 < nfree (view s) (sb s)"
  obtains a t where "balloc 1 s = Inr (a, t)" "a \<noteq> 0" "busy t i {} k"
    "bmapped 1 s ip (upd_inode ip (\<lambda>q. q\<lparr>i_addrs := (i_addrs q)[NDIRECT := a]\<rparr>) t)"
    "\<forall>b<MAXFILE. fblk (view t) ((icache t ip)\<lparr>i_addrs := (i_addrs (icache t ip))[NDIRECT := a]\<rparr>) b = fblk (view s) (icache s ip) b"
proof -
  obtain a t where t: "balloc 1 s = Inr (a, t)" "grown (view s) (view t) (sb s) a" "busy t i {} k" "unmoved s t" "fs_ok t"
    "nfree (view t) (sb t) = nfree (view s) (sb s) - 1"
    by (rule balloc_grows [OF b ok _ _ _ free]) auto
  note k = unmovedD [OF t(4)] and e = file_ok_indirect [OF f t(2) z]
  have "bmapped 1 s ip (upd_inode ip (\<lambda>q. q\<lparr>i_addrs := (i_addrs q)[NDIRECT := a]\<rparr>) t)"
    unfolding bmapped_def using t(5,6) e growsD [OF t(2)] k file_okD(1) [OF f] by (auto simp: unmoved_def)
  then show thesis using that [OF t(1) growsD(1) [OF t(2)] t(3)] e(1) k(5) by simp
qed

definition bmap_tail :: "nat \<Rightarrow> nat \<Rightarrow> u32 \<Rightarrow> 'a fsst_scheme \<Rightarrow> 'a fsst_scheme stop + (u32 \<times> 'a fsst_scheme)" where
  "bmap_tail ip j addr s =
     bnd (bread (i_dev (icache s ip)) addr s) (\<lambda>(bp, s).
       let addr = get32 (4 * j) (b_data (bufs s bp)) in
       bnd (if addr = 0
            then bnd (balloc (i_dev (icache s ip)) s) (\<lambda>(addr, s).
                   let s = upd_buf bp (\<lambda>q. q\<lparr>b_data := put32 (4 * j) addr (b_data q)\<rparr>) s
                   in bnd (log_write bp s) (\<lambda>s. Inr (addr, s)))
            else Inr (addr, s)) (\<lambda>(addr, s).
       bnd (brelse bp s) (\<lambda>s. Inr (addr, s))))"

lemma fs_ok_upd:
  assumes "fs_ok s" "taken (view s) (sb s) c" "view t = (view s)(c := x)" "unmoved s t"
  shows "fs_ok t"
proof -
  have "0 < unat (sb_size (sb s))" using assms(2) by (auto simp: taken_def)
  then show ?thesis
    using assms(1,3) used_upd [OF assms(2)] unmovedD [OF assms(4)] unfolding fs_ok_def bitmap_ok_def by simp
qed

lemma bmap_tail_allocates:
  fixes s :: "'a fsst_scheme"
  assumes b: "busy s i {} (Suc (Suc (Suc k)))" and ok: "fs_ok s" and f: "file_ok (view s) (sb s) (icache s ip)" and dev: "i_dev (icache s ip) = 1"
    and bn: "NDIRECT \<le> bn" "bn < MAXFILE" "fblk (view s) (icache s ip) bn = 0" and nz: "i_addrs (icache s ip) ! NDIRECT \<noteq> 0"
    and free: "0 < nfree (view s) (sb s)"
  shows "\<exists>t. bmap_tail ip (bn - NDIRECT) (i_addrs (icache s ip) ! NDIRECT) s = Inr (fblk (view t) (icache t ip) bn, t)
    \<and> fblk (view t) (icache t ip) bn \<noteq> 0 \<and> busy t i {} k \<and> bmapped 1 s ip t"
proof -
  define j where "j = bn - NDIRECT"
  define c where "c = i_addrs (icache s ip) ! NDIRECT"
  have c: "taken (view s) (sb s) c" using file_okD(4) [OF f nz] by (simp add: c_def)
  obtain bp s1 where s1: "bread 1 c s = Inr (bp, s1)" "busy s1 i {c} (Suc (Suc (Suc k)))" "owns s1 bp c" "b_data (bufs s1 bp) = view s c"
    "view s1 = view s" "unmoved s s1"
    using bread_busy [OF b taken_disk [OF ok c]] by auto
  note k1 = unmovedD [OF s1(6)]
  have ok1: "fs_ok s1" using ok s1(5) k1 by (simp add: fs_ok_def bitmap_ok_def)
  have z: "get32 (4 * j) (view s c) = 0" using bn nz by (auto simp: fblk_def j_def c_def)
  obtain a s2 where s2: "balloc 1 s1 = Inr (a, s2)" "grown (view s1) (view s2) (sb s1) a" "busy s2 i {c} (Suc k)" "unmoved s1 s2" "fs_ok s2"
    "nfree (view s2) (sb s2) = nfree (view s1) (sb s1) - 1" "pinned s1 \<subseteq> pinned s2" "\<And>b m. owns s1 b m \<Longrightarrow> owns s2 b m"
    by (rule balloc_grows [OF s1(2) ok1]) (use c free s1(5) k1 in auto)
  have g: "grown (view s) (view s2) (sb s) a" using s2(2) s1(5) k1(4) by simp
  have k2: "unmoved s s2" using s1(6) s2(4) by (rule unmoved_trans)
  have o2: "owns s2 bp c" by (rule s2(8) [OF s1(3)])
  have d2: "b_data (bufs s2 bp) = view s2 c" using owns_data [OF _ o2] s2(3) by (simp add: busy_def)
  have len: "length (view s2 c) = BSIZE" by (rule busy_length [OF s2(3)])
  have "4 * j + 4 \<le> BSIZE" using bn by (simp add: j_def MAXFILE_def NDIRECT_def NINDIRECT_def BSIZE_def)
  then have lp: "length (put32 (4 * j) a (view s2 c)) = BSIZE" using len by simp
  obtain s3 where s3: "log_write bp (upd_buf bp (\<lambda>q. q\<lparr>b_data := put32 (4 * j) a (view s2 c)\<rparr>) s2) = Inr s3" "busy s3 i {c} k"
    "view s3 = (view s2)(c := put32 (4 * j) a (view s2 c))" "pinned s3 = insert c (pinned s2)" "unmoved s2 s3" "\<forall>b m. owns s2 b m \<longrightarrow> owns s3 b m"
    using log_write_busy [OF s2(3) o2 lp] by blast
  obtain t where t: "brelse bp s3 = Inr t" "busy t i {} k" "view t = view s3" "unmoved s3 t"
    using brelse_busy [OF s3(2), of bp c] s3(4,6) o2 by auto
  have kt: "unmoved s t" using k2 s3(5) t(4) unmoved_trans by blast
  note E = extends_indirect [OF f g bn nz, folded c_def j_def, OF len]
  have v: "view t = (view s2)(c := put32 (4 * j) a (view s2 c))" using t(3) s3(3) by simp
  have x: "fblk (view t) (icache t ip) bn = a" "a \<noteq> 0" using E(1) bn(2) unfolding extends_def v unmovedD(5) [OF kt] by auto
  have "bmap_tail ip j c s = Inr (a, t)"
    using s1(1,4) z s2(1) s3(1) t(1) d2 upd_buf_at [of bp "put32 (4 * j) a" s2] dev k1(5) by (simp add: bmap_tail_def Let_def)
  moreover have "bmapped 1 s ip t"
  proof -
    have c2: "taken (view s2) (sb s2) c" using growsD(5) [OF g c] unmovedD(4) [OF k2] by simp
    have "fs_ok t" by (rule fs_ok_upd [OF s2(5) c2 v unmoved_trans [OF s3(5) t(4)]])
    moreover have "nfree (view s) (sb s) \<le> nfree (view t) (sb t) + 1"
      using s2(6) s1(5) k1(4) nfree_upd [OF c2] unmovedD(4) [OF unmoved_trans [OF s3(5) t(4)]] unfolding v by simp
    moreover have "view t b = view s b" if "taken (view s) (sb s) b" "b \<noteq> c" for b using that growsD(6) [OF g] v by simp
    ultimately show ?thesis
      using kt E fbyte_extends [OF f E(1)] unfolding bmapped_def unmovedD [OF kt] v [symmetric] c_def [symmetric]
      by (auto simp: unmoved_def extends_def)
  qed
  ultimately show ?thesis using x t(2) unfolding j_def c_def by auto
qed

lemma bmap_unfold:
  "bmap ip bn s =
     (if bn < NDIRECT
      then let addr = i_addrs (icache s ip) ! bn in
           if addr = 0
           then bnd (balloc (i_dev (icache s ip)) s) (\<lambda>(addr, s).
                  Inr (addr, upd_inode ip (\<lambda>i. i\<lparr>i_addrs := (i_addrs i)[bn := addr]\<rparr>) s))
           else Inr (addr, s)
      else if bn - NDIRECT < NINDIRECT
      then bnd (let addr = i_addrs (icache s ip) ! NDIRECT in
                if addr = 0
                then bnd (balloc (i_dev (icache s ip)) s) (\<lambda>(addr, s).
                       Inr (addr, upd_inode ip (\<lambda>i. i\<lparr>i_addrs := (i_addrs i)[NDIRECT := addr]\<rparr>) s))
                else Inr (addr, s)) (\<lambda>(addr, s). bmap_tail ip (bn - NDIRECT) addr s)
      else Inl (Panic ''bmap: out of range''))"
  unfolding bmap_def bmap_tail_def [abs_def] Let_def ..

lemma bmapped_more: "bmapped n s ip t \<Longrightarrow> n \<le> m \<Longrightarrow> bmapped m s ip t"
  by (auto simp: bmapped_def)

lemma bmap_known:
  fixes s :: "'a fsst_scheme"
  assumes b: "busy s i {} k" and ok: "fs_ok s" and f: "file_ok (view s) (sb s) (icache s ip)" and dev: "i_dev (icache s ip) = 1"
    and bn: "bn < MAXFILE" "fblk (view s) (icache s ip) bn \<noteq> 0"
  shows "\<exists>t. bmap ip bn s = Inr (fblk (view t) (icache t ip) bn, t) \<and> fblk (view t) (icache t ip) bn \<noteq> 0 \<and> busy t i {} k \<and> bmapped n s ip t \<and> icache t = icache s"
proof -
  have "i_addrs (icache s ip) ! NDIRECT < disksize s" if "NDIRECT \<le> bn"
    using taken_disk [OF ok] file_okD(4) [OF f] bn(2) that by (auto simp: fblk_def split: if_splits)
  then obtain t where t: "bmap ip bn s = Inr (fblk (view s) (icache s ip) bn, t)" "quiet t i {}" "view t = view s" "pinned t = pinned s" "unmoved s t" "log t = log s"
    using bmap_mapped [OF busy_quiet [OF b] dev bn] by auto
  have "busy t i {} k" using t b by (simp add: busy_def quiet_def)
  moreover have "bmapped n s ip t" by (rule bmapped_same [OF bmapped_refl [OF ok f] t(3,5)])
  ultimately show ?thesis using t bn(2) unmovedD(5) [OF t(5)] by auto
qed

lemma bmap_new_indirect:
  fixes s :: "'a fsst_scheme"
  assumes b: "busy s i {} (k + 5)" and ok: "fs_ok s" and f: "file_ok (view s) (sb s) (icache s ip)" and dev: "i_dev (icache s ip) = 1"
    and bn: "NDIRECT \<le> bn" "bn < MAXFILE" "fblk (view s) (icache s ip) bn = 0" "i_addrs (icache s ip) ! NDIRECT = 0" and free: "2 \<le> nfree (view s) (sb s)"
  shows "\<exists>t. bmap ip bn s = Inr (fblk (view t) (icache t ip) bn, t) \<and> fblk (view t) (icache t ip) bn \<noteq> 0 \<and> busy t i {} k \<and> bmapped 2 s ip t"
proof -
  have b5: "busy s i {} (Suc (Suc (Suc (Suc (Suc k)))))" by (rule busy_mono [OF b]) simp
  obtain a u where u: "balloc 1 s = Inr (a, u)" "a \<noteq> 0" "busy u i {} (Suc (Suc (Suc k)))"
    "bmapped 1 s ip (upd_inode ip (\<lambda>q. q\<lparr>i_addrs := (i_addrs q)[NDIRECT := a]\<rparr>) u)"
    "\<forall>b<MAXFILE. fblk (view u) ((icache u ip)\<lparr>i_addrs := (i_addrs (icache u ip))[NDIRECT := a]\<rparr>) b = fblk (view s) (icache s ip) b"
    using balloc_indirect [OF b5 ok f bn(4)] free by auto
  define w where "w = upd_inode ip (\<lambda>q. q\<lparr>i_addrs := (i_addrs q)[NDIRECT := a]\<rparr>) u"
  have m: "bmapped 1 s ip w" using u(4) by (simp add: w_def)
  have w: "fs_ok w" "file_ok (view w) (sb w) (icache w ip)" "nfree (view s) (sb s) \<le> nfree (view w) (sb w) + 1"
    "i_dev (icache w ip) = 1" using bmappedD [OF m] dev by auto
  have bw: "busy w i {} (Suc (Suc (Suc k)))" using u(3) by (simp add: w_def)
  have aw: "i_addrs (icache w ip) ! NDIRECT = a" using file_okD(1) [OF w(2)] by (simp add: w_def)
  have zw: "fblk (view w) (icache w ip) bn = 0" using u(5) bn(2,3) by (simp add: w_def)
  obtain t where t: "bmap_tail ip (bn - NDIRECT) a w = Inr (fblk (view t) (icache t ip) bn, t)"
    "fblk (view t) (icache t ip) bn \<noteq> 0" "busy t i {} k" "bmapped 1 w ip t"
    using bmap_tail_allocates [OF bw w(1,2,4) bn(1,2) zw] aw u(2) w(3) free by auto
  have "bmapped 2 s ip t" using bmapped_trans [OF m t(4)] by (simp add: numeral_2_eq_2)
  moreover have "bn - NDIRECT < NINDIRECT" using bn by (simp add: MAXFILE_def NINDIRECT_def BSIZE_def NDIRECT_def)
  moreover have "bmap ip bn s = Inr (fblk (view t) (icache t ip) bn, t)"
    using bn calculation(2) u(1) t(1) dev by (simp add: bmap_unfold Let_def w_def)
  ultimately show ?thesis using t by blast
qed

lemma bmap_maps:
  fixes s :: "'a fsst_scheme"
  assumes b: "busy s i {} (k + 5)" and ok: "fs_ok s" and f: "file_ok (view s) (sb s) (icache s ip)" and dev: "i_dev (icache s ip) = 1"
    and bn: "bn < MAXFILE" and free: "2 \<le> nfree (view s) (sb s)"
  shows "\<exists>t. bmap ip bn s = Inr (fblk (view t) (icache t ip) bn, t) \<and> fblk (view t) (icache t ip) bn \<noteq> 0 \<and> busy t i {} k \<and> bmapped 2 s ip t
    \<and> (fblk (view s) (icache s ip) bn \<noteq> 0 \<longrightarrow> icache t = icache s)"
proof -
  have fewer: "j \<le> 5 \<Longrightarrow> busy s i {} (k + j)" for j by (rule busy_mono [OF b]) simp
  consider "fblk (view s) (icache s ip) bn \<noteq> 0" | "bn < NDIRECT" "i_addrs (icache s ip) ! bn = 0"
    | "NDIRECT \<le> bn" "fblk (view s) (icache s ip) bn = 0" "i_addrs (icache s ip) ! NDIRECT \<noteq> 0"
    | "NDIRECT \<le> bn" "fblk (view s) (icache s ip) bn = 0" "i_addrs (icache s ip) ! NDIRECT = 0"
    by (cases "bn < NDIRECT"; cases "i_addrs (icache s ip) ! NDIRECT = 0"; cases "fblk (view s) (icache s ip) bn = 0") (auto simp: fblk_def)
  then show ?thesis
  proof cases
    case 1
    have "busy s i {} k" using fewer [of 0] by simp
    then show ?thesis using bmap_known [OF _ ok f dev bn 1] by blast
  next
    case 2
    have b2: "busy s i {} (Suc (Suc k))" using fewer [of 2] by (simp add: numeral_2_eq_2)
    obtain a t where t: "balloc 1 s = Inr (a, t)" "a \<noteq> 0" "busy t i {} k"
      "bmapped 1 s ip (upd_inode ip (\<lambda>q. q\<lparr>i_addrs := (i_addrs q)[bn := a]\<rparr>) t)"
      using balloc_direct [OF b2 ok f 2] free by auto
    let ?t = "upd_inode ip (\<lambda>q. q\<lparr>i_addrs := (i_addrs q)[bn := a]\<rparr>) t"
    have "length (i_addrs (icache ?t ip)) = NDIRECT + 1" using t(4) by (auto simp: bmapped_def file_ok_def)
    moreover have "bmap ip bn s = Inr (a, ?t)" using 2 t(1) dev by (simp add: bmap_unfold Let_def)
    ultimately show ?thesis using 2 t bmapped_more [OF t(4), of 2] by (auto simp: fblk_def)
  next
    case 3
    have b3: "busy s i {} (Suc (Suc (Suc k)))" using fewer [of 3] by (simp add: numeral_3_eq_3)
    obtain t where t: "bmap_tail ip (bn - NDIRECT) (i_addrs (icache s ip) ! NDIRECT) s = Inr (fblk (view t) (icache t ip) bn, t)"
      "fblk (view t) (icache t ip) bn \<noteq> 0" "busy t i {} k" "bmapped 1 s ip t"
      using bmap_tail_allocates [OF b3 ok f dev 3(1) bn 3(2,3)] free by auto
    moreover have "bn - NDIRECT < NINDIRECT" using bn by (simp add: MAXFILE_def NINDIRECT_def BSIZE_def NDIRECT_def)
    ultimately show ?thesis using 3 bmapped_more [OF t(4), of 2] by (auto simp: bmap_unfold Let_def)
  next
    case 4
    then show ?thesis using bmap_new_indirect [OF b ok f dev 4(1) bn 4(2,3) free] by blast
  qed
qed

section \<open>Writing into the blocks\<close>

definition own :: "'a fsst_scheme \<Rightarrow> nat \<Rightarrow> u32 set" where
  "own s ip = insert (i_addrs (icache s ip) ! NDIRECT) (fblk (view s) (icache s ip) ` {..<MAXFILE})"

text \<open>
  \<open>written n s ip t off xs\<close>: the bytes of the file \<open>ip\<close> from \<open>off\<close> on became \<open>xs\<close>, the others stay; up to \<open>n\<close> blocks were allocated
  for it, and blocks in use that are not its own are as before.
\<close>

definition written :: "nat \<Rightarrow> 'a fsst_scheme \<Rightarrow> nat \<Rightarrow> 'a fsst_scheme \<Rightarrow> nat \<Rightarrow> u8 list \<Rightarrow> bool" where
  "written n s ip t off xs \<longleftrightarrow> fs_ok t \<and> file_ok (view t) (sb t) (icache t ip) \<and> nfree (view s) (sb s) \<le> nfree (view t) (sb t) + n
     \<and> unmoved (upd_inode ip (\<lambda>q. q\<lparr>i_addrs := i_addrs (icache t ip)\<rparr>) s) t
     \<and> (\<forall>x < MAXFILE * BSIZE. fbyte (view t) (icache t ip) x
          = (if off \<le> x \<and> x < off + length xs then xs ! (x - off) else fbyte (view s) (icache s ip) x))
     \<and> (\<forall>b. taken (view s) (sb s) b \<longrightarrow> taken (view t) (sb s) b \<and> (b \<notin> own s ip \<longrightarrow> view t b = view s b))
     \<and> (\<forall>b<MAXFILE. fblk (view t) (icache t ip) b = fblk (view s) (icache s ip) b
          \<or> fblk (view s) (icache s ip) b = 0 \<and> \<not> taken (view s) (sb s) (fblk (view t) (icache t ip) b))
     \<and> (i_addrs (icache t ip) ! NDIRECT = i_addrs (icache s ip) ! NDIRECT \<or> \<not> taken (view s) (sb s) (i_addrs (icache t ip) ! NDIRECT))"

lemma bmapped_written: "bmapped n s ip t \<Longrightarrow> written n s ip t off []"
  by (auto simp: bmapped_def written_def own_def)

lemma writtenD:
  assumes "written n s ip t off xs"
  shows "icache t = (icache s)(ip := (icache s ip)\<lparr>i_addrs := i_addrs (icache t ip)\<rparr>)" "i_dev (icache t ip) = i_dev (icache s ip)"
    "i_inum (icache t ip) = i_inum (icache s ip)" "i_size (icache t ip) = i_size (icache s ip)" "i_type (icache t ip) = i_type (icache s ip)"
    "disksize t = disksize s" "sb t = sb s" "fs_ok t" "file_ok (view t) (sb t) (icache t ip)" "disk t = disk s" "mem t = mem s"
    "nfree (view s) (sb s) \<le> nfree (view t) (sb t) + n"
proof -
  have k: "unmoved (upd_inode ip (\<lambda>q. q\<lparr>i_addrs := i_addrs (icache t ip)\<rparr>) s) t" using assms by (simp add: written_def)
  show i: "icache t = (icache s)(ip := (icache s ip)\<lparr>i_addrs := i_addrs (icache t ip)\<rparr>)" using unmovedD(5) [OF k] by simp
  show "i_dev (icache t ip) = i_dev (icache s ip)" "i_inum (icache t ip) = i_inum (icache s ip)"
    "i_size (icache t ip) = i_size (icache s ip)" "i_type (icache t ip) = i_type (icache s ip)"
    by (subst i, simp)+
qed (use assms in \<open>auto simp: written_def unmoved_def\<close>)

lemma written_blk:
  assumes "written n s ip t off xs" "b < MAXFILE"
  shows "fblk (view t) (icache t ip) b = fblk (view s) (icache s ip) b
    \<or> fblk (view s) (icache s ip) b = 0 \<and> \<not> taken (view s) (sb s) (fblk (view t) (icache t ip) b)"
  using assms by (simp add: written_def)

lemma written_taken: "written n s ip t off xs \<Longrightarrow> taken (view s) (sb s) b \<Longrightarrow> taken (view t) (sb s) b"
  by (simp add: written_def)

lemma written_own: "written n s ip t off xs \<Longrightarrow> taken (view s) (sb s) b \<Longrightarrow> b \<notin> own s ip \<Longrightarrow> b \<notin> own t ip"
  unfolding written_def own_def by auto

lemma written_frame: "written n s ip t off xs \<Longrightarrow> taken (view s) (sb s) b \<Longrightarrow> b \<notin> own s ip \<Longrightarrow> view t b = view s b"
  unfolding written_def by blast

lemma written_trans:
  assumes a: "written m s ip t off xs" and b: "written n t ip u (off + length xs) ys"
  shows "written (m + n) s ip u off (xs @ ys)"
proof -
  note s = writtenD(7) [OF a]
  have k: "unmoved (upd_inode ip (\<lambda>q. q\<lparr>i_addrs := i_addrs (icache u ip)\<rparr>) s) u"
  proof -
    have "icache u = (icache s)(ip := (icache s ip)\<lparr>i_addrs := i_addrs (icache u ip)\<rparr>)"
      using writtenD(1) [OF a] writtenD(1) [OF b] by (metis fun_upd_same fun_upd_upd inode.surjective inode.update_convs(10))
    then show ?thesis using a b by (simp add: written_def unmoved_def)
  qed
  have v: "taken (view u) (sb s) c \<and> (c \<notin> own s ip \<longrightarrow> view u c = view s c)" if "taken (view s) (sb s) c" for c
    using written_taken [OF a that] written_taken [OF b, unfolded s] written_own [OF a that] written_frame [OF a that] written_frame [OF b, unfolded s] by metis
  have f: "fblk (view u) (icache u ip) c = fblk (view s) (icache s ip) c
      \<or> fblk (view s) (icache s ip) c = 0 \<and> \<not> taken (view s) (sb s) (fblk (view u) (icache u ip) c)" if "c < MAXFILE" for c
    using written_blk [OF a that] written_blk [OF b that, unfolded s] written_taken [OF a] by metis
  have i: "i_addrs (icache u ip) ! NDIRECT = i_addrs (icache s ip) ! NDIRECT \<or> \<not> taken (view s) (sb s) (i_addrs (icache u ip) ! NDIRECT)"
    using a b written_taken [OF a] unfolding written_def s by metis
  have d: "fbyte (view u) (icache u ip) x
        = (if off \<le> x \<and> x < off + length (xs @ ys) then (xs @ ys) ! (x - off) else fbyte (view s) (icache s ip) x)" if "x < MAXFILE * BSIZE" for x
    using a b that unfolding written_def by (auto simp: nth_append)
  show ?thesis using k v f i d a b unfolding written_def s by simp
qed

lemma nth_set_bytes:
  "off + length xs \<le> length d \<Longrightarrow> i < length d \<Longrightarrow> set_bytes off xs d ! i = (if off \<le> i \<and> i < off + length xs then xs ! (i - off) else d ! i)"
  by (auto simp: set_bytes_def nth_append)

lemma block_written:
  fixes s :: "'a fsst_scheme"
  assumes ok: "fs_ok s" and f: "file_ok (view s) (sb s) (icache s ip)" and bn: "off div BSIZE < MAXFILE"
    and a: "a = fblk (view s) (icache s ip) (off div BSIZE)" "a \<noteq> 0" and m: "length xs \<le> BSIZE - off mod BSIZE" and len: "length (view s a) = BSIZE"
    and t: "view t = (view s)(a := set_bytes (off mod BSIZE) xs (view s a))" "unmoved s t"
  shows "written 0 s ip t off xs"
proof -
  let ?q = "icache s ip"
  have ta: "taken (view s) (sb s) a" and ai: "a \<noteq> i_addrs ?q ! NDIRECT" using file_okD(2,3) [OF f bn] a by auto
  note k = unmovedD [OF t(2)]
  have fb: "fblk (view t) ?q b = fblk (view s) ?q b" for b using ai by (simp add: fblk_def t(1))
  have tk: "taken (view t) (sb s) b = taken (view s) (sb s) b" for b unfolding t(1) by (rule taken_upd [OF ta])
  have "file_ok (view t) (sb t) (icache t ip)" using f unfolding file_ok_def fb k tk .
  moreover have "nfree (view s) (sb s) = nfree (view t) (sb t)" unfolding t(1) k(4) using nfree_upd [OF ta] by simp
  moreover have "a \<in> own s ip" using a(1) bn by (auto simp: own_def)
  moreover have "fbyte (view t) ?q x = (if off \<le> x \<and> x < off + length xs then xs ! (x - off) else fbyte (view s) ?q x)"
    if x: "x < MAXFILE * BSIZE" for x
  proof (cases "x div BSIZE = off div BSIZE")
    case True
    have e: "x = BSIZE * (off div BSIZE) + x mod BSIZE" "off = BSIZE * (off div BSIZE) + off mod BSIZE"
      using mult_div_mod_eq [of BSIZE x] mult_div_mod_eq [of BSIZE off] True by simp_all
    have p: "0 < BSIZE" by (simp add: BSIZE_def)
    have r: "off mod BSIZE < BSIZE" "x mod BSIZE < BSIZE" using p by simp_all
    have c: "off \<le> x \<longleftrightarrow> off mod BSIZE \<le> x mod BSIZE" "x < off + length xs \<longleftrightarrow> x mod BSIZE < off mod BSIZE + length xs"
      "x - off = x mod BSIZE - off mod BSIZE" using e by linarith+
    have n: "set_bytes (off mod BSIZE) xs (view s a) ! (x mod BSIZE)
        = (if off mod BSIZE \<le> x mod BSIZE \<and> x mod BSIZE < off mod BSIZE + length xs then xs ! (x mod BSIZE - off mod BSIZE) else view s a ! (x mod BSIZE))"
      by (rule nth_set_bytes) (use m len r in linarith)+
    show ?thesis unfolding fbyte_def fb True a(1) [symmetric] c using a(2) n by (simp add: t(1))
  next
    case False
    have b: "x div BSIZE < MAXFILE" using x by (simp add: less_mult_imp_div_less)
    have "fblk (view s) ?q (x div BSIZE) \<noteq> a" using file_okD(5) [OF f b bn] False a by metis
    moreover have "\<not> (off \<le> x \<and> x < off + length xs)"
    proof
      assume "off \<le> x \<and> x < off + length xs"
      then obtain j where "x = off + j" "j < length xs" by (metis add_less_cancel_left le_Suc_ex)
      then show False using div_chunk [OF m] False by blast
    qed
    moreover from calculation(1) have "view t (fblk (view s) ?q (x div BSIZE)) = view s (fblk (view s) ?q (x div BSIZE))" by (simp add: t(1))
    ultimately show ?thesis unfolding fbyte_def fb by auto
  qed
  ultimately show ?thesis
    unfolding written_def using fs_ok_upd [OF ok ta t] t k fb tk by (auto simp: unmoved_def)
qed

text \<open>How many blocks the bytes from \<open>off\<close> to \<open>off + n\<close> lie in.\<close>

definition nblk :: "nat \<Rightarrow> nat \<Rightarrow> nat" where
  "nblk off n = (if n = 0 then 0 else (off + n - 1) div BSIZE - off div BSIZE + 1)"

lemma nblk_step:
  assumes "0 < n" "m = min n (BSIZE - off mod BSIZE)"
  shows "nblk off n = Suc (nblk (off + m) (n - m))"
proof (cases "n \<le> BSIZE - off mod BSIZE")
  case True
  then show ?thesis using assms div_chunk [of n off "n - 1"] by (simp add: nblk_def min_def)
next
  case False
  have r: "off mod BSIZE < BSIZE" by (simp add: BSIZE_def)
  have m: "m = BSIZE - off mod BSIZE" using assms(2) False by simp
  then have e: "off + m = BSIZE * (off div BSIZE + 1)" unfolding distrib_left mult_1_right using mult_div_mod_eq [of BSIZE off] r by linarith
  then have "(off + m) div BSIZE = off div BSIZE + 1" by (metis nonzero_mult_div_cancel_left r not_less_zero)
  moreover have "off + m + (n - m) - 1 = off + n - 1" "n - m \<noteq> 0" using False m by auto
  moreover have "(off + m) div BSIZE \<le> (off + n - 1) div BSIZE" using False m by (intro div_le_mono) simp
  ultimately show ?thesis using assms(1) by (simp add: nblk_def)
qed

lemma writei_loop_unfold:
  "writei_loop ip src n tot off s =
     (if tot < n
      then let m = min (n - tot) (BSIZE - off mod BSIZE) in
           bnd (bmap ip (off div BSIZE) s) (\<lambda>(addr, s).
           bnd (bnd (bread (i_dev (icache s ip)) addr s) (\<lambda>(b, s).
              bnd (log_write b (upd_buf b (\<lambda>q. q\<lparr>b_data := set_bytes (off mod BSIZE) (take m (drop tot src)) (b_data q)\<rparr>) s)) (brelse b)))
             (\<lambda>s. writei_loop ip src n (tot + m) (off + m) s))
      else Inr s)"
  by (subst writei_loop.simps) (simp add: Let_def bnd_assoc case_prod_unfold)

lemma writei_step:
  fixes s :: "'a fsst_scheme"
  assumes b: "busy s i {} (Suc k + 5)" and s: "fs_ok s" "file_ok (view s) (sb s) (icache s ip)" "i_dev (icache s ip) = 1"
    and bn: "off div BSIZE < MAXFILE" and free: "2 \<le> nfree (view s) (sb s)" and m: "length xs \<le> BSIZE - off mod BSIZE"
  obtains a s1 s2 where "bmap ip (off div BSIZE) s = Inr (a, s1)"
    "bnd (bread (i_dev (icache s1 ip)) a s1) (\<lambda>(b, s). bnd (log_write b (upd_buf b (\<lambda>q. q\<lparr>b_data := set_bytes (off mod BSIZE) xs (b_data q)\<rparr>) s)) (brelse b)) = Inr s2"
    "busy s2 i {} k" "written 2 s ip s2 off xs" "fblk (view s2) (icache s2 ip) (off div BSIZE) \<noteq> 0"
    "fblk (view s) (icache s ip) (off div BSIZE) \<noteq> 0 \<longrightarrow> icache s2 = icache s"
proof -
  define a where "a s1 = fblk (view s1) (icache s1 ip) (off div BSIZE)" for s1 :: "'a fsst_scheme"
  obtain s1 where s1: "bmap ip (off div BSIZE) s = Inr (a s1, s1)" "a s1 \<noteq> 0" "busy s1 i {} (Suc k)" "bmapped 2 s ip s1"
    "fblk (view s) (icache s ip) (off div BSIZE) \<noteq> 0 \<longrightarrow> icache s1 = icache s"
    using bmap_maps [OF b s bn free] unfolding a_def by blast
  note D = bmappedD [OF s1(4)]
  have ta: "a s1 < disksize s1" using taken_disk [OF D(8) file_okD(2) [OF D(9) bn]] s1(2) by (simp add: a_def)
  have len: "length (view s1 (a s1)) = BSIZE" by (rule busy_length [OF s1(3)])
  have "off mod BSIZE < BSIZE" by (simp add: BSIZE_def)
  then have lf: "length (set_bytes (off mod BSIZE) xs (view s1 (a s1))) = BSIZE" using len m by (subst length_set_bytes) simp_all
  obtain s2 where s2: "bnd (bread 1 (a s1) s1) (\<lambda>(b, s). bnd (log_write b (upd_buf b (\<lambda>q. q\<lparr>b_data := set_bytes (off mod BSIZE) xs (b_data q)\<rparr>) s)) (brelse b)) = Inr s2"
    "busy s2 i {} k" "view s2 = (view s1)(a s1 := set_bytes (off mod BSIZE) xs (view s1 (a s1)))" "unmoved s1 s2"
    using write_busy [OF s1(3) ta, of "set_bytes (off mod BSIZE) xs"] lf by auto
  have w1: "written 0 s1 ip s2 off xs" by (rule block_written [OF D(8,9) bn a_def s1(2) m len s2(3,4)])
  have w: "written 2 s ip s2 off xs" using written_trans [OF bmapped_written [OF s1(4)], of 0 s2 off xs] w1 by simp
  have "fblk (view s2) (icache s2 ip) (off div BSIZE) \<noteq> 0" using written_blk [OF w1 bn] s1(2) unfolding a_def by auto
  moreover have "i_dev (icache s1 ip) = 1" using D(2) s(3) by simp
  ultimately show thesis using that [OF s1(1) _ s2(2) w] s2(1) s1(5) unmovedD(5) [OF s2(4)] by auto
qed

lemma writei_loop_writes:
  fixes s :: "'a cst_scheme"
  assumes "busy s i {} (6 * nblk off (n - tot) + k)" "fs_ok s" "file_ok (view s) (sb s) (icache s ip)" "i_dev (icache s ip) = 1"
    and "off + (n - tot) \<le> MAXFILE * BSIZE" "2 * nblk off (n - tot) \<le> nfree (view s) (sb s)" "n \<le> length src" "tot \<le> n"
  shows "\<exists>t. writei_loop ip src n tot off s = Inr t \<and> busy t i {} k \<and> written (2 * nblk off (n - tot)) s ip t off (take (n - tot) (drop tot src))
    \<and> (\<forall>x. off \<le> x \<and> x < off + (n - tot) \<longrightarrow> fblk (view t) (icache t ip) (x div BSIZE) \<noteq> 0)
    \<and> ((\<forall>x. off \<le> x \<and> x < off + (n - tot) \<longrightarrow> fblk (view s) (icache s ip) (x div BSIZE) \<noteq> 0) \<longrightarrow> icache t = icache s)"
  using assms
proof (induction "n - tot" arbitrary: tot off s rule: less_induct)
  case less
  show ?case
  proof (cases "tot < n")
    case False
    then show ?thesis using less.prems bmapped_written [OF bmapped_refl [OF less.prems(2,3)]]
      by (subst writei_loop_unfold) (auto simp: nblk_def)
  next
    case True
    define m where "m = min (n - tot) (BSIZE - off mod BSIZE)"
    define xs where "xs = take m (drop tot src)"
    have r: "off mod BSIZE < BSIZE" by (simp add: BSIZE_def)
    then have m: "m \<le> n - tot" "m \<le> BSIZE - off mod BSIZE" "0 < m" using True by (auto simp: m_def)
    have lx: "length xs = m" using m(1) less.prems(7) by (simp add: xs_def)
    have nb: "nblk off (n - tot) = Suc (nblk (off + m) (n - (tot + m)))" using nblk_step [of "n - tot" m off] True by (simp add: m_def diff_diff_add)
    have bn: "off div BSIZE < MAXFILE" using less.prems(5) True by (intro less_mult_imp_div_less) simp
    have b: "busy s i {} (Suc (6 * nblk (off + m) (n - (tot + m)) + k) + 5)" using less.prems(1) unfolding nb by (simp add: ac_simps)
    have xm: "length xs \<le> BSIZE - off mod BSIZE" using lx m(2) by simp
    have fr: "2 \<le> nfree (view s) (sb s)" using less.prems(6) nb by linarith
    obtain a s1 s2 where s1: "bmap ip (off div BSIZE) s = Inr (a, s1)"
      and s2: "bnd (bread (i_dev (icache s1 ip)) a s1) (\<lambda>(b, s). bnd (log_write b (upd_buf b (\<lambda>q. q\<lparr>b_data := set_bytes (off mod BSIZE) xs (b_data q)\<rparr>) s)) (brelse b)) = Inr s2"
        "busy s2 i {} (6 * nblk (off + m) (n - (tot + m)) + k)" and w: "written 2 s ip s2 off xs" and nz: "fblk (view s2) (icache s2 ip) (off div BSIZE) \<noteq> 0"
      and ic2: "fblk (view s) (icache s ip) (off div BSIZE) \<noteq> 0 \<longrightarrow> icache s2 = icache s"
      by (rule writei_step [OF b less.prems(2-4) bn fr xm])
    note D2 = writtenD [OF w]
    have step: "writei_loop ip src n tot off s = writei_loop ip src n (tot + m) (off + m) s2"
      using True s1 s2(1)
      by (subst writei_loop_unfold) (simp add: Let_def m_def [symmetric] xs_def [symmetric] del: bnd_eq_Inr)
    have i2: "i_dev (icache s2 ip) = 1" "off + m + (n - (tot + m)) \<le> MAXFILE * BSIZE" "tot + m \<le> n" "n - (tot + m) < n - tot"
      using D2(2) less.prems(4,5) m True by simp_all
    have f2: "2 * nblk (off + m) (n - (tot + m)) \<le> nfree (view s2) (sb s2)" using D2(12) less.prems(6) nb by linarith
    obtain t where t: "writei_loop ip src n (tot + m) (off + m) s2 = Inr t" "busy t i {} k"
      "written (2 * nblk (off + m) (n - (tot + m))) s2 ip t (off + m) (take (n - (tot + m)) (drop (tot + m) src))"
      "\<forall>x. off + m \<le> x \<and> x < off + m + (n - (tot + m)) \<longrightarrow> fblk (view t) (icache t ip) (x div BSIZE) \<noteq> 0"
      "(\<forall>x. off + m \<le> x \<and> x < off + m + (n - (tot + m)) \<longrightarrow> fblk (view s2) (icache s2 ip) (x div BSIZE) \<noteq> 0) \<longrightarrow> icache t = icache s2"
      using less.hyps [OF i2(4) s2(2) D2(8,9) i2(1,2) f2 less.prems(7) i2(3)] by blast
    have nt: "n - tot = m + (n - (tot + m))" using m(1) by linarith
    have "take (n - tot) (drop tot src) = xs @ take (n - (tot + m)) (drop (tot + m) src)"
      unfolding xs_def nt take_add drop_drop by (simp only: add.commute)
    moreover have "2 + 2 * nblk (off + m) (n - (tot + m)) = 2 * nblk off (n - tot)" using nb by simp
    ultimately have W: "written (2 * nblk off (n - tot)) s ip t off (take (n - tot) (drop tot src))"
      using written_trans [OF w t(3) [folded lx]] by (simp only: lx)
    have full: "fblk (view t) (icache t ip) (x div BSIZE) \<noteq> 0" if x: "off \<le> x" "x < off + (n - tot)" for x
    proof (cases "x < off + m")
      case True
      have "x div BSIZE = off div BSIZE" using div_chunk [OF m(2), of "x - off"] x(1) True by simp
      then show ?thesis using written_blk [OF t(3) bn] nz by auto
    qed (use t(4) x m in auto)
    have ic: "icache t = icache s" if all: "\<forall>x. off \<le> x \<and> x < off + (n - tot) \<longrightarrow> fblk (view s) (icache s ip) (x div BSIZE) \<noteq> 0"
    proof -
      have e: "icache s2 = icache s" using ic2 all [rule_format, of off] True by simp
      have "fblk (view s2) (icache s2 ip) (x div BSIZE) \<noteq> 0" if x: "off + m \<le> x" "x < off + m + (n - (tot + m))" for x
      proof -
        have "x div BSIZE < MAXFILE" "off \<le> x" "x < off + (n - tot)" using x less.prems(5) m(1) by (simp_all add: less_mult_imp_div_less)
        then have "fblk (view s) (icache s ip) (x div BSIZE) \<noteq> 0" "x div BSIZE < MAXFILE" using all by blast+
        then show ?thesis using written_blk [OF w, of "x div BSIZE"] by auto
      qed
      then have "\<forall>x. off + m \<le> x \<and> x < off + m + (n - (tot + m)) \<longrightarrow> fblk (view s2) (icache s2 ip) (x div BSIZE) \<noteq> 0" by blast
      from mp [OF t(5) this] e show ?thesis by simp
    qed
    show ?thesis unfolding step using t(1,2) W full ic by blast
  qed
qed

section \<open>The inode on disk\<close>

definition iblock :: "'a fsst_scheme \<Rightarrow> nat \<Rightarrow> u32" where
  "iblock s ip = IBLOCK (i_inum (icache s ip)) (sb s)"

definition synced :: "'a fsst_scheme \<Rightarrow> nat \<Rightarrow> bool" where
  "synced s ip \<longleftrightarrow> get_dinode (inode_off (i_inum (icache s ip))) (view s (iblock s ip)) = dinode_of (icache s ip)"

text \<open>
  A file in good order: its blocks are its own, all blocks below its size are mapped, and the inode on disk is the one in memory.
\<close>

definition inode_ok :: "'a fsst_scheme \<Rightarrow> nat \<Rightarrow> bool" where
  "inode_ok s ip \<longleftrightarrow> fs_ok s \<and> file_ok (view s) (sb s) (icache s ip) \<and> i_dev (icache s ip) = 1
     \<and> taken (view s) (sb s) (iblock s ip) \<and> iblock s ip \<notin> own s ip \<and> unat (i_size (icache s ip)) \<le> MAXFILE * BSIZE
     \<and> (\<forall>x < unat (i_size (icache s ip)). fblk (view s) (icache s ip) (x div BSIZE) \<noteq> 0) \<and> synced s ip"

lemma inode_off_room: "inode_off n + 64 \<le> BSIZE"
proof -
  have "unat n mod IPB \<le> 7" by (simp add: IPB_def BSIZE_def less_Suc_eq_le [symmetric])
  then show ?thesis by (simp add: inode_off_def BSIZE_def)
qed

lemma iupdate_busy:
  fixes s :: "'a fsst_scheme"
  assumes b: "busy s i {} (Suc k)" and dev: "i_dev (icache s ip) = 1" and n: "iblock s ip < disksize s"
    and l: "length (i_addrs (icache s ip)) = NDIRECT + 1"
  shows "\<exists>t. iupdate ip s = Inr t \<and> busy t i {} k \<and> unmoved s t \<and> synced t ip
    \<and> view t = (view s)(iblock s ip := put_dinode (inode_off (i_inum (icache s ip))) (dinode_of (icache s ip)) (view s (iblock s ip)))"
proof -
  let ?c = "iblock s ip" and ?f = "put_dinode (inode_off (i_inum (icache s ip))) (dinode_of (icache s ip))"
  have len: "length (view s ?c) = BSIZE" by (rule busy_length [OF b])
  have d: "length (d_addrs (dinode_of (icache s ip))) = 13" using l by (simp add: dinode_of_def NDIRECT_def)
  have lf: "length (?f (view s ?c)) = BSIZE" using length_put_dinode inode_off_room len d by metis
  obtain bp u where u: "bread 1 ?c s = Inr (bp, u)" "unmoved s u" using bread_busy [OF b n] by auto
  obtain t where t: "bnd (bread 1 ?c s) (\<lambda>(b, s). bnd (log_write b (upd_buf b (\<lambda>q. q\<lparr>b_data := ?f (b_data q)\<rparr>) s)) (brelse b)) = Inr t"
    "busy t i {} k" "view t = (view s)(?c := ?f (view s ?c))" "unmoved s t"
    using write_busy [OF b n, of ?f] lf by auto
  have "iupdate ip s = Inr t"
    using t(1) u(1) unmovedD(5) [OF u(2)] dev by (simp add: iupdate_def Let_def iblock_def [symmetric])
  moreover have "synced t ip"
    using get_put_dinode [of _ "view s ?c", OF _ d] inode_off_room len unmovedD [OF t(4)] by (simp add: synced_def iblock_def t(3))
  ultimately show ?thesis using t by blast
qed

lemma fbyte_other: "c \<notin> own s ip \<Longrightarrow> x < MAXFILE * BSIZE \<Longrightarrow> fbyte ((view s)(c := d)) (icache s ip) x = fbyte (view s) (icache s ip) x"
  and fblk_other: "c \<notin> own s ip \<Longrightarrow> fblk ((view s)(c := d)) (icache s ip) b = fblk (view s) (icache s ip) b"
proof -
  assume c: "c \<notin> own s ip"
  then show e: "fblk ((view s)(c := d)) (icache s ip) b = fblk (view s) (icache s ip) b" for b by (auto simp: fblk_def own_def)
  assume "x < MAXFILE * BSIZE"
  then have "x div BSIZE < MAXFILE" by (simp add: less_mult_imp_div_less)
  then have "fblk (view s) (icache s ip) (x div BSIZE) \<noteq> c" using c by (auto simp: own_def)
  then show "fbyte ((view s)(c := d)) (icache s ip) x = fbyte (view s) (icache s ip) x" by (simp add: fbyte_def e)
qed

lemma file_ok_other:
  assumes "file_ok (view s) B (icache s ip)" "c \<notin> own s ip" "taken (view s) B c"
  shows "file_ok ((view s)(c := d)) B (icache s ip)"
  using assms(1) unfolding file_ok_def fblk_other [OF assms(2)] taken_upd [OF assms(3)] .

lemma size_irrelevant [simp]: "fblk v (q\<lparr>i_size := z\<rparr>) = fblk v q" "fbyte v (q\<lparr>i_size := z\<rparr>) = fbyte v q" "file_ok v B (q\<lparr>i_size := z\<rparr>) = file_ok v B q"
  by (simp_all add: fun_eq_iff fblk_def fbyte_def file_ok_def)

section \<open>Writing a file\<close>

lemma contents_written:
  assumes w: "\<And>x. x < MAXFILE * BSIZE \<Longrightarrow> fbyte v' q' x = (if off \<le> x \<and> x < off + length xs then xs ! (x - off) else fbyte v q x)"
    and n: "off \<le> unat (i_size q)" "unat (i_size q') = max (unat (i_size q)) (off + length xs)" "unat (i_size q') \<le> MAXFILE * BSIZE"
  shows "contents v' q' = take off (contents v q) @ xs @ drop (off + length xs) (contents v q)"
proof (rule nth_equalityI)
  show l: "length (contents v' q') = length (take off (contents v q) @ xs @ drop (off + length xs) (contents v q))" using n by (simp add: max_def)
  fix x assume x: "x < length (contents v' q')"
  then have m: "x < MAXFILE * BSIZE" using n(3) by simp
  have "contents v' q' ! x = fbyte v' q' x" using x by (simp add: contents_def fbytes_def)
  also have "\<dots> = (if off \<le> x \<and> x < off + length xs then xs ! (x - off) else fbyte v q x)" by (rule w [OF m])
  also have "\<dots> = (take off (contents v q) @ xs @ drop (off + length xs) (contents v q)) ! x"
    using x n by (auto simp: nth_append contents_def fbytes_def max_def split: if_splits)
  finally show "contents v' q' ! x = (take off (contents v q) @ xs @ drop (off + length xs) (contents v q)) ! x" .
qed

lemma writei_grow:
  fixes s :: "'a fsst_scheme"
  assumes b: "busy s i {} (Suc k)" and w: "written n0 r ip s off xs" and r: "inode_ok r ip"
    and z: "unat z = off + length xs" "unat (i_size (icache r ip)) \<le> unat z" "unat z \<le> MAXFILE * BSIZE" "off \<le> unat (i_size (icache r ip))"
    and full: "\<And>x. off \<le> x \<Longrightarrow> x < off + length xs \<Longrightarrow> fblk (view s) (icache s ip) (x div BSIZE) \<noteq> 0"
  shows "\<exists>t. iupdate ip (upd_inode ip (\<lambda>q. q\<lparr>i_size := z\<rparr>) s) = Inr t \<and> busy t i {} k \<and> inode_ok t ip \<and> disksize t = disksize r \<and> sb t = sb r
    \<and> contents (view t) (icache t ip) = take off (contents (view r) (icache r ip)) @ xs @ drop (off + length xs) (contents (view r) (icache r ip))
    \<and> (\<forall>c. taken (view r) (sb r) c \<and> c \<notin> own r ip \<and> c \<noteq> iblock r ip \<longrightarrow> view t c = view r c)"
proof -
  define s' where "s' = upd_inode ip (\<lambda>q. q\<lparr>i_size := z\<rparr>) s"
  note W = writtenD [OF w]
  have R: "taken (view r) (sb r) (iblock r ip)" "iblock r ip \<notin> own r ip" "i_dev (icache r ip) = 1"
    "\<And>x. x < unat (i_size (icache r ip)) \<Longrightarrow> fblk (view r) (icache r ip) (x div BSIZE) \<noteq> 0" "unat (i_size (icache r ip)) \<le> MAXFILE * BSIZE"
    using r by (auto simp: inode_ok_def)
  have c: "iblock s' ip = iblock r ip" using W(3,7) by (simp add: iblock_def s'_def)
  have o: "own s' ip = own s ip" by (simp add: own_def s'_def)
  have cs: "taken (view s) (sb s) (iblock r ip)" "iblock r ip \<notin> own s ip" using written_taken [OF w R(1)] written_own [OF w R(1,2)] W(7) by simp_all
  have b': "busy s' i {} (Suc k)" using b by (simp add: s'_def)
  have n: "iblock s' ip < disksize s'" using taken_disk [OF W(8) cs(1)] c by (simp add: s'_def)
  obtain t where t: "iupdate ip s' = Inr t" "busy t i {} k" "unmoved s' t" "synced t ip" "\<exists>d. view t = (view s')(iblock s' ip := d)"
    using iupdate_busy [OF b' _ n] W(2) R(3) file_okD(1) [OF W(9)] by (auto simp: s'_def)
  obtain d where v: "view t = (view s)(iblock r ip := d)" using t(5) c by (auto simp: s'_def)
  note K = unmovedD [OF t(3)]
  have q: "icache t ip = (icache s ip)\<lparr>i_size := z\<rparr>" "sb t = sb r" "disksize t = disksize r" "iblock t ip = iblock r ip"
    using K W(6,7) c by (simp_all add: s'_def iblock_def)
  have fb: "fblk (view t) (icache t ip) x = fblk (view s) (icache s ip) x" for x unfolding v q(1) size_irrelevant by (rule fblk_other [OF cs(2)])
  have "fs_ok t" by (rule fs_ok_upd [of s' "iblock r ip" t d]) (use W(8) cs(1) v t(3) in \<open>simp_all add: s'_def\<close>)
  moreover have "file_ok (view t) (sb t) (icache t ip)"
    unfolding v q(1,2) size_irrelevant using file_ok_other [OF W(9) cs(2,1)] unfolding W(7) .
  moreover have "taken (view t) (sb t) (iblock t ip)" unfolding v q(2,4) using taken_upd [OF cs(1)] cs(1) unfolding W(7) by simp
  moreover have "iblock t ip \<notin> own t ip" using cs(2) unfolding own_def fb q(4) by (simp add: q(1))
  moreover have "fblk (view t) (icache t ip) (x div BSIZE) \<noteq> 0" if "x < unat (i_size (icache t ip))" for x
  proof (cases "off \<le> x")
    case True
    then show ?thesis using full that z(1) q(1) unfolding fb by simp
  next
    case False
    then have x: "x < unat (i_size (icache r ip))" "x div BSIZE < MAXFILE" using z(4) R(5) by (auto intro: less_mult_imp_div_less)
    then show ?thesis using written_blk [OF w x(2)] R(4) [OF x(1)] unfolding fb by auto
  qed
  ultimately have ok: "inode_ok t ip" using t(4) z(3) W(2) R(3) q(1) unfolding inode_ok_def by simp
  have "contents (view t) (icache t ip) = take off (contents (view r) (icache r ip)) @ xs @ drop (off + length xs) (contents (view r) (icache r ip))"
  proof (rule contents_written)
    show "fbyte (view t) (icache t ip) x = (if off \<le> x \<and> x < off + length xs then xs ! (x - off) else fbyte (view r) (icache r ip) x)"
      if "x < MAXFILE * BSIZE" for x
      using w that unfolding written_def v q(1) size_irrelevant fbyte_other [OF cs(2) that] by blast
  qed (use z q(1) in simp_all)
  moreover have "view t e = view r e" if "taken (view r) (sb r) e" "e \<notin> own r ip" "e \<noteq> iblock r ip" for e
    using written_frame [OF w that(1,2)] that(3) v by simp
  ultimately show ?thesis using t(1,2) ok q unfolding s'_def [symmetric] by blast
qed

lemma writei_inside:
  fixes s :: "'a fsst_scheme"
  assumes w: "written n0 r ip s off xs" and r: "inode_ok r ip" and i: "icache s = icache r" and z: "off + length xs \<le> unat (i_size (icache r ip))"
  shows "inode_ok s ip" "contents (view s) (icache s ip) = take off (contents (view r) (icache r ip)) @ xs @ drop (off + length xs) (contents (view r) (icache r ip))"
proof -
  note W = writtenD [OF w]
  have R: "taken (view r) (sb r) (iblock r ip)" "iblock r ip \<notin> own r ip" "i_dev (icache r ip) = 1"
    "\<And>x. x < unat (i_size (icache r ip)) \<Longrightarrow> fblk (view r) (icache r ip) (x div BSIZE) \<noteq> 0" "unat (i_size (icache r ip)) \<le> MAXFILE * BSIZE" "synced r ip"
    using r by (auto simp: inode_ok_def)
  have c: "iblock s ip = iblock r ip" using i W(7) by (simp add: iblock_def)
  have "fblk (view s) (icache s ip) (x div BSIZE) \<noteq> 0" if x: "x < unat (i_size (icache r ip))" for x
  proof -
    have b: "x div BSIZE < MAXFILE" using x R(5) by (auto intro: less_mult_imp_div_less)
    show ?thesis using written_blk [OF w b] R(4) [OF x] by auto
  qed
  moreover have "synced s ip" using R(6) written_frame [OF w R(1,2)] unfolding synced_def c i by simp
  ultimately show "inode_ok s ip"
    using W(8,9) written_taken [OF w R(1)] written_own [OF w R(1,2)] R(3,5) unfolding inode_ok_def c by (simp add: i W(7))
  show "contents (view s) (icache s ip) = take off (contents (view r) (icache r ip)) @ xs @ drop (off + length xs) (contents (view r) (icache r ip))"
    by (rule contents_written) (use w z R(5) i in \<open>auto simp: written_def\<close>)
qed

section \<open>Property of writing\<close>


lemma small_size_sb: "unat (sb_size small_sb) = 40"
  by (simp add: small_sb_def)

lemma small_bblock: "j < 40 \<Longrightarrow> BBLOCK (of_nat j) small_sb = 5"
  by (simp add: BBLOCK_of_nat BPB_def BSIZE_def small_sb_def)

lemma small_used: "j < 40 \<Longrightarrow> used file_disk small_sb j \<longleftrightarrow> j < 8"
  using small_disk_used [of j] by (simp add: used_def small_bblock file_disk_def)

lemma small_taken: "unat b < 8 \<Longrightarrow> b \<noteq> 5 \<Longrightarrow> taken file_disk small_sb b"
  unfolding taken_def small_size_sb using small_used small_bblock by auto

lemma small_file_ok:
  fixes s :: cst
  assumes "view s = file_disk" "sb s = small_sb" "disksize s = 1000" "icache s 0 = small_inode"
  shows "inode_ok s 0" "nfree (view s) (sb s) = 32"
proof -
  have "bitmap_ok s {}" by (rule small_bitmap_ok [OF _ assms(2,3)]) (simp only: assms(1) small_used)
  then have ok: "fs_ok s" using small_used [of 0] by (simp add: fs_ok_def assms)
  have f: "file_ok (view s) (sb s) (icache s 0)"
    unfolding assms file_ok_def small_blk using small_taken [of 6] by (auto simp: small_inode_def NDIRECT_def)
  have c: "iblock s 0 = 4" by (simp add: iblock_def assms small_inode_def small_sb_def IBLOCK_def IPB_def BSIZE_def)
  have "4 \<notin> own s 0" unfolding own_def assms small_blk by (auto simp: small_inode_def NDIRECT_def)
  moreover have "synced s 0"
    unfolding synced_def c unfolding assms
    by (simp add: file_disk_def small_inode_def get_put_dinode dinode_of_def inode_off_def IPB_def BSIZE_def)
  ultimately show "inode_ok s 0"
    using ok f small_taken [of 4] c unfolding inode_ok_def assms small_size MAXFILE_bytes small_blk
    by (auto simp: BSIZE_def) (simp add: small_inode_def)
  have "{j. j < 40 \<and> \<not> used file_disk small_sb j} = {8..<40}" using small_used by auto
  then show "nfree (view s) (sb s) = 32" by (simp add: nfree_def assms small_size_sb)
qed


end
