(* ===== verification/File.thy ===== *)
theory File
  imports Dir
begin

text \<open>
  Pipes (\<^verbatim>\<open>pipe.c\<close>) and open files (\<^verbatim>\<open>file.c\<close>). A file pointer is an index into \<^verbatim>\<open>ftable.file\<close>. A pipe is
  named by the address of the page it lives in; its fields are kept in a record at that
  address. The two counters of a pipe are 32-bit and wrap. The loops that may sleep are split
  so that the part of a read or write that has been done is visible when the process stops.
\<close>

definition PIPESIZE :: nat where "PIPESIZE = 512"

record pipe =
  pi_data :: "u8 list"
  pi_nread :: u32
  pi_nwrite :: u32
  pi_readopen :: bool
  pi_writeopen :: bool

datatype ftype = FD_NONE | FD_PIPE | FD_INODE

record file_t =
  f_type :: ftype
  f_ref :: int
  f_readable :: bool
  f_writable :: bool
  f_pipe :: u32
  f_ip :: nat
  f_off :: u32

record flst = cst +
  ftable :: "nat \<Rightarrow> file_t"
  pipes :: "u32 \<Rightarrow> pipe"

definition upd_file :: "nat \<Rightarrow> (file_t \<Rightarrow> file_t) \<Rightarrow> 'a flst_scheme \<Rightarrow> 'a flst_scheme" where
  "upd_file f g s = s\<lparr>ftable := (ftable s)(f := g (ftable s f))\<rparr>"

definition upd_pipe :: "u32 \<Rightarrow> (pipe \<Rightarrow> pipe) \<Rightarrow> 'a flst_scheme \<Rightarrow> 'a flst_scheme" where
  "upd_pipe p g s = s\<lparr>pipes := (pipes s)(p := g (pipes s p))\<rparr>"

section \<open>The file table\<close>

definition fileinit :: "'a flst_scheme \<Rightarrow> 'a flst_scheme" where
  "fileinit s = initlock L_ftable s"

definition filealloc :: "'a flst_scheme \<Rightarrow> 'a flst_scheme stop + (nat option \<times> 'a flst_scheme)" where
  "filealloc s =
     bnd (acquire L_ftable s) (\<lambda>s.
       case List.find (\<lambda>f. f_ref (ftable s f) = 0) [0..<NFILE] of
         Some f \<Rightarrow>
           bnd (release L_ftable (upd_file f (\<lambda>q. q\<lparr>f_ref := 1\<rparr>) s)) (\<lambda>s. Inr (Some f, s))
       | None \<Rightarrow> bnd (release L_ftable s) (\<lambda>s. Inr (None, s)))"

definition filedup :: "nat \<Rightarrow> 'a flst_scheme \<Rightarrow> 'a flst_scheme stop + (nat \<times> 'a flst_scheme)" where
  "filedup f s =
     bnd (acquire L_ftable s) (\<lambda>s.
       if f_ref (ftable s f) < 1 then Inl (Panic ''filedup'')
       else bnd (release L_ftable (upd_file f (\<lambda>q. q\<lparr>f_ref := f_ref q + 1\<rparr>) s)) (\<lambda>s. Inr (f, s)))"

section \<open>Pipes\<close>

definition pipeclose :: "u32 \<Rightarrow> bool \<Rightarrow> 'a flst_scheme \<Rightarrow> 'a flst_scheme stop + 'a flst_scheme" where
  "pipeclose p writable s =
     bnd (acquire (L_pipe p) s) (\<lambda>s.
     bnd (if writable
          then wakeup (C_nread p) (upd_pipe p (\<lambda>q. q\<lparr>pi_writeopen := False\<rparr>) s)
          else wakeup (C_nwrite p) (upd_pipe p (\<lambda>q. q\<lparr>pi_readopen := False\<rparr>) s)) (\<lambda>s.
       if \<not> pi_readopen (pipes s p) \<and> \<not> pi_writeopen (pipes s p)
       then bnd (release (L_pipe p) s) (kfree p)
       else release (L_pipe p) s))"

text \<open>
  \<open>pipewrite_copy\<close> stores bytes \<open>i, ..., n - 1\<close> of the source until the buffer is full, and returns
  the index of the next byte.
\<close>

function pipewrite_copy ::
  "u32 \<Rightarrow> u32 \<Rightarrow> nat \<Rightarrow> nat \<Rightarrow> 'a flst_scheme \<Rightarrow> 'a flst_scheme stop + (nat \<times> 'a flst_scheme)" where
  "pipewrite_copy p addr n i s =
     (if i < n \<and> pi_nwrite (pipes s p) \<noteq> pi_nread (pipes s p) + of_nat PIPESIZE
      then bnd (uload (addr + of_nat i) s) (\<lambda>c.
             let s = upd_pipe p (\<lambda>q. q\<lparr>pi_data := (pi_data q)[unat (pi_nwrite q) mod PIPESIZE := c],
                       pi_nwrite := pi_nwrite q + 1\<rparr>) s
             in pipewrite_copy p addr n (i + 1) s)
      else Inr (i, s))"
  by pat_completeness auto
termination by (relation "measure (\<lambda>(p, addr, n, i, s). n - i)") auto

declare pipewrite_copy.simps [simp del]

definition pipewrite_quit :: "u32 \<Rightarrow> 'a flst_scheme \<Rightarrow> 'a flst_scheme stop + (bool \<times> 'a flst_scheme)" where
  "pipewrite_quit p s =
     (if pi_readopen (pipes s p)
      then bnd (myproc s) (\<lambda>(q, s). case q of
             None \<Rightarrow> Inl (Fault ''pipewrite'')
           | Some j \<Rightarrow> Inr (p_killed (procs s j), s))
      else Inr (True, s))"

definition pipewrite_go ::
  "u32 \<Rightarrow> u32 \<Rightarrow> nat \<Rightarrow> nat \<Rightarrow> 'a flst_scheme \<Rightarrow> 'a flst_scheme stop + (int \<times> 'a flst_scheme)" where
  "pipewrite_go p addr n i s =
     bnd (pipewrite_copy p addr n i s) (\<lambda>(i, s).
       if i < n
       then bnd (pipewrite_quit p s) (\<lambda>(quit, s).
              if quit then bnd (release (L_pipe p) s) (\<lambda>s. Inr (- 1, s))
              else bnd (wakeup (C_nread p) s) (sleep (C_nwrite p) (L_pipe p)))
       else bnd (wakeup (C_nread p) s) (\<lambda>s.
            bnd (release (L_pipe p) s) (\<lambda>s. Inr (int n, s))))"

definition pipewrite ::
  "u32 \<Rightarrow> u32 \<Rightarrow> nat \<Rightarrow> 'a flst_scheme \<Rightarrow> 'a flst_scheme stop + (int \<times> 'a flst_scheme)" where
  "pipewrite p addr n s = bnd (acquire (L_pipe p) s) (pipewrite_go p addr n 0)"

definition pipewrite_in ::
  "nat \<Rightarrow> u32 \<Rightarrow> u32 \<Rightarrow> nat \<Rightarrow> nat \<Rightarrow> 'a flst_scheme \<Rightarrow> 'a flst_scheme stop + (int \<times> 'a flst_scheme)" where
  "pipewrite_in j p addr n i s = bnd (sleep_in j (L_pipe p) s) (pipewrite_go p addr n i)"

function piperead_copy ::
  "u32 \<Rightarrow> u32 \<Rightarrow> nat \<Rightarrow> nat \<Rightarrow> 'a flst_scheme \<Rightarrow> 'a flst_scheme stop + (nat \<times> 'a flst_scheme)" where
  "piperead_copy p addr n i s =
     (if i < n \<and> pi_nread (pipes s p) \<noteq> pi_nwrite (pipes s p)
      then let c = pi_data (pipes s p) ! (unat (pi_nread (pipes s p)) mod PIPESIZE);
               s = upd_pipe p (\<lambda>q. q\<lparr>pi_nread := pi_nread q + 1\<rparr>) s in
           bnd (ustore (addr + of_nat i) c s) (\<lambda>s. piperead_copy p addr n (i + 1) s)
      else Inr (i, s))"
  by pat_completeness auto
termination by (relation "measure (\<lambda>(p, addr, n, i, s). n - i)") auto

declare piperead_copy.simps [simp del]

definition piperead_go ::
  "u32 \<Rightarrow> u32 \<Rightarrow> nat \<Rightarrow> 'a flst_scheme \<Rightarrow> 'a flst_scheme stop + (int \<times> 'a flst_scheme)" where
  "piperead_go p addr n s =
     (if pi_nread (pipes s p) = pi_nwrite (pipes s p) \<and> pi_writeopen (pipes s p)
      then bnd (myproc s) (\<lambda>(q, s). case q of
             None \<Rightarrow> Inl (Fault ''piperead'')
           | Some j \<Rightarrow>
               if p_killed (procs s j) then bnd (release (L_pipe p) s) (\<lambda>s. Inr (- 1, s))
               else sleep (C_nread p) (L_pipe p) s)
      else bnd (piperead_copy p addr n 0 s) (\<lambda>(i, s).
           bnd (wakeup (C_nwrite p) s) (\<lambda>s.
           bnd (release (L_pipe p) s) (\<lambda>s. Inr (int i, s)))))"

definition piperead ::
  "u32 \<Rightarrow> u32 \<Rightarrow> nat \<Rightarrow> 'a flst_scheme \<Rightarrow> 'a flst_scheme stop + (int \<times> 'a flst_scheme)" where
  "piperead p addr n s = bnd (acquire (L_pipe p) s) (piperead_go p addr n)"

definition piperead_in ::
  "nat \<Rightarrow> u32 \<Rightarrow> u32 \<Rightarrow> nat \<Rightarrow> 'a flst_scheme \<Rightarrow> 'a flst_scheme stop + (int \<times> 'a flst_scheme)" where
  "piperead_in j p addr n s = bnd (sleep_in j (L_pipe p) s) (piperead_go p addr n)"

section \<open>Open files\<close>

definition fileclose :: "nat \<Rightarrow> 'a flst_scheme \<Rightarrow> 'a flst_scheme stop + 'a flst_scheme" where
  "fileclose f s =
     bnd (acquire L_ftable s) (\<lambda>s.
       if f_ref (ftable s f) < 1 then Inl (Panic ''fileclose'')
       else let s = upd_file f (\<lambda>q. q\<lparr>f_ref := f_ref q - 1\<rparr>) s in
            if f_ref (ftable s f) > 0 then release L_ftable s
            else let ff = ftable s f;
                     s = upd_file f (\<lambda>q. q\<lparr>f_ref := 0, f_type := FD_NONE\<rparr>) s in
                 bnd (release L_ftable s) (\<lambda>s. case f_type ff of
                   FD_PIPE \<Rightarrow> pipeclose (f_pipe ff) (f_writable ff) s
                 | FD_INODE \<Rightarrow> bnd (begin_op s) (\<lambda>s. bnd (iput (f_ip ff) s) end_op)
                 | FD_NONE \<Rightarrow> Inr s))"

definition filestat ::
  "nat \<Rightarrow> 'a flst_scheme \<Rightarrow> 'a flst_scheme stop + (int \<times> stat option \<times> 'a flst_scheme)" where
  "filestat f s =
     (let q = ftable s f in
      if f_type q = FD_INODE
      then bnd (ilock (f_ip q) s) (\<lambda>s.
             let st = stati (f_ip q) s in
           bnd (iunlock (f_ip q) s) (\<lambda>s. Inr (0, Some st, s)))
      else Inr (- 1, None, s))"

definition fileread ::
  "nat \<Rightarrow> u32 \<Rightarrow> nat \<Rightarrow> 'a flst_scheme \<Rightarrow> 'a flst_scheme stop + (int \<times> 'a flst_scheme)" where
  "fileread f addr n s =
     (let q = ftable s f in
      if \<not> f_readable q then Inr (- 1, s)
      else case f_type q of
        FD_PIPE \<Rightarrow> piperead (f_pipe q) addr n s
      | FD_INODE \<Rightarrow>
          bnd (ilock (f_ip q) s) (\<lambda>s.
          bnd (readi (f_ip q) (At addr) (f_off (ftable s f)) (of_nat n) s) (\<lambda>(r, _, s).
            let s = (if r > 0 then upd_file f (\<lambda>q. q\<lparr>f_off := f_off q + of_int r\<rparr>) s else s) in
          bnd (iunlock (f_ip q) s) (\<lambda>s. Inr (r, s))))
      | FD_NONE \<Rightarrow> Inl (Panic ''fileread''))"

text \<open>The largest chunk of one transaction, \<^verbatim>\<open>((MAXOPBLOCKS-1-1-2) / 2) * 512\<close>.\<close>

definition write_max :: nat where
  "write_max = ((MAXOPBLOCKS - 1 - 1 - 2) div 2) * 512"

definition filewrite_chunk ::
  "nat \<Rightarrow> u32 \<Rightarrow> nat \<Rightarrow> nat \<Rightarrow> 'a flst_scheme \<Rightarrow> 'a flst_scheme stop + (int \<times> 'a flst_scheme)" where
  "filewrite_chunk f addr i n1 s =
     (let ip = f_ip (ftable s f) in
      bnd (begin_op s) (\<lambda>s.
      bnd (ilock ip s) (\<lambda>s.
      bnd (uread n1 (addr + of_nat i) s) (\<lambda>src.
      bnd (writei ip src (f_off (ftable s f)) (of_nat n1) s) (\<lambda>(r, s).
        let s = (if r > 0 then upd_file f (\<lambda>q. q\<lparr>f_off := f_off q + of_int r\<rparr>) s else s) in
      bnd (iunlock ip s) (\<lambda>s.
      bnd (end_op s) (\<lambda>s. Inr (r, s))))))))"

text \<open>\<open>r \<noteq> int n1\<close> panics, so the loop advances by \<open>n1 > 0\<close>.\<close>

function filewrite_loop ::
  "nat \<Rightarrow> u32 \<Rightarrow> nat \<Rightarrow> nat \<Rightarrow> 'a flst_scheme \<Rightarrow> 'a flst_scheme stop + (int \<times> 'a flst_scheme)" where
  "filewrite_loop f addr n i s =
     (if i < n
      then let n1 = min (n - i) write_max in
           bnd (filewrite_chunk f addr i n1 s) (\<lambda>(r, s).
             if r < 0 then Inr (- 1, s)
             else if r \<noteq> int n1 then Inl (Panic ''short filewrite'')
             else filewrite_loop f addr n (i + n1) s)
      else Inr (if i = n then int n else - 1, s))"
  by pat_completeness auto
termination
  by (relation "measure (\<lambda>(f, addr, n, i, s). n - i)") (auto simp: write_max_def MAXOPBLOCKS_def)

declare filewrite_loop.simps [simp del]

definition filewrite ::
  "nat \<Rightarrow> u32 \<Rightarrow> nat \<Rightarrow> 'a flst_scheme \<Rightarrow> 'a flst_scheme stop + (int \<times> 'a flst_scheme)" where
  "filewrite f addr n s =
     (let q = ftable s f in
      if \<not> f_writable q then Inr (- 1, s)
      else case f_type q of
        FD_PIPE \<Rightarrow> pipewrite (f_pipe q) addr n s
      | FD_INODE \<Rightarrow> filewrite_loop f addr n 0 s
      | FD_NONE \<Rightarrow> Inl (Panic ''filewrite''))"

section \<open>Making a pipe\<close>

definition pipealloc_bad ::
  "nat option \<Rightarrow> nat option \<Rightarrow> 'a flst_scheme
   \<Rightarrow> 'a flst_scheme stop + ((nat \<times> nat) option \<times> 'a flst_scheme)" where
  "pipealloc_bad f0 f1 s =
     bnd (case f0 of Some f \<Rightarrow> fileclose f s | None \<Rightarrow> Inr s) (\<lambda>s.
     bnd (case f1 of Some f \<Rightarrow> fileclose f s | None \<Rightarrow> Inr s) (\<lambda>s. Inr (None, s)))"

definition pipealloc :: "'a flst_scheme \<Rightarrow> 'a flst_scheme stop + ((nat \<times> nat) option \<times> 'a flst_scheme)" where
  "pipealloc s =
     bnd (filealloc s) (\<lambda>(f0, s). case f0 of
       None \<Rightarrow> pipealloc_bad None None s
     | Some r \<Rightarrow>
         bnd (filealloc s) (\<lambda>(f1, s). case f1 of
           None \<Rightarrow> pipealloc_bad (Some r) None s
         | Some w \<Rightarrow>
             bnd (kalloc s) (\<lambda>(p, s).
               if p = 0 then pipealloc_bad (Some r) (Some w) s
               else let s = upd_pipe p (\<lambda>q. q\<lparr>pi_readopen := True, pi_writeopen := True,
                              pi_nwrite := 0, pi_nread := 0\<rparr>) s;
                        s = initlock (L_pipe p) s;
                        s = upd_file r (\<lambda>q. q\<lparr>f_type := FD_PIPE, f_readable := True,
                              f_writable := False, f_pipe := p\<rparr>) s;
                        s = upd_file w (\<lambda>q. q\<lparr>f_type := FD_PIPE, f_readable := False,
                              f_writable := True, f_pipe := p\<rparr>) s
                    in Inr (Some (r, w), s))))"

end
