(* ===== verification/Fork.thy ===== *)
theory Fork
  imports File
begin

text \<open>
  The operations of \<^verbatim>\<open>proc.c\<close> that use open files and the file system: the first process, \<^verbatim>\<open>fork\<close>, \<^verbatim>\<open>exit\<close>
  and the first return of a new process. \<open>sym_initcode\<close> and its size are the linker's symbols for
  the code of the first process.
\<close>

record frst = flst +
  sym_initcode :: u32
  sym_initcode_size :: u32
  forkret_first :: bool

definition wr16 :: "u32 \<Rightarrow> u16 \<Rightarrow> 'a kmst_scheme \<Rightarrow> 'a kmst_scheme" where
  "wr16 a v s = s\<lparr>mem := (mem s)(a := ucast v, a + 1 := ucast (drop_bit 8 v))\<rparr>"

definition user_cs :: u16 where "user_cs = of_nat (SEG_UCODE * 8) OR 3"
definition user_ds :: u16 where "user_ds = of_nat (SEG_UDATA * 8) OR 3"

section \<open>The first process\<close>

definition userinit_frame :: "u32 \<Rightarrow> 'a kmst_scheme \<Rightarrow> 'a kmst_scheme" where
  "userinit_frame tf s =
     (let s = s\<lparr>mem := memset (mem s) tf 0 sizeof_trapframe\<rparr>;
          s = wr16 (tf + tf_cs) user_cs s;
          s = wr16 (tf + tf_ds) user_ds s;
          s = wr16 (tf + tf_es) user_ds s;
          s = wr16 (tf + tf_ss) user_ds s;
          s = wr32 (tf + tf_eflags) FL_IF s;
          s = wr32 (tf + tf_esp) PGSIZE s
      in wr32 (tf + tf_eip) 0 s)"

definition userinit :: "'a frst_scheme \<Rightarrow> 'a frst_scheme stop + 'a frst_scheme" where
  "userinit s =
     bnd (allocproc s) (\<lambda>(p, s).
       let s = s\<lparr>initproc := p\<rparr> in case p of
         None \<Rightarrow> Inl (Fault ''userinit'')
       | Some i \<Rightarrow>
           bnd (setupkvm s) (\<lambda>(d, s).
             let s = upd_proc i (\<lambda>q. q\<lparr>p_pgdir := d\<rparr>) s in
             if d = 0 then Inl (Panic ''userinit: out of memory?'')
             else bnd (inituvm d (sym_initcode s) (sym_initcode_size s) s) (\<lambda>s.
               let s = upd_proc i (\<lambda>q. q\<lparr>p_sz := PGSIZE\<rparr>) s;
                   s = userinit_frame (p_tf (procs s i)) s;
                   s = upd_proc i (\<lambda>q. q\<lparr>p_name := [105, 110, 105, 116, 99, 111, 100, 101]\<rparr>) s in
               bnd (namei [SLASH] s) (\<lambda>(ip, s).
                 let s = upd_proc i (\<lambda>q. q\<lparr>p_cwd := ip\<rparr>) s in
               bnd (acquire L_ptable s) (\<lambda>s.
                 release L_ptable (upd_proc i (\<lambda>q. q\<lparr>p_state := RUNNABLE\<rparr>) s))))))"

section \<open>fork\<close>

definition fork_file :: "nat \<Rightarrow> nat \<Rightarrow> nat \<Rightarrow> 'a flst_scheme \<Rightarrow> 'a flst_scheme stop + 'a flst_scheme" where
  "fork_file cur np i s = (case p_ofile (procs s cur) i of
     None \<Rightarrow> Inr s
   | Some f \<Rightarrow>
       bnd (filedup f s) (\<lambda>(f, s). Inr (upd_proc np (\<lambda>q. q\<lparr>p_ofile := (p_ofile q)(i \<mapsto> f)\<rparr>) s)))"

definition fork_publish :: "nat \<Rightarrow> 'a pst_scheme \<Rightarrow> 'a pst_scheme stop + 'a pst_scheme" where
  "fork_publish np s =
     bnd (acquire L_ptable s) (\<lambda>s.
       release L_ptable (upd_proc np (\<lambda>q. q\<lparr>p_state := RUNNABLE\<rparr>) s))"

definition fork :: "'a frst_scheme \<Rightarrow> 'a frst_scheme stop + (int \<times> 'a frst_scheme)" where
  "fork s =
     bnd (myproc s) (\<lambda>(p, s). case p of
       None \<Rightarrow> Inl (Fault ''fork'')
     | Some cur \<Rightarrow>
     bnd (allocproc s) (\<lambda>(p, s). case p of
       None \<Rightarrow> Inr (- 1, s)
     | Some np \<Rightarrow>
     bnd (copyuvm (p_pgdir (procs s cur)) (p_sz (procs s cur)) s) (\<lambda>(d, s).
       let s = upd_proc np (\<lambda>q. q\<lparr>p_pgdir := d\<rparr>) s in
       if d = 0
       then bnd (kfree (p_kstack (procs s np)) s) (\<lambda>s.
              let s = upd_proc np (\<lambda>q. q\<lparr>p_kstack := 0\<rparr>) s
              in Inr (- 1, upd_proc np (\<lambda>q. q\<lparr>p_state := UNUSED\<rparr>) s))
       else
         let s = upd_proc np (\<lambda>q. q\<lparr>p_sz := p_sz (procs s cur)\<rparr>) s;
             s = upd_proc np (\<lambda>q. q\<lparr>p_parent := Some cur\<rparr>) s;
             s = s\<lparr>mem := memmove (mem s) (p_tf (procs s np)) (p_tf (procs s cur)) sizeof_trapframe\<rparr>;
             s = wr32 (p_tf (procs s np) + tf_eax) 0 s in
         bnd (each (fork_file cur np) [0..<NOFILE] s) (\<lambda>s. case p_cwd (procs s cur) of
           None \<Rightarrow> Inl (Fault ''idup'')
         | Some ip \<Rightarrow>
             bnd (idup ip s) (\<lambda>(ip, s).
               let s = upd_proc np (\<lambda>q. q\<lparr>p_cwd := Some ip\<rparr>) s;
                   s = upd_proc np (\<lambda>q. q\<lparr>p_name := take 15 (p_name (procs s cur))\<rparr>) s;
                   pid = p_pid (procs s np) in
             bnd (fork_publish np s) (\<lambda>s. Inr (pid, s)))))))"

section \<open>exit\<close>

definition exit_file :: "nat \<Rightarrow> nat \<Rightarrow> 'a flst_scheme \<Rightarrow> 'a flst_scheme stop + 'a flst_scheme" where
  "exit_file cur fd s = (case p_ofile (procs s cur) fd of
     None \<Rightarrow> Inr s
   | Some f \<Rightarrow>
       bnd (fileclose f s) (\<lambda>s. Inr (upd_proc cur (\<lambda>q. q\<lparr>p_ofile := (p_ofile q)(fd := None)\<rparr>) s)))"

definition exit :: "'a frst_scheme \<Rightarrow> 'a frst_scheme stop + 'b" where
  "exit s =
     bnd (myproc s) (\<lambda>(p, s).
       if p = initproc s then Inl (Panic ''init exiting'')
       else case p of
         None \<Rightarrow> Inl (Fault ''exit'')
       | Some cur \<Rightarrow>
           bnd (each (exit_file cur) [0..<NOFILE] s) (\<lambda>s.
           bnd (begin_op s) (\<lambda>s. case p_cwd (procs s cur) of
             None \<Rightarrow> Inl (Fault ''iput'')
           | Some ip \<Rightarrow>
               bnd (iput ip s) (\<lambda>s.
               bnd (end_op s) (\<lambda>s.
                 let s = upd_proc cur (\<lambda>q. q\<lparr>p_cwd := None\<rparr>) s in
               bnd (exit_out cur s) (\<lambda>s. Inl (Asleep s)))))))"

section \<open>The first time a process runs\<close>

definition forkret :: "'a frst_scheme \<Rightarrow> 'a frst_scheme stop + 'a frst_scheme" where
  "forkret s =
     bnd (release L_ptable s) (\<lambda>s.
       if forkret_first s
       then let s = s\<lparr>forkret_first := False\<rparr> in bnd (iinit ROOTDEV s) (initlog ROOTDEV)
       else Inr s)"

end
