(* ===== verification/Sched.thy ===== *)
theory Sched
  imports Fork
begin

text \<open>
  The process table under many processors (\<^verbatim>\<open>proc.c\<close>). Each processor is in its scheduler loop or runs a
  process; the processors' steps interleave in any order. The steps are the operations of the
  kernel that touch the table, cut where the code switches stacks: \<^verbatim>\<open>ptable.lock\<close> stays held across the
  switch, taken by one side and released by the other.
\<close>

section \<open>What the operations keep of processors, locks and table\<close>

definition cpuv :: "hardware \<Rightarrow> u8 \<times> nat \<times> (nat \<Rightarrow> u8) \<times> (nat \<Rightarrow> nat option)" where
  "cpuv h = (lapicid h, ncpu h, \<lambda>c. apicid (cpus h c), \<lambda>c. cpu_proc (cpus h c))"

definition same :: "'a pst_scheme \<Rightarrow> 'a pst_scheme \<Rightarrow> bool" where
  "same s t \<longleftrightarrow> cpuv (hw t) = cpuv (hw s) \<and> locks (hw t) = locks (hw s) \<and> procs t = procs s \<and> nextpid t = nextpid s"

lemma same_refl [simp]: "same s s"
  by (simp add: same_def)

lemma same_trans: "same s t \<Longrightarrow> same t u \<Longrightarrow> same s u"
  by (simp add: same_def)

lemma cpuv_eq: "cpuv h' = cpuv h \<longleftrightarrow> lapicid h' = lapicid h \<and> ncpu h' = ncpu h
   \<and> (\<forall>c. apicid (cpus h' c) = apicid (cpus h c)) \<and> (\<forall>c. cpu_proc (cpus h' c) = cpu_proc (cpus h c))"
  unfolding cpuv_def prod.inject fun_eq_iff ..

lemma cpuv_this_cpu: "cpuv h' = cpuv h \<Longrightarrow> this_cpu h' = this_cpu h"
  unfolding cpuv_def this_cpu_def prod.inject fun_eq_iff by simp

lemma same_this_cpu: "same s t \<Longrightarrow> this_cpu (hw t) = this_cpu (hw s)"
  unfolding same_def by (blast intro: cpuv_this_cpu)

lemma mycpu_Inr: "mycpu s = Inr c \<Longrightarrow> this_cpu (hw s) = Some c"
  unfolding mycpu_def by (cases "readeflags s AND FL_IF \<noteq> 0"; cases "this_cpu (hw s)"; simp)

lemma same_upd_cpu: "(\<And>q. apicid (f q) = apicid q \<and> cpu_proc (f q) = cpu_proc q) \<Longrightarrow> same s (upd_cpu c f s)"
  by (simp add: same_def cpuv_eq upd_cpu_def)

lemma same_cli [simp]: "same s (cli s)" "same s (sti s)"
  by (simp_all add: same_def cpuv_eq cli_def sti_def)

lemma pushcli_same: "pushcli s = Inr t \<Longrightarrow> same s t"
  by (auto simp: pushcli_def same_def cpuv_eq upd_cpu_def cli_def Let_def split: if_splits)

lemma popcli_same: "popcli s = Inr t \<Longrightarrow> same s t"
  by (auto simp: popcli_def same_def cpuv_eq upd_cpu_def sti_def Let_def split: if_splits)

lemma myproc_Inr:
  assumes "myproc s = Inr (p, t)"
  obtains c where "this_cpu (hw s) = Some c" "p = cpu_proc (cpus (hw s) c)" "same s t"
proof -
  from assms obtain u c where u: "pushcli s = Inr u" "mycpu u = Inr c" "p = cpu_proc (cpus (hw u) c)" "popcli u = Inr t"
    by (auto simp: myproc_def Let_def)
  note su = pushcli_same [OF u(1)]
  have "cpu_proc (cpus (hw u) c) = cpu_proc (cpus (hw s) c)"
    using su by (simp add: same_def cpuv_eq)
  moreover have "this_cpu (hw s) = Some c" using mycpu_Inr [OF u(2)] same_this_cpu [OF su] by simp
  ultimately show thesis using that u(3) same_trans [OF su popcli_same [OF u(4)]] by simp
qed

definition took_lock :: "lockid \<Rightarrow> nat \<Rightarrow> 'a pst_scheme \<Rightarrow> 'a pst_scheme \<Rightarrow> bool" where
  "took_lock lk c s t \<longleftrightarrow> cpuv (hw t) = cpuv (hw s) \<and> procs t = procs s \<and> nextpid t = nextpid s
     \<and> locked (locks (hw s) lk) = 0 \<and> locks (hw t) = (locks (hw s))(lk := \<lparr>locked = 1, lk_cpu = Some c\<rparr>)"

definition left_lock :: "lockid \<Rightarrow> nat \<Rightarrow> 'a pst_scheme \<Rightarrow> 'a pst_scheme \<Rightarrow> bool" where
  "left_lock lk c s t \<longleftrightarrow> cpuv (hw t) = cpuv (hw s) \<and> procs t = procs s \<and> nextpid t = nextpid s
     \<and> locked (locks (hw s) lk) \<noteq> 0 \<and> lk_cpu (locks (hw s) lk) = Some c
     \<and> locks (hw t) = (locks (hw s))(lk := \<lparr>locked = 0, lk_cpu = None\<rparr>)"

lemma acquire_Inr:
  assumes "acquire lk s = Inr t" "this_cpu (hw s) = Some c"
  shows "took_lock lk c s t"
proof -
  from assms(1) obtain u d where u: "pushcli s = Inr u" "locked (locks (hw u) lk) = 0"
    "mycpu (upd_lock lk ((locks (hw u) lk)\<lparr>locked := 1\<rparr>) u) = Inr d"
    and t: "t = upd_lock lk ((locks (hw u) lk)\<lparr>locked := 1, lk_cpu := Some d\<rparr>) u"
    by (auto simp: acquire_def Let_def upd_lock_def split: if_splits)
  note su = pushcli_same [OF u(1)]
  have "this_cpu (hw u) = Some d" using mycpu_Inr [OF u(3)] by (simp add: upd_lock_def this_cpu_def)
  then have "d = c" using same_this_cpu [OF su] assms(2) by simp
  then show ?thesis using su u(2) t
    by (cases "locks (hw s) lk") (auto simp: took_lock_def same_def upd_lock_def cpuv_eq)
qed

lemma release_Inr:
  assumes "release lk s = Inr t" "this_cpu (hw s) = Some c"
  shows "left_lock lk c s t"
proof -
  let ?a = "upd_lock lk ((locks (hw s) lk)\<lparr>lk_cpu := None\<rparr>) s"
  let ?u = "upd_lock lk ((locks (hw ?a) lk)\<lparr>locked := 0\<rparr>) ?a"
  have r: "release lk s = bnd (holding lk s) (\<lambda>h. if \<not> h then Inl (Panic ''release'') else popcli ?u)"
    by (simp only: release_def Let_def)
  then have h: "holding lk s = Inr True" and p: "popcli ?u = Inr t"
    using assms(1) by (cases "holding lk s"; cases "holding lk s = Inr True"; simp)+
  have l: "locked (locks (hw s) lk) \<noteq> 0" using h by (cases "locked (locks (hw s) lk) = 0") (simp_all add: holding_def)
  with h obtain d where "mycpu s = Inr d" "lk_cpu (locks (hw s) lk) = Some d" by (auto simp: holding_def)
  then have d: "lk_cpu (locks (hw s) lk) = Some c" using mycpu_Inr [of s d] assms(2) by simp
  have "locks (hw ?u) = (locks (hw s))(lk := \<lparr>locked = 0, lk_cpu = None\<rparr>)" "cpuv (hw ?u) = cpuv (hw s)"
    by (cases "locks (hw s) lk", simp_all add: upd_lock_def cpuv_eq)
  moreover have "procs ?u = procs s" "nextpid ?u = nextpid s" by (simp_all add: upd_lock_def)
  ultimately show ?thesis using popcli_same [OF p] l d unfolding left_lock_def same_def by metis
qed

definition load_task :: "nat \<Rightarrow> nat \<Rightarrow> 'a pst_scheme \<Rightarrow> 'a pst_scheme" where
  "load_task i c s =
     (let s = upd_cpu c (\<lambda>q. q\<lparr>gdt := (gdt q)(SEG_TSS := SEG16 STS_T32A (sym_ts s c) (sizeof_taskstate - 1) 0)\<rparr>) s;
          s = upd_cpu c (\<lambda>q. q\<lparr>gdt := (gdt q)(SEG_TSS := (gdt q SEG_TSS)\<lparr>seg_s := 0\<rparr>)\<rparr>) s;
          s = upd_cpu c (\<lambda>q. q\<lparr>ts_ss0 := of_nat (SEG_KDATA * 8)\<rparr>) s;
          s = upd_cpu c (\<lambda>q. q\<lparr>ts_esp0 := p_kstack (procs s i) + KSTACKSIZE\<rparr>) s;
          s = upd_cpu c (\<lambda>q. q\<lparr>ts_iomb := 0xFFFF\<rparr>) s;
          s = ltr (of_nat (SEG_TSS * 8)) s
      in lcr3 (V2P (p_pgdir (procs s i))) s)"

lemma same_load_task: "same s (load_task i c s)"
proof -
  have r: "same s (ltr x s)" "same s (lcr3 y s)" for s :: "'a pst_scheme" and x y
    by (simp_all add: same_def cpuv_eq ltr_def lcr3_def)
  show ?thesis unfolding load_task_def Let_def
    by (rule same_trans [OF _ r(2)] same_trans [OF _ r(1)] same_trans [OF _ same_upd_cpu] same_refl | simp)+
qed

lemma switchuvm_eq:
  "switchuvm (Some i) s =
     (if p_kstack (procs s i) = 0 then Inl (Panic ''switchuvm: no kstack'')
      else if p_pgdir (procs s i) = 0 then Inl (Panic ''switchuvm: no pgdir'')
      else bnd (pushcli s) (\<lambda>s. bnd (mycpu s) (\<lambda>c. popcli (load_task i c s))))"
  unfolding switchuvm_def load_task_def option.case Let_def ..

lemma switchuvm_same:
  assumes "switchuvm (Some i) s = Inr t"
  shows "same s t" "p_kstack (procs s i) \<noteq> 0" "p_pgdir (procs s i) \<noteq> 0"
proof -
  show k: "p_kstack (procs s i) \<noteq> 0" and d: "p_pgdir (procs s i) \<noteq> 0" using assms by (auto simp: switchuvm_eq split: if_splits)
  from assms obtain u where u: "pushcli s = Inr u" "bnd (mycpu u) (\<lambda>c. popcli (load_task i c u)) = Inr t"
    using k d by (simp add: switchuvm_eq) blast
  then obtain c where "popcli (load_task i c u) = Inr t" by auto
  then show "same s t"
    using same_trans [OF same_trans [OF pushcli_same [OF u(1)] same_load_task]] popcli_same by blast
qed

section \<open>The table the operations work on\<close>

text \<open>
  The part of the state that scheduling is about: the process each processor runs, the lock of the
  table, the state and identifier of each slot and the next identifier. The lemmas give the effect of
  each operation of \<^verbatim>\<open>proc.c\<close> that returns (or switches away) on processor \<open>c\<close>.
\<close>

record tab =
  t_cur :: "nat \<Rightarrow> nat option"
  t_lock :: spinlock
  t_st :: "nat \<Rightarrow> procstate"
  t_pid :: "nat \<Rightarrow> int"
  t_next :: int

definition tab_of :: "'a pst_scheme \<Rightarrow> tab" where
  "tab_of s = \<lparr>t_cur = (\<lambda>c. cpu_proc (cpus (hw s) c)), t_lock = locks (hw s) L_ptable,
     t_st = (\<lambda>i. p_state (procs s i)), t_pid = (\<lambda>i. p_pid (procs s i)), t_next = nextpid s\<rparr>"

definition hwid :: "'a pst_scheme \<Rightarrow> u8 \<times> nat \<times> (nat \<Rightarrow> u8)" where
  "hwid s = (lapicid (hw s), ncpu (hw s), \<lambda>c. apicid (cpus (hw s) c))"

definition by_cpu :: "nat \<Rightarrow> spinlock" where
  "by_cpu c = \<lparr>locked = 1, lk_cpu = Some c\<rparr>"

definition nobody :: spinlock where
  "nobody = \<lparr>locked = 0, lk_cpu = None\<rparr>"

text \<open>\<open>turns c s t a\<close>: on processor \<open>c\<close>, the state went from \<open>s\<close> to \<open>t\<close> and the table is now \<open>a\<close>.\<close>

definition turns :: "'a pst_scheme \<Rightarrow> 'a pst_scheme \<Rightarrow> tab \<Rightarrow> bool" where
  "turns s t a \<longleftrightarrow> hwid t = hwid s \<and> tab_of t = a"

lemma hwid_this_cpu: "hwid t = hwid s \<Longrightarrow> this_cpu (hw t) = this_cpu (hw s)"
  unfolding hwid_def this_cpu_def prod.inject fun_eq_iff by simp

lemma same_turns:
  assumes "same s t" shows "turns s t (tab_of s)"
  using assms unfolding turns_def same_def cpuv_def prod.inject tab_of_def hwid_def fun_eq_iff by simp

lemma took_turns: "took_lock L_ptable c s t \<Longrightarrow> turns s t ((tab_of s)\<lparr>t_lock := by_cpu c\<rparr>) \<and> locked (t_lock (tab_of s)) = 0"
  unfolding turns_def took_lock_def cpuv_def prod.inject tab_of_def hwid_def fun_eq_iff by (simp add: by_cpu_def)

lemma left_turns:
  "left_lock L_ptable c s t \<Longrightarrow> turns s t ((tab_of s)\<lparr>t_lock := nobody\<rparr>) \<and> locked (t_lock (tab_of s)) \<noteq> 0 \<and> lk_cpu (t_lock (tab_of s)) = Some c"
  unfolding turns_def left_lock_def cpuv_def prod.inject tab_of_def hwid_def fun_eq_iff by (simp add: nobody_def)

lemma other_lock_turns:
  "lk \<noteq> L_ptable \<Longrightarrow> took_lock lk c s t \<Longrightarrow> turns s t (tab_of s)"
  "lk \<noteq> L_ptable \<Longrightarrow> left_lock lk c s t \<Longrightarrow> turns s t (tab_of s)"
  unfolding turns_def left_lock_def took_lock_def cpuv_def prod.inject tab_of_def hwid_def fun_eq_iff by simp_all

lemma turns_trans: "turns s t a \<Longrightarrow> turns t u b \<Longrightarrow> turns s u b"
  by (simp add: turns_def)

lemma turnsD: "turns s t a \<Longrightarrow> tab_of t = a" "turns s t a \<Longrightarrow> this_cpu (hw t) = this_cpu (hw s)"
  unfolding turns_def by (blast, blast intro: hwid_this_cpu)

lemma upd_proc_turns:
  "turns s (upd_proc i f s) ((tab_of s)\<lparr>t_st := (t_st (tab_of s))(i := p_state (f (procs s i))),
     t_pid := (t_pid (tab_of s))(i := p_pid (f (procs s i)))\<rparr>)"
  unfolding turns_def tab_of_def hwid_def upd_proc_def by (auto simp: fun_upd_def)

lemma upd_state_turns:
  "(\<And>q. p_state (f q) = x) \<Longrightarrow> (\<And>q. p_pid (f q) = p_pid q) \<Longrightarrow>
   turns s (upd_proc i f s) ((tab_of s)\<lparr>t_st := (t_st (tab_of s))(i := x)\<rparr>)"
  unfolding turns_def tab_of_def hwid_def upd_proc_def by (auto simp: fun_upd_def)

lemma upd_other_turns:
  "(\<And>q. p_state (f q) = p_state q) \<Longrightarrow> (\<And>q. p_pid (f q) = p_pid q) \<Longrightarrow> turns s (upd_proc i f s) (tab_of s)"
  unfolding turns_def tab_of_def hwid_def upd_proc_def by (auto simp: fun_upd_def)

lemma acquire_table:
  assumes "acquire L_ptable s = Inr t" "this_cpu (hw s) = Some c"
  shows "turns s t ((tab_of s)\<lparr>t_lock := by_cpu c\<rparr>)" "locked (t_lock (tab_of s)) = 0"
  using took_turns [OF acquire_Inr [OF assms]] by auto

lemma release_table:
  assumes "release L_ptable s = Inr t" "this_cpu (hw s) = Some c"
  shows "turns s t ((tab_of s)\<lparr>t_lock := nobody\<rparr>)" "locked (t_lock (tab_of s)) \<noteq> 0" "lk_cpu (t_lock (tab_of s)) = Some c"
  using left_turns [OF release_Inr [OF assms]] by auto

lemma myproc_table:
  assumes "myproc s = Inr (p, t)" "this_cpu (hw s) = Some c"
  shows "turns s t (tab_of s)" "p = t_cur (tab_of s) c"
  using myproc_Inr [OF assms(1)] same_turns assms(2) by (auto simp: tab_of_def)

section \<open>The operations on the table\<close>

lemma sched_out_table:
  assumes "sched_out s = Inr t" "this_cpu (hw s) = Some c"
  obtains i where "t_cur (tab_of s) c = Some i" "t_st (tab_of s) i \<noteq> RUNNING" "turns s t (tab_of s)"
    "locked (t_lock (tab_of s)) \<noteq> 0" "lk_cpu (t_lock (tab_of s)) = Some c"
proof -
  obtain p u where m: "myproc s = Inr (p, u)" using assms(1) by (cases "myproc s") (auto simp: sched_out_def)
  note u = myproc_table [OF m assms(2)]
  have cu: "this_cpu (hw u) = Some c" using turnsD(2) [OF u(1)] assms(2) by simp
  have tu: "tab_of u = tab_of s" by (rule turnsD(1) [OF u(1)])
  have h: "holding L_ptable u = Inr True"
    using assms(1) m by (cases "holding L_ptable u") (auto simp: sched_out_def split: if_splits)
  then have lk: "locked (locks (hw u) L_ptable) \<noteq> 0" by (cases "locked (locks (hw u) L_ptable) = 0") (simp_all add: holding_def)
  with h obtain d where d: "mycpu u = Inr d" "lk_cpu (locks (hw u) L_ptable) = Some d" by (auto simp: holding_def)
  then have "d = c" using mycpu_Inr cu by fastforce
  obtain i where i: "p = Some i" "p_state (procs u i) \<noteq> RUNNING" "t = upd_proc i (\<lambda>p. p\<lparr>p_intena := intena (cpus (hw u) d)\<rparr>) u"
    using assms(1) m h d(1) by (auto simp: sched_out_def split: if_splits option.splits)
  have "turns u t (tab_of u)" unfolding i(3) by (rule upd_other_turns) simp_all
  then have "turns s t (tab_of s)" using turns_trans [OF u(1)] tu by simp
  moreover have "t_st (tab_of s) i \<noteq> RUNNING" "locked (t_lock (tab_of s)) \<noteq> 0" "lk_cpu (t_lock (tab_of s)) = Some c"
    using i(2) lk d(2) \<open>d = c\<close> unfolding tu [symmetric] by (simp_all add: tab_of_def)
  ultimately show thesis using that [of i] u(2) i(1) by simp
qed

lemma yield_out_table:
  assumes "yield_out s = Inr t" "this_cpu (hw s) = Some c"
  obtains i where "t_cur (tab_of s) c = Some i" "locked (t_lock (tab_of s)) = 0"
    "turns s t ((tab_of s)\<lparr>t_lock := by_cpu c, t_st := (t_st (tab_of s))(i := RUNNABLE)\<rparr>)"
proof -
  obtain u p v where u: "acquire L_ptable s = Inr u" "myproc u = Inr (p, v)"
    using assms(1) by (auto simp: yield_out_def)
  note a = acquire_table [OF u(1) assms(2)]
  have cu: "this_cpu (hw u) = Some c" using turnsD(2) [OF a(1)] assms(2) by simp
  note m = myproc_table [OF u(2) cu]
  have cv: "this_cpu (hw v) = Some c" using turnsD(2) [OF m(1)] cu by simp
  have tv: "tab_of v = (tab_of s)\<lparr>t_lock := by_cpu c\<rparr>" using turnsD(1) [OF m(1)] turnsD(1) [OF a(1)] by simp
  obtain i where i: "p = Some i" "sched_out (upd_proc i (\<lambda>p. p\<lparr>p_state := RUNNABLE\<rparr>) v) = Inr t"
    using assms(1) u by (auto simp: yield_out_def split: option.splits)
  let ?w = "upd_proc i (\<lambda>p. p\<lparr>p_state := RUNNABLE\<rparr>) v"
  have w: "turns v ?w ((tab_of v)\<lparr>t_st := (t_st (tab_of v))(i := RUNNABLE)\<rparr>)" by (rule upd_state_turns) simp_all
  have "this_cpu (hw ?w) = Some c" using turnsD(2) [OF w] cv by simp
  then have "turns ?w t (tab_of ?w)" using sched_out_table [OF i(2)] by blast
  then have "turns s t (tab_of ?w)" using turns_trans [OF turns_trans [OF turns_trans [OF a(1) m(1)] w]] by blast
  moreover have "t_cur (tab_of s) c = Some i" using m(2) i(1) turnsD(1) [OF a(1)] by simp
  ultimately show thesis using that a(2) turnsD(1) [OF w] tv by simp
qed

lemma sched_in_table:
  assumes "sched_in i s = Inr t" shows "turns s t (tab_of s)"
proof -
  obtain c where "t = upd_cpu c (\<lambda>q. q\<lparr>intena := p_intena (procs s i)\<rparr>) s"
    using assms by (auto simp: sched_in_def)
  then show ?thesis by (auto intro!: same_turns same_upd_cpu)
qed

lemma yield_in_table:
  assumes "yield_in i s = Inr t" "this_cpu (hw s) = Some c"
  shows "turns s t ((tab_of s)\<lparr>t_lock := nobody\<rparr>)" "lk_cpu (t_lock (tab_of s)) = Some c"
proof -
  obtain u where u: "sched_in i s = Inr u" "release L_ptable u = Inr t" using assms(1) by (auto simp: yield_in_def)
  note a = sched_in_table [OF u(1)]
  have "this_cpu (hw u) = Some c" using turnsD(2) [OF a] assms(2) by simp
  note r = release_table [OF u(2) this]
  show "turns s t ((tab_of s)\<lparr>t_lock := nobody\<rparr>)" "lk_cpu (t_lock (tab_of s)) = Some c"
    using turns_trans [OF a r(1)] r(3) turnsD(1) [OF a] by simp_all
qed

lemma sleep_out_table:
  assumes "sleep_out ch lk s = Inr t" "this_cpu (hw s) = Some c"
  obtains i where "t_cur (tab_of s) c = Some i"
    "if lk = L_ptable then locked (t_lock (tab_of s)) \<noteq> 0 \<and> lk_cpu (t_lock (tab_of s)) = Some c else locked (t_lock (tab_of s)) = 0"
    "turns s t ((tab_of s)\<lparr>t_lock := if lk = L_ptable then t_lock (tab_of s) else by_cpu c,
       t_st := (t_st (tab_of s))(i := SLEEPING)\<rparr>)"
proof -
  obtain p u where u: "myproc s = Inr (p, u)" using assms(1) by (auto simp: sleep_out_def)
  note m = myproc_table [OF u assms(2)]
  have cu: "this_cpu (hw u) = Some c" using turnsD(2) [OF m(1)] assms(2) by simp
  note tu = turnsD(1) [OF m(1)]
  obtain i where i: "p = Some i" using assms(1) u by (auto simp: sleep_out_def split: option.splits)
  define a where "a = (tab_of s)\<lparr>t_lock := if lk = L_ptable then t_lock (tab_of s) else by_cpu c\<rparr>"
  obtain v where v: "(if lk \<noteq> L_ptable then bnd (acquire L_ptable u) (release lk) else Inr u) = Inr v"
    "sched_out (upd_proc i (\<lambda>p. p\<lparr>p_state := SLEEPING\<rparr>) (upd_proc i (\<lambda>p. p\<lparr>p_chan := Some ch\<rparr>) v)) = Inr t"
    using assms(1) u i unfolding sleep_out_def Let_def by (auto simp: bnd_eq_Inr)
  have tv: "turns u v a \<and> (lk \<noteq> L_ptable \<longrightarrow> locked (t_lock (tab_of s)) = 0)"
  proof (cases "lk = L_ptable")
    case True then show ?thesis using v(1) tu by (simp add: a_def turns_def)
  next
    case False
    then obtain w where w: "acquire L_ptable u = Inr w" "release lk w = Inr v" using v(1) by auto
    note q = acquire_table [OF w(1) cu]
    have "this_cpu (hw w) = Some c" using turnsD(2) [OF q(1)] cu by simp
    then have "turns w v (tab_of w)" using other_lock_turns(2) [OF False release_Inr [OF w(2)]] by blast
    then show ?thesis using turns_trans [OF q(1)] turnsD(1) [OF q(1)] q(2) False tu by (simp add: a_def)
  qed
  let ?v1 = "upd_proc i (\<lambda>p. p\<lparr>p_chan := Some ch\<rparr>) v"
  let ?v2 = "upd_proc i (\<lambda>p. p\<lparr>p_state := SLEEPING\<rparr>) ?v1"
  have v1: "turns v ?v1 (tab_of v)" by (rule upd_other_turns) simp_all
  have v2: "turns ?v1 ?v2 ((tab_of ?v1)\<lparr>t_st := (t_st (tab_of ?v1))(i := SLEEPING)\<rparr>)" by (rule upd_state_turns) simp_all
  have e: "tab_of ?v2 = a\<lparr>t_st := (t_st a)(i := SLEEPING)\<rparr>"
    using turnsD(1) [OF v2] turnsD(1) [OF v1] turnsD(1) [OF conjunct1 [OF tv]] by simp
  have uv: "turns s ?v2 (tab_of ?v2)"
    using turns_trans [OF turns_trans [OF turns_trans [OF m(1) conjunct1 [OF tv]] v1] v2] e turnsD(1) [OF v2] by simp
  have "this_cpu (hw ?v2) = Some c" using turnsD(2) [OF uv] assms(2) by simp
  then obtain j where j: "turns ?v2 t (tab_of ?v2)" "locked (t_lock (tab_of ?v2)) \<noteq> 0" "lk_cpu (t_lock (tab_of ?v2)) = Some c"
    using sched_out_table [OF v(2)] by metis
  have "turns s t (a\<lparr>t_st := (t_st a)(i := SLEEPING)\<rparr>)" using turns_trans [OF uv j(1)] e by simp
  moreover have "t_cur (tab_of s) c = Some i" using m(2) i by simp
  ultimately show thesis using that [of i] tv j(2,3) e by (simp add: a_def split: if_splits)
qed

lemma sleep_in_table:
  assumes "sleep_in i lk s = Inr t" "this_cpu (hw s) = Some c" "lk \<noteq> L_ptable"
  shows "turns s t ((tab_of s)\<lparr>t_lock := nobody\<rparr>)" "lk_cpu (t_lock (tab_of s)) = Some c"
proof -
  let ?f = "\<lambda>u. upd_proc i (\<lambda>p. p\<lparr>p_chan := None\<rparr>) u"
  obtain u v where u: "sched_in i s = Inr u" "release L_ptable (?f u) = Inr v" "acquire lk v = Inr t"
    using assms(1,3) by (auto simp: sleep_in_def)
  note a = sched_in_table [OF u(1)]
  have f: "turns u (?f u) (tab_of u)" by (rule upd_other_turns) simp_all
  note af = turns_trans [OF a f]
  have cf: "this_cpu (hw (?f u)) = Some c" using turnsD(2) [OF af] assms(2) by simp
  note r = release_table [OF u(2) cf]
  have "this_cpu (hw v) = Some c" using turnsD(2) [OF r(1)] cf by simp
  then have "turns v t (tab_of v)" using other_lock_turns(1) [OF assms(3) acquire_Inr [OF u(3)]] by blast
  then show "turns s t ((tab_of s)\<lparr>t_lock := nobody\<rparr>)" "lk_cpu (t_lock (tab_of s)) = Some c"
    using turns_trans [OF turns_trans [OF af r(1)]] r(3) turnsD(1) [OF a] turnsD(1) [OF f] turnsD(1) [OF r(1)] by simp_all
qed

text \<open>Waking only makes sleeping processes runnable.\<close>

definition only_wakes :: "(nat \<Rightarrow> procstate) \<Rightarrow> (nat \<Rightarrow> procstate) \<Rightarrow> bool" where
  "only_wakes S S' \<longleftrightarrow> (\<forall>j. S' j = S j \<or> S j = SLEEPING \<and> S' j = RUNNABLE)"

lemma only_wakes_refl [simp]: "only_wakes S S"
  by (simp add: only_wakes_def)

lemma only_wakes_trans: "only_wakes S T \<Longrightarrow> only_wakes T U \<Longrightarrow> only_wakes S U"
  unfolding only_wakes_def by (metis procstate.distinct)

lemma wakeup1_table:
  "\<exists>S. only_wakes (t_st (tab_of s)) S \<and> turns s (wakeup1 ch s) ((tab_of s)\<lparr>t_st := S\<rparr>)"
proof (intro exI conjI)
  show "only_wakes (t_st (tab_of s)) (\<lambda>i. p_state (woken ch (procs s) i))"
    by (auto simp: only_wakes_def tab_of_def woken_def)
  show "turns s (wakeup1 ch s) ((tab_of s)\<lparr>t_st := \<lambda>i. p_state (woken ch (procs s) i)\<rparr>)"
    by (simp add: wakeup1_eq turns_def hwid_def tab_of_def)
qed

text \<open>An operation that takes the lock of the table, works on it and gives the lock back.\<close>

lemma locked_section:
  assumes a: "acquire L_ptable s = Inr u" and c: "this_cpu (hw s) = Some c"
    and w: "turns u v (b\<lparr>t_lock := t_lock (tab_of u)\<rparr>)" and r: "release L_ptable v = Inr t"
  shows "turns s t (b\<lparr>t_lock := nobody\<rparr>)" "locked (t_lock (tab_of s)) = 0" "tab_of u = (tab_of s)\<lparr>t_lock := by_cpu c\<rparr>"
proof -
  note q = acquire_table [OF a c]
  have "this_cpu (hw v) = Some c" using turnsD(2) [OF w] turnsD(2) [OF q(1)] c by simp
  note l = release_table [OF r this]
  show "turns s t (b\<lparr>t_lock := nobody\<rparr>)" using turns_trans [OF turns_trans [OF q(1) w] l(1)] turnsD(1) [OF w] by simp
  show "locked (t_lock (tab_of s)) = 0" "tab_of u = (tab_of s)\<lparr>t_lock := by_cpu c\<rparr>" using q turnsD(1) by auto
qed

lemma wakeup_table:
  assumes "wakeup ch s = Inr t" "this_cpu (hw s) = Some c"
  obtains S where "only_wakes (t_st (tab_of s)) S" "locked (t_lock (tab_of s)) = 0"
    "turns s t ((tab_of s)\<lparr>t_st := S, t_lock := nobody\<rparr>)"
proof -
  obtain u where u: "acquire L_ptable s = Inr u" "release L_ptable (wakeup1 (Some ch) u) = Inr t"
    using assms(1) by (auto simp: wakeup_def)
  obtain S where S: "only_wakes (t_st (tab_of u)) S" "turns u (wakeup1 (Some ch) u) ((tab_of u)\<lparr>t_st := S\<rparr>)"
    using wakeup1_table by blast
  have "turns u (wakeup1 (Some ch) u) (((tab_of u)\<lparr>t_st := S\<rparr>)\<lparr>t_lock := t_lock (tab_of u)\<rparr>)" using S(2) by simp
  note l = locked_section [OF u(1) assms(2) this u(2)]
  show thesis using that [of S] l S(1) by simp
qed

lemma kill_table:
  assumes "kill pid s = Inr (r, t)" "this_cpu (hw s) = Some c"
  obtains S where "only_wakes (t_st (tab_of s)) S" "locked (t_lock (tab_of s)) = 0"
    "turns s t ((tab_of s)\<lparr>t_st := S, t_lock := nobody\<rparr>)"
proof -
  obtain u where u: "acquire L_ptable s = Inr u" using assms(1) by (auto simp: kill_def)
  obtain v S where v: "release L_ptable v = Inr t" "turns u v ((tab_of u)\<lparr>t_st := S\<rparr>)" "only_wakes (t_st (tab_of u)) S"
  proof (cases "List.find (\<lambda>i. p_pid (procs u i) = pid) [0..<NPROC]")
    case None
    then have "release L_ptable u = Inr t" using assms(1) u by (auto simp: kill_def)
    then show thesis by (rule that [of u "t_st (tab_of u)"]) (simp_all add: turns_def)
  next
    case (Some i)
    let ?v = "upd_proc i (\<lambda>p. p\<lparr>p_killed := True\<rparr>) u"
    have v: "turns u ?v (tab_of u)" by (rule upd_other_turns) simp_all
    show thesis
    proof (cases "p_state (procs ?v i) = SLEEPING")
      case True
      then have r: "release L_ptable (upd_proc i (\<lambda>p. p\<lparr>p_state := RUNNABLE\<rparr>) ?v) = Inr t"
        using assms(1) u Some by (auto simp: kill_def Let_def)
      have "turns ?v (upd_proc i (\<lambda>p. p\<lparr>p_state := RUNNABLE\<rparr>) ?v) ((tab_of ?v)\<lparr>t_st := (t_st (tab_of ?v))(i := RUNNABLE)\<rparr>)"
        by (rule upd_state_turns) simp_all
      from turns_trans [OF v this] show thesis
        using that [OF r] turnsD(1) [OF v] True by (simp add: only_wakes_def tab_of_def upd_proc_def)
    next
      case False
      then have r: "release L_ptable ?v = Inr t" using assms(1) u Some by (auto simp: kill_def Let_def)
      show thesis by (rule that [OF r, of "t_st (tab_of u)"]) (use v in simp_all)
    qed
  qed
  have "turns u v (((tab_of u)\<lparr>t_st := S\<rparr>)\<lparr>t_lock := t_lock (tab_of u)\<rparr>)" using v(2) by simp
  note l = locked_section [OF u(1) assms(2) this v(1)]
  show thesis using that [of S] l v(3) by simp
qed

lemma reparent_table:
  "\<exists>S. only_wakes (t_st (tab_of s)) S \<and> turns s (reparent_at cur i s) ((tab_of s)\<lparr>t_st := S\<rparr>)"
proof (cases "p_parent (procs s i) = Some cur")
  case True
  let ?s = "upd_proc i (\<lambda>p. p\<lparr>p_parent := initproc s\<rparr>) s"
  have u: "turns s ?s (tab_of s)" by (rule upd_other_turns) simp_all
  obtain S where "only_wakes (t_st (tab_of ?s)) S"
    "turns ?s (wakeup1 (map_option C_proc (initproc ?s)) ?s) ((tab_of ?s)\<lparr>t_st := S\<rparr>)"
    using wakeup1_table by blast
  then have w: "only_wakes (t_st (tab_of s)) S"
    "turns s (wakeup1 (map_option C_proc (initproc ?s)) ?s) ((tab_of s)\<lparr>t_st := S\<rparr>)"
    using turns_trans [OF u] turnsD(1) [OF u] by simp_all
  show ?thesis
  proof (cases "p_state (procs ?s i) = ZOMBIE")
    case z: True
    then show ?thesis using w True unfolding reparent_at_def Let_def by auto
  next
    case False
    then show ?thesis using u True unfolding reparent_at_def Let_def
      by (intro exI [of _ "t_st (tab_of s)"]) simp
  qed
next
  case False
  then show ?thesis by (intro exI [of _ "t_st (tab_of s)"]) (simp add: reparent_at_def turns_def)
qed

lemma reparent_loop_table:
  "\<exists>S. only_wakes (t_st (tab_of s)) S \<and> turns s (fold (reparent_at cur) xs s) ((tab_of s)\<lparr>t_st := S\<rparr>)"
proof (induction xs arbitrary: s)
  case Nil then show ?case by (intro exI [of _ "t_st (tab_of s)"]) (simp add: turns_def)
next
  case (Cons x xs)
  obtain S where S: "only_wakes (t_st (tab_of s)) S" "turns s (reparent_at cur x s) ((tab_of s)\<lparr>t_st := S\<rparr>)"
    using reparent_table by blast
  obtain S' where S': "only_wakes (t_st (tab_of (reparent_at cur x s))) S'"
    "turns (reparent_at cur x s) (fold (reparent_at cur) xs (reparent_at cur x s)) ((tab_of (reparent_at cur x s))\<lparr>t_st := S'\<rparr>)"
    using Cons by blast
  then show ?case
    using turns_trans [OF S(2) S'(2)] turnsD(1) [OF S(2)] only_wakes_trans [OF S(1)]
    by (intro exI [of _ S']) simp
qed

lemma exit_out_table:
  assumes "exit_out i s = Inr t" "this_cpu (hw s) = Some c"
  obtains S where "only_wakes (t_st (tab_of s)) S" "locked (t_lock (tab_of s)) = 0"
    "turns s t ((tab_of s)\<lparr>t_st := S(i := ZOMBIE), t_lock := by_cpu c\<rparr>)"
proof -
  obtain u where u: "acquire L_ptable s = Inr u" using assms(1) by (auto simp: exit_out_def)
  note a = acquire_table [OF u assms(2)]
  let ?v = "wakeup1 (map_option C_proc (p_parent (procs u i))) u"
  let ?w = "fold (reparent_at i) [0..<NPROC] ?v"
  let ?x = "upd_proc i (\<lambda>p. p\<lparr>p_state := ZOMBIE\<rparr>) ?w"
  have so: "sched_out ?x = Inr t" using assms(1) u by (simp add: exit_out_def Let_def)
  obtain S where S: "only_wakes (t_st (tab_of u)) S" "turns u ?v ((tab_of u)\<lparr>t_st := S\<rparr>)" using wakeup1_table by blast
  obtain S' where S': "only_wakes (t_st (tab_of ?v)) S'" "turns ?v ?w ((tab_of ?v)\<lparr>t_st := S'\<rparr>)" using reparent_loop_table by blast
  have x: "turns ?w ?x ((tab_of ?w)\<lparr>t_st := (t_st (tab_of ?w))(i := ZOMBIE)\<rparr>)" by (rule upd_state_turns) simp_all
  have sx: "turns s ?x ((tab_of u)\<lparr>t_st := S'(i := ZOMBIE)\<rparr>)"
    using turns_trans [OF turns_trans [OF turns_trans [OF a(1) S(2)] S'(2)] x] turnsD(1) [OF S(2)] turnsD(1) [OF S'(2)] by simp
  have "this_cpu (hw ?x) = Some c" using turnsD(2) [OF sx] assms(2) by simp
  then have "turns ?x t (tab_of ?x)" using sched_out_table [OF so] by metis
  then have "turns s t ((tab_of u)\<lparr>t_st := S'(i := ZOMBIE)\<rparr>)" using turns_trans [OF sx] turnsD(1) [OF sx] by simp
  moreover have "(tab_of u)\<lparr>t_st := S'(i := ZOMBIE)\<rparr> = (tab_of s)\<lparr>t_st := S'(i := ZOMBIE), t_lock := by_cpu c\<rparr>"
    using turnsD(1) [OF a(1)] by simp
  moreover have "only_wakes (t_st (tab_of s)) S'"
    using only_wakes_trans [OF S(1)] S'(1) turnsD(1) [OF S(2)] turnsD(1) [OF a(1)] by simp
  ultimately show thesis using that a(2) by simp
qed

lemma allocproc_claim_table:
  assumes "allocproc_claim s = Inr (r, t)" "this_cpu (hw s) = Some c"
  shows "locked (t_lock (tab_of s)) = 0"
    "case r of None \<Rightarrow> turns s t ((tab_of s)\<lparr>t_lock := nobody\<rparr>)
     | Some i \<Rightarrow> i < NPROC \<and> t_st (tab_of s) i = UNUSED \<and>
         turns s t ((tab_of s)\<lparr>t_st := (t_st (tab_of s))(i := EMBRYO), t_pid := (t_pid (tab_of s))(i := t_next (tab_of s)),
           t_next := t_next (tab_of s) + 1, t_lock := nobody\<rparr>)"
proof -
  obtain u where u: "acquire L_ptable s = Inr u" using assms(1) by (auto simp: allocproc_claim_def)
  note a = acquire_table [OF u assms(2)]
  show "locked (t_lock (tab_of s)) = 0" by (rule a(2))
  show "case r of None \<Rightarrow> turns s t ((tab_of s)\<lparr>t_lock := nobody\<rparr>)
     | Some i \<Rightarrow> i < NPROC \<and> t_st (tab_of s) i = UNUSED \<and>
         turns s t ((tab_of s)\<lparr>t_st := (t_st (tab_of s))(i := EMBRYO), t_pid := (t_pid (tab_of s))(i := t_next (tab_of s)),
           t_next := t_next (tab_of s) + 1, t_lock := nobody\<rparr>)"
  proof (cases "List.find (\<lambda>i. p_state (procs u i) = UNUSED) [0..<NPROC]")
    case None
    then have r: "release L_ptable u = Inr t" "r = None" using assms(1) u by (auto simp: allocproc_claim_def)
    have "turns u u ((tab_of u)\<lparr>t_lock := t_lock (tab_of u)\<rparr>)" by (simp add: turns_def)
    from locked_section [OF u assms(2) this r(1)] show ?thesis using r(2) by simp
  next
    case (Some i)
    then have i: "i < NPROC" "p_state (procs u i) = UNUSED" by (auto simp: find_Some_iff)
    let ?v = "upd_proc i (\<lambda>p. p\<lparr>p_state := EMBRYO\<rparr>) u"
    let ?w = "upd_proc i (\<lambda>p. p\<lparr>p_pid := nextpid ?v\<rparr>) ?v"
    have e: "release L_ptable (?w\<lparr>nextpid := nextpid u + 1\<rparr>) = Inr t" "r = Some i"
      using assms(1) u Some by (auto simp: allocproc_claim_def next_int_def Let_def upd_proc_def split: if_splits)
    let ?b = "(tab_of u)\<lparr>t_st := (t_st (tab_of u))(i := EMBRYO), t_pid := (t_pid (tab_of u))(i := t_next (tab_of u)),
      t_next := t_next (tab_of u) + 1\<rparr>"
    have "turns u (?w\<lparr>nextpid := nextpid u + 1\<rparr>) (?b\<lparr>t_lock := t_lock (tab_of u)\<rparr>)"
      unfolding turns_def tab_of_def hwid_def upd_proc_def by (auto simp: fun_upd_def)
    note l = locked_section [OF u assms(2) this e(1)]
    have "t_st (tab_of u) i = UNUSED" using i(2) by (simp add: tab_of_def)
    then show ?thesis using l e(2) i(1) by simp
  qed
qed

lemma fork_publish_table:
  assumes "fork_publish np s = Inr t" "this_cpu (hw s) = Some c"
  shows "locked (t_lock (tab_of s)) = 0" "turns s t ((tab_of s)\<lparr>t_st := (t_st (tab_of s))(np := RUNNABLE), t_lock := nobody\<rparr>)"
proof -
  obtain u where u: "acquire L_ptable s = Inr u" "release L_ptable (upd_proc np (\<lambda>q. q\<lparr>p_state := RUNNABLE\<rparr>) u) = Inr t"
    using assms(1) by (auto simp: fork_publish_def)
  have "turns u (upd_proc np (\<lambda>q. q\<lparr>p_state := RUNNABLE\<rparr>) u) ((tab_of u)\<lparr>t_st := (t_st (tab_of u))(np := RUNNABLE)\<rparr>)"
    by (rule upd_state_turns) simp_all
  then have "turns u (upd_proc np (\<lambda>q. q\<lparr>p_state := RUNNABLE\<rparr>) u)
      (((tab_of u)\<lparr>t_st := (t_st (tab_of u))(np := RUNNABLE)\<rparr>)\<lparr>t_lock := t_lock (tab_of u)\<rparr>)" by simp
  from locked_section [OF u(1) assms(2) this u(2)]
  show "locked (t_lock (tab_of s)) = 0" "turns s t ((tab_of s)\<lparr>t_st := (t_st (tab_of s))(np := RUNNABLE), t_lock := nobody\<rparr>)"
    by simp_all
qed

section \<open>wait\<close>

text \<open>Freeing pages changes memory only.\<close>

definition mem_only :: "'a kmst_scheme \<Rightarrow> 'a kmst_scheme \<Rightarrow> bool" where
  "mem_only s t \<longleftrightarrow> t = s\<lparr>mem := mem t, freelist := freelist t\<rparr>"

lemma mem_only_refl [simp]: "mem_only s s"
  by (simp add: mem_only_def)

lemma mem_only_trans:
  assumes "mem_only s t" "mem_only t u" shows "mem_only s u"
proof -
  have "u = t\<lparr>mem := mem u, freelist := freelist u\<rparr>" using assms(2) by (simp add: mem_only_def)
  also have "\<dots> = s\<lparr>mem := mem t, freelist := freelist t\<rparr>\<lparr>mem := mem u, freelist := freelist u\<rparr>"
    using assms(1) unfolding mem_only_def by metis
  finally show ?thesis unfolding mem_only_def by simp
qed

lemma mem_only_wr32 [simp]: "mem_only s (wr32 a v s)"
  by (simp add: mem_only_def wr32_def)

lemma kfree_mem_only: "kfree v s = Inr t \<Longrightarrow> mem_only s t"
  by (auto simp: kfree_def kfree_link_def kfree_push_def mem_only_def Let_def split: if_splits)

lemma deallocuvm_body_mem_only:
  assumes "deallocuvm_body d a s = Inr (a', t)" shows "mem_only s t"
proof -
  have "\<exists>pte. walkpgdir d a False s = Inr (pte, s)"
    by (cases "rd32 (d + 4 * PDX a) s AND PTE_P \<noteq> 0") (simp_all add: walkpgdir_def Let_def)
  then obtain pte where w: "walkpgdir d a False s = Inr (pte, s)" by blast
  show ?thesis
    using assms unfolding deallocuvm_body_def w bnd_simps prod.case Let_def
    by (auto split: if_splits intro: mem_only_trans [OF kfree_mem_only mem_only_wr32])
qed

lemma deallocuvm_loop_mem_only: "deallocuvm_loop d a n s = Inr t \<Longrightarrow> mem_only s t"
proof (induction d a n s rule: deallocuvm_loop.induct)
  case (1 d a n s)
  show ?case
  proof (cases "a < n")
    case True
    then obtain a' u where b: "deallocuvm_body d a s = Inr (a', u)" "\<not> a' \<le> a" "deallocuvm_loop d a' n u = Inr t"
      using 1(2) by (subst (asm) deallocuvm_loop.simps) (auto split: if_splits)
    then have "mem_only u t" using 1(1) [OF True b(1)] by simp
    then show ?thesis using mem_only_trans [OF deallocuvm_body_mem_only [OF b(1)]] by blast
  next
    case False
    then show ?thesis using 1(2) by (subst (asm) deallocuvm_loop.simps) simp
  qed
qed

lemma freevm_loop_mem_only: "freevm_loop n d i s = Inr t \<Longrightarrow> mem_only s t"
proof (induction n arbitrary: i s)
  case (Suc n)
  show ?case
  proof (cases "rd32 (d + 4 * i) s AND PTE_P \<noteq> 0")
    case True
    then obtain u where "kfree (P2V (PTE_ADDR (rd32 (d + 4 * i) s))) s = Inr u" "freevm_loop n d (i + 1) u = Inr t"
      using Suc.prems by (auto simp: Let_def)
    then show ?thesis using mem_only_trans [OF kfree_mem_only Suc.IH] by blast
  next
    case False
    then show ?thesis using Suc.prems Suc.IH by (simp add: Let_def)
  qed
qed simp

lemma freevm_mem_only:
  assumes "freevm d s = Inr t" shows "mem_only s t"
proof -
  from assms obtain r u v where u: "deallocuvm d KERNBASE 0 s = Inr (r, u)" "freevm_loop NPDENTRIES d 0 u = Inr v" "kfree d v = Inr t"
    by (auto simp: freevm_def split: if_splits)
  have "mem_only s u" using u(1) deallocuvm_loop_mem_only by (auto simp: deallocuvm_def split: if_splits)
  then show ?thesis using mem_only_trans [OF mem_only_trans] freevm_loop_mem_only [OF u(2)] kfree_mem_only [OF u(3)] by blast
qed

lemma mem_only_turns:
  assumes "mem_only s t" shows "turns s t (tab_of s)"
proof -
  note e = assms [unfolded mem_only_def]
  have "hw t = hw s" "procs t = procs s" "nextpid t = nextpid s" by (subst e, simp)+
  then show ?thesis by (simp add: turns_def tab_of_def hwid_def)
qed

lemma wait_scan_zombie: "wait_scan is cur h s = Inr i \<Longrightarrow> i \<in> set is \<and> p_state (procs s i) = ZOMBIE \<and> p_parent (procs s i) = Some cur"
  by (induction "is" cur h s rule: wait_scan.induct) (auto split: if_splits)

lemma wait_reap_table:
  assumes "wait_reap i s = Inr (r, t)" "this_cpu (hw s) = Some c"
  shows "turns s t ((tab_of s)\<lparr>t_st := (t_st (tab_of s))(i := UNUSED), t_pid := (t_pid (tab_of s))(i := 0), t_lock := nobody\<rparr>)"
    "lk_cpu (t_lock (tab_of s)) = Some c"
proof -
  obtain u v where u: "kfree (p_kstack (procs s i)) s = Inr u"
    "freevm (p_pgdir (procs (upd_proc i (\<lambda>p. p\<lparr>p_kstack := 0\<rparr>) u) i)) (upd_proc i (\<lambda>p. p\<lparr>p_kstack := 0\<rparr>) u) = Inr v"
    "release L_ptable (upd_proc i (\<lambda>p. p\<lparr>p_pid := 0, p_parent := None, p_name := [], p_killed := False, p_state := UNUSED\<rparr>) v) = Inr t"
    using assms(1) by (auto simp: wait_reap_def Let_def)
  let ?u = "upd_proc i (\<lambda>p. p\<lparr>p_kstack := 0\<rparr>) u"
  let ?w = "upd_proc i (\<lambda>p. p\<lparr>p_pid := 0, p_parent := None, p_name := [], p_killed := False, p_state := UNUSED\<rparr>) v"
  have 1: "turns s u (tab_of s)" by (rule mem_only_turns [OF kfree_mem_only [OF u(1)]])
  have 2: "turns u ?u (tab_of u)" by (rule upd_other_turns) simp_all
  have 3: "turns ?u v (tab_of ?u)" by (rule mem_only_turns [OF freevm_mem_only [OF u(2)]])
  note tv = turns_trans [OF turns_trans [OF 1 2] 3]
  have e: "tab_of v = tab_of s" using turnsD(1) [OF 1] turnsD(1) [OF 2] turnsD(1) [OF 3] by simp
  have 4: "turns v ?w ((tab_of v)\<lparr>t_st := (t_st (tab_of v))(i := UNUSED), t_pid := (t_pid (tab_of v))(i := 0)\<rparr>)"
    using upd_proc_turns [of v i "\<lambda>p. p\<lparr>p_pid := 0, p_parent := None, p_name := [], p_killed := False, p_state := UNUSED\<rparr>"] by simp
  note tw = turns_trans [OF tv 4]
  have "this_cpu (hw ?w) = Some c" using turnsD(2) [OF tw] assms(2) by simp
  note r = release_table [OF u(3) this]
  show "turns s t ((tab_of s)\<lparr>t_st := (t_st (tab_of s))(i := UNUSED), t_pid := (t_pid (tab_of s))(i := 0), t_lock := nobody\<rparr>)"
    "lk_cpu (t_lock (tab_of s)) = Some c"
    using turns_trans [OF tw r(1)] r(3) turnsD(1) [OF tw] e by simp_all
qed

text \<open>A round of \<^verbatim>\<open>wait\<close> ends with the lock released or the process asleep with the lock held.\<close>

definition wait_outcome :: "nat \<Rightarrow> 'a pst_scheme \<Rightarrow> ('a pst_scheme stop + (int \<times> 'a pst_scheme)) \<Rightarrow> bool" where
  "wait_outcome i s r = (case r of
     Inr (_, t) \<Rightarrow> (\<exists>S P. (S = t_st (tab_of s) \<and> P = t_pid (tab_of s)
         \<or> (\<exists>j<NPROC. t_st (tab_of s) j = ZOMBIE \<and> S = (t_st (tab_of s))(j := UNUSED) \<and> P = (t_pid (tab_of s))(j := 0)))
       \<and> turns s t ((tab_of s)\<lparr>t_st := S, t_pid := P, t_lock := nobody\<rparr>))
   | Inl (Asleep t) \<Rightarrow> turns s t ((tab_of s)\<lparr>t_st := (t_st (tab_of s))(i := SLEEPING)\<rparr>)
   | _ \<Rightarrow> True)"

text \<open>Of the calls of \<^verbatim>\<open>wait\<close> only \<^verbatim>\<open>sleep\<close> gives up the processor.\<close>

definition awake :: "'s stop + 'b \<Rightarrow> bool" where
  "awake r \<longleftrightarrow> (\<forall>t. r \<noteq> Inl (Asleep t))"

lemma awake_simps [simp]: "awake (Inr x)" "awake (Inl (Panic m))" "awake (Inl (Fault m))" "awake (Inl (Spin s))"
  by (simp_all add: awake_def)

lemma awake_bnd [intro]: "awake m \<Longrightarrow> (\<And>x. m = Inr x \<Longrightarrow> awake (f x)) \<Longrightarrow> awake (bnd m f)"
  by (cases m) (simp_all add: awake_def)

lemma awake_mycpu: "awake (mycpu s)"
  unfolding mycpu_def by (cases "readeflags s AND FL_IF \<noteq> 0"; cases "this_cpu (hw s)"; simp)

lemma awake_cli: "awake (pushcli u)" "awake (popcli u)" "awake (holding l u)"
  unfolding popcli_def pushcli_def holding_def Let_def by (auto simp del: mycpu_eq intro!: awake_bnd awake_mycpu)

lemma awake_myproc: "awake (myproc u)"
  unfolding myproc_def Let_def by (auto simp del: mycpu_eq intro!: awake_bnd awake_mycpu awake_cli)

lemma awake_acquire: "awake (acquire l u)"
  unfolding acquire_def Let_def by (auto simp del: mycpu_eq intro!: awake_bnd awake_mycpu awake_cli)

lemma awake_release: "awake (release lk s)"
  unfolding release_def Let_def by (auto intro!: awake_bnd awake_cli)

lemma awake_wakeup: "awake (wakeup ch s)"
  unfolding wakeup_def by (intro awake_bnd awake_acquire awake_release)

lemma awake_sleep_out: "awake (sleep_out ch lk s)"
proof -
  have "awake (sched_out u)" for u :: "'a pst_scheme"
    unfolding sched_out_def by (auto simp del: mycpu_eq intro!: awake_bnd awake_mycpu awake_myproc awake_cli split: option.split)
  then show ?thesis unfolding sleep_out_def Let_def
    by (auto intro!: awake_bnd awake_myproc awake_acquire awake_release split: option.split)
qed

lemma awake_kfree: "awake (kfree v s)"
  by (auto simp: kfree_def kfree_link_def Let_def)

lemma awake_deallocuvm_loop: "awake (deallocuvm_loop d a n s)"
proof (induction d a n s rule: deallocuvm_loop.induct)
  case (1 d a n s)
  have b: "awake (deallocuvm_body d a s)"
    unfolding deallocuvm_body_def walkpgdir_def Let_def by (auto intro!: awake_bnd awake_kfree)
  show ?case
  proof (cases "a < n")
    case True
    then show ?thesis using 1 b by (subst deallocuvm_loop.simps) (auto intro!: awake_bnd)
  next
    case False then show ?thesis by (subst deallocuvm_loop.simps) simp
  qed
qed

lemma awake_freevm: "awake (freevm d s)"
proof -
  have "awake (freevm_loop n d i u)" for n i and u :: "'a kmst_scheme"
    by (induction n arbitrary: i u) (auto simp: Let_def intro!: awake_bnd awake_kfree)
  then show ?thesis unfolding freevm_def deallocuvm_def by (auto intro!: awake_bnd awake_deallocuvm_loop awake_kfree)
qed

lemma awake_wait_reap: "awake (wait_reap i s)"
  unfolding wait_reap_def Let_def by (auto intro!: awake_bnd awake_kfree awake_freevm awake_release)

lemma wait_round_table:
  assumes c: "this_cpu (hw s) = Some c" and i: "t_cur (tab_of s) c = Some i"
  shows "wait_outcome i s (wait_round i s)"
proof (cases "wait_scan [0..<NPROC] i False s")
  case (Inr j)
  then have j: "wait_round i s = wait_reap j s" "j < NPROC" "t_st (tab_of s) j = ZOMBIE"
    using wait_scan_zombie [OF Inr] by (auto simp: wait_round_def tab_of_def)
  show ?thesis
  proof (cases "wait_reap j s")
    case (Inl e)
    then show ?thesis using awake_wait_reap [of j s] j(1) by (cases e) (auto simp: wait_outcome_def awake_def)
  next
    case (Inr rt)
    then show ?thesis
      using wait_reap_table(1) [of j s "fst rt" "snd rt" c] c j
      by (cases rt) (auto simp: wait_outcome_def)
  qed
next
  case (Inl h)
  show ?thesis
  proof (cases "\<not> h \<or> p_killed (procs s i)")
    case True
    then have r: "wait_round i s = bnd (release L_ptable s) (\<lambda>s. Inr (- 1, s))" using Inl by (auto simp: wait_round_def)
    show ?thesis
    proof (cases "release L_ptable s")
      case (Inl e)
      then show ?thesis using awake_release [of L_ptable s] r by (cases e) (auto simp: wait_outcome_def awake_def)
    next
      case (Inr t)
      then have "wait_round i s = Inr (- 1, t)" using r by simp
      moreover have "turns s t ((tab_of s)\<lparr>t_st := t_st (tab_of s), t_pid := t_pid (tab_of s), t_lock := nobody\<rparr>)"
        using release_table(1) [OF Inr c] by simp
      ultimately show ?thesis unfolding wait_outcome_def by force
    qed
  next
    case False
    then have r: "wait_round i s = sleep (C_proc i) L_ptable s" using Inl by (auto simp: wait_round_def)
    show ?thesis
    proof (cases "sleep_out (C_proc i) L_ptable s")
      case (Inl e)
      then show ?thesis using awake_sleep_out [of "C_proc i" L_ptable s] r
        by (cases e) (auto simp: wait_outcome_def awake_def sleep_def)
    next
      case (Inr t)
      then show ?thesis using sleep_out_table [OF Inr c] i r by (auto simp: wait_outcome_def sleep_def)
    qed
  qed
qed

lemma wait_table:
  assumes "wait s = r" "this_cpu (hw s) = Some c" "t_cur (tab_of s) c = Some i" "\<not> awake r \<or> (\<exists>x. r = Inr x)"
  obtains u where "locked (t_lock (tab_of s)) = 0" "turns s u ((tab_of s)\<lparr>t_lock := by_cpu c\<rparr>)" "wait_outcome i u r"
proof -
  have aw: "awake (myproc s)" "awake (acquire L_ptable v)" for v :: "'a pst_scheme"
    unfolding myproc_def acquire_def popcli_def pushcli_def holding_def Let_def
    by (auto simp del: mycpu_eq intro!: awake_bnd awake_mycpu)
  obtain p v where v: "myproc s = Inr (p, v)"
    using assms(1,4) aw(1) by (cases "myproc s") (auto simp: wait_def awake_def)
  note m = myproc_table [OF v assms(2)]
  have p: "p = Some i" using m(2) assms(3) by simp
  obtain u where u: "acquire L_ptable v = Inr u" "wait_round i u = r"
    using assms(1,4) aw(2) [of v] v p by (cases "acquire L_ptable v") (auto simp: wait_def awake_def)
  have cv: "this_cpu (hw v) = Some c" using turnsD(2) [OF m(1)] assms(2) by simp
  note a = acquire_table [OF u(1) cv]
  have cu: "this_cpu (hw u) = Some c" using turnsD(2) [OF a(1)] cv by simp
  have su: "turns s u ((tab_of s)\<lparr>t_lock := by_cpu c\<rparr>)" using turns_trans [OF m(1) a(1)] turnsD(1) [OF m(1)] by simp
  have "t_cur (tab_of u) c = Some i" using turnsD(1) [OF su] assms(3) by simp
  from wait_round_table [OF cu this] show thesis using that su a(2) turnsD(1) [OF m(1)] u(2) by simp
qed

lemma wait_in_table:
  assumes "wait_in i s = r" "this_cpu (hw s) = Some c" "t_cur (tab_of s) c = Some i" "\<not> awake r \<or> (\<exists>x. r = Inr x)"
  obtains u where "turns s u (tab_of s)" "wait_outcome i u r"
proof -
  have aw: "awake (sched_in i s)" unfolding sched_in_def by (auto simp del: mycpu_eq intro!: awake_bnd awake_mycpu)
  obtain v where v: "sched_in i s = Inr v"
    using assms(1,4) aw by (cases "sched_in i s") (auto simp: wait_in_def sleep_in_def awake_def)
  let ?u = "upd_proc i (\<lambda>p. p\<lparr>p_chan := None\<rparr>) v"
  have "turns v ?u (tab_of v)" by (rule upd_other_turns) simp_all
  then have su: "turns s ?u (tab_of s)"
    using turns_trans [OF sched_in_table [OF v]] turnsD(1) [OF sched_in_table [OF v]] by simp
  have cu: "this_cpu (hw ?u) = Some c" "t_cur (tab_of ?u) c = Some i"
    using turnsD [OF su] assms(2,3) by simp_all
  have "wait_round i ?u = r" using assms(1) v by (simp add: wait_in_def sleep_in_def Let_def)
  then show thesis using that [OF su] wait_round_table [OF cu] by simp
qed

section \<open>The scheduler on the table\<close>

lemma set_cur_turns:
  "turns s (upd_cpu c (\<lambda>q. q\<lparr>cpu_proc := p\<rparr>) s) ((tab_of s)\<lparr>t_cur := (t_cur (tab_of s))(c := p)\<rparr>)"
  unfolding turns_def tab_of_def hwid_def upd_cpu_def by (auto simp: fun_upd_def)

lemma scheduler_pick_table:
  assumes "scheduler_pick i s = Inr t" "this_cpu (hw s) = Some c"
  shows "turns s t ((tab_of s)\<lparr>t_cur := (t_cur (tab_of s))(c := Some i), t_st := (t_st (tab_of s))(i := RUNNING)\<rparr>)"
proof -
  obtain d where d: "mycpu s = Inr d" using assms(1) unfolding scheduler_pick_def bnd_eq_Inr by blast
  then have "d = c" using mycpu_Inr [OF d] assms(2) by simp
  let ?u = "upd_cpu c (\<lambda>q. q\<lparr>cpu_proc := Some i\<rparr>) s"
  obtain v where v: "switchuvm (Some i) ?u = Inr v" "t = upd_proc i (\<lambda>p. p\<lparr>p_state := RUNNING\<rparr>) v"
    using assms(1) unfolding scheduler_pick_def d \<open>d = c\<close> bnd_simps Let_def bnd_eq_Inr by blast
  have 1: "turns s ?u ((tab_of s)\<lparr>t_cur := (t_cur (tab_of s))(c := Some i)\<rparr>)" by (rule set_cur_turns)
  have 2: "turns ?u v (tab_of ?u)" by (rule same_turns [OF switchuvm_same(1) [OF v(1)]])
  have 3: "turns v t ((tab_of v)\<lparr>t_st := (t_st (tab_of v))(i := RUNNING)\<rparr>)" unfolding v(2) by (rule upd_state_turns) simp_all
  show ?thesis using turns_trans [OF turns_trans [OF 1 2] 3] turnsD(1) [OF 1] turnsD(1) [OF 2] by simp
qed

lemma scheduler_from_table:
  assumes "scheduler_from i s = Inr (r, t)" "this_cpu (hw s) = Some c"
  shows "case r of None \<Rightarrow> turns s t ((tab_of s)\<lparr>t_lock := nobody\<rparr>)
    | Some j \<Rightarrow> i \<le> j \<and> j < NPROC \<and> t_st (tab_of s) j = RUNNABLE \<and> turns s t ((tab_of s)\<lparr>t_cur := (t_cur (tab_of s))(c := Some j),
         t_st := (t_st (tab_of s))(j := RUNNING)\<rparr>)"
  using assms
proof (induction i s rule: scheduler_from.induct)
  case (1 i s)
  show ?case
  proof (cases "i < NPROC")
    case lt: True
    show ?thesis
    proof (cases "p_state (procs s i) = RUNNABLE")
      case True
      then obtain u where "scheduler_pick i s = Inr u" "r = Some i" "t = u"
        using 1(2) lt by (subst (asm) scheduler_from.simps) auto
      then show ?thesis using scheduler_pick_table 1(3) True lt by (simp add: tab_of_def)
    next
      case False
      then have "scheduler_from (i + 1) s = Inr (r, t)" using 1(2) lt by (subst (asm) scheduler_from.simps) simp
      then show ?thesis using 1(1) [OF lt False] 1(3) by (auto simp: fun_upd_def split: option.splits)
    qed
  next
    case False
    then obtain u where "release L_ptable s = Inr u" "r = None" "t = u"
      using 1(2) by (subst (asm) scheduler_from.simps) auto
    then show ?thesis using release_table(1) [OF _ 1(3)] by simp
  qed
qed

lemma scheduler_pass_table:
  assumes "scheduler_pass s = Inr (r, t)" "this_cpu (hw s) = Some c"
  shows "locked (t_lock (tab_of s)) = 0"
    "case r of None \<Rightarrow> turns s t ((tab_of s)\<lparr>t_lock := nobody\<rparr>)
    | Some j \<Rightarrow> j < NPROC \<and> t_st (tab_of s) j = RUNNABLE \<and> turns s t ((tab_of s)\<lparr>t_lock := by_cpu c,
         t_cur := (t_cur (tab_of s))(c := Some j), t_st := (t_st (tab_of s))(j := RUNNING)\<rparr>)"
proof -
  obtain u where u: "acquire L_ptable (sti s) = Inr u" "scheduler_from 0 u = Inr (r, t)"
    using assms(1) by (auto simp: scheduler_pass_def)
  have 1: "turns s (sti s) (tab_of s)" by (rule same_turns) simp
  have c1: "this_cpu (hw (sti s)) = Some c" using turnsD(2) [OF 1] assms(2) by simp
  note a = acquire_table [OF u(1) c1]
  have cu: "this_cpu (hw u) = Some c" using turnsD(2) [OF a(1)] c1 by simp
  have su: "turns s u ((tab_of s)\<lparr>t_lock := by_cpu c\<rparr>)" using turns_trans [OF 1 a(1)] turnsD(1) [OF 1] by simp
  show "locked (t_lock (tab_of s)) = 0" using a(2) turnsD(1) [OF 1] by simp
  show "case r of None \<Rightarrow> turns s t ((tab_of s)\<lparr>t_lock := nobody\<rparr>)
    | Some j \<Rightarrow> j < NPROC \<and> t_st (tab_of s) j = RUNNABLE \<and> turns s t ((tab_of s)\<lparr>t_lock := by_cpu c,
         t_cur := (t_cur (tab_of s))(c := Some j), t_st := (t_st (tab_of s))(j := RUNNING)\<rparr>)"
    using scheduler_from_table [OF u(2) cu] turns_trans [OF su] turnsD(1) [OF su] by (auto split: option.splits)
qed

lemma scheduler_resume_table:
  assumes "scheduler_resume i s = Inr (r, t)" "this_cpu (hw s) = Some c"
  shows "case r of None \<Rightarrow> turns s t ((tab_of s)\<lparr>t_cur := (t_cur (tab_of s))(c := None), t_lock := nobody\<rparr>)
    | Some j \<Rightarrow> i < j \<and> j < NPROC \<and> t_st (tab_of s) j = RUNNABLE \<and> turns s t ((tab_of s)\<lparr>t_cur := (t_cur (tab_of s))(c := Some j),
         t_st := (t_st (tab_of s))(j := RUNNING)\<rparr>)"
proof -
  have 1: "turns s (switchkvm s) (tab_of s)" by (rule same_turns) (simp add: same_def cpuv_eq switchkvm_def lcr3_def)
  have c1: "this_cpu (hw (switchkvm s)) = Some c" using turnsD(2) [OF 1] assms(2) by simp
  let ?u = "upd_cpu c (\<lambda>q. q\<lparr>cpu_proc := None\<rparr>) (switchkvm s)"
  obtain d where d: "mycpu (switchkvm s) = Inr d" "scheduler_from (i + 1) (upd_cpu d (\<lambda>q. q\<lparr>cpu_proc := None\<rparr>) (switchkvm s)) = Inr (r, t)"
    using assms(1) unfolding scheduler_resume_def scheduler_return_def Let_def bnd_eq_Inr by blast
  have "d = c" using mycpu_Inr [OF d(1)] c1 by simp
  then have f: "scheduler_from (i + 1) ?u = Inr (r, t)" using d(2) by simp
  have 2: "turns (switchkvm s) ?u ((tab_of (switchkvm s))\<lparr>t_cur := (t_cur (tab_of (switchkvm s)))(c := None)\<rparr>)" by (rule set_cur_turns)
  have su: "turns s ?u ((tab_of s)\<lparr>t_cur := (t_cur (tab_of s))(c := None)\<rparr>)" using turns_trans [OF 1 2] turnsD(1) [OF 1] by simp
  have "this_cpu (hw ?u) = Some c" using turnsD(2) [OF su] assms(2) by simp
  from scheduler_from_table [OF f this] show ?thesis
    using turns_trans [OF su] turnsD(1) [OF su] by (auto split: option.splits)
qed

section \<open>Many processors\<close>

text \<open>
  What a processor does: its scheduler loop without the lock, a process it has just switched to and
  that still holds the lock of the table, the code of a process, or a process that has just
  switched away, with the lock held.
\<close>

datatype mode = InSched | Picked nat | InProc nat | Leaving nat

record mach =
  ker :: pst
  mode :: "nat \<Rightarrow> mode"

definition on_cpu :: "nat \<Rightarrow> 'a kst_scheme \<Rightarrow> 'a kst_scheme" where
  "on_cpu c s = s\<lparr>hw := (hw s)\<lparr>lapicid := apicid (cpus (hw s) c)\<rparr>\<rparr>"

definition goes :: "mach \<Rightarrow> nat \<Rightarrow> pst \<Rightarrow> mode \<Rightarrow> mach" where
  "goes m c s x = m\<lparr>ker := s, mode := (mode m)(c := x)\<rparr>"

text \<open>
  One step of one processor. A process that is switched to goes on where it had left: at its first
  return (\<open>first_run\<close>), in \<^verbatim>\<open>yield\<close>, in \<^verbatim>\<open>sleep\<close> or in the loop of \<^verbatim>\<open>wait\<close>. Between its calls a process takes and
  drops other locks (\<open>other_acquire\<close>, \<open>other_release\<close>). Interrupt handlers call \<^verbatim>\<open>wakeup\<close> on any processor.
\<close>

inductive sched_step :: "mach \<Rightarrow> mach \<Rightarrow> bool" where
  pass_pick: "\<lbrakk>c < ncpu (hw (ker m)); mode m c = InSched; scheduler_pass (on_cpu c (ker m)) = Inr (Some i, s)\<rbrakk>
    \<Longrightarrow> sched_step m (goes m c s (Picked i))"
| pass_idle: "\<lbrakk>c < ncpu (hw (ker m)); mode m c = InSched; scheduler_pass (on_cpu c (ker m)) = Inr (None, s)\<rbrakk>
    \<Longrightarrow> sched_step m (goes m c s InSched)"
| resume_pick: "\<lbrakk>c < ncpu (hw (ker m)); mode m c = Leaving i; scheduler_resume i (on_cpu c (ker m)) = Inr (Some j, s)\<rbrakk>
    \<Longrightarrow> sched_step m (goes m c s (Picked j))"
| resume_end: "\<lbrakk>c < ncpu (hw (ker m)); mode m c = Leaving i; scheduler_resume i (on_cpu c (ker m)) = Inr (None, s)\<rbrakk>
    \<Longrightarrow> sched_step m (goes m c s InSched)"
| first_run: "\<lbrakk>c < ncpu (hw (ker m)); mode m c = Picked i; release L_ptable (on_cpu c (ker m)) = Inr s\<rbrakk>
    \<Longrightarrow> sched_step m (goes m c s (InProc i))"
| yield_back: "\<lbrakk>c < ncpu (hw (ker m)); mode m c = Picked i; yield_in i (on_cpu c (ker m)) = Inr s\<rbrakk>
    \<Longrightarrow> sched_step m (goes m c s (InProc i))"
| sleep_back: "\<lbrakk>c < ncpu (hw (ker m)); mode m c = Picked i; lk \<noteq> L_ptable; sleep_in i lk (on_cpu c (ker m)) = Inr s\<rbrakk>
    \<Longrightarrow> sched_step m (goes m c s (InProc i))"
| wait_back: "\<lbrakk>c < ncpu (hw (ker m)); mode m c = Picked i; wait_in i (on_cpu c (ker m)) = Inr (r, s)\<rbrakk>
    \<Longrightarrow> sched_step m (goes m c s (InProc i))"
| wait_again: "\<lbrakk>c < ncpu (hw (ker m)); mode m c = Picked i; wait_in i (on_cpu c (ker m)) = Inl (Asleep s)\<rbrakk>
    \<Longrightarrow> sched_step m (goes m c s (Leaving i))"
| yield_away: "\<lbrakk>c < ncpu (hw (ker m)); mode m c = InProc i; yield_out (on_cpu c (ker m)) = Inr s\<rbrakk>
    \<Longrightarrow> sched_step m (goes m c s (Leaving i))"
| sleep_away: "\<lbrakk>c < ncpu (hw (ker m)); mode m c = InProc i; lk \<noteq> L_ptable; sleep_out ch lk (on_cpu c (ker m)) = Inr s\<rbrakk>
    \<Longrightarrow> sched_step m (goes m c s (Leaving i))"
| exit_away: "\<lbrakk>c < ncpu (hw (ker m)); mode m c = InProc i; exit_out i (on_cpu c (ker m)) = Inr s\<rbrakk>
    \<Longrightarrow> sched_step m (goes m c s (Leaving i))"
| wait_away: "\<lbrakk>c < ncpu (hw (ker m)); mode m c = InProc i; wait (on_cpu c (ker m)) = Inl (Asleep s)\<rbrakk>
    \<Longrightarrow> sched_step m (goes m c s (Leaving i))"
| wait_return: "\<lbrakk>c < ncpu (hw (ker m)); mode m c = InProc i; wait (on_cpu c (ker m)) = Inr (r, s)\<rbrakk>
    \<Longrightarrow> sched_step m (goes m c s (InProc i))"
| fork_claim: "\<lbrakk>c < ncpu (hw (ker m)); mode m c = InProc i; allocproc_claim (on_cpu c (ker m)) = Inr (r, s)\<rbrakk>
    \<Longrightarrow> sched_step m (goes m c s (InProc i))"
| fork_done: "\<lbrakk>c < ncpu (hw (ker m)); mode m c = InProc i; p_state (procs (ker m) np) = EMBRYO;
      fork_publish np (on_cpu c (ker m)) = Inr s\<rbrakk>
    \<Longrightarrow> sched_step m (goes m c s (InProc i))"
| fork_undone: "\<lbrakk>c < ncpu (hw (ker m)); mode m c = InProc i; p_state (procs (ker m) np) = EMBRYO;
      s = upd_proc np (\<lambda>q. q\<lparr>p_state := UNUSED\<rparr>) (on_cpu c (ker m))\<rbrakk>
    \<Longrightarrow> sched_step m (goes m c s (InProc i))"
| killed: "\<lbrakk>c < ncpu (hw (ker m)); mode m c = InProc i; kill pid (on_cpu c (ker m)) = Inr (r, s)\<rbrakk>
    \<Longrightarrow> sched_step m (goes m c s (InProc i))"
| woke: "\<lbrakk>c < ncpu (hw (ker m)); mode m c = x; wakeup ch (on_cpu c (ker m)) = Inr s\<rbrakk>
    \<Longrightarrow> sched_step m (goes m c s x)"
| other_acquire: "\<lbrakk>c < ncpu (hw (ker m)); mode m c = InProc i; lk \<noteq> L_ptable; acquire lk (on_cpu c (ker m)) = Inr s\<rbrakk>
    \<Longrightarrow> sched_step m (goes m c s (InProc i))"
| other_release: "\<lbrakk>c < ncpu (hw (ker m)); mode m c = InProc i; lk \<noteq> L_ptable; release lk (on_cpu c (ker m)) = Inr s\<rbrakk>
    \<Longrightarrow> sched_step m (goes m c s (InProc i))"

text \<open>The invariant, over the table and the modes of the first \<open>n\<close> processors.\<close>

definition mode_ok :: "tab \<Rightarrow> nat \<Rightarrow> mode \<Rightarrow> bool" where
  "mode_ok a c x = (case x of
     InSched \<Rightarrow> t_cur a c = None
   | InProc i \<Rightarrow> t_cur a c = Some i \<and> t_st a i = RUNNING
   | Picked i \<Rightarrow> t_cur a c = Some i \<and> t_st a i = RUNNING \<and> t_lock a = by_cpu c
   | Leaving i \<Rightarrow> t_cur a c = Some i \<and> t_st a i \<noteq> RUNNING \<and> t_lock a = by_cpu c)"

definition tab_inv :: "nat \<Rightarrow> tab \<Rightarrow> (nat \<Rightarrow> mode) \<Rightarrow> bool" where
  "tab_inv n a x \<longleftrightarrow> (\<forall>c<n. mode_ok a c (x c))
     \<and> (\<forall>c<n. \<forall>d<n. \<forall>i. t_cur a c = Some i \<and> t_cur a d = Some i \<longrightarrow> c = d)
     \<and> (\<forall>i. t_st a i = RUNNING \<longrightarrow> (\<exists>c<n. t_cur a c = Some i))
     \<and> (\<forall>i. t_st a i \<noteq> UNUSED \<longrightarrow> t_pid a i < t_next a)
     \<and> (\<forall>i j. t_st a i \<noteq> UNUSED \<and> t_st a j \<noteq> UNUSED \<and> t_pid a i = t_pid a j \<longrightarrow> i = j)"

definition mach_inv :: "mach \<Rightarrow> bool" where
  "mach_inv m \<longleftrightarrow> inj_on (\<lambda>c. apicid (cpus (hw (ker m)) c)) {..<ncpu (hw (ker m))}
     \<and> tab_inv (ncpu (hw (ker m))) (tab_of (ker m)) (mode m)"

end
