(* ===== verification/Sched_Inv.thy ===== *)
theory Sched_Inv
  imports Sched
begin

text \<open>
  The invariant of the process table: every step of every processor keeps that a process runs on at
  most one processor, that the processors' records agree with the states in the table, and that live
  processes have different identifiers.
\<close>

section \<open>Steps on the table keep the invariant\<close>

lemma tab_invI:
  assumes "\<And>c. c < n \<Longrightarrow> mode_ok a c (x c)"
    and "\<And>c d i. \<lbrakk>c < n; d < n; t_cur a c = Some i; t_cur a d = Some i\<rbrakk> \<Longrightarrow> c = d"
    and "\<And>i. t_st a i = RUNNING \<Longrightarrow> \<exists>c<n. t_cur a c = Some i"
    and "\<And>i. t_st a i \<noteq> UNUSED \<Longrightarrow> t_pid a i < t_next a"
    and "\<And>i j. \<lbrakk>t_st a i \<noteq> UNUSED; t_st a j \<noteq> UNUSED; t_pid a i = t_pid a j\<rbrakk> \<Longrightarrow> i = j"
  shows "tab_inv n a x"
  using assms unfolding tab_inv_def by blast

lemma tab_invD:
  assumes "tab_inv n a x"
  shows "\<And>c. c < n \<Longrightarrow> mode_ok a c (x c)"
    and "\<And>c d i. \<lbrakk>c < n; d < n; t_cur a c = Some i; t_cur a d = Some i\<rbrakk> \<Longrightarrow> c = d"
    and "\<And>i. t_st a i = RUNNING \<Longrightarrow> \<exists>c<n. t_cur a c = Some i"
    and "\<And>i. t_st a i \<noteq> UNUSED \<Longrightarrow> t_pid a i < t_next a"
    and "\<And>i j. \<lbrakk>t_st a i \<noteq> UNUSED; t_st a j \<noteq> UNUSED; t_pid a i = t_pid a j\<rbrakk> \<Longrightarrow> i = j"
  using assms unfolding tab_inv_def by blast+

lemma mode_ok_simps:
  "mode_ok a c InSched \<longleftrightarrow> t_cur a c = None"
  "mode_ok a c (InProc i) \<longleftrightarrow> t_cur a c = Some i \<and> t_st a i = RUNNING"
  "mode_ok a c (Picked i) \<longleftrightarrow> t_cur a c = Some i \<and> t_st a i = RUNNING \<and> t_lock a = by_cpu c"
  "mode_ok a c (Leaving i) \<longleftrightarrow> t_cur a c = Some i \<and> t_st a i \<noteq> RUNNING \<and> t_lock a = by_cpu c"
  by (simp_all add: mode_ok_def)

text \<open>
  The processors other than \<open>c\<close> keep their mode when the lock is not theirs: they are in the scheduler or
  in the code of a process.
\<close>

lemma by_cpu_simps [simp]: "by_cpu c = by_cpu d \<longleftrightarrow> c = d" "locked (by_cpu c) \<noteq> 0" "locked nobody = 0"
  by (simp_all add: by_cpu_def nobody_def)

definition others_outside :: "nat \<Rightarrow> nat \<Rightarrow> tab \<Rightarrow> (nat \<Rightarrow> mode) \<Rightarrow> bool" where
  "others_outside n c a x \<longleftrightarrow> (\<forall>d<n. d \<noteq> c \<longrightarrow> x d = InSched \<or> (\<exists>i. x d = InProc i))"

lemma others_outside_free:
  assumes "tab_inv n a x" "locked (t_lock a) = 0"
  shows "others_outside n c a x"
  unfolding others_outside_def
proof (intro allI impI)
  fix d assume "d < n"
  with tab_invD(1) [OF assms(1), of d] assms(2) show "x d = InSched \<or> (\<exists>i. x d = InProc i)"
    by (cases "x d") (auto simp: mode_ok_simps)
qed

lemma others_outside_mine:
  assumes "tab_inv n a x" "t_lock a = by_cpu c"
  shows "others_outside n c a x"
  unfolding others_outside_def
proof (intro allI impI)
  fix d assume "d < n" "d \<noteq> c"
  with tab_invD(1) [OF assms(1), of d] assms(2) show "x d = InSched \<or> (\<exists>i. x d = InProc i)"
    by (cases "x d") (auto simp: mode_ok_simps)
qed

text \<open>
  A change of the table by processor \<open>c\<close>, with the others outside: the states of the processes the
  others run stay \<open>RUNNING\<close>, no process starts to run elsewhere, and identifiers stay different.
\<close>

lemma tab_inv_change:
  assumes inv: "tab_inv n a x" and c: "c < n" and out: "others_outside n c a x"
    and cur: "\<And>d. d \<noteq> c \<Longrightarrow> t_cur b d = t_cur a d" and y: "mode_ok b c y"
    and run: "\<And>d i. \<lbrakk>d < n; d \<noteq> c; t_cur a d = Some i; t_st a i = RUNNING\<rbrakk> \<Longrightarrow> t_st b i = RUNNING"
    and new: "\<And>i. \<lbrakk>t_st b i = RUNNING; t_cur b c \<noteq> Some i\<rbrakk> \<Longrightarrow> t_st a i = RUNNING \<and> t_cur a c \<noteq> Some i"
    and pick: "\<And>i. \<lbrakk>t_cur b c = Some i; t_cur a c \<noteq> Some i\<rbrakk> \<Longrightarrow> t_st a i \<noteq> RUNNING"
    and pid: "\<And>i. t_st b i \<noteq> UNUSED \<Longrightarrow> t_pid b i < t_next b"
      "\<And>i j. \<lbrakk>t_st b i \<noteq> UNUSED; t_st b j \<noteq> UNUSED; t_pid b i = t_pid b j\<rbrakk> \<Longrightarrow> i = j"
  shows "tab_inv n b (x(c := y))"
proof (rule tab_invI)
  fix d assume d: "d < n"
  show "mode_ok b d ((x(c := y)) d)"
  proof (cases "d = c")
    case True then show ?thesis using y by simp
  next
    case False
    then have "x d = InSched \<or> (\<exists>i. x d = InProc i)" using out d by (simp add: others_outside_def)
    then show ?thesis using tab_invD(1) [OF inv d] False cur [OF False] run [OF d False] by (auto simp: mode_ok_simps)
  qed
next
  have running: "t_st a i = RUNNING" if "d < n" "d \<noteq> c" "t_cur a d = Some i" for d i
    using tab_invD(1) [OF inv that(1)] out that by (auto simp: others_outside_def mode_ok_simps)
  fix d e i assume de: "d < n" "e < n" "t_cur b d = Some i" "t_cur b e = Some i"
  have no: False if "f < n" "f \<noteq> c" "t_cur b f = Some i" "t_cur b c = Some i" for f
  proof -
    have f: "t_cur a f = Some i" using cur [OF that(2)] that(3) by simp
    then have "t_cur a c \<noteq> Some i" using tab_invD(2) [OF inv that(1) c f] that(2) by blast
    then show False using pick [OF that(4)] running [OF that(1,2) f] by blast
  qed
  show "d = e"
  proof (cases "d = c \<or> e = c")
    case True then show ?thesis using no [of d] no [of e] de by auto
  next
    case False then show ?thesis using tab_invD(2) [OF inv de(1,2)] de(3,4) cur by auto
  qed
next
  fix i assume i: "t_st b i = RUNNING"
  show "\<exists>d<n. t_cur b d = Some i"
  proof (cases "t_cur b c = Some i")
    case True then show ?thesis using c by blast
  next
    case False
    then obtain d where "d < n" "t_cur a d = Some i" "t_cur a c \<noteq> Some i"
      using new [OF i] tab_invD(3) [OF inv] by blast
    then show ?thesis using cur [of d] by (intro exI [of _ d]) auto
  qed
qed (use pid in blast)+

text \<open>Most changes keep the identifiers.\<close>

lemma tab_inv_change_pids:
  assumes inv: "tab_inv n a x" and c: "c < n" and out: "others_outside n c a x"
    and cur: "\<And>d. d \<noteq> c \<Longrightarrow> t_cur b d = t_cur a d" and y: "mode_ok b c y"
    and run: "\<And>d i. \<lbrakk>d < n; d \<noteq> c; t_cur a d = Some i; t_st a i = RUNNING\<rbrakk> \<Longrightarrow> t_st b i = RUNNING"
    and new: "\<And>i. \<lbrakk>t_st b i = RUNNING; t_cur b c \<noteq> Some i\<rbrakk> \<Longrightarrow> t_st a i = RUNNING \<and> t_cur a c \<noteq> Some i"
    and pick: "\<And>i. \<lbrakk>t_cur b c = Some i; t_cur a c \<noteq> Some i\<rbrakk> \<Longrightarrow> t_st a i \<noteq> RUNNING"
    and un: "t_next b = t_next a" "\<And>i. t_st b i \<noteq> UNUSED \<Longrightarrow> t_st a i \<noteq> UNUSED \<and> t_pid b i = t_pid a i"
  shows "tab_inv n b (x(c := y))"
proof (rule tab_inv_change [OF inv c out cur y run new pick])
  show "t_pid b i < t_next b" if "t_st b i \<noteq> UNUSED" for i
    using un(2) [OF that] un(1) tab_invD(4) [OF inv, of i] by simp
  show "i = j" if "t_st b i \<noteq> UNUSED" "t_st b j \<noteq> UNUSED" "t_pid b i = t_pid b j" for i j
    using un(2) [OF that(1)] un(2) [OF that(2)] that(3) by (intro tab_invD(5) [OF inv]) simp_all
qed

lemma only_wakesD: "only_wakes S S' \<Longrightarrow> S' i = RUNNING \<longleftrightarrow> S i = RUNNING" "only_wakes S S' \<Longrightarrow> S' i = UNUSED \<longleftrightarrow> S i = UNUSED"
  unfolding only_wakes_def by (metis procstate.distinct)+

text \<open>A section under the lock that at most wakes processes.\<close>

lemma inv_wake:
  assumes inv: "tab_inv n a x" and c: "c < n" and l: "locked (t_lock a) = 0" and w: "only_wakes (t_st a) S"
  shows "tab_inv n (a\<lparr>t_st := S, t_lock := nobody\<rparr>) x"
proof -
  have "tab_inv n (a\<lparr>t_st := S, t_lock := nobody\<rparr>) (x(c := x c))"
  proof (rule tab_inv_change_pids [OF inv c others_outside_free [OF inv l]])
    show "mode_ok (a\<lparr>t_st := S, t_lock := nobody\<rparr>) c (x c)"
      using tab_invD(1) [OF inv c] l only_wakesD [OF w] by (cases "x c") (auto simp: mode_ok_simps)
  qed (use only_wakesD [OF w] in simp_all)
  then show ?thesis by simp
qed

text \<open>A process gives up the processor.\<close>

lemma inv_leave:
  assumes inv: "tab_inv n a x" and c: "c < n" and x: "x c = InProc i" and l: "locked (t_lock a) = 0"
    and w: "only_wakes (t_st a) S" and y: "y \<noteq> RUNNING"
  shows "tab_inv n (a\<lparr>t_st := S(i := y), t_lock := by_cpu c\<rparr>) (x(c := Leaving i))"
proof -
  let ?b = "a\<lparr>t_st := S(i := y), t_lock := by_cpu c\<rparr>"
  have i: "t_cur a c = Some i" "t_st a i = RUNNING" using tab_invD(1) [OF inv c] x by (auto simp: mode_ok_simps)
  have st: "t_st ?b j = RUNNING \<longleftrightarrow> j \<noteq> i \<and> t_st a j = RUNNING" for j using y only_wakesD(1) [OF w, of j] by simp
  show ?thesis
  proof (rule tab_inv_change_pids [OF inv c others_outside_free [OF inv l]])
    show "t_st ?b j = RUNNING" if "d < n" "d \<noteq> c" "t_cur a d = Some j" "t_st a j = RUNNING" for d j
    proof -
      have "j \<noteq> i" using tab_invD(2) [OF inv that(1) c that(3)] that(2) i(1) by blast
      then show ?thesis using st [of j] that(4) by metis
    qed
    show "t_st a j = RUNNING \<and> t_cur a c \<noteq> Some j" if "t_st ?b j = RUNNING" "t_cur ?b c \<noteq> Some j" for j
      using st [of j] that(1) i(1) by (metis option.inject)
    show "t_st a j \<noteq> UNUSED \<and> t_pid ?b j = t_pid a j" if "t_st ?b j \<noteq> UNUSED" for j
      using that i(2) only_wakesD(2) [OF w, of j] by (cases "j = i") simp_all
  qed (use i(1) y in \<open>simp_all add: mode_ok_simps\<close>)
qed

lemma inv_leave_locked:
  assumes inv: "tab_inv n a x" and c: "c < n" and x: "x c = Picked i" and y: "y \<noteq> RUNNING"
  shows "tab_inv n (a\<lparr>t_st := (t_st a)(i := y)\<rparr>) (x(c := Leaving i))"
proof -
  let ?b = "a\<lparr>t_st := (t_st a)(i := y)\<rparr>"
  have i: "t_cur a c = Some i" "t_st a i = RUNNING" "t_lock a = by_cpu c"
    using tab_invD(1) [OF inv c] x by (auto simp: mode_ok_simps)
  show ?thesis
  proof (rule tab_inv_change_pids [OF inv c others_outside_mine [OF inv i(3)]])
    show "t_st ?b j = RUNNING" if "d < n" "d \<noteq> c" "t_cur a d = Some j" "t_st a j = RUNNING" for d j
      using tab_invD(2) [OF inv that(1) c that(3)] that(2,4) i(1) by (cases "j = i") simp_all
    show "t_st a j \<noteq> UNUSED \<and> t_pid ?b j = t_pid a j" if "t_st ?b j \<noteq> UNUSED" for j
      using that i(2) by (cases "j = i") simp_all
  qed (use i y in \<open>auto simp: mode_ok_simps split: if_splits\<close>)
qed

lemma inv_take:
  assumes inv: "tab_inv n a x" and c: "c < n" and x: "x c = InProc i" and l: "locked (t_lock a) = 0"
  shows "tab_inv n (a\<lparr>t_lock := by_cpu c\<rparr>) (x(c := Picked i))"
  by (rule tab_inv_change_pids [OF inv c others_outside_free [OF inv l]])
    (use tab_invD(1) [OF inv c] x in \<open>simp_all add: mode_ok_simps\<close>)

lemma inv_drop:
  assumes inv: "tab_inv n a x" and c: "c < n" and x: "x c = Picked i"
  shows "tab_inv n (a\<lparr>t_lock := nobody\<rparr>) (x(c := InProc i))"
proof -
  have i: "t_cur a c = Some i" "t_st a i = RUNNING" "t_lock a = by_cpu c"
    using tab_invD(1) [OF inv c] x by (auto simp: mode_ok_simps)
  show ?thesis
    by (rule tab_inv_change_pids [OF inv c others_outside_mine [OF inv i(3)]])
      (use i in \<open>simp_all add: mode_ok_simps\<close>)
qed

lemma inv_reap:
  assumes inv: "tab_inv n a x" and c: "c < n" and j: "t_st a j = ZOMBIE" and x: "x c = Picked i"
  shows "tab_inv n (a\<lparr>t_st := (t_st a)(j := UNUSED), t_pid := (t_pid a)(j := 0)\<rparr>) (x(c := Picked i))"
proof -
  have i: "t_cur a c = Some i" "t_st a i = RUNNING" "t_lock a = by_cpu c"
    using tab_invD(1) [OF inv c] x by (auto simp: mode_ok_simps)
  show ?thesis
    by (rule tab_inv_change_pids [OF inv c others_outside_mine [OF inv i(3)]])
      (use i j in \<open>auto simp: mode_ok_simps split: if_splits\<close>)
qed

text \<open>The scheduler switches to a process.\<close>

lemma inv_pick:
  assumes inv: "tab_inv n a x" and c: "c < n" and out: "others_outside n c a x" and j: "t_st a j = RUNNABLE"
    and k: "\<And>i. t_cur a c = Some i \<Longrightarrow> t_st a i \<noteq> RUNNING"
  shows "tab_inv n (a\<lparr>t_lock := by_cpu c, t_cur := (t_cur a)(c := Some j), t_st := (t_st a)(j := RUNNING)\<rparr>) (x(c := Picked j))"
  by (rule tab_inv_change_pids [OF inv c out])
    (use j k in \<open>auto simp: mode_ok_simps split: if_splits\<close>)

lemma inv_release:
  assumes inv: "tab_inv n a x" and c: "c < n" and x: "x c = Leaving i"
  shows "tab_inv n (a\<lparr>t_cur := (t_cur a)(c := None), t_lock := nobody\<rparr>) (x(c := InSched))"
proof -
  have i: "t_cur a c = Some i" "t_st a i \<noteq> RUNNING" "t_lock a = by_cpu c"
    using tab_invD(1) [OF inv c] x by (auto simp: mode_ok_simps)
  show ?thesis
    by (rule tab_inv_change_pids [OF inv c others_outside_mine [OF inv i(3)]])
      (use i in \<open>auto simp: mode_ok_simps\<close>)
qed

text \<open>A slot is claimed, published or given back.\<close>

lemma inv_claim:
  assumes inv: "tab_inv n a x" and c: "c < n" and x: "x c = InProc i" and l: "locked (t_lock a) = 0" and j: "t_st a j = UNUSED"
  shows "tab_inv n (a\<lparr>t_st := (t_st a)(j := EMBRYO), t_pid := (t_pid a)(j := t_next a), t_next := t_next a + 1, t_lock := nobody\<rparr>) (x(c := InProc i))"
proof (rule tab_inv_change [OF inv c others_outside_free [OF inv l]])
  let ?b = "a\<lparr>t_st := (t_st a)(j := EMBRYO), t_pid := (t_pid a)(j := t_next a), t_next := t_next a + 1, t_lock := nobody\<rparr>"
  have i: "t_cur a c = Some i" "t_st a i = RUNNING" using tab_invD(1) [OF inv c] x by (auto simp: mode_ok_simps)
  then show "mode_ok ?b c (InProc i)" using j by (auto simp: mode_ok_simps)
  have lt: "t_pid a k < t_next a" if "t_st ?b k \<noteq> UNUSED" "k \<noteq> j" for k using tab_invD(4) [OF inv, of k] that by simp
  show "t_pid ?b k < t_next ?b" if "t_st ?b k \<noteq> UNUSED" for k
    using lt [OF that] by (cases "k = j") simp_all
  show "k = m" if k: "t_st ?b k \<noteq> UNUSED" and m: "t_st ?b m \<noteq> UNUSED" and e: "t_pid ?b k = t_pid ?b m" for k m
  proof (cases "k = j \<or> m = j")
    case True then show ?thesis using lt [OF k] lt [OF m] e by (auto split: if_splits)
  next
    case False then show ?thesis using k m e by (intro tab_invD(5) [OF inv]) simp_all
  qed
qed (use j in \<open>auto split: if_splits\<close>)

lemma inv_embryo:
  assumes inv: "tab_inv n a x" and c: "c < n" and x: "x c = InProc i" and j: "t_st a j = EMBRYO" and y: "y \<noteq> RUNNING"
    and l: "locked (t_lock a) = 0 \<and> lk = nobody \<or> lk = t_lock a"
  shows "tab_inv n (a\<lparr>t_st := (t_st a)(j := y), t_lock := lk\<rparr>) (x(c := InProc i))"
proof (rule tab_invI)
  let ?b = "a\<lparr>t_st := (t_st a)(j := y), t_lock := lk\<rparr>"
  have st: "t_st ?b k = RUNNING \<longleftrightarrow> t_st a k = RUNNING" for k using j y by auto
  show "mode_ok ?b d ((x(c := InProc i)) d)" if "d < n" for d
  proof -
    have "mode_ok a d ((x(c := InProc i)) d)" using tab_invD(1) [OF inv that] x by (cases "d = c") simp_all
    then show ?thesis using l st by (cases "(x(c := InProc i)) d") (auto simp: mode_ok_simps simp del: fun_upd_apply)
  qed
  have un: "t_st a k \<noteq> UNUSED" if "t_st ?b k \<noteq> UNUSED" for k using that j by (cases "k = j") simp_all
  show "\<exists>d<n. t_cur ?b d = Some k" if "t_st ?b k = RUNNING" for k using that st tab_invD(3) [OF inv, of k] by simp
  show "t_pid ?b k < t_next ?b" if "t_st ?b k \<noteq> UNUSED" for k using tab_invD(4) [OF inv un [OF that]] by simp
  show "k = m" if "t_st ?b k \<noteq> UNUSED" "t_st ?b m \<noteq> UNUSED" "t_pid ?b k = t_pid ?b m" for k m
    using that(3) by (intro tab_invD(5) [OF inv un [OF that(1)] un [OF that(2)]]) simp
  show "d = e" if "d < n" "e < n" "t_cur ?b d = Some k" "t_cur ?b e = Some k" for d e k
    using that(3,4) by (intro tab_invD(2) [OF inv that(1,2)]) simp_all
qed

section \<open>Every step of the machine keeps the invariant\<close>

lemma tab_of_on_cpu [simp]: "tab_of (on_cpu c s) = tab_of s"
  by (simp add: tab_of_def on_cpu_def)

lemma on_cpu_hw [simp]: "ncpu (hw (on_cpu c s)) = ncpu (hw s)" "cpus (hw (on_cpu c s)) = cpus (hw s)"
  "locks (hw (on_cpu c s)) = locks (hw s)"
  by (simp_all add: on_cpu_def)

lemma this_cpu_on_cpu:
  assumes "inj_on (\<lambda>c. apicid (cpus (hw s) c)) {..<ncpu (hw s)}" "c < ncpu (hw s)"
  shows "this_cpu (hw (on_cpu c s)) = Some c"
proof -
  have "d = c" if "d < ncpu (hw s)" "apicid (cpus (hw s) d) = apicid (cpus (hw s) c)" for d
    using assms that by (auto simp: inj_on_def)
  then have "\<forall>j<c. apicid (cpus (hw s) j) \<noteq> apicid (cpus (hw s) c)" using assms(2) by (metis less_trans less_irrefl)
  then show ?thesis using assms(2)
    unfolding this_cpu_def find_Some_iff by (intro exI [of _ c]) (auto simp: on_cpu_def)
qed

lemma goes_inv:
  assumes inv: "mach_inv m" and t: "turns (on_cpu c (ker m)) s a" and a: "tab_inv (ncpu (hw (ker m))) a ((mode m)(c := x))"
  shows "mach_inv (goes m c s x)"
proof -
  have "ncpu (hw s) = ncpu (hw (ker m))" "\<And>d. apicid (cpus (hw s) d) = apicid (cpus (hw (ker m)) d)"
    using t unfolding turns_def hwid_def prod.inject fun_eq_iff by simp_all
  then show ?thesis using inv a turnsD(1) [OF t] by (simp add: mach_inv_def goes_def)
qed

text \<open>One lemma per group of steps: of the scheduler, of a process that comes back, and of a process that runs.\<close>

lemma mach_invD:
  assumes "mach_inv m"
  shows "tab_inv (ncpu (hw (ker m))) (tab_of (ker m)) (mode m)"
    and "c < ncpu (hw (ker m)) \<Longrightarrow> this_cpu (hw (on_cpu c (ker m))) = Some c"
    and "c < ncpu (hw (ker m)) \<Longrightarrow> mode_ok (tab_of (ker m)) c (mode m c)"
  using assms this_cpu_on_cpu tab_invD(1) by (auto simp: mach_inv_def)

lemma lock_kept: "t_lock a = l \<Longrightarrow> a\<lparr>t_lock := l\<rparr> = a"
  by simp

lemma scheduler_steps_inv:
  assumes inv: "mach_inv m" and c: "c < ncpu (hw (ker m))"
  shows "\<lbrakk>mode m c = InSched; scheduler_pass (on_cpu c (ker m)) = Inr (r, s)\<rbrakk>
      \<Longrightarrow> mach_inv (goes m c s (case r of None \<Rightarrow> InSched | Some j \<Rightarrow> Picked j))"
    and "\<lbrakk>mode m c = Leaving i; scheduler_resume i (on_cpu c (ker m)) = Inr (r, s)\<rbrakk>
      \<Longrightarrow> mach_inv (goes m c s (case r of None \<Rightarrow> InSched | Some j \<Rightarrow> Picked j))"
proof -
  let ?n = "ncpu (hw (ker m))" and ?a = "tab_of (ker m)"
  note t = mach_invD(1) [OF inv] and me = mach_invD(2) [OF inv c] and md = mach_invD(3) [OF inv c]
  {
    assume x: "mode m c = InSched" and p: "scheduler_pass (on_cpu c (ker m)) = Inr (r, s)"
    note e = scheduler_pass_table [OF p me]
    have l: "locked (t_lock ?a) = 0" using e(1) by simp
    show "mach_inv (goes m c s (case r of None \<Rightarrow> InSched | Some j \<Rightarrow> Picked j))"
    proof (cases r)
      case None
      have "tab_inv ?n (?a\<lparr>t_lock := nobody\<rparr>) ((mode m)(c := InSched))"
        using inv_wake [OF t c l only_wakes_refl] x by (simp add: fun_upd_idem)
      then show ?thesis using goes_inv [OF inv] e(2) None by fastforce
    next
      case (Some j)
      then have "t_st ?a j = RUNNABLE" using e(2) by simp
      from inv_pick [OF t c others_outside_free [OF t l] this] show ?thesis
        using goes_inv [OF inv] e(2) Some md x by (fastforce simp: mode_ok_simps)
    qed
  }
  {
    assume x: "mode m c = Leaving i" and p: "scheduler_resume i (on_cpu c (ker m)) = Inr (r, s)"
    note e = scheduler_resume_table [OF p me]
    have i: "t_cur ?a c = Some i" "t_st ?a i \<noteq> RUNNING" "t_lock ?a = by_cpu c" using md x by (auto simp: mode_ok_simps)
    show "mach_inv (goes m c s (case r of None \<Rightarrow> InSched | Some j \<Rightarrow> Picked j))"
    proof (cases r)
      case None
      then show ?thesis using goes_inv [OF inv] inv_release [OF t c x] e by fastforce
    next
      case (Some j)
      then have "t_st ?a j = RUNNABLE" using e by simp
      from inv_pick [OF t c others_outside_mine [OF t i(3)] this] show ?thesis
        using goes_inv [OF inv] e Some i by (fastforce simp: lock_kept)
    qed
  }
qed

lemma back_steps_inv:
  assumes inv: "mach_inv m" and c: "c < ncpu (hw (ker m))" and x: "mode m c = Picked i"
  shows "release L_ptable (on_cpu c (ker m)) = Inr s \<Longrightarrow> mach_inv (goes m c s (InProc i))"
    and "yield_in i (on_cpu c (ker m)) = Inr s \<Longrightarrow> mach_inv (goes m c s (InProc i))"
    and "\<lbrakk>lk \<noteq> L_ptable; sleep_in i lk (on_cpu c (ker m)) = Inr s\<rbrakk> \<Longrightarrow> mach_inv (goes m c s (InProc i))"
proof -
  note me = mach_invD(2) [OF inv c]
  note g = goes_inv [OF inv _ inv_drop [OF mach_invD(1) [OF inv] c x]]
  show "mach_inv (goes m c s (InProc i))" if "release L_ptable (on_cpu c (ker m)) = Inr s"
    using g release_table(1) [OF that me] by simp
  show "mach_inv (goes m c s (InProc i))" if "yield_in i (on_cpu c (ker m)) = Inr s"
    using g yield_in_table(1) [OF that me] by simp
  show "mach_inv (goes m c s (InProc i))" if "lk \<noteq> L_ptable" "sleep_in i lk (on_cpu c (ker m)) = Inr s"
    using g sleep_in_table(1) [OF that(2) me that(1)] by simp
qed

text \<open>A round of \<^verbatim>\<open>wait\<close> starts with the lock held and the process running: as in \<open>Picked\<close>.\<close>

lemma wait_outcome_inv:
  assumes inv: "tab_inv n a x" and c: "c < n" and x: "x c = Picked i" and u: "tab_of u = a"
    and o: "wait_outcome i u r"
  shows "r = Inr (v, s) \<Longrightarrow> \<exists>b. turns u s b \<and> tab_inv n b (x(c := InProc i))"
    and "r = Inl (Asleep s) \<Longrightarrow> \<exists>b. turns u s b \<and> tab_inv n b (x(c := Leaving i))"
proof -
  assume "r = Inr (v, s)"
  then obtain S P where sp: "S = t_st a \<and> P = t_pid a \<or> (\<exists>j<NPROC. t_st a j = ZOMBIE \<and> S = (t_st a)(j := UNUSED) \<and> P = (t_pid a)(j := 0))"
    and t: "turns u s (a\<lparr>t_st := S, t_pid := P, t_lock := nobody\<rparr>)"
    using o u unfolding wait_outcome_def by auto
  have "tab_inv n (a\<lparr>t_st := S, t_pid := P\<rparr>) (x(c := Picked i))" using sp
  proof
    assume "\<exists>j<NPROC. t_st a j = ZOMBIE \<and> S = (t_st a)(j := UNUSED) \<and> P = (t_pid a)(j := 0)"
    then show ?thesis using inv_reap [OF inv c _ x] by blast
  qed (use inv x in \<open>simp add: fun_upd_idem\<close>)
  from inv_drop [OF this c] show "\<exists>b. turns u s b \<and> tab_inv n b (x(c := InProc i))" using t by auto
next
  assume "r = Inl (Asleep s)"
  then have "turns u s (a\<lparr>t_st := (t_st a)(i := SLEEPING)\<rparr>)" using o u unfolding wait_outcome_def by auto
  moreover have "tab_inv n (a\<lparr>t_st := (t_st a)(i := SLEEPING)\<rparr>) (x(c := Leaving i))" by (rule inv_leave_locked [OF inv c x]) simp
  ultimately show "\<exists>b. turns u s b \<and> tab_inv n b (x(c := Leaving i))" by blast
qed

lemma wait_steps_inv:
  assumes inv: "mach_inv m" and c: "c < ncpu (hw (ker m))"
    and r: "mode m c = Picked i \<and> wait_in i (on_cpu c (ker m)) = r \<or> mode m c = InProc i \<and> wait (on_cpu c (ker m)) = r"
  shows "r = Inr (v, s) \<Longrightarrow> mach_inv (goes m c s (InProc i))"
    and "r = Inl (Asleep s) \<Longrightarrow> mach_inv (goes m c s (Leaving i))"
proof -
  let ?s = "on_cpu c (ker m)" and ?n = "ncpu (hw (ker m))" and ?a = "tab_of (ker m)"
  note t = mach_invD(1) [OF inv] and me = mach_invD(2) [OF inv c] and md = mach_invD(3) [OF inv c]
  have cur: "t_cur (tab_of ?s) c = Some i" using md r by (auto simp: mode_ok_simps)
  have ex: "\<exists>u b. turns ?s u b \<and> tab_inv ?n b ((mode m)(c := Picked i)) \<and> wait_outcome i u r" if w: "\<not> awake r \<or> (\<exists>x. r = Inr x)"
    using r
  proof (elim disjE conjE)
    assume x: "mode m c = Picked i" and e: "wait_in i ?s = r"
    from wait_in_table [OF e me cur w] show ?thesis using t x by (metis fun_upd_triv tab_of_on_cpu)
  next
    assume x: "mode m c = InProc i" and e: "wait ?s = r"
    from wait_table [OF e me cur w] show ?thesis using inv_take [OF t c x] by (metis tab_of_on_cpu)
  qed
  have two: "\<exists>b. turns ?s s b \<and> tab_inv ?n b ((mode m)(c := InProc i))" if e: "r = Inr (v, s)"
  proof -
    obtain u b where u: "turns ?s u b" "tab_inv ?n b ((mode m)(c := Picked i))" "wait_outcome i u r" using ex e by blast
    then show ?thesis using wait_outcome_inv(1) [OF u(2) c _ turnsD(1) [OF u(1)] u(3) e] turns_trans [OF u(1)] by fastforce
  qed
  have three: "\<exists>b. turns ?s s b \<and> tab_inv ?n b ((mode m)(c := Leaving i))" if e: "r = Inl (Asleep s)"
  proof -
    obtain u b where u: "turns ?s u b" "tab_inv ?n b ((mode m)(c := Picked i))" "wait_outcome i u r" using ex e by (auto simp: awake_def)
    then show ?thesis using wait_outcome_inv(2) [OF u(2) c _ turnsD(1) [OF u(1)] u(3) e] turns_trans [OF u(1)] by fastforce
  qed
  show "r = Inr (v, s) \<Longrightarrow> mach_inv (goes m c s (InProc i))" using two goes_inv [OF inv] by blast
  show "r = Inl (Asleep s) \<Longrightarrow> mach_inv (goes m c s (Leaving i))" using three goes_inv [OF inv] by blast
qed

lemma away_steps_inv:
  assumes inv: "mach_inv m" and c: "c < ncpu (hw (ker m))" and x: "mode m c = InProc i"
  shows "yield_out (on_cpu c (ker m)) = Inr s \<Longrightarrow> mach_inv (goes m c s (Leaving i))"
    and "\<lbrakk>lk \<noteq> L_ptable; sleep_out ch lk (on_cpu c (ker m)) = Inr s\<rbrakk> \<Longrightarrow> mach_inv (goes m c s (Leaving i))"
    and "exit_out i (on_cpu c (ker m)) = Inr s \<Longrightarrow> mach_inv (goes m c s (Leaving i))"
proof -
  let ?s = "on_cpu c (ker m)" and ?a = "tab_of (ker m)"
  note t = mach_invD(1) [OF inv] and me = mach_invD(2) [OF inv c] and md = mach_invD(3) [OF inv c]
  have cur: "t_cur ?a c = Some i" using md x by (simp add: mode_ok_simps)
  have g: "mach_inv (goes m c s (Leaving i))" if "locked (t_lock ?a) = 0" "only_wakes (t_st ?a) S" "y \<noteq> RUNNING"
    "turns ?s s (?a\<lparr>t_st := S(i := y), t_lock := by_cpu c\<rparr>)" for S y
    using goes_inv [OF inv that(4) inv_leave [OF t c x that(1-3)]] .
  have cm: "?a\<lparr>t_lock := l, t_st := f\<rparr> = ?a\<lparr>t_st := f, t_lock := l\<rparr>" for l f by simp
  show "mach_inv (goes m c s (Leaving i))" if "yield_out ?s = Inr s"
    by (rule yield_out_table [OF that me]) (use g [OF _ only_wakes_refl, of RUNNABLE] cur cm in auto)
  show "mach_inv (goes m c s (Leaving i))" if "lk \<noteq> L_ptable" "sleep_out ch lk ?s = Inr s"
    by (rule sleep_out_table [OF that(2) me]) (use g [OF _ only_wakes_refl, of SLEEPING] cur cm that(1) in auto)
  show "mach_inv (goes m c s (Leaving i))" if "exit_out i ?s = Inr s"
    by (rule exit_out_table [OF that me]) (use g in auto)
qed

lemma running_steps_inv:
  assumes inv: "mach_inv m" and c: "c < ncpu (hw (ker m))" and x: "mode m c = InProc i"
  shows "allocproc_claim (on_cpu c (ker m)) = Inr (r, s) \<Longrightarrow> mach_inv (goes m c s (InProc i))"
    and "\<lbrakk>p_state (procs (ker m) np) = EMBRYO; fork_publish np (on_cpu c (ker m)) = Inr s\<rbrakk> \<Longrightarrow> mach_inv (goes m c s (InProc i))"
    and "p_state (procs (ker m) np) = EMBRYO \<Longrightarrow> mach_inv (goes m c (upd_proc np (\<lambda>q. q\<lparr>p_state := UNUSED\<rparr>) (on_cpu c (ker m))) (InProc i))"
proof -
  let ?s = "on_cpu c (ker m)" and ?a = "tab_of (ker m)" and ?n = "ncpu (hw (ker m))"
  note t = mach_invD(1) [OF inv] and me = mach_invD(2) [OF inv c]
  show "mach_inv (goes m c s (InProc i))" if r: "allocproc_claim ?s = Inr (r, s)"
  proof (cases r)
    case None
    have "tab_inv ?n (?a\<lparr>t_lock := nobody\<rparr>) ((mode m)(c := InProc i))"
      using inv_wake [OF t c _ only_wakes_refl] allocproc_claim_table(1) [OF r me] x by (simp add: fun_upd_idem)
    then show ?thesis using goes_inv [OF inv] allocproc_claim_table(2) [OF r me] None by fastforce
  next
    case (Some j)
    then show ?thesis using goes_inv [OF inv] inv_claim [OF t c x] allocproc_claim_table [OF r me] by fastforce
  qed
  have e: "t_st ?a np = EMBRYO" if "p_state (procs (ker m) np) = EMBRYO" using that by (simp add: tab_of_def)
  show "mach_inv (goes m c s (InProc i))" if "p_state (procs (ker m) np) = EMBRYO" "fork_publish np ?s = Inr s"
    using goes_inv [OF inv] inv_embryo [OF t c x e [OF that(1)], of RUNNABLE nobody] fork_publish_table [OF that(2) me] by fastforce
  show "mach_inv (goes m c (upd_proc np (\<lambda>q. q\<lparr>p_state := UNUSED\<rparr>) ?s) (InProc i))" if "p_state (procs (ker m) np) = EMBRYO"
  proof (rule goes_inv [OF inv])
    show "turns ?s (upd_proc np (\<lambda>q. q\<lparr>p_state := UNUSED\<rparr>) ?s) ((tab_of ?s)\<lparr>t_st := (t_st (tab_of ?s))(np := UNUSED)\<rparr>)"
      by (rule upd_state_turns) simp_all
    show "tab_inv ?n ((tab_of ?s)\<lparr>t_st := (t_st (tab_of ?s))(np := UNUSED)\<rparr>) ((mode m)(c := InProc i))"
      using inv_embryo [OF t c x e [OF that], of UNUSED "t_lock ?a"] by simp
  qed
qed

lemma table_steps_inv:
  assumes inv: "mach_inv m" and c: "c < ncpu (hw (ker m))" and x: "mode m c = x"
  shows "kill pid (on_cpu c (ker m)) = Inr (r, s) \<Longrightarrow> mach_inv (goes m c s x)"
    and "wakeup ch (on_cpu c (ker m)) = Inr s \<Longrightarrow> mach_inv (goes m c s x)"
    and "\<lbrakk>lk \<noteq> L_ptable; acquire lk (on_cpu c (ker m)) = Inr s\<rbrakk> \<Longrightarrow> mach_inv (goes m c s x)"
    and "\<lbrakk>lk \<noteq> L_ptable; release lk (on_cpu c (ker m)) = Inr s\<rbrakk> \<Longrightarrow> mach_inv (goes m c s x)"
proof -
  let ?s = "on_cpu c (ker m)" and ?a = "tab_of (ker m)" and ?n = "ncpu (hw (ker m))"
  note t = mach_invD(1) [OF inv] and me = mach_invD(2) [OF inv c]
  have mx: "(mode m)(c := x) = mode m" using x by (simp add: fun_upd_idem)
  have g: "mach_inv (goes m c s x)" if "only_wakes (t_st ?a) S" "locked (t_lock ?a) = 0" "turns ?s s (?a\<lparr>t_st := S, t_lock := nobody\<rparr>)" for S
    by (rule goes_inv [OF inv that(3)]) (simp add: mx inv_wake [OF t c that(2,1)])
  show "mach_inv (goes m c s x)" if "kill pid ?s = Inr (r, s)" by (rule kill_table [OF that me]) (use g in auto)
  show "mach_inv (goes m c s x)" if "wakeup ch ?s = Inr s" by (rule wakeup_table [OF that me]) (use g in auto)
  have h: "mach_inv (goes m c s x)" if "turns ?s s (tab_of ?s)" by (rule goes_inv [OF inv that]) (simp add: mx t)
  show "mach_inv (goes m c s x)" if "lk \<noteq> L_ptable" "acquire lk ?s = Inr s"
    using other_lock_turns(1) that acquire_Inr [OF that(2) me] h by blast
  show "mach_inv (goes m c s x)" if "lk \<noteq> L_ptable" "release lk ?s = Inr s"
    using other_lock_turns(2) that release_Inr [OF that(2) me] h by blast
qed

theorem sched_step_inv:
  assumes "sched_step m m'" "mach_inv m" shows "mach_inv m'"
  using assms
proof (induction rule: sched_step.induct)
  case pass_pick from scheduler_steps_inv(1) [OF pass_pick(4,1-3)] show ?case by simp
next
  case pass_idle from scheduler_steps_inv(1) [OF pass_idle(4,1-3)] show ?case by simp
next
  case resume_pick from scheduler_steps_inv(2) [OF resume_pick(4,1-3)] show ?case by simp
next
  case resume_end from scheduler_steps_inv(2) [OF resume_end(4,1-3)] show ?case by simp
next
  case wait_back with wait_steps_inv(1) [OF wait_back(4,1)] show ?case by blast
next
  case wait_again with wait_steps_inv(2) [OF wait_again(4,1)] show ?case by blast
next
  case wait_away with wait_steps_inv(2) [OF wait_away(4,1)] show ?case by blast
next
  case wait_return with wait_steps_inv(1) [OF wait_return(4,1)] show ?case by blast
qed (blast intro: back_steps_inv away_steps_inv running_steps_inv table_steps_inv)+

section \<open>Reachable states\<close>

text \<open>
  The start: every processor in its scheduler, the first process made runnable by \<^verbatim>\<open>userinit\<close> and the other
  slots unused.
\<close>

definition at_boot :: "mach \<Rightarrow> bool" where
  "at_boot m \<longleftrightarrow> inj_on (\<lambda>c. apicid (cpus (hw (ker m)) c)) {..<ncpu (hw (ker m))}
     \<and> (\<forall>c<ncpu (hw (ker m)). mode m c = InSched \<and> cpu_proc (cpus (hw (ker m)) c) = None)
     \<and> (\<exists>i. p_state (procs (ker m) i) = RUNNABLE \<and> p_pid (procs (ker m) i) < nextpid (ker m)
         \<and> (\<forall>j. j \<noteq> i \<longrightarrow> p_state (procs (ker m) j) = UNUSED))"

lemma at_boot_inv: "at_boot m \<Longrightarrow> mach_inv m"
proof -
  assume b: "at_boot m"
  then obtain i where i: "p_state (procs (ker m) i) = RUNNABLE" "p_pid (procs (ker m) i) < nextpid (ker m)"
    and others: "\<And>j. p_state (procs (ker m) j) \<noteq> UNUSED \<Longrightarrow> j = i" unfolding at_boot_def by blast
  have one: "t_st (tab_of (ker m)) j \<noteq> UNUSED \<Longrightarrow> j = i" for j using others by (simp add: tab_of_def)
  have "tab_inv (ncpu (hw (ker m))) (tab_of (ker m)) (mode m)"
  proof (rule tab_invI)
    show "\<exists>c<ncpu (hw (ker m)). t_cur (tab_of (ker m)) c = Some j" if "t_st (tab_of (ker m)) j = RUNNING" for j
    proof -
      have "j = i" using that by (intro one) simp
      then show ?thesis using that i(1) by (simp add: tab_of_def)
    qed
    show "t_pid (tab_of (ker m)) j < t_next (tab_of (ker m))" if "t_st (tab_of (ker m)) j \<noteq> UNUSED" for j
      using one [OF that] i(2) by (simp add: tab_of_def)
    show "j = k" if "t_st (tab_of (ker m)) j \<noteq> UNUSED" "t_st (tab_of (ker m)) k \<noteq> UNUSED" for j k
      using one [OF that(1)] one [OF that(2)] by simp
  qed (use b in \<open>auto simp: at_boot_def mode_ok_def tab_of_def\<close>)
  then show ?thesis using b by (simp add: mach_inv_def at_boot_def)
qed

interpretation sched: machine at_boot sched_step mach_inv
  by unfold_locales (auto intro: at_boot_inv sched_step_inv)

lemma inv_one_cpu:
  assumes "mach_inv m" "locked (locks (hw (ker m)) L_ptable) = 0" "c < ncpu (hw (ker m))" "cpu_proc (cpus (hw (ker m)) c) = Some i"
  shows "p_state (procs (ker m) i) = RUNNING"
proof -
  have "mode_ok (tab_of (ker m)) c (mode m c)" by (rule mach_invD(3) [OF assms(1,3)])
  then show ?thesis using assms(2,4) by (cases "mode m c") (auto simp: mode_ok_simps tab_of_def by_cpu_def)
qed


end
