(* ===== verification/Sched_Live.thy ===== *)
theory Sched_Live
  imports Sched_Inv
begin

text \<open>
  Progress of the scheduler (\<^verbatim>\<open>proc.c\<close>): a pass of a processor over the process table switches to every
  process that is runnable, in the order of the table.
\<close>

section \<open>Switching to a process succeeds\<close>

definition switching :: "nat \<Rightarrow> 'a pst_scheme \<Rightarrow> bool" where
  "switching c s \<longleftrightarrow> this_cpu (hw s) = Some c \<and> \<not> intr_on (hw s) \<and> 0 < ncli (cpus (hw s) c)"

definition startable :: "(nat \<Rightarrow> proc) \<Rightarrow> bool" where
  "startable P \<longleftrightarrow> (\<forall>i<NPROC. p_state (P i) = RUNNABLE \<longrightarrow> p_kstack (P i) \<noteq> 0 \<and> p_pgdir (P i) \<noteq> 0)"

lemma switching_upd_cpu:
  assumes "switching c s" "\<And>q. apicid (f q) = apicid q \<and> ncli (f q) = ncli q"
  shows "switching c (upd_cpu d f s)"
proof -
  have "this_cpu (hw (upd_cpu d f s)) = this_cpu (hw s)" by (rule this_cpu_cong) (simp_all add: upd_cpu_def assms(2))
  then show ?thesis using assms by (auto simp: switching_def upd_cpu_def intr_on_def)
qed

lemma switching_load_task: "switching c s \<Longrightarrow> switching c (load_task i c s)"
proof -
  assume c: "switching c s"
  have r: "switching c s \<Longrightarrow> switching c (ltr x s)" "switching c s \<Longrightarrow> switching c (lcr3 y s)" for s :: "'a pst_scheme" and x y
    by (simp_all add: switching_def ltr_def lcr3_def intr_on_def this_cpu_def)
  show ?thesis unfolding load_task_def Let_def
    by (rule r switching_upd_cpu c | simp)+
qed

lemma switchuvm_returns:
  assumes c: "switching c s" and "p_kstack (procs s i) \<noteq> 0" "p_pgdir (procs s i) \<noteq> 0"
  shows "\<exists>t. switchuvm (Some i) s = Inr t"
proof -
  let ?u = "s\<lparr>hw := pushed (hw s)\<rparr>"
  have "switching c ?u" using c by (simp add: switching_def, simp add: pushed_def me_def)
  then have l: "switching c (load_task i c ?u)" by (rule switching_load_task)
  have "pushcli s = Inr ?u" "mycpu ?u = Inr c" using c \<open>switching c ?u\<close> by (auto simp: switching_def intro: pushcli_eq)
  moreover have "popcli (load_task i c ?u) = Inr ((load_task i c ?u)\<lparr>hw := popped (hw (load_task i c ?u))\<rparr>)"
    using l by (intro popcli_eq [of _ c]) (simp_all add: switching_def)
  ultimately show ?thesis using assms(2,3) by (simp add: switchuvm_eq del: mycpu_eq)
qed

lemma scheduler_pick_returns:
  assumes c: "switching c s" and "p_kstack (procs s i) \<noteq> 0" "p_pgdir (procs s i) \<noteq> 0"
  shows "\<exists>t. scheduler_pick i s = Inr t"
proof -
  let ?u = "upd_cpu c (\<lambda>q. q\<lparr>cpu_proc := Some i\<rparr>) s"
  have m: "mycpu s = Inr c" using c by (simp add: switching_def)
  have "procs ?u = procs s" by (simp add: upd_cpu_def)
  then obtain t where "switchuvm (Some i) ?u = Inr t" using switchuvm_returns [of c ?u i] switching_upd_cpu [OF c] assms(2,3) by auto
  then show ?thesis using m by (simp add: scheduler_pick_def del: mycpu_eq)
qed

section \<open>A scan picks the first runnable process\<close>

lemma scheduler_from_picks:
  assumes "switching c s" "startable (procs s)" "i \<le> k" "k < NPROC" "p_state (procs s k) = RUNNABLE"
  shows "\<exists>j t. scheduler_from i s = Inr (Some j, t) \<and> i \<le> j \<and> j \<le> k"
  using assms
proof (induction i s rule: scheduler_from.induct)
  case (1 i s)
  have i: "i < NPROC" using 1 by simp
  show ?case
  proof (cases "p_state (procs s i) = RUNNABLE")
    case True
    then obtain t where "scheduler_pick i s = Inr t" using scheduler_pick_returns [OF 1(2)] 1(3) i by (auto simp: startable_def)
    then show ?thesis using True i 1(4) by (simp add: scheduler_from.simps [of i])
  next
    case False
    then have "i + 1 \<le> k" using 1(4,6) by (cases "i = k") simp_all
    then obtain j t where "scheduler_from (i + 1) s = Inr (Some j, t) \<and> i + 1 \<le> j \<and> j \<le> k" using 1(1) [OF i False 1(2,3) _ 1(5,6)] by blast
    then show ?thesis using False i by (auto simp: scheduler_from.simps [of i])
  qed
qed

text \<open>The loop goes on after the process it had switched to, or starts a new pass with the lock free.\<close>

definition between :: "nat \<Rightarrow> 'a pst_scheme \<Rightarrow> bool" where
  "between c s \<longleftrightarrow> this_cpu (hw s) = Some c \<and> ncli (cpus (hw s) c) = 0 \<and> free_lock (hw s) L_ptable"

lemma scheduler_resume_picks:
  assumes c: "switching c s" and st: "startable (procs s)" and k: "i < k" "k < NPROC" "p_state (procs s k) = RUNNABLE"
  shows "\<exists>j t. scheduler_resume i s = Inr (Some j, t) \<and> i < j \<and> j \<le> k"
proof -
  let ?u = "upd_cpu c (\<lambda>q. q\<lparr>cpu_proc := None\<rparr>) (switchkvm s)"
  have s: "switching c (switchkvm s)" using c by (simp add: switching_def switchkvm_def lcr3_def intr_on_def this_cpu_def)
  then have r: "scheduler_return s = Inr ?u" by (simp add: scheduler_return_def switching_def)
  have "procs ?u = procs s" by (simp add: upd_cpu_def switchkvm_def lcr3_def)
  then have "\<exists>j t. scheduler_from (i + 1) ?u = Inr (Some j, t) \<and> i + 1 \<le> j \<and> j \<le> k"
    using st k by (intro scheduler_from_picks [OF switching_upd_cpu [OF s]]) simp_all
  then show ?thesis using r by (auto simp: scheduler_resume_def)
qed

lemma scheduler_pass_picks:
  assumes c: "between c s" and st: "startable (procs s)" and k: "k < NPROC" "p_state (procs s k) = RUNNABLE"
  shows "\<exists>j t. scheduler_pass s = Inr (Some j, t) \<and> j \<le> k"
proof -
  let ?u = "(sti s)\<lparr>hw := took L_ptable (hw (sti s))\<rparr>"
  have m: "this_cpu (hw (sti s)) = Some c" "ncli (cpus (hw (sti s)) c) = 0" "free_lock (hw (sti s)) L_ptable"
    using c by (simp_all add: between_def sti_def this_cpu_def free_lock_def)
  then have "acquire L_ptable (sti s) = Inr ?u" by (intro acquire_eq) (simp_all add: cpu_ok_def)
  moreover have "switching c ?u" using m by (simp add: switching_def took_fields, simp add: pushed_def me_def took_def)
  moreover have "procs ?u = procs s" by (simp add: sti_def)
  ultimately show ?thesis using scheduler_from_picks [of c ?u 0 k] st k by (simp add: scheduler_pass_def)
qed

section \<open>Turns\<close>

text \<open>
  The picks of one processor, one after the other: \<open>f 0\<close> is the state in which it begins a pass, \<open>f n\<close> for
  a later \<open>n\<close> the state in which the process picked before has switched back, after whatever that process and the
  other processors did in between.
\<close>

primrec turn :: "(nat \<Rightarrow> pst) \<Rightarrow> nat \<Rightarrow> pst stop + (nat option \<times> pst)" where
  "turn f 0 = scheduler_pass (f 0)"
| "turn f (Suc n) = bnd (turn f n) (\<lambda>(r, _). case r of
     None \<Rightarrow> scheduler_pass (f (Suc n))
   | Some i \<Rightarrow> scheduler_resume i (f (Suc n)))"

definition picked :: "(nat \<Rightarrow> pst) \<Rightarrow> nat \<Rightarrow> nat \<Rightarrow> bool" where
  "picked f k n = (case turn f n of Inr (Some j, _) \<Rightarrow> j = k | _ \<Rightarrow> False)"

text \<open>
  The process \<open>k\<close> is runnable as long as the processor has not switched to it; every runnable process has its
  stack and page directory; the processor comes back to its scheduler as \<^verbatim>\<open>sched\<close> leaves it.
\<close>

definition waits_for_turn :: "nat \<Rightarrow> nat \<Rightarrow> (nat \<Rightarrow> pst) \<Rightarrow> bool" where
  "waits_for_turn c k f \<longleftrightarrow> between c (f 0) \<and> (\<forall>n. (\<forall>m<n. \<not> picked f k m) \<longrightarrow>
     (0 < n \<longrightarrow> switching c (f n)) \<and> startable (procs (f n)) \<and> p_state (procs (f n) k) = RUNNABLE)"

lemma turn_advances:
  assumes w: "waits_for_turn c k f" and k: "k < NPROC"
  shows "(\<forall>m\<le>n. \<not> picked f k m) \<Longrightarrow> \<exists>j t. turn f n = Inr (Some j, t) \<and> n \<le> j \<and> j < k"
proof (induction n)
  case 0
  obtain j t where j: "scheduler_pass (f 0) = Inr (Some j, t)" "j \<le> k"
    using scheduler_pass_picks [of c "f 0" k] w k unfolding waits_for_turn_def by blast
  moreover have "j \<noteq> k" using 0 j by (simp add: picked_def)
  ultimately show ?case by simp
next
  case (Suc n)
  then obtain j t where j: "turn f n = Inr (Some j, t)" "n \<le> j" "j < k" by auto
  have "\<forall>m<Suc n. \<not> picked f k m" using Suc.prems by simp
  then obtain i u where i: "scheduler_resume j (f (Suc n)) = Inr (Some i, u)" "j < i" "i \<le> k"
    using scheduler_resume_picks [OF _ _ j(3) k, of c "f (Suc n)"] w unfolding waits_for_turn_def by blast
  then have t: "turn f (Suc n) = Inr (Some i, u)" using j(1) by simp
  moreover have "i \<noteq> k" using Suc.prems t by (auto simp: picked_def simp del: turn.simps)
  ultimately show ?case using i(2,3) j(2) by (intro exI [of _ i] exI [of _ u]) (simp del: turn.simps)
qed

lemma turn_runs:
  assumes "turn f n = Inr (Some k, t)" "this_cpu (hw (f n)) = Some c"
  shows "p_state (procs t k) = RUNNING \<and> cpu_proc (cpus (hw t) c) = Some k"
proof -
  have "t_st (tab_of t) k = RUNNING \<and> t_cur (tab_of t) c = Some k"
  proof (cases "scheduler_pass (f n) = Inr (Some k, t)")
    case True
    then show ?thesis using scheduler_pass_table(2) [OF True assms(2)] by (auto dest!: turnsD(1))
  next
    case False
    then obtain i where "scheduler_resume i (f n) = Inr (Some k, t)"
      using assms(1) by (cases n) (auto split: option.splits)
    then show ?thesis using scheduler_resume_table [OF _ assms(2)] by (fastforce dest!: turnsD(1))
  qed
  then show ?thesis by (simp add: tab_of_def)
qed

text \<open>
  C10: A processor that starts a pass switches to a process that stays runnable after at most as
  many other processes as come before it in the table, whatever those processes and the other processors do
  meanwhile: no runnable process is passed over.
\<close>

theorem runnable_gets_turn:
  assumes "waits_for_turn c k f" and "k < NPROC"
  shows "\<exists>n\<le>k. \<exists>t. turn f n = Inr (Some k, t) \<and> p_state (procs t k) = RUNNING \<and> cpu_proc (cpus (hw t) c) = Some k"
proof -
  have "\<exists>m\<le>k. picked f k m"
  proof (rule ccontr)
    assume "\<not> (\<exists>m\<le>k. picked f k m)"
    then obtain j where "k \<le> j" "j < k" using turn_advances [OF assms, of k] by blast
    then show False by simp
  qed
  then obtain n where n: "n \<le> k" "picked f k n" "\<forall>m<n. \<not> picked f k m" using exists_least_iff [of "picked f k"] by (metis le_trans nat_le_linear not_le)
  then obtain t where t: "turn f n = Inr (Some k, t)" by (auto simp: picked_def split: sum.splits option.splits prod.splits)
  have "this_cpu (hw (f n)) = Some c" using assms(1) n(3) unfolding waits_for_turn_def between_def switching_def by (cases "n = 0") auto
  with n(1) t turn_runs show ?thesis by blast
qed

text \<open>Two processors and two runnable processes.\<close>

definition two_ready :: pst where
  "two_ready = \<lparr>hw = two_cpus, mem = (\<lambda>_. 0), freelist = 0, use_lock = True, sym_end = 0x80100000,
     sym_data = 0x80101000, kpgdir = 0x80200000,
     procs = (\<lambda>i. no_proc\<lparr>p_state := if i < 2 then RUNNABLE else UNUSED, p_pid := int i + 1, p_kstack := 0x80300000, p_pgdir := 0x80400000\<rparr>),
     nextpid = 3, initproc = Some 0, sym_trapret = 0, sym_forkret = 0, sym_ts = (\<lambda>_. 0)\<rparr>"

lemma two_ready_between: "between 0 two_ready" "startable (procs two_ready)"
  by (simp_all add: between_def startable_def two_ready_def two_cpus_me free_lock_def) (simp_all add: two_cpus_def)

theorem runnable_gets_turn_witness:
  "let f = (\<lambda>n. if n = 0 then two_ready else two_ready\<lparr>hw := took L_ptable two_cpus\<rparr>) in
   waits_for_turn 0 1 f \<and> (\<exists>n\<le>1. \<exists>t. turn f n = Inr (Some 1, t) \<and> p_state (procs t 1) = RUNNING \<and> cpu_proc (cpus (hw t) 0) = Some 1)"
proof -
  let ?f = "\<lambda>n::nat. if n = 0 then two_ready else two_ready\<lparr>hw := took L_ptable two_cpus\<rparr>"
  have "switching 0 (two_ready\<lparr>hw := took L_ptable two_cpus\<rparr>)"
    by (simp add: switching_def took_def two_cpus_me) (simp add: pushed_def two_cpus_me, simp add: two_cpus_def)
  moreover have "p_state (procs two_ready 1) = RUNNABLE" by (simp add: two_ready_def)
  ultimately have w: "waits_for_turn 0 1 ?f" using two_ready_between unfolding waits_for_turn_def by simp
  then show ?thesis using runnable_gets_turn [OF w] by (simp add: NPROC_def)
qed

text \<open>From the boot, processor 0 switches to the first process.\<close>

definition first_boot :: mach where
  "first_boot = \<lparr>ker = two_ready\<lparr>procs := (procs two_ready)(1 := no_proc)\<rparr>, mode = (\<lambda>_. InSched)\<rparr>"

lemma first_boot_step: "\<exists>s. sched_step\<^sup>*\<^sup>* first_boot (goes first_boot 0 s (Picked 0))"
proof -
  let ?s = "on_cpu 0 (ker first_boot)"
  have "this_cpu (two_cpus\<lparr>lapicid := 0\<rparr>) = Some 0" using two_cpus_me(1) by (simp add: two_cpus_def)
  then have "between 0 ?s" by (simp add: between_def first_boot_def on_cpu_def two_ready_def free_lock_def) (simp add: two_cpus_def)
  moreover have "startable (procs ?s)" by (simp add: startable_def first_boot_def on_cpu_def two_ready_def no_proc_def)
  ultimately obtain j t where "scheduler_pass ?s = Inr (Some j, t)" "j \<le> 0"
    using scheduler_pass_picks [of 0 ?s 0] by (auto simp: first_boot_def on_cpu_def two_ready_def NPROC_def)
  then have "sched_step first_boot (goes first_boot 0 t (Picked 0))"
    by (intro sched_step.pass_pick) (simp_all add: first_boot_def two_ready_def, simp add: two_cpus_def)
  then show ?thesis by blast
qed

lemma first_boot_at_boot: "at_boot first_boot"
  using two_cpus_booted unfolding at_boot_def booted_def
  by (auto simp: first_boot_def two_ready_def no_proc_def intro!: exI [of _ 0]) (simp_all add: two_cpus_def)


section \<open>No wakeup is missed\<close>

lemma sched_out_frame:
  assumes "sched_out s = Inr t"
  shows "locks (hw t) = locks (hw s)" "p_state (procs t j) = p_state (procs s j)" "p_chan (procs t j) = p_chan (procs s j)"
proof -
  obtain p u where u: "myproc s = Inr (p, u)" using assms by (auto simp: sched_out_def)
  then have s: "same s u" using myproc_Inr by blast
  from assms u obtain i f where "t = upd_proc i f u" "\<And>q. p_state (f q) = p_state q \<and> p_chan (f q) = p_chan q"
    by (force simp: sched_out_def split: if_splits option.splits)
  then show "locks (hw t) = locks (hw s)" "p_state (procs t j) = p_state (procs s j)" "p_chan (procs t j) = p_chan (procs s j)"
    using s by (simp_all add: same_def upd_proc_def)
qed

lemma sleep_out_state:
  assumes "sleep_out ch lk s = Inr t" "this_cpu (hw s) = Some c" "lk \<noteq> L_ptable"
  obtains i where "cpu_proc (cpus (hw s) c) = Some i" "p_state (procs t i) = SLEEPING" "p_chan (procs t i) = Some ch"
    "locked (locks (hw s) lk) \<noteq> 0" "lk_cpu (locks (hw s) lk) = Some c" "locked (locks (hw t) lk) = 0"
    "locks (hw t) L_ptable = by_cpu c"
proof -
  obtain p u where u: "myproc s = Inr (p, u)" using assms(1) by (auto simp: sleep_out_def)
  then have su: "same s u" "p = cpu_proc (cpus (hw s) c)" using myproc_Inr assms(2) by fastforce+
  obtain i where i: "p = Some i" using assms(1) u by (auto simp: sleep_out_def split: option.splits)
  obtain w v where w: "acquire L_ptable u = Inr w" "release lk w = Inr v"
    and so: "sched_out (upd_proc i (\<lambda>p. p\<lparr>p_state := SLEEPING\<rparr>) (upd_proc i (\<lambda>p. p\<lparr>p_chan := Some ch\<rparr>) v)) = Inr t"
    using assms(1,3) u i unfolding sleep_out_def Let_def by (auto simp: bnd_eq_Inr)
  have tl: "took_lock L_ptable c u w" using acquire_Inr [OF w(1)] same_this_cpu [OF su(1)] assms(2) by simp
  then have "this_cpu (hw w) = Some c" using cpuv_this_cpu [of "hw w" "hw u"] same_this_cpu [OF su(1)] assms(2) by (simp add: took_lock_def)
  then have ll: "left_lock lk c w v" using release_Inr [OF w(2)] by simp
  have l: "locks (hw t) = locks (hw v)" "p_state (procs t i) = SLEEPING" "p_chan (procs t i) = Some ch"
    using sched_out_frame [OF so] by (simp_all add: upd_proc_def)
  show thesis
    by (rule that [of i]) (use l su i tl ll assms(3) in \<open>auto simp: took_lock_def left_lock_def same_def by_cpu_def\<close>)
qed

lemma acquire_taken: "\<lbrakk>locked (locks (hw s) lk) \<noteq> 0; this_cpu (hw s) = Some d\<rbrakk> \<Longrightarrow> acquire lk s \<noteq> Inr t"
  for s :: "'a pst_scheme"
  using acquire_Inr [of lk s t d] by (auto simp: took_lock_def)

lemma wakeup_wakes:
  assumes "wakeup ch u = Inr v" "this_cpu (hw u) = Some d"
  shows "procs v = woken (Some ch) (procs u)"
proof -
  obtain w where w: "acquire L_ptable u = Inr w" "release L_ptable (wakeup1 (Some ch) w) = Inr v"
    using assms(1) by (auto simp: wakeup_def)
  note q = acquire_Inr [OF w(1) assms(2)]
  have "this_cpu (hw (wakeup1 (Some ch) w)) = Some d" using q assms(2) cpuv_this_cpu [of "hw w" "hw u"] by (simp add: wakeup1_eq took_lock_def)
  from release_Inr [OF w(2) this] show ?thesis using q by (simp add: left_lock_def took_lock_def wakeup1_eq)
qed


text \<open>Process 0 on processor 0 waits for a tick.\<close>

definition tick_waiter :: pst where
  "tick_waiter = two_ready\<lparr>hw := two_cpus\<lparr>cpus := (cpus two_cpus)(0 := (cpus two_cpus 0)\<lparr>ncli := 1, cpu_proc := Some 0\<rparr>),
       flags_reg := (\<lambda>_. 0), locks := (locks two_cpus)(L_ticks := \<lparr>locked = 1, lk_cpu = Some 0\<rparr>)\<rparr>,
     procs := (procs two_ready)(0 := (procs two_ready 0)\<lparr>p_state := RUNNING\<rparr>)\<rparr>"

lemma tick_waiter_sleeps: "\<exists>t. sleep_out C_ticks L_ticks tick_waiter = Inr t"
  by (simp add: sleep_out_def myproc_def pushcli_def popcli_def acquire_def release_def holding_def sched_out_def mycpu_def
      readeflags_def cli_def sti_def upd_cpu_def upd_lock_def upd_proc_def this_cpu_def Let_def tick_waiter_def two_ready_def two_cpus_def
      upt_rec FL_IF_def del: mycpu_eq)


section \<open>Killing\<close>

definition kill_mark :: "proc \<Rightarrow> proc" where
  "kill_mark p = p\<lparr>p_killed := True, p_state := if p_state p = SLEEPING then RUNNABLE else p_state p\<rparr>"

lemma kill_eq:
  assumes "cpu_ok (hw s)" "free_lock (hw s) L_ptable"
  shows "kill pid s = Inr (case List.find (\<lambda>i. p_pid (procs s i) = pid) [0..<NPROC] of
     None \<Rightarrow> (- 1, s\<lparr>hw := rested (hw s)\<rparr>)
   | Some i \<Rightarrow> (0, s\<lparr>hw := rested (hw s), procs := (procs s)(i := kill_mark (procs s i))\<rparr>))"
  using assms by (simp add: kill_def acquire_eq release_took [OF assms] upd_proc_def kill_mark_def Let_def split: option.split)

lemma allocproc_claim_eq:
  assumes "cpu_ok (hw s)" "free_lock (hw s) L_ptable" "nextpid s < 2147483647"
    and "List.find (\<lambda>i. p_state (procs s i) = UNUSED) [0..<NPROC] = Some i"
  shows "allocproc_claim s = Inr (Some i, s\<lparr>hw := rested (hw s), procs := (procs s)(i := (procs s i)\<lparr>p_state := EMBRYO, p_pid := nextpid s\<rparr>),
     nextpid := nextpid s + 1\<rparr>)"
  using assms(3,4) by (simp add: allocproc_claim_def acquire_eq [OF assms(1,2)] release_took [OF assms(1,2)] upd_proc_def next_int_def Let_def)

lemma find_first: "\<lbrakk>i < n; P i; \<forall>j<i. \<not> P j\<rbrakk> \<Longrightarrow> List.find P [0..<n] = Some i"
  by (auto simp: find_Some_iff intro!: exI [of _ i])

text \<open>
  C29: \<^verbatim>\<open>kill\<close> looks at the identifier of a slot and not at its state. The slots that are not in use have
  identifier 0, so \<^verbatim>\<open>kill(0)\<close> does not fail: it marks the first unused slot, and as \<^verbatim>\<open>allocproc\<close> does not reset the mark, the
  next process created in the slot is killed from its start.
\<close>

theorem kill_zero_kills_next_process:
  assumes "cpu_ok (hw s)" and "free_lock (hw s) L_ptable" and "nextpid s < 2147483647" and "i < NPROC"
    and "p_state (procs s i) = UNUSED" and "p_pid (procs s i) = 0"
    and "\<forall>j<i. p_state (procs s j) \<noteq> UNUSED \<and> p_pid (procs s j) \<noteq> 0"
  shows "\<exists>t u. kill 0 s = Inr (0, t) \<and> allocproc_claim t = Inr (Some i, u)
    \<and> p_state (procs u i) = EMBRYO \<and> p_pid (procs u i) = nextpid s \<and> p_killed (procs u i)"
proof -
  let ?t = "s\<lparr>hw := rested (hw s), procs := (procs s)(i := kill_mark (procs s i))\<rparr>"
  have k: "kill 0 s = Inr (0, ?t)"
    using find_first [of i NPROC "\<lambda>i. p_pid (procs s i) = 0"] assms(4,6,7) by (simp add: kill_eq [OF assms(1,2)])
  have "cpu_ok (hw ?t)" "free_lock (hw ?t) L_ptable" using assms(1,2) cpu_ok_rested by (simp_all add: free_lock_def)
  moreover have "List.find (\<lambda>j. p_state (procs ?t j) = UNUSED) [0..<NPROC] = Some i"
    using assms(4,5,7) by (intro find_first) (simp_all add: kill_mark_def)
  ultimately have "allocproc_claim ?t = Inr (Some i, ?t\<lparr>hw := rested (hw ?t), procs := (procs ?t)(i := (procs ?t i)\<lparr>p_state := EMBRYO, p_pid := nextpid ?t\<rparr>),
     nextpid := nextpid ?t + 1\<rparr>)" using assms(3) by (intro allocproc_claim_eq) simp_all
  then show ?thesis using k by (simp add: kill_mark_def)
qed

theorem kill_zero_kills_next_process_witness:
  "let s = two_ready\<lparr>procs := (procs two_ready)(2 := no_proc)\<rparr> in
   \<exists>t u. kill 0 s = Inr (0, t) \<and> allocproc_claim t = Inr (Some 2, u)
    \<and> p_state (procs u 2) = EMBRYO \<and> p_pid (procs u 2) = 3 \<and> p_killed (procs u 2)"
proof -
  let ?s = "two_ready\<lparr>procs := (procs two_ready)(2 := no_proc)\<rparr>"
  have "cpu_ok (hw ?s)" "free_lock (hw ?s) L_ptable"
    using two_cpus_me(1) by (simp_all add: two_ready_def cpu_ok_def free_lock_def) (simp_all add: two_cpus_def)
  from kill_zero_kills_next_process [OF this, of 2] show ?thesis
    by (simp add: NPROC_def two_ready_def no_proc_def)
qed

end
