(* ===== verification/Ring_Buffer.thy ===== *)
theory Ring_Buffer
  imports Xv6_Prelude
begin

text \<open>
  Bounded byte queues, the contract that a pipe and the input line of the console share. Both keep their bytes in
  an array at positions given by two 32-bit counters that only grow and wrap.
\<close>

section \<open>Queues\<close>

inductive fifo_run :: "('q \<Rightarrow> bool) \<Rightarrow> (u8 \<Rightarrow> 'q \<Rightarrow> 'q) \<Rightarrow> ('q \<Rightarrow> bool) \<Rightarrow> ('q \<Rightarrow> u8) \<Rightarrow> ('q \<Rightarrow> 'q)
    \<Rightarrow> 'q \<Rightarrow> u8 list \<Rightarrow> u8 list \<Rightarrow> 'q \<Rightarrow> bool"
  for full put none front rest q where
  fifo_start: "fifo_run full put none front rest q [] [] q"
| fifo_put: "\<lbrakk>fifo_run full put none front rest q W R r; \<not> full r\<rbrakk> \<Longrightarrow> fifo_run full put none front rest q (W @ [c]) R (put c r)"
| fifo_take: "\<lbrakk>fifo_run full put none front rest q W R r; \<not> none r\<rbrakk> \<Longrightarrow> fifo_run full put none front rest q W (R @ [front r]) (rest r)"

lemma fifo_run_trans:
  assumes "fifo_run full put none front rest q W R r" "fifo_run full put none front rest r W' R' t"
  shows "fifo_run full put none front rest q (W @ W') (R @ R') t"
  using assms(2,1)
proof (induction rule: fifo_run.induct)
  case (fifo_put W' R' r' c)
  then show ?case using fifo_run.fifo_put [of full put none front rest q "W @ W'" "R @ R'" r' c] by simp
next
  case (fifo_take W' R' r')
  then show ?case using fifo_run.fifo_take [of full put none front rest q "W @ W'" "R @ R'" r'] by simp
qed simp

locale byte_queue =
  fixes items :: "'q \<Rightarrow> u8 list" and invar :: "'q \<Rightarrow> bool" and full :: "'q \<Rightarrow> bool" and put :: "u8 \<Rightarrow> 'q \<Rightarrow> 'q"
    and none :: "'q \<Rightarrow> bool" and front :: "'q \<Rightarrow> u8" and rest :: "'q \<Rightarrow> 'q"
  assumes put_invar: "\<lbrakk>invar q; \<not> full q\<rbrakk> \<Longrightarrow> invar (put c q)"
    and put_items: "\<lbrakk>invar q; \<not> full q\<rbrakk> \<Longrightarrow> items (put c q) = items q @ [c]"
    and none_items: "invar q \<Longrightarrow> none q \<longleftrightarrow> items q = []"
    and rest_invar: "\<lbrakk>invar q; \<not> none q\<rbrakk> \<Longrightarrow> invar (rest q)"
    and rest_items: "\<lbrakk>invar q; \<not> none q\<rbrakk> \<Longrightarrow> items q = front q # items (rest q)"
begin

lemma run_invar: "fifo_run full put none front rest q W R r \<Longrightarrow> invar q \<Longrightarrow> invar r"
  by (induction rule: fifo_run.induct) (auto intro: put_invar rest_invar)

lemma run_order: "fifo_run full put none front rest q W R r \<Longrightarrow> invar q \<Longrightarrow> items q @ W = R @ items r"
proof (induction rule: fifo_run.induct)
  case (fifo_put W R r c)
  then show ?case using put_items [OF run_invar [OF fifo_put(1)]] by (metis append.assoc)
next
  case (fifo_take W R r)
  then show ?case using rest_items [OF run_invar [OF fifo_take(1)]] by (metis append.assoc append_Cons append_Nil)
qed simp

end

section \<open>Counters that wrap\<close>

text \<open>The bytes between the counters \<open>r\<close> and \<open>w\<close> in a ring whose size divides \<open>2^32\<close>.\<close>

definition ring_items :: "u8 list \<Rightarrow> u32 \<Rightarrow> u32 \<Rightarrow> u8 list" where
  "ring_items d r w = map (\<lambda>k. d ! (unat (r + of_nat k) mod length d)) [0..<unat (w - r)]"

lemma ring_index:
  fixes r :: u32
  assumes "N dvd 2 ^ 32" shows "unat (r + of_nat k) mod N = (unat r + k) mod N"
proof -
  have "unat (r + of_nat k) = (unat r + k) mod 2 ^ 32"
    by (simp add: unat_word_ariths unat_of_nat mod_add_right_eq)
  then show ?thesis using assms by (simp add: mod_mod_cancel)
qed

lemma length_ring_items [simp]: "length (ring_items d r w) = unat (w - r)"
  by (simp add: ring_items_def)

lemma unat_succ_diff: "unat (w - r) < n \<Longrightarrow> n \<le> 2 ^ 31 \<Longrightarrow> unat (w + 1 - r) = unat (w - r) + 1" for w r :: u32
proof -
  assume "unat (w - r) < n" "n \<le> 2 ^ 31"
  then have "unat ((w - r) + 1) = unat (w - r) + 1" by (intro unat_plus_simple [THEN iffD1, THEN trans]) (simp_all add: word_le_nat_alt unat_word_ariths)
  then show ?thesis by (simp add: algebra_simps)
qed

lemma ring_put:
  assumes "length d dvd 2 ^ 32" "unat (w - r) < length d" "length d \<le> 2 ^ 31"
  shows "ring_items (d[unat w mod length d := c]) r (w + 1) = ring_items d r w @ [c]"
proof -
  let ?n = "unat (w - r)" and ?N = "length d"
  have w: "unat w mod ?N = (unat r + ?n) mod ?N" using ring_index [OF assms(1), of r ?n] by simp
  have keep: "d[unat w mod ?N := c] ! (unat (r + of_nat k) mod ?N) = d ! (unat (r + of_nat k) mod ?N)" if "k < ?n" for k
  proof -
    have "(unat r + k) mod ?N \<noteq> (unat r + ?n) mod ?N"
    proof
      assume "(unat r + k) mod ?N = (unat r + ?n) mod ?N"
      then have "?N dvd ?n - k" using mod_eq_dvd_iff_nat [of "unat r + k" "unat r + ?n" ?N] that by simp
      then show False using that assms(2) by (auto dest: dvd_imp_le)
    qed
    then show ?thesis using ring_index [OF assms(1), of r k] w by simp
  qed
  have "0 < ?N" using assms(2) by linarith
  then have new: "d[unat w mod ?N := c] ! (unat (r + of_nat ?n) mod ?N) = c" by simp
  show ?thesis using keep new unat_succ_diff [OF assms(2,3)] by (simp add: ring_items_def)
qed

lemma ring_take:
  assumes "r \<noteq> w" shows "ring_items d r w = d ! (unat r mod length d) # ring_items d (r + 1) w"
proof -
  have "unat (w - r) \<noteq> 0" using assms by (simp add: unat_eq_0)
  then have n: "unat (w - r) = Suc (unat (w - (r + 1)))"
    using unat_minus_one [of "w - r"] assms by (simp add: algebra_simps)
  show ?thesis unfolding ring_items_def n map_upt_Suc by (simp add: add.assoc)
qed

end
