(* ===== verification/Pipe.thy ===== *)
theory Pipe
  imports Sched Ring_Buffer
begin

text \<open>
  Pipes (\<^verbatim>\<open>pipe.c\<close>) are queues of bytes: whatever the interleaving of the writers and the readers of a pipe, the
  bytes come out as they went in.
\<close>

section \<open>A pipe is a bounded queue\<close>

definition pi_items :: "pipe \<Rightarrow> u8 list" where
  "pi_items q = ring_items (pi_data q) (pi_nread q) (pi_nwrite q)"

definition pi_ok :: "pipe \<Rightarrow> bool" where
  "pi_ok q \<longleftrightarrow> length (pi_data q) = PIPESIZE \<and> unat (pi_nwrite q - pi_nread q) \<le> PIPESIZE"

definition pi_full :: "pipe \<Rightarrow> bool" where
  "pi_full q \<longleftrightarrow> pi_nwrite q = pi_nread q + of_nat PIPESIZE"

definition pi_put :: "u8 \<Rightarrow> pipe \<Rightarrow> pipe" where
  "pi_put c q = q\<lparr>pi_data := (pi_data q)[unat (pi_nwrite q) mod PIPESIZE := c], pi_nwrite := pi_nwrite q + 1\<rparr>"

definition pi_none :: "pipe \<Rightarrow> bool" where
  "pi_none q \<longleftrightarrow> pi_nread q = pi_nwrite q"

definition pi_front :: "pipe \<Rightarrow> u8" where
  "pi_front q = pi_data q ! (unat (pi_nread q) mod PIPESIZE)"

definition pi_rest :: "pipe \<Rightarrow> pipe" where
  "pi_rest q = q\<lparr>pi_nread := pi_nread q + 1\<rparr>"

lemma pi_full_iff: "pi_full q \<longleftrightarrow> unat (pi_nwrite q - pi_nread q) = PIPESIZE"
proof -
  have "pi_nwrite q = pi_nread q + of_nat PIPESIZE \<longleftrightarrow> pi_nwrite q - pi_nread q = of_nat PIPESIZE" by (auto simp: algebra_simps)
  also have "\<dots> \<longleftrightarrow> unat (pi_nwrite q - pi_nread q) = PIPESIZE" by (simp add: word_unat_eq_iff PIPESIZE_def)
  finally show ?thesis unfolding pi_full_def .
qed

interpretation pq: byte_queue pi_items pi_ok pi_full pi_put pi_none pi_front pi_rest
proof
  fix q c assume q: "pi_ok q" "\<not> pi_full q"
  then have lt: "unat (pi_nwrite q - pi_nread q) < 512" by (simp add: pi_ok_def pi_full_iff PIPESIZE_def)
  then have "unat (pi_nwrite q + 1 - pi_nread q) = unat (pi_nwrite q - pi_nread q) + 1" by (rule unat_succ_diff) simp
  then show "pi_ok (pi_put c q)" using q(1) lt by (simp add: pi_ok_def pi_put_def PIPESIZE_def)
  show "pi_items (pi_put c q) = pi_items q @ [c]"
    using ring_put [of "pi_data q" "pi_nwrite q" "pi_nread q" c] q(1) lt by (simp add: pi_items_def pi_put_def pi_ok_def PIPESIZE_def)
next
  fix q
  show "pi_none q \<longleftrightarrow> pi_items q = []" if "pi_ok q"
    by (auto simp: pi_none_def pi_items_def ring_items_def unat_eq_0)
  assume q: "pi_ok q" "\<not> pi_none q"
  then have n: "pi_nread q \<noteq> pi_nwrite q" by (simp add: pi_none_def)
  from ring_take [OF n] show t: "pi_items q = pi_front q # pi_items (pi_rest q)"
    using q(1) by (simp add: pi_items_def pi_front_def pi_rest_def pi_ok_def)
  from arg_cong [OF t, of length] show "pi_ok (pi_rest q)"
    using q(1) by (simp add: pi_items_def pi_rest_def pi_ok_def)
qed

section \<open>What the calls leave alone\<close>

definition kept :: "'a pst_scheme \<Rightarrow> 'a pst_scheme \<Rightarrow> bool" where
  "kept s t \<longleftrightarrow> (\<exists>h P. t = s\<lparr>hw := h, procs := P\<rparr> \<and> cr3 h = cr3 (hw s) \<and> lapicid h = lapicid (hw s))"

lemma kept_hw: "\<lbrakk>cr3 h = cr3 (hw s); lapicid h = lapicid (hw s)\<rbrakk> \<Longrightarrow> kept s (s\<lparr>hw := h\<rparr>)"
  unfolding kept_def by (rule exI [of _ h], rule exI [of _ "procs s"]) simp

lemma kept_refl [simp]: "kept s s"
  using kept_hw [of "hw s" s] by simp

lemma kept_trans: "kept s t \<Longrightarrow> kept t u \<Longrightarrow> kept s u"
  unfolding kept_def by fastforce

lemma kept_steps:
  assumes "kept s t"
  shows "kept s (cli t)" "kept s (sti t)" "kept s (upd_cpu c f t)" "kept s (upd_lock lk l t)" "kept s (upd_proc i g t)"
proof -
  show "kept s (cli t)" "kept s (sti t)" "kept s (upd_cpu c f t)" "kept s (upd_lock lk l t)"
    by (rule kept_trans [OF assms]; simp add: kept_hw cli_def sti_def upd_cpu_def upd_lock_def)+
  have "kept t (upd_proc i g t)" unfolding kept_def upd_proc_def by (rule exI [of _ "hw t"]) auto
  then show "kept s (upd_proc i g t)" by (rule kept_trans [OF assms])
qed

lemma pushcli_kept: "pushcli s = Inr t \<Longrightarrow> kept s t" for s :: "'a pst_scheme"
  unfolding pushcli_def Let_def bnd_eq_Inr by (auto split: if_splits intro!: kept_steps)

lemma popcli_kept: "popcli s = Inr t \<Longrightarrow> kept s t" for s :: "'a pst_scheme"
  unfolding popcli_def Let_def by (auto split: if_splits intro!: kept_steps)

lemma myproc_kept: "myproc s = Inr (p, t) \<Longrightarrow> kept s t" for s :: "'a pst_scheme"
  unfolding myproc_def Let_def by (auto intro: kept_trans dest!: pushcli_kept popcli_kept)

lemma acquire_kept: "acquire lk s = Inr t \<Longrightarrow> kept s t" for s :: "'a pst_scheme"
  unfolding acquire_def Let_def by (auto split: if_splits dest!: pushcli_kept intro!: kept_steps)

lemma release_kept: "release lk s = Inr t \<Longrightarrow> kept s t" for s :: "'a pst_scheme"
  unfolding release_def Let_def by (auto split: if_splits dest!: popcli_kept elim!: kept_trans [rotated] intro!: kept_steps)

lemma wakeup_kept: "wakeup ch s = Inr t \<Longrightarrow> kept s t"
proof -
  have w: "kept u (wakeup1 c u)" for u :: "'a pst_scheme" and c
    unfolding wakeup1_eq kept_def by (rule exI [of _ "hw u"]) auto
  show "wakeup ch s = Inr t \<Longrightarrow> kept s t"
    unfolding wakeup_def by (auto intro: kept_trans [OF kept_trans [OF _ w]] dest!: acquire_kept release_kept)
qed

lemma sched_out_kept: "sched_out s = Inr t \<Longrightarrow> kept s t"
  unfolding sched_out_def by (auto split: if_splits option.splits dest!: myproc_kept intro!: kept_steps)

lemma sleep_asleep:
  assumes "sleep ch lk s = Inl (Asleep t)" "lk \<noteq> L_ptable" shows "kept s t"
proof -
  have "sleep_out ch lk s = Inr t" using assms(1) awake_sleep_out [of ch lk s] unfolding sleep_def awake_def by (cases "sleep_out ch lk s") auto
  then show ?thesis using assms(2) unfolding sleep_out_def Let_def
    by (auto split: option.splits dest!: myproc_kept acquire_kept release_kept sched_out_kept elim!: kept_trans [rotated] intro!: kept_steps)
qed

section \<open>The loops\<close>

lemma uload_kept:
  assumes "mem t = mem s" "cr3 (hw t) = cr3 (hw s)" "lapicid (hw t) = lapicid (hw s)"
  shows "uload va t = Inr c \<longleftrightarrow> uload va s = Inr c"
proof -
  have "upte va t = upte va s" using assms by (simp add: upte_def rd32_def Let_def)
  then show ?thesis using assms(1) by (simp add: uload_def ukaddr_def)
qed

lemma uread_kept:
  assumes "mem t = mem s" "cr3 (hw t) = cr3 (hw s)" "lapicid (hw t) = lapicid (hw s)"
  shows "uread n va t = Inr cs \<longleftrightarrow> uread n va s = Inr cs"
  by (induction n arbitrary: va cs) (auto simp: uload_kept [OF assms])

abbreviation pipe_run where
  "pipe_run \<equiv> fifo_run pi_full pi_put pi_none pi_front pi_rest"

lemma pipewrite_copy_run:
  assumes "pipewrite_copy p addr n i s = Inr (j, t)" "i \<le> n"
  shows "\<exists>xs. pipe_run (pipes s p) xs [] (pipes t p) \<and> uread (j - i) (addr + of_nat i) s = Inr xs \<and> i \<le> j \<and> j \<le> n
    \<and> (j < n \<longrightarrow> pi_full (pipes t p)) \<and> t = s\<lparr>pipes := (pipes s)(p := pipes t p)\<rparr>"
  using assms
proof (induction p addr n i s rule: pipewrite_copy.induct)
  case (1 p addr n i s)
  show ?case
  proof (cases "i < n \<and> \<not> pi_full (pipes s p)")
    case False
    then have "j = i" "t = s" using 1(2) by (auto simp: pipewrite_copy.simps [of p addr n i s] pi_full_def)
    then show ?thesis using 1(3) False by (auto intro: fifo_start)
  next
    case True
    let ?u = "\<lambda>c. upd_pipe p (pi_put c) s"
    obtain c where c: "uload (addr + of_nat i) s = Inr c" "pipewrite_copy p addr n (i + 1) (?u c) = Inr (j, t)"
      using 1(2) True by (auto simp: pipewrite_copy.simps [of p addr n i s] pi_full_def pi_put_def [abs_def] Let_def)
    have "\<exists>xs. pipe_run (pipes (?u c) p) xs [] (pipes t p) \<and> uread (j - (i + 1)) (addr + of_nat (i + 1)) (?u c) = Inr xs \<and> i + 1 \<le> j \<and> j \<le> n
        \<and> (j < n \<longrightarrow> pi_full (pipes t p)) \<and> t = (?u c)\<lparr>pipes := (pipes (?u c))(p := pipes t p)\<rparr>"
      using True c(1,2) by (intro 1(1)) (auto simp: pi_full_def pi_put_def [abs_def])
    then obtain xs where xs: "pipe_run (pipes (?u c) p) xs [] (pipes t p)" "uread (j - (i + 1)) (addr + of_nat (i + 1)) (?u c) = Inr xs"
      "i + 1 \<le> j" "j \<le> n" "j < n \<longrightarrow> pi_full (pipes t p)" "t = (?u c)\<lparr>pipes := (pipes (?u c))(p := pipes t p)\<rparr>" by blast
    have "pipe_run (pipes s p) ([] @ [c]) [] (pipes (?u c) p)" using fifo_put [OF fifo_start, of pi_full "pipes s p"] True by (simp add: upd_pipe_def)
    from fifo_run_trans [OF this xs(1)] have r: "pipe_run (pipes s p) (c # xs) [] (pipes t p)" by simp
    have "uread (j - (i + 1)) (addr + of_nat (i + 1)) s = Inr xs" using xs(2) uread_kept [of "?u c" s] by (simp add: upd_pipe_def)
    moreover have "j - i = Suc (j - (i + 1))" using xs(3) by simp
    ultimately have "uread (j - i) (addr + of_nat i) s = Inr (c # xs)" using c(1) by (simp add: ac_simps)
    moreover have "t = s\<lparr>pipes := (pipes s)(p := pipes t p)\<rparr>" using xs(6) by (simp add: upd_pipe_def)
    moreover have "i \<le> j" using xs(3) by simp
    ultimately show ?thesis using r xs(4,5) by blast
  qed
qed

lemma ustore_mem:
  assumes "ustore va c s = Inr t" obtains m where "t = s\<lparr>mem := m\<rparr>"
  using assms by (auto simp: ustore_def split: if_splits)

lemma ustore_frame:
  assumes "mem t = mem s" "cr3 (hw t) = cr3 (hw s)" "lapicid (hw t) = lapicid (hw s)"
  shows "ustore va c t = Inr (t\<lparr>mem := m\<rparr>) \<longleftrightarrow> ustore va c s = Inr (s\<lparr>mem := m\<rparr>)"
proof -
  have "upte va t = upte va s" using assms by (simp add: upte_def rd32_def Let_def)
  then show ?thesis using assms(1) by (auto simp: ustore_def ukaddr_def dest: arg_cong [where f = mem])
qed

lemma uwrite_frame:
  assumes "mem t = mem s" "cr3 (hw t) = cr3 (hw s)" "lapicid (hw t) = lapicid (hw s)"
  shows "uwrite va xs t = Inr (t\<lparr>mem := m\<rparr>) \<Longrightarrow> uwrite va xs s = Inr (s\<lparr>mem := m\<rparr>)"
  using assms
proof (induction xs arbitrary: va s t)
  case Nil
  then show ?case by (auto dest: arg_cong [where f = mem])
next
  case (Cons c xs)
  from Cons.prems(1) obtain u where u: "ustore va c t = Inr u" "uwrite (va + 1) xs u = Inr (t\<lparr>mem := m\<rparr>)" by auto
  obtain k where k: "u = t\<lparr>mem := k\<rparr>" using ustore_mem [OF u(1)] by blast
  have "ustore va c s = Inr (s\<lparr>mem := k\<rparr>)" using u(1) k ustore_frame [OF Cons.prems(2-4), of va c k] by simp
  moreover have "uwrite (va + 1) xs (s\<lparr>mem := k\<rparr>) = Inr (s\<lparr>mem := k\<rparr>\<lparr>mem := m\<rparr>)"
    using u(2) k Cons.prems(3,4) by (intro Cons.IH [of "va + 1" "t\<lparr>mem := k\<rparr>"]) simp_all
  ultimately show ?case by simp
qed

text \<open>The bytes a reader gets are stored one after the other from its address on.\<close>

lemma piperead_copy_run:
  assumes "piperead_copy p addr n i s = Inr (j, t)" "i \<le> n"
  shows "\<exists>xs m. pipe_run (pipes s p) [] xs (pipes t p) \<and> uwrite (addr + of_nat i) xs s = Inr (s\<lparr>mem := m\<rparr>) \<and> length xs = j - i
    \<and> i \<le> j \<and> j \<le> n \<and> (j < n \<longrightarrow> pi_none (pipes t p)) \<and> t = s\<lparr>mem := m, pipes := (pipes s)(p := pipes t p)\<rparr>"
  using assms
proof (induction p addr n i s rule: piperead_copy.induct)
  case (1 p addr n i s)
  show ?case
  proof (cases "i < n \<and> \<not> pi_none (pipes s p)")
    case False
    then have "j = i" "t = s" using 1(2) by (auto simp: piperead_copy.simps [of p addr n i s] pi_none_def)
    then show ?thesis using 1(3) False by (intro exI [of _ "[]"] exI [of _ "mem s"]) (auto intro: fifo_start)
  next
    case True
    let ?c = "pi_front (pipes s p)" and ?v = "upd_pipe p pi_rest s"
    obtain u where u: "ustore (addr + of_nat i) ?c ?v = Inr u" "piperead_copy p addr n (i + 1) u = Inr (j, t)"
      using 1(2) True by (auto simp: piperead_copy.simps [of p addr n i s] pi_none_def pi_front_def pi_rest_def [abs_def] Let_def)
    obtain m where m: "u = ?v\<lparr>mem := m\<rparr>" using ustore_mem [OF u(1)] by blast
    have st: "ustore (addr + of_nat i) ?c s = Inr (s\<lparr>mem := m\<rparr>)"
      using u(1) ustore_frame [of ?v s "addr + of_nat i" ?c m] by (simp add: m upd_pipe_def)
    have "\<exists>xs m. pipe_run (pipes u p) [] xs (pipes t p) \<and> uwrite (addr + of_nat (i + 1)) xs u = Inr (u\<lparr>mem := m\<rparr>) \<and> length xs = j - (i + 1)
        \<and> i + 1 \<le> j \<and> j \<le> n \<and> (j < n \<longrightarrow> pi_none (pipes t p)) \<and> t = u\<lparr>mem := m, pipes := (pipes u)(p := pipes t p)\<rparr>"
      using True u by (intro 1(1) [of ?c ?v u]) (auto simp: pi_none_def pi_front_def pi_rest_def [abs_def])
    then obtain xs m' where xs: "pipe_run (pipes u p) [] xs (pipes t p)" "uwrite (addr + of_nat (i + 1)) xs u = Inr (u\<lparr>mem := m'\<rparr>)"
      "length xs = j - (i + 1)" "i + 1 \<le> j" "j \<le> n" "j < n \<longrightarrow> pi_none (pipes t p)" "t = u\<lparr>mem := m', pipes := (pipes u)(p := pipes t p)\<rparr>" by blast
    have "pipe_run (pipes s p) [] ([] @ [?c]) (pipes u p)" using fifo_take [OF fifo_start, of pi_none "pipes s p"] True by (simp add: m upd_pipe_def)
    from fifo_run_trans [OF this xs(1)] have r: "pipe_run (pipes s p) [] (?c # xs) (pipes t p)" by simp
    have "uwrite (addr + of_nat (i + 1)) xs (s\<lparr>mem := m\<rparr>) = Inr (s\<lparr>mem := m'\<rparr>)"
      using xs(2) uwrite_frame [of u "s\<lparr>mem := m\<rparr>" "addr + of_nat (i + 1)" xs m'] by (simp add: m upd_pipe_def)
    then have "uwrite (addr + of_nat i) (?c # xs) s = Inr (s\<lparr>mem := m'\<rparr>)" using st by (simp add: ac_simps)
    moreover have "t = s\<lparr>mem := m', pipes := (pipes s)(p := pipes t p)\<rparr>" using xs(7) by (simp add: m upd_pipe_def)
    moreover have "i \<le> j" "length (?c # xs) = j - i" using xs(3,4) by simp_all
    ultimately show ?thesis using r xs(5,6) by blast
  qed
qed

section \<open>User buffers\<close>

text \<open>
  A user buffer: every byte is mapped and writable, different bytes have different places, and none of them lies
  in the page tables that map the buffer.
\<close>

definition pt_words :: "u32 \<Rightarrow> 'a kmst_scheme \<Rightarrow> u32 list" where
  "pt_words va s =
     (let pde_at = P2V (cr3 (hw s) (lapicid (hw s))) + 4 * PDX va in
      [pde_at, P2V (PTE_ADDR (rd32 pde_at s)) + 4 * PTX va])"

definition user_buf :: "u32 \<Rightarrow> nat \<Rightarrow> 'a kmst_scheme \<Rightarrow> bool" where
  "user_buf addr n s \<longleftrightarrow> (\<forall>i<n. let va = addr + of_nat i in va < KERNBASE \<and> upte va s AND PTE_P \<noteq> 0 \<and> upte va s AND PTE_W \<noteq> 0
     \<and> (\<forall>j<n. (ukaddr (addr + of_nat j) s = ukaddr va s \<longrightarrow> i = j)
         \<and> (\<forall>w\<in>set (pt_words (addr + of_nat j) s). \<not> in_span (ukaddr va s) w 4)))"

lemma user_bufD:
  assumes "user_buf addr n s" "i < n"
  shows "\<not> KERNBASE \<le> addr + of_nat i" "upte (addr + of_nat i) s AND PTE_P \<noteq> 0" "upte (addr + of_nat i) s AND PTE_W \<noteq> 0"
  using assms by (auto simp: user_buf_def Let_def)

lemma user_buf_inj: "\<lbrakk>user_buf addr n s; i < n; j < n; ukaddr (addr + of_nat j) s = ukaddr (addr + of_nat i) s\<rbrakk> \<Longrightarrow> i = j"
  unfolding user_buf_def Let_def by blast

lemma load32_upd: "\<not> in_span a w 4 \<Longrightarrow> load32 (m(a := v)) w = load32 m w"
proof (rule load32_cong)
  fix i :: nat assume "\<not> in_span a w 4" "i < 4"
  then have "w + of_nat i \<noteq> a" by (auto simp: in_span_def unat_of_nat)
  then show "(m(a := v)) (w + of_nat i) = m (w + of_nat i)" by simp
qed

lemma upte_upd:
  assumes "\<forall>w\<in>set (pt_words va s). \<not> in_span a w 4"
  shows "upte va (s\<lparr>mem := (mem s)(a := v)\<rparr>) = upte va s"
  using assms by (simp add: upte_def pt_words_def Let_def rd32_def load32_upd)

lemma pt_words_upd:
  assumes "\<forall>w\<in>set (pt_words va s). \<not> in_span a w 4"
  shows "pt_words va (s\<lparr>mem := (mem s)(a := v)\<rparr>) = pt_words va s"
  using assms by (simp add: pt_words_def Let_def rd32_def load32_upd)

lemma user_buf_store:
  assumes "user_buf addr n s" "i < n"
  shows "ustore (addr + of_nat i) c s = Inr (s\<lparr>mem := (mem s)(ukaddr (addr + of_nat i) s := c)\<rparr>)"
    "user_buf addr n (s\<lparr>mem := (mem s)(ukaddr (addr + of_nat i) s := c)\<rparr>)"
    "j < n \<Longrightarrow> ukaddr (addr + of_nat j) (s\<lparr>mem := (mem s)(ukaddr (addr + of_nat i) s := c)\<rparr>) = ukaddr (addr + of_nat j) s"
proof -
  let ?t = "s\<lparr>mem := (mem s)(ukaddr (addr + of_nat i) s := c)\<rparr>"
  have far: "\<forall>w\<in>set (pt_words (addr + of_nat j) s). \<not> in_span (ukaddr (addr + of_nat i) s) w 4" if "j < n" for j
    using assms that by (simp add: user_buf_def Let_def)
  have u: "upte (addr + of_nat j) ?t = upte (addr + of_nat j) s" "pt_words (addr + of_nat j) ?t = pt_words (addr + of_nat j) s"
    if "j < n" for j using upte_upd [OF far [OF that]] pt_words_upd [OF far [OF that]] by simp_all
  show k: "ukaddr (addr + of_nat j) ?t = ukaddr (addr + of_nat j) s" if "j < n" for j using u(1) [OF that] by (simp add: ukaddr_def)
  show "ustore (addr + of_nat i) c s = Inr ?t" using user_bufD [OF assms] by (simp add: ustore_def)
  show "user_buf addr n ?t" using assms(1) u k by (simp add: user_buf_def Let_def)
qed

lemma user_buf_write:
  assumes "user_buf addr n s" "i + length xs \<le> n"
  shows "\<exists>t. uwrite (addr + of_nat i) xs s = Inr t \<and> user_buf addr n t \<and> hw t = hw s
    \<and> (\<forall>j<n. ukaddr (addr + of_nat j) t = ukaddr (addr + of_nat j) s)
    \<and> (\<forall>j<i. mem t (ukaddr (addr + of_nat j) s) = mem s (ukaddr (addr + of_nat j) s))
    \<and> (\<forall>j<length xs. mem t (ukaddr (addr + of_nat (i + j)) s) = xs ! j)"
  using assms
proof (induction xs arbitrary: i s)
  case Nil then show ?case by simp
next
  case (Cons c xs)
  let ?u = "s\<lparr>mem := (mem s)(ukaddr (addr + of_nat i) s := c)\<rparr>"
  have i: "i < n" using Cons.prems(2) by simp
  note st = user_buf_store [OF Cons.prems(1) i, where c = c]
  obtain t where t: "uwrite (addr + of_nat (i + 1)) xs ?u = Inr t" "user_buf addr n t" "hw t = hw s"
    "\<forall>j<n. ukaddr (addr + of_nat j) t = ukaddr (addr + of_nat j) s"
    "\<forall>j<i + 1. mem t (ukaddr (addr + of_nat j) s) = mem ?u (ukaddr (addr + of_nat j) s)"
    "\<forall>j<length xs. mem t (ukaddr (addr + of_nat (i + 1 + j)) s) = xs ! j"
    using Cons.IH [OF st(2), of "i + 1"] Cons.prems(2) st(3) by (auto simp del: of_nat_add of_nat_Suc)
  have ne: "ukaddr (addr + of_nat j) s \<noteq> ukaddr (addr + of_nat i) s" if "j < i" for j
    using user_buf_inj [OF Cons.prems(1) i, of j] i that by auto
  have "uwrite (addr + of_nat i) (c # xs) s = Inr t" using st(1) t(1) by (simp add: ac_simps)
  moreover have "mem t (ukaddr (addr + of_nat (i + j)) s) = (c # xs) ! j" if "j < length (c # xs)" for j
    using t(5,6) that by (cases j) auto
  moreover have "\<forall>j<i. mem t (ukaddr (addr + of_nat j) s) = mem s (ukaddr (addr + of_nat j) s)" using t(5) ne by simp
  ultimately show ?case using t(2-4) by blast
qed

lemma uread_eq:
  assumes "user_buf addr n t" "i + k \<le> n"
  shows "uread k (addr + of_nat i) t = Inr (map (\<lambda>j. mem t (ukaddr (addr + of_nat j) t)) [i..<i + k])"
  using assms(2)
proof (induction k arbitrary: i)
  case (Suc k)
  have "uload (addr + of_nat i) t = Inr (mem t (ukaddr (addr + of_nat i) t))"
    using user_bufD [OF assms(1), of i] Suc.prems by (simp add: uload_def)
  moreover have "uread k (addr + of_nat (i + 1)) t = Inr (map (\<lambda>j. mem t (ukaddr (addr + of_nat j) t)) [i + 1..<i + 1 + k])"
    by (rule Suc.IH) (use Suc.prems in simp)
  ultimately show ?case by (simp add: ac_simps upt_rec [of i])
qed simp

lemma user_buf_read_back:
  assumes "user_buf addr n s" "length xs \<le> n" "uwrite addr xs s = Inr t"
  shows "uread (length xs) addr t = Inr xs"
proof -
  have "\<forall>j<length xs. mem t (ukaddr (addr + of_nat j) t) = xs ! j" "user_buf addr n t"
    using user_buf_write [OF assms(1), of 0 xs] assms(2,3) by auto
  then show ?thesis using uread_eq [of addr n t 0 "length xs"] assms(2) by (auto intro: nth_equalityI)
qed

section \<open>Reads and writes\<close>

definition ends_in :: "('s stop + (int \<times> 's)) \<Rightarrow> 's \<Rightarrow> bool" where
  "ends_in r u \<longleftrightarrow> (\<exists>v. r = Inr (v, u)) \<or> r = Inl (Asleep u)"

text \<open>
  A write that returns or goes to sleep has stored the bytes up to some \<open>m\<close>; it returns the
  length it was given when it has stored them all.
\<close>

lemma keptD:
  fixes s :: "'a flst_scheme"
  assumes "kept s t"
  shows "pipes t = pipes s" "mem t = mem s" "cr3 (hw t) = cr3 (hw s)" "lapicid (hw t) = lapicid (hw s)"
  using assms by (auto simp: kept_def)

lemma ends_in_bnd:
  "ends_in (bnd m f) u \<Longrightarrow> awake m \<Longrightarrow> \<exists>x. m = Inr x \<and> ends_in (f x) u"
  by (cases m) (auto simp: ends_in_def awake_def)

lemma awake_pipewrite_copy: "awake (pipewrite_copy p addr n i s)"
proof (induction p addr n i s rule: pipewrite_copy.induct)
  case (1 p addr n i s)
  then show ?case by (subst pipewrite_copy.simps) (auto simp: uload_def Let_def intro!: awake_bnd)
qed

lemma awake_piperead_copy: "awake (piperead_copy p addr n i s)"
proof (induction p addr n i s rule: piperead_copy.induct)
  case (1 p addr n i s)
  then show ?case by (subst piperead_copy.simps) (auto simp: ustore_def Let_def intro!: awake_bnd)
qed

lemma sleep_ends: "ends_in (sleep ch lk s) u \<Longrightarrow> lk \<noteq> L_ptable \<Longrightarrow> kept s u" for s :: "'a pst_scheme"
  unfolding ends_in_def using sleep_asleep by (auto simp: sleep_def)

lemma pipewrite_full:
  fixes s :: "'a flst_scheme" and p :: u32
  defines "f \<equiv> \<lambda>(quit, s). if quit then bnd (release (L_pipe p) s) (\<lambda>s. Inr (- 1, s))
              else bnd (wakeup (C_nread p) s) (sleep (C_nwrite p) (L_pipe p))"
  assumes e: "ends_in (bnd (pipewrite_quit p s) f) u"
  shows "kept s u \<and> (\<forall>v. bnd (pipewrite_quit p s) f = Inr (v, u) \<longrightarrow> v = - 1)"
proof -
  have "awake (pipewrite_quit p s)" unfolding pipewrite_quit_def by (auto intro!: awake_bnd awake_myproc split: option.split)
  from ends_in_bnd [OF e this] obtain q t where q: "pipewrite_quit p s = Inr (q, t)" "ends_in (f (q, t)) u" by fastforce
  have k: "kept s t" using q(1) by (auto simp: pipewrite_quit_def split: if_splits option.splits dest!: myproc_kept)
  show ?thesis
  proof (cases q)
    case True
    then obtain w where "release (L_pipe p) t = Inr w" "w = u" using ends_in_bnd [of "release (L_pipe p) t"] q(2) awake_release by (fastforce simp: ends_in_def f_def)
    then show ?thesis using q(1) True k kept_trans [OF k release_kept] by (auto simp: f_def)
  next
    case False
    then obtain w where w: "wakeup (C_nread p) t = Inr w" "ends_in (sleep (C_nwrite p) (L_pipe p) w) u"
      using ends_in_bnd [of "wakeup (C_nread p) t"] q(2) awake_wakeup by (fastforce simp: f_def)
    from sleep_ends [OF w(2)] have "kept w u" by simp
    then show ?thesis using kept_trans [OF kept_trans [OF k wakeup_kept [OF w(1)]]] q(1) False w(1) by (simp add: sleep_def f_def)
  qed
qed

lemma pipewrite_go_run:
  assumes r: "pipewrite_go p addr n i s = r" "ends_in r u" and i: "i \<le> n"
  shows "\<exists>m xs. i \<le> m \<and> m \<le> n \<and> pipe_run (pipes s p) xs [] (pipes u p) \<and> uread (m - i) (addr + of_nat i) s = Inr xs
    \<and> (\<forall>v. r = Inr (v, u) \<longrightarrow> (if m = n then v = int n else v = - 1)) \<and> (r = Inl (Asleep u) \<longrightarrow> m < n)"
proof -
  obtain j t where j: "pipewrite_copy p addr n i s = Inr (j, t)"
    using ends_in_bnd [OF r(2) [folded r(1), unfolded pipewrite_go_def] awake_pipewrite_copy] by fastforce
  have "kept t u \<and> (\<forall>v. r = Inr (v, u) \<longrightarrow> (if j < n then v = - 1 else v = int n)) \<and> (r = Inl (Asleep u) \<longrightarrow> j < n)"
  proof (cases "j < n")
    case True
    then show ?thesis using pipewrite_full [of p t u] r j by (auto simp: pipewrite_go_def simp del: bnd_eq_Inr)
  next
    case False
    then have e: "ends_in (bnd (wakeup (C_nread p) t) (\<lambda>s. bnd (release (L_pipe p) s) (\<lambda>s. Inr (int n, s)))) u" using r j by (simp add: pipewrite_go_def)
    from ends_in_bnd [OF e awake_wakeup] obtain w where w: "wakeup (C_nread p) t = Inr w" "ends_in (bnd (release (L_pipe p) w) (\<lambda>s. Inr (int n, s))) u" by blast
    from ends_in_bnd [OF w(2) awake_release] have l: "release (L_pipe p) w = Inr u" by (auto simp: ends_in_def)
    then show ?thesis using kept_trans [OF wakeup_kept [OF w(1)] release_kept [OF l]] False r(1) j w(1) by (auto simp: pipewrite_go_def)
  qed
  with pipewrite_copy_run [OF j(1) i] keptD(1) [of t u] show ?thesis by (auto split: if_splits)
qed

text \<open>A read stores what it takes from the pipe in the buffer of its caller.\<close>

lemma piperead_blocked:
  assumes e: "ends_in (piperead_go p addr n s) u" and b: "pi_nread (pipes s p) = pi_nwrite (pipes s p)" "pi_writeopen (pipes s p)"
  shows "kept s u \<and> (\<forall>v. piperead_go p addr n s = Inr (v, u) \<longrightarrow> v = - 1)"
proof -
  define f where "f = (\<lambda>(q, s). case q of
             None \<Rightarrow> Inl (Fault ''piperead'')
           | Some j \<Rightarrow>
               if p_killed (procs s j) then bnd (release (L_pipe p) s) (\<lambda>s. Inr (- 1 :: int, s))
               else sleep (C_nread p) (L_pipe p) (s :: 'a flst_scheme))"
  have r: "piperead_go p addr n s = bnd (myproc s) f" using b by (simp add: piperead_go_def f_def)
  obtain q t where q: "myproc s = Inr (q, t)" "ends_in (f (q, t)) u" using ends_in_bnd [OF e [unfolded r] awake_myproc] by fastforce
  then obtain j where j: "q = Some j" by (cases q) (auto simp: f_def ends_in_def)
  have "kept t u \<and> (\<forall>v. f (q, t) = Inr (v, u) \<longrightarrow> v = - 1)"
  proof (cases "p_killed (procs t j)")
    case True
    then have "ends_in (bnd (release (L_pipe p) t) (\<lambda>s. Inr (- 1, s))) u" using q(2) j by (simp add: f_def)
    from ends_in_bnd [OF this awake_release] have "release (L_pipe p) t = Inr u" by (auto simp: ends_in_def)
    then show ?thesis using release_kept j True by (auto simp: f_def)
  next
    case False
    then have "ends_in (sleep (C_nread p) (L_pipe p) t) u" using q(2) j by (simp add: f_def)
    from sleep_ends [OF this] show ?thesis using j False by (simp add: f_def sleep_def)
  qed
  then show ?thesis using kept_trans [OF myproc_kept [OF q(1)]] r q(1) by simp
qed

lemma piperead_taken:
  assumes e: "ends_in (piperead_go p addr n s) u" and b: "user_buf addr n s"
    and c: "\<not> (pi_nread (pipes s p) = pi_nwrite (pipes s p) \<and> pi_writeopen (pipes s p))"
  shows "\<exists>j xs. j \<le> n \<and> pipe_run (pipes s p) [] xs (pipes u p) \<and> uread j addr u = Inr xs
    \<and> piperead_go p addr n s = Inr (int j, u) \<and> (j < n \<longrightarrow> pi_none (pipes u p))"
proof -
  define f where "f = (\<lambda>(i, s). bnd (wakeup (C_nwrite p) s) (\<lambda>s. bnd (release (L_pipe p) (s :: 'a flst_scheme)) (\<lambda>s. Inr (int i, s))))"
  have r: "piperead_go p addr n s = bnd (piperead_copy p addr n 0 s) f" using c by (auto simp: piperead_go_def f_def)
  obtain j t where j: "piperead_copy p addr n 0 s = Inr (j, t)" "ends_in (f (j, t)) u" using ends_in_bnd [OF e [unfolded r] awake_piperead_copy] by fastforce
  from j(2) have "ends_in (bnd (wakeup (C_nwrite p) t) (\<lambda>s. bnd (release (L_pipe p) s) (\<lambda>s. Inr (int j, s)))) u" by (simp add: f_def)
  from ends_in_bnd [OF this awake_wakeup] obtain w where w: "wakeup (C_nwrite p) t = Inr w" "ends_in (bnd (release (L_pipe p) w) (\<lambda>s. Inr (int j, s))) u" by blast
  from ends_in_bnd [OF w(2) awake_release] have l: "release (L_pipe p) w = Inr u" by (auto simp: ends_in_def)
  note k = keptD [OF kept_trans [OF wakeup_kept [OF w(1)] release_kept [OF l]]]
  from piperead_copy_run [OF j(1)] obtain xs m where xs: "pipe_run (pipes s p) [] xs (pipes t p)" "uwrite addr xs s = Inr (s\<lparr>mem := m\<rparr>)"
    "length xs = j" "j \<le> n" "j < n \<longrightarrow> pi_none (pipes t p)" "t = s\<lparr>mem := m, pipes := (pipes s)(p := pipes t p)\<rparr>" by auto
  have "uread j addr (s\<lparr>mem := m\<rparr>) = Inr xs" using user_buf_read_back [OF b _ xs(2)] xs(3,4) by simp
  moreover have "mem t = m" "hw t = hw s" by (subst xs(6), simp)+
  ultimately have "uread j addr u = Inr xs" using uread_kept [of u "s\<lparr>mem := m\<rparr>"] k by simp
  moreover have "piperead_go p addr n s = Inr (int j, u)" using r j(1) w(1) l by (simp add: f_def)
  ultimately show ?thesis using xs(1,4,5) k(1) by (intro exI [of _ j] exI [of _ xs]) auto
qed

lemma piperead_go_run:
  assumes r: "piperead_go p addr n s = r" "ends_in r u" and b: "user_buf addr n s"
  shows "\<exists>m xs. m \<le> n \<and> pipe_run (pipes s p) [] xs (pipes u p) \<and> uread m addr u = Inr xs
    \<and> (\<forall>v. r = Inr (v, u) \<longrightarrow> v = int m \<and> (m < n \<longrightarrow> pi_none (pipes u p)) \<or> v = - 1 \<and> m = 0) \<and> (r = Inl (Asleep u) \<longrightarrow> m = 0)"
proof (cases "pi_nread (pipes s p) = pi_nwrite (pipes s p) \<and> pi_writeopen (pipes s p)")
  case True
  with piperead_blocked [of p addr n s u] r have "kept s u" "\<forall>v. r = Inr (v, u) \<longrightarrow> v = - 1" by auto
  then show ?thesis using keptD(1) [of s u] by (intro exI [of _ "0::nat"] exI [of _ "[]"]) (auto intro: fifo_start)
next
  case False
  from piperead_taken [OF r(2) [folded r(1)] b False] show ?thesis using r(1) by auto
qed

section \<open>Many writers and readers\<close>

text \<open>
  A run of the kernel seen from one pipe: the bytes its writers passed in and the bytes its readers got, in the order of
  the calls. A write takes its bytes from the memory of the caller when it stores them, in one or more parts; a
  read leaves its bytes in the buffer of the caller. Everything else the kernel does leaves the bytes of the pipe alone
  (\<open>elsewhere\<close>), also \<^verbatim>\<open>pipeclose\<close>, which clears a flag.
\<close>

definition same_bytes :: "pipe \<Rightarrow> pipe \<Rightarrow> bool" where
  "same_bytes q r \<longleftrightarrow> pi_data r = pi_data q \<and> pi_nread r = pi_nread q \<and> pi_nwrite r = pi_nwrite q"

definition put_count :: "pipe \<Rightarrow> pipe \<Rightarrow> nat" where
  "put_count q r = unat (pi_nwrite r - pi_nwrite q)"

definition take_count :: "pipe \<Rightarrow> pipe \<Rightarrow> nat" where
  "take_count q r = unat (pi_nread r - pi_nread q)"

inductive pipe_use :: "u32 \<Rightarrow> flst \<Rightarrow> u8 list \<Rightarrow> u8 list \<Rightarrow> flst \<Rightarrow> bool" for p s where
  begin_use: "pipe_use p s [] [] s"
| elsewhere: "\<lbrakk>pipe_use p s W R t; same_bytes (pipes t p) (pipes u p)\<rbrakk> \<Longrightarrow> pipe_use p s W R u"
| wrote: "\<lbrakk>pipe_use p s W R t; ends_in (pipewrite p addr n t) u;
      uread (put_count (pipes t p) (pipes u p)) addr t = Inr xs\<rbrakk> \<Longrightarrow> pipe_use p s (W @ xs) R u"
| wrote_more: "\<lbrakk>pipe_use p s W R t; i \<le> n; ends_in (pipewrite_in j p addr n i t) u;
      uread (put_count (pipes t p) (pipes u p)) (addr + of_nat i) t = Inr xs\<rbrakk> \<Longrightarrow> pipe_use p s (W @ xs) R u"
| got: "\<lbrakk>pipe_use p s W R t; user_buf addr n t; ends_in (piperead p addr n t) u;
      uread (take_count (pipes t p) (pipes u p)) addr u = Inr xs\<rbrakk> \<Longrightarrow> pipe_use p s W (R @ xs) u"
| got_more: "\<lbrakk>pipe_use p s W R t; user_buf addr n t; ends_in (piperead_in j p addr n t) u;
      uread (take_count (pipes t p) (pipes u p)) addr u = Inr xs\<rbrakk> \<Longrightarrow> pipe_use p s W (R @ xs) u"

lemma pipe_run_counts:
  "pipe_run q W R r \<Longrightarrow> pi_nwrite r = pi_nwrite q + of_nat (length W) \<and> pi_nread r = pi_nread q + of_nat (length R)"
  by (induction rule: fifo_run.induct) (auto simp: pi_put_def pi_rest_def)

lemma pi_items_short: "pi_ok q \<Longrightarrow> length (pi_items q) \<le> PIPESIZE"
  by (simp add: pi_items_def pi_ok_def)

lemma pipe_run_put_count:
  assumes "pipe_run q xs [] r" "pi_ok q" shows "put_count q r = length xs"
proof -
  have "length xs \<le> PIPESIZE" using arg_cong [OF pq.run_order [OF assms], of length] pi_items_short [OF pq.run_invar [OF assms]] by simp
  then show ?thesis using pipe_run_counts [OF assms(1)] by (simp add: put_count_def unat_of_nat PIPESIZE_def)
qed

lemma pipe_run_take_count:
  assumes "pipe_run q [] xs r" "pi_ok q" shows "take_count q r = length xs"
proof -
  have "length xs \<le> PIPESIZE" using arg_cong [OF pq.run_order [OF assms], of length] pi_items_short [OF assms(2)] by simp
  then show ?thesis using pipe_run_counts [OF assms(1)] by (simp add: take_count_def unat_of_nat PIPESIZE_def)
qed

lemma length_uread: "uread n va s = Inr xs \<Longrightarrow> length xs = n"
  by (induction n arbitrary: va xs) auto

lemma sleep_in_kept: "sleep_in j lk s = Inr t \<Longrightarrow> kept s t"
  unfolding sleep_in_def sched_in_def Let_def
  by (auto split: if_splits dest!: release_kept acquire_kept elim!: kept_trans [rotated] intro!: kept_steps)

lemma awake_sleep_in: "awake (sleep_in j lk s)"
  unfolding sleep_in_def sched_in_def Let_def by (auto simp del: mycpu_eq intro!: awake_bnd awake_mycpu awake_acquire awake_release)

lemma user_buf_kept:
  fixes s :: "'a flst_scheme"
  assumes "kept s t" shows "user_buf addr n t = user_buf addr n s"
proof -
  note k = keptD(2-4) [OF assms]
  have "upte va t = upte va s" "pt_words va t = pt_words va s" for va using k by (simp_all add: upte_def pt_words_def rd32_def Let_def)
  then show ?thesis by (simp add: user_buf_def ukaddr_def)
qed

text \<open>One call moves the bytes between the caller and the pipe.\<close>

lemma pipewrite_call:
  assumes k: "kept t v" and e: "ends_in (pipewrite_go p addr n i v) u" and i: "i \<le> n" and ok: "pi_ok (pipes t p)"
    and x: "uread (put_count (pipes t p) (pipes u p)) (addr + of_nat i) t = Inr xs"
  shows "pi_ok (pipes u p)" "pi_items (pipes u p) = pi_items (pipes t p) @ xs"
proof -
  obtain m ys where m: "pipe_run (pipes v p) ys [] (pipes u p)" "uread (m - i) (addr + of_nat i) v = Inr ys"
    using pipewrite_go_run [OF refl e i] by blast
  note f = keptD [OF k]
  have "m - i = put_count (pipes t p) (pipes u p)" using pipe_run_put_count [OF m(1)] length_uread [OF m(2)] f(1) ok by simp
  then have "xs = ys" using m(2) x uread_kept [OF f(2-4)] by simp
  then show "pi_ok (pipes u p)" "pi_items (pipes u p) = pi_items (pipes t p) @ xs"
    using pq.run_invar [OF m(1)] pq.run_order [OF m(1)] f(1) ok by simp_all
qed

lemma piperead_call:
  assumes k: "kept t v" and e: "ends_in (piperead_go p addr n v) u" and b: "user_buf addr n t" and ok: "pi_ok (pipes t p)"
    and x: "uread (take_count (pipes t p) (pipes u p)) addr u = Inr xs"
  shows "pi_ok (pipes u p)" "pi_items (pipes t p) = xs @ pi_items (pipes u p)"
proof -
  obtain m ys where m: "pipe_run (pipes v p) [] ys (pipes u p)" "uread m addr u = Inr ys"
    using piperead_go_run [OF refl e] user_buf_kept [OF k] b by blast
  note f = keptD [OF k]
  have "m = take_count (pipes t p) (pipes u p)" using pipe_run_take_count [OF m(1)] length_uread [OF m(2)] f(1) ok by simp
  then have "xs = ys" using m(2) x by simp
  then show "pi_ok (pipes u p)" "pi_items (pipes t p) = xs @ pi_items (pipes u p)"
    using pq.run_invar [OF m(1)] pq.run_order [OF m(1)] f(1) ok by simp_all
qed

lemma pipe_use_order:
  assumes "pipe_use p s W R t" "pi_ok (pipes s p)"
  shows "pi_ok (pipes t p) \<and> pi_items (pipes s p) @ W = R @ pi_items (pipes t p)"
  using assms
proof (induction rule: pipe_use.induct)
  case (elsewhere W R t u)
  then show ?case by (simp add: same_bytes_def pi_ok_def pi_items_def)
next
  case (wrote W R t addr n u xs)
  obtain v where v: "acquire (L_pipe p) t = Inr v" "ends_in (pipewrite_go p addr n 0 v) u"
    using ends_in_bnd [OF wrote(2) [unfolded pipewrite_def] awake_acquire] by blast
  show ?case using pipewrite_call [OF acquire_kept [OF v(1)] v(2)] wrote by simp
next
  case (wrote_more W R t i n j addr u xs)
  obtain v where v: "sleep_in j (L_pipe p) t = Inr v" "ends_in (pipewrite_go p addr n i v) u"
    using ends_in_bnd [OF wrote_more(3) [unfolded pipewrite_in_def] awake_sleep_in] by blast
  show ?case using pipewrite_call [OF sleep_in_kept [OF v(1)] v(2)] wrote_more by simp
next
  case (got W R t addr n u xs)
  obtain v where v: "acquire (L_pipe p) t = Inr v" "ends_in (piperead_go p addr n v) u"
    using ends_in_bnd [OF got(3) [unfolded piperead_def] awake_acquire] by blast
  show ?case using piperead_call [OF acquire_kept [OF v(1)] v(2)] got by simp
next
  case (got_more W R t addr n j u xs)
  obtain v where v: "sleep_in j (L_pipe p) t = Inr v" "ends_in (piperead_go p addr n v) u"
    using ends_in_bnd [OF got_more(3) [unfolded piperead_in_def] awake_sleep_in] by blast
  show ?case using piperead_call [OF sleep_in_kept [OF v(1)] v(2)] got_more by simp
qed simp

text \<open>
  C12: A pipe refines a queue of bytes. In every run of writers and readers of a pipe that was empty, each call in one
  or more parts with sleeps between, the bytes written are the bytes read followed by the at most 512 bytes
  the pipe holds: none is lost, repeated or reordered, also when the counters wrap.
\<close>

theorem pipe_is_fifo:
  assumes "pi_ok (pipes s p)" and "pi_nread (pipes s p) = pi_nwrite (pipes s p)" and "pipe_use p s W R t"
  shows "W = R @ pi_items (pipes t p) \<and> length (pi_items (pipes t p)) \<le> PIPESIZE"
proof -
  have "pi_items (pipes s p) = []" using pq.none_items [OF assms(1)] assms(2) by (simp add: pi_none_def)
  then show ?thesis using pipe_use_order [OF assms(3,1)] pi_items_short by simp
qed

text \<open>A call that need not wait, with the locks free.\<close>

lemma pipewrite_returns:
  assumes "cpu_ok (hw s)" "free_lock (hw s) (L_pipe p)" "free_lock (hw s) L_ptable"
    and c: "pipewrite_copy p addr n 0 (s\<lparr>hw := took (L_pipe p) (hw s)\<rparr>) = Inr (n, t)"
  shows "pipewrite p addr n s = Inr (int n, t\<lparr>hw := rested (hw s), procs := woken (Some (C_nread p)) (procs t)\<rparr>)"
proof -
  have "\<exists>q. t = s\<lparr>hw := took (L_pipe p) (hw s), pipes := q\<rparr>" using pipewrite_copy_run [OF c] by auto
  then have h: "hw t = took (L_pipe p) (hw s)" by auto
  have "wakeup (C_nread p) t = Inr (t\<lparr>procs := woken (Some (C_nread p)) (procs t)\<rparr>)"
    using wakeup_eq [of t "C_nread p"] assms(1-3) h by (simp add: free_lock_def took_fields)
  moreover have "release (L_pipe p) (t\<lparr>procs := woken (Some (C_nread p)) (procs t)\<rparr>)
      = Inr (t\<lparr>procs := woken (Some (C_nread p)) (procs t), hw := rested (hw s)\<rparr>)"
    using release_took [OF assms(1,2), of "t\<lparr>procs := woken (Some (C_nread p)) (procs t)\<rparr>"] h by simp
  ultimately show ?thesis using c acquire_eq [OF assms(1,2)] by (simp add: pipewrite_def pipewrite_go_def)
qed

lemma piperead_returns:
  assumes "cpu_ok (hw s)" "free_lock (hw s) (L_pipe p)" "free_lock (hw s) L_ptable" "pi_nread (pipes s p) \<noteq> pi_nwrite (pipes s p)"
    and c: "piperead_copy p addr n 0 (s\<lparr>hw := took (L_pipe p) (hw s)\<rparr>) = Inr (j, t)"
  shows "piperead p addr n s = Inr (int j, t\<lparr>hw := rested (hw s), procs := woken (Some (C_nwrite p)) (procs t)\<rparr>)"
proof -
  have "\<exists>m q. t = s\<lparr>hw := took (L_pipe p) (hw s), mem := m, pipes := q\<rparr>" using piperead_copy_run [OF c] by auto
  then have h: "hw t = took (L_pipe p) (hw s)" by auto
  have "wakeup (C_nwrite p) t = Inr (t\<lparr>procs := woken (Some (C_nwrite p)) (procs t)\<rparr>)"
    using wakeup_eq [of t "C_nwrite p"] assms(1-3) h by (simp add: free_lock_def took_fields)
  moreover have "release (L_pipe p) (t\<lparr>procs := woken (Some (C_nwrite p)) (procs t)\<rparr>)
      = Inr (t\<lparr>procs := woken (Some (C_nwrite p)) (procs t), hw := rested (hw s)\<rparr>)"
    using release_took [OF assms(1,2), of "t\<lparr>procs := woken (Some (C_nwrite p)) (procs t)\<rparr>"] h by simp
  ultimately show ?thesis using c acquire_eq [OF assms(1,2)] assms(4) by (simp add: piperead_def piperead_go_def)
qed

text \<open>The loops return when the buffer of the caller is mapped, and a write has room for all its bytes if the pipe has.\<close>

lemma user_buf_pipes: "user_buf addr n (upd_pipe p f s) = user_buf addr n s"
  by (simp add: user_buf_def upd_pipe_def upte_def ukaddr_def pt_words_def rd32_def Let_def)

lemma pipewrite_copy_returns: "user_buf addr n s \<Longrightarrow> \<exists>j t. pipewrite_copy p addr n i s = Inr (j, t)"
proof (induction p addr n i s rule: pipewrite_copy.induct)
  case (1 p addr n i s)
  show ?case
  proof (cases "i < n \<and> pi_nwrite (pipes s p) \<noteq> pi_nread (pipes s p) + of_nat PIPESIZE")
    case True
    then obtain c where "uload (addr + of_nat i) s = Inr c" using user_bufD [OF 1(2), of i] by (simp add: uload_def)
    then show ?thesis using True 1 by (subst pipewrite_copy.simps) (simp add: user_buf_pipes)
  qed (subst pipewrite_copy.simps, auto)
qed

lemma piperead_copy_returns: "user_buf addr n s \<Longrightarrow> \<exists>j t. piperead_copy p addr n i s = Inr (j, t)"
proof (induction p addr n i s rule: piperead_copy.induct)
  case (1 p addr n i s)
  show ?case
  proof (cases "i < n \<and> pi_nread (pipes s p) \<noteq> pi_nwrite (pipes s p)")
    case True
    let ?v = "upd_pipe p (\<lambda>q. q\<lparr>pi_nread := pi_nread q + 1\<rparr>) s" and ?c = "pi_data (pipes s p) ! (unat (pi_nread (pipes s p)) mod PIPESIZE)"
    have b: "user_buf addr n ?v" using 1(2) by (simp add: user_buf_pipes)
    note st = user_buf_store(1,2) [OF b conjunct1 [OF True], of ?c]
    then show ?thesis using True 1(1) [OF True refl refl st(1,2)] by (subst piperead_copy.simps) simp
  qed (subst piperead_copy.simps, auto)
qed

lemma pipewrite_room:
  assumes c: "pipewrite_copy p addr n 0 s = Inr (j, t)" and ok: "pi_ok (pipes s p)" and "length (pi_items (pipes s p)) + n < PIPESIZE"
  shows "j = n"
proof (rule ccontr)
  assume "j \<noteq> n"
  with pipewrite_copy_run [OF c] obtain xs where xs: "pipe_run (pipes s p) xs [] (pipes t p)" "uread j addr s = Inr xs" "j \<le> n" "pi_full (pipes t p)" by auto
  have "length (pi_items (pipes t p)) = length (pi_items (pipes s p)) + j" using arg_cong [OF pq.run_order [OF xs(1) ok], of length] length_uread [OF xs(2)] by simp
  moreover have "length (pi_items (pipes t p)) = PIPESIZE" using xs(4) by (simp add: pi_items_def pi_full_iff)
  ultimately show False using assms(3) xs(3) by simp
qed

text \<open>
  A user page at virtual address 0, whose bytes 4 and 5 are written to an empty pipe that is then read into bytes 0 and 1.
\<close>

definition echo_mem :: memory where
  "echo_mem = (\<lambda>_. 0)(0x80000000 := 7, 0x80000001 := 0x10, 0x80001000 := 7, 0x80001001 := 0x20, 0x80002004 := 104, 0x80002005 := 105)"

definition echo_state :: "flst \<Rightarrow> flst" where
  "echo_state b = b\<lparr>hw := two_cpus, mem := echo_mem,
     pipes := (\<lambda>_. \<lparr>pi_data = replicate PIPESIZE 0, pi_nread = 0xFFFFFFFF, pi_nwrite = 0xFFFFFFFF, pi_readopen = True, pi_writeopen = True\<rparr>)\<rparr>"

lemma echo_map:
  assumes "mem s = echo_mem" "cr3 (hw s) = (\<lambda>_. 0)" "i < 6"
  shows "upte (of_nat i) s = 0x2007" "ukaddr (of_nat i) s = 0x80002000 + of_nat i" "pt_words (of_nat i) s = [0x80000000, 0x80001000]"
proof -
  have i: "i = 0 \<or> i = 1 \<or> i = 2 \<or> i = 3 \<or> i = 4 \<or> i = 5" using assms(3) by linarith
  have p: "PDX (of_nat i) = 0" "PTX (of_nat i) = 0" "of_nat i AND 0xFFF = (of_nat i :: u32)" using i by (auto simp: PDX_def PTX_def xv6_defs)
  have m: "load32 echo_mem 0x80000000 = 0x1007" "load32 echo_mem 0x80001000 = 0x2007" by (simp_all add: load32_def echo_mem_def)
  show u: "upte (of_nat i) s = 0x2007" using assms(1,2) p m by (simp add: upte_def rd32_def Let_def P2V_def PTE_ADDR_def xv6_defs)
  show "ukaddr (of_nat i) s = 0x80002000 + of_nat i" using u p by (simp add: ukaddr_def P2V_def PTE_ADDR_def xv6_defs)
  show "pt_words (of_nat i) s = [0x80000000, 0x80001000]" using assms(1,2) p m by (simp add: pt_words_def rd32_def Let_def P2V_def PTE_ADDR_def xv6_defs)
qed

lemma echo_buf:
  assumes s: "mem s = echo_mem" "cr3 (hw s) = (\<lambda>_. 0)" and "k + n \<le> 6" shows "user_buf (of_nat k) n s"
proof -
  have d: "(of_nat a :: u32) = of_nat b \<longleftrightarrow> a = b" if "a < 6" "b < 6" for a b
    using that by (simp add: word_unat_eq_iff unat_of_nat)
  have lt: "of_nat a < KERNBASE" if "a < 6" for a using that by (simp add: word_less_nat_alt unat_of_nat KERNBASE_def)
  have sp: "\<not> in_span (0x80002000 + of_nat a) w 4" if "a < 6" "w \<in> set [0x80000000, 0x80001000]" for a w
  proof -
    have "a = 0 \<or> a = 1 \<or> a = 2 \<or> a = 3 \<or> a = 4 \<or> a = 5" using that(1) by linarith
    then show ?thesis using that(2) by (auto simp: in_span_def)
  qed
  have f: "(0x2007 :: u32) AND PTE_P \<noteq> 0" "(0x2007 :: u32) AND PTE_W \<noteq> 0" by (simp_all add: PTE_P_def PTE_W_def)
  show ?thesis unfolding user_buf_def Let_def of_nat_add [symmetric]
  proof (intro allI impI)
    fix i assume i: "i < n"
    then have ki: "k + i < 6" using assms(3) by simp
    have "(ukaddr (of_nat (k + j)) s = ukaddr (of_nat (k + i)) s \<longrightarrow> i = j) \<and> (\<forall>w\<in>set (pt_words (of_nat (k + j)) s). \<not> in_span (ukaddr (of_nat (k + i)) s) w 4)" if "j < n" for j
    proof -
      have kj: "k + j < 6" using that assms(3) by simp
      show ?thesis unfolding echo_map(2) [OF s ki] echo_map(2,3) [OF s kj] using sp [OF ki] d [OF kj ki] by auto
    qed
    then show "of_nat (k + i) < KERNBASE \<and> upte (of_nat (k + i)) s AND PTE_P \<noteq> 0 \<and> upte (of_nat (k + i)) s AND PTE_W \<noteq> 0 \<and>
         (\<forall>j<n. (ukaddr (of_nat (k + j)) s = ukaddr (of_nat (k + i)) s \<longrightarrow> i = j) \<and>
                (\<forall>w\<in>set (pt_words (of_nat (k + j)) s). \<not> in_span (ukaddr (of_nat (k + i)) s) w 4))"
      unfolding echo_map(1) [OF s ki] using lt [OF ki] f by blast
  qed
qed

lemma echo_write:
  "\<exists>t. pipewrite 0x80300000 4 2 (echo_state b) = Inr (2, t) \<and> mem t = echo_mem \<and> cr3 (hw t) = (\<lambda>_. 0) \<and> hw t = rested two_cpus
     \<and> pi_nread (pipes t 0x80300000) \<noteq> pi_nwrite (pipes t 0x80300000) \<and> put_count (pipes (echo_state b) 0x80300000) (pipes t 0x80300000) = 2"
proof -
  let ?p = "0x80300000" and ?s = "(echo_state b)\<lparr>hw := took (L_pipe 0x80300000) two_cpus\<rparr>"
  have ok: "cpu_ok two_cpus" "free_lock two_cpus l" for l
    using two_cpus_me(1) by (simp_all add: cpu_ok_def free_lock_def) (simp_all add: two_cpus_def)
  have h: "hw (echo_state b) = two_cpus" by (simp add: echo_state_def)
  have "user_buf 4 2 ?s" using echo_buf [of ?s 4 2] by (simp add: echo_state_def took_def pushed_def) (simp add: two_cpus_def)
  then obtain j t where c: "pipewrite_copy ?p 4 2 0 ?s = Inr (j, t)" using pipewrite_copy_returns by blast
  have q: "pi_ok (pipes ?s ?p)" "pi_items (pipes ?s ?p) = []" by (simp_all add: echo_state_def pi_ok_def pi_items_def ring_items_def)
  have j: "j = 2" using pipewrite_room [OF c q(1)] q(2) by (simp add: PIPESIZE_def)
  obtain xs where xs: "pipe_run (pipes ?s ?p) xs [] (pipes t ?p)" "uread 2 4 ?s = Inr xs" "t = ?s\<lparr>pipes := (pipes ?s)(?p := pipes t ?p)\<rparr>"
    using pipewrite_copy_run [OF c] j by auto
  have "pi_items (pipes t ?p) \<noteq> []" using pq.run_order [OF xs(1) q(1)] q(2) length_uread [OF xs(2)] by auto
  then have "pi_nread (pipes t ?p) \<noteq> pi_nwrite (pipes t ?p)" by (auto simp: pi_items_def ring_items_def)
  moreover have "put_count (pipes (echo_state b) ?p) (pipes t ?p) = 2" using pipe_run_put_count [OF xs(1) q(1)] length_uread [OF xs(2)] by simp
  moreover have "mem t = echo_mem" by (subst xs(3)) (simp add: echo_state_def)
  moreover have "cr3 (rested two_cpus) = (\<lambda>_. 0)" by (simp add: rested_def) (simp add: two_cpus_def)
  ultimately show ?thesis using pipewrite_returns [of "echo_state b" ?p 4 2 t] ok c j h by simp
qed

lemma echo_source: "uread 2 4 (echo_state b) = Inr [104, 105]"
proof -
  let ?s = "echo_state b"
  have e: "mem ?s = echo_mem" "cr3 (hw ?s) = (\<lambda>_. 0)" by (simp_all add: echo_state_def) (simp add: two_cpus_def)
  have "ukaddr 4 ?s = 0x80002004" "ukaddr 5 ?s = 0x80002005" using echo_map(2) [OF e, of 4] echo_map(2) [OF e, of 5] by simp_all
  then show ?thesis using uread_eq [OF echo_buf [OF e, of 4 2], of 0 2] unfolding e(1) by (simp add: echo_mem_def)
qed

lemma piperead_result:
  assumes "piperead p addr n t = Inr (int j, u)" "user_buf addr n t" "pi_ok (pipes t p)"
  shows "uread (take_count (pipes t p) (pipes u p)) addr u = uread j addr u" "\<exists>ys. uread j addr u = Inr ys" "j < n \<Longrightarrow> pi_items (pipes u p) = []"
proof -
  obtain v where v: "acquire (L_pipe p) t = Inr v" "piperead_go p addr n v = Inr (int j, u)" using assms(1) by (auto simp: piperead_def)
  note k = acquire_kept [OF v(1)]
  have e: "ends_in (Inr (int j, u)) u" by (simp add: ends_in_def)
  obtain ys where ys: "pipe_run (pipes v p) [] ys (pipes u p)" "uread j addr u = Inr ys" "j < n \<longrightarrow> pi_none (pipes u p)"
    using piperead_go_run [OF v(2) e] user_buf_kept [OF k] assms(2) by auto
  have o: "pi_ok (pipes v p)" using keptD(1) [OF k] assms(3) by simp
  show "uread (take_count (pipes t p) (pipes u p)) addr u = uread j addr u"
    using pipe_run_take_count [OF ys(1) o] length_uread [OF ys(2)] keptD(1) [OF k] by simp
  show "\<exists>ys. uread j addr u = Inr ys" using ys(2) by blast
  show "j < n \<Longrightarrow> pi_items (pipes u p) = []" using ys(3) pq.none_items [OF pq.run_invar [OF ys(1) o]] by simp
qed

theorem pipe_is_fifo_witness:
  "\<forall>b. \<exists>t u. pipewrite 0x80300000 4 2 (echo_state b) = Inr (2, t) \<and> piperead 0x80300000 0 2 t = Inr (2, u)
     \<and> uread 2 0 u = Inr [104, 105] \<and> pipe_use 0x80300000 (echo_state b) [104, 105] [104, 105] u"
proof
  fix b
  let ?p = "0x80300000" and ?s = "echo_state b"
  obtain t where t: "pipewrite ?p 4 2 ?s = Inr (2, t)" "mem t = echo_mem" "cr3 (hw t) = (\<lambda>_. 0)" "hw t = rested two_cpus"
    "pi_nread (pipes t ?p) \<noteq> pi_nwrite (pipes t ?p)" "put_count (pipes ?s ?p) (pipes t ?p) = 2" using echo_write by blast
  have ok: "cpu_ok two_cpus" "free_lock two_cpus l" for l
    using two_cpus_me(1) by (simp_all add: cpu_ok_def free_lock_def) (simp_all add: two_cpus_def)
  have q: "pi_ok (pipes ?s ?p)" "pi_nread (pipes ?s ?p) = pi_nwrite (pipes ?s ?p)" by (simp_all add: echo_state_def pi_ok_def)
  have w: "pipe_use ?p ?s [104, 105] [] t"
    using wrote [OF begin_use, of ?p 4 2 ?s t "[104, 105]"] t(1,6) echo_source by (simp add: ends_in_def)
  have buf: "user_buf 0 2 t" using echo_buf [OF t(2,3), of 0 2] by simp
  let ?v = "t\<lparr>hw := took (L_pipe ?p) (hw t)\<rparr>"
  have "user_buf 0 2 ?v" using echo_buf [of ?v 0 2] t(2,3) by (simp add: took_def pushed_def)
  then obtain j y where "piperead_copy ?p 0 2 0 ?v = Inr (j, y)" using piperead_copy_returns by blast
  from piperead_returns [OF _ _ _ t(5) this] ok t(4) obtain u where u: "piperead ?p 0 2 t = Inr (int j, u)" by (simp add: free_lock_def)
  have "pi_ok (pipes t ?p)" using pipe_use_order [OF w q(1)] by simp
  note r = piperead_result [OF u buf this]
  obtain ys where ys: "uread j 0 u = Inr ys" using r(2) by blast
  have g: "pipe_use ?p ?s [104, 105] ys u" using got [OF w buf, of u ys] u r(1) ys by (simp add: ends_in_def)
  from pipe_is_fifo [OF q this] have f: "[104, 105] = ys @ pi_items (pipes u ?p)" by simp
  have "length ys = j" by (rule length_uread [OF ys])
  moreover have "length ys \<le> 2" using arg_cong [OF f, of length] by simp
  ultimately have "j = 2" using r(3) f by (cases "j < 2") auto
  then have "ys = [104, 105]" using f \<open>length ys = j\<close> by (metis append_eq_conv_conj length_Cons list.size(3) numeral_2_eq_2 append_Nil2)
  then show "\<exists>t u. pipewrite ?p 4 2 ?s = Inr (2, t) \<and> piperead ?p 0 2 t = Inr (2, u)
     \<and> uread 2 0 u = Inr [104, 105] \<and> pipe_use ?p ?s [104, 105] [104, 105] u" using t(1) u ys g \<open>j = 2\<close> by auto
qed

end
