(* ===== verification/Syscall_Args.thy ===== *)
theory Syscall_Args
  imports File
begin

text \<open>
  Arguments of system calls (\<^verbatim>\<open>syscall.c\<close>): words and strings on the user stack, checked against the
  size of the process before the kernel touches them. A result -1 is \<open>None\<close>. A string argument
  is returned as the bytes before its NUL.
\<close>

definition fetchint ::
  "u32 \<Rightarrow> 'a flst_scheme \<Rightarrow> 'a flst_scheme stop + (u32 option \<times> 'a flst_scheme)" where
  "fetchint addr s =
     bnd (myproc s) (\<lambda>(p, s). case p of
       None \<Rightarrow> Inl (Fault ''fetchint'')
     | Some i \<Rightarrow>
         let sz = p_sz (procs s i) in
         if addr \<ge> sz \<or> addr + 4 > sz then Inr (None, s)
         else bnd (uread 4 addr s) (\<lambda>bs. Inr (Some (of_le32 bs), s)))"

function fetchstr_loop :: "u32 \<Rightarrow> u32 \<Rightarrow> u8 list \<Rightarrow> 'a flst_scheme \<Rightarrow> 'a flst_scheme stop + u8 list option" where
  "fetchstr_loop p ep acc s =
     (if p < ep
      then bnd (uload p s) (\<lambda>c.
             if c = 0 then Inr (Some acc) else fetchstr_loop (p + 1) ep (acc @ [c]) s)
      else Inr None)"
  by pat_completeness auto
termination
proof (relation "measure (\<lambda>(p, ep, acc, s). unat ep - unat p)", goal_cases)
  case (2 p ep acc s c)
  then have "unat (p + 1) = unat p + 1"
    using unat32_less [of ep] by (intro trans [OF unat_add32]) (auto simp: word_less_nat_alt)
  with 2 show ?case by (auto simp: word_less_nat_alt)
qed simp

declare fetchstr_loop.simps [simp del]

definition fetchstr ::
  "u32 \<Rightarrow> 'a flst_scheme \<Rightarrow> 'a flst_scheme stop + (u8 list option \<times> 'a flst_scheme)" where
  "fetchstr addr s =
     bnd (myproc s) (\<lambda>(p, s). case p of
       None \<Rightarrow> Inl (Fault ''fetchstr'')
     | Some i \<Rightarrow>
         let sz = p_sz (procs s i) in
         if addr \<ge> sz then Inr (None, s)
         else bnd (fetchstr_loop addr sz [] s) (\<lambda>r. Inr (r, s)))"

definition argint ::
  "nat \<Rightarrow> 'a flst_scheme \<Rightarrow> 'a flst_scheme stop + (u32 option \<times> 'a flst_scheme)" where
  "argint n s =
     bnd (myproc s) (\<lambda>(p, s). case p of
       None \<Rightarrow> Inl (Fault ''argint'')
     | Some i \<Rightarrow> fetchint (rd32 (p_tf (procs s i) + tf_esp) s + 4 + 4 * of_nat n) s)"

definition argptr ::
  "nat \<Rightarrow> u32 \<Rightarrow> 'a flst_scheme \<Rightarrow> 'a flst_scheme stop + (u32 option \<times> 'a flst_scheme)" where
  "argptr n sz s =
     bnd (myproc s) (\<lambda>(p, s). case p of
       None \<Rightarrow> Inl (Fault ''argptr'')
     | Some j \<Rightarrow>
         bnd (argint n s) (\<lambda>(r, s). case r of
           None \<Rightarrow> Inr (None, s)
         | Some i \<Rightarrow>
             if sint sz < 0 \<or> i \<ge> p_sz (procs s j) \<or> i + sz > p_sz (procs s j)
             then Inr (None, s) else Inr (Some i, s)))"

definition argstr ::
  "nat \<Rightarrow> 'a flst_scheme \<Rightarrow> 'a flst_scheme stop + (u8 list option \<times> 'a flst_scheme)" where
  "argstr n s =
     bnd (argint n s) (\<lambda>(r, s). case r of
       None \<Rightarrow> Inr (None, s)
     | Some addr \<Rightarrow> fetchstr addr s)"

end
