(* ===== verification/Exec.thy ===== *)
theory Exec
  imports File
begin

text \<open>
  Loading a program (\<^verbatim>\<open>exec.c\<close>, with \<^verbatim>\<open>loaduvm\<close> of \<^verbatim>\<open>vm.c\<close>). The jumps to \<^verbatim>\<open>bad\<close> are \<open>None\<close> results of the
  parts before the commit; \<open>exec_bad\<close> is the code at that label.
\<close>

definition ELF_MAGIC :: u32 where "ELF_MAGIC = 0x464C457F"
definition ELF_PROG_LOAD :: u32 where "ELF_PROG_LOAD = 1"

record elfhdr =
  e_magic :: u32
  e_entry :: u32
  e_phoff :: u32
  e_phnum :: u16

record proghdr =
  ph_type :: u32
  ph_off :: u32
  ph_vaddr :: u32
  ph_filesz :: u32
  ph_memsz :: u32

definition sizeof_elfhdr :: nat where "sizeof_elfhdr = 52"
definition sizeof_proghdr :: nat where "sizeof_proghdr = 32"

definition to_elfhdr :: "u8 list \<Rightarrow> elfhdr" where
  "to_elfhdr xs = \<lparr>e_magic = get32 0 xs, e_entry = get32 24 xs, e_phoff = get32 28 xs,
     e_phnum = get16 44 xs\<rparr>"

definition to_proghdr :: "u8 list \<Rightarrow> proghdr" where
  "to_proghdr xs = \<lparr>ph_type = get32 0 xs, ph_off = get32 4 xs, ph_vaddr = get32 8 xs,
     ph_filesz = get32 16 xs, ph_memsz = get32 20 xs\<rparr>"

section \<open>Loading a segment\<close>

function loaduvm_loop ::
  "u32 \<Rightarrow> u32 \<Rightarrow> nat \<Rightarrow> u32 \<Rightarrow> u32 \<Rightarrow> nat \<Rightarrow> 'a cst_scheme
   \<Rightarrow> 'a cst_scheme stop + (int \<times> 'a cst_scheme)" where
  "loaduvm_loop pgdir addr ip offset sz i s =
     (if i < unat sz
      then bnd (walkpgdir pgdir (addr + of_nat i) False s) (\<lambda>(pte, s).
             if pte = 0 then Inl (Panic ''loaduvm: address should exist'')
             else let pa = PTE_ADDR (rd32 pte s);
                      n = (if unat sz - i < 4096 then sz - of_nat i else PGSIZE) in
             bnd (readi ip (At (P2V pa)) (offset + of_nat i) n s) (\<lambda>(r, _, s).
               if r \<noteq> int (unat n) then Inr (- 1, s)
               else loaduvm_loop pgdir addr ip offset sz (i + 4096) s))
      else Inr (0, s))"
  by pat_completeness auto
termination by (relation "measure (\<lambda>(pgdir, addr, ip, offset, sz, i, s). unat sz - i)") auto

declare loaduvm_loop.simps [simp del]

definition loaduvm ::
  "u32 \<Rightarrow> u32 \<Rightarrow> nat \<Rightarrow> u32 \<Rightarrow> u32 \<Rightarrow> 'a cst_scheme \<Rightarrow> 'a cst_scheme stop + (int \<times> 'a cst_scheme)" where
  "loaduvm pgdir addr ip offset sz s =
     (if addr mod PGSIZE \<noteq> 0 then Inl (Panic ''loaduvm: addr must be page aligned'')
      else loaduvm_loop pgdir addr ip offset sz 0 s)"

text \<open>The body of the loop over the program headers, with the size of the image so far.\<close>

definition exec_segment ::
  "u32 \<Rightarrow> nat \<Rightarrow> proghdr \<Rightarrow> u32 \<Rightarrow> 'a flst_scheme \<Rightarrow> 'a flst_scheme stop + (u32 option \<times> 'a flst_scheme)"
where
  "exec_segment pgdir ip ph sz s =
     (if ph_type ph \<noteq> ELF_PROG_LOAD then Inr (Some sz, s)
      else if ph_memsz ph < ph_filesz ph then Inr (None, s)
      else if ph_vaddr ph + ph_memsz ph < ph_vaddr ph then Inr (None, s)
      else bnd (allocuvm pgdir sz (ph_vaddr ph + ph_memsz ph) s) (\<lambda>(sz, s).
        if sz = 0 then Inr (None, s)
        else if ph_vaddr ph mod PGSIZE \<noteq> 0 then Inr (None, s)
        else bnd (loaduvm pgdir (ph_vaddr ph) ip (ph_off ph) (ph_filesz ph) s) (\<lambda>(r, s).
          if r < 0 then Inr (None, s) else Inr (Some sz, s))))"

fun exec_load ::
  "nat \<Rightarrow> u32 \<Rightarrow> nat \<Rightarrow> u32 \<Rightarrow> u32 \<Rightarrow> 'a flst_scheme \<Rightarrow> 'a flst_scheme stop + (u32 option \<times> 'a flst_scheme)"
where
  "exec_load 0 pgdir ip off sz s = Inr (Some sz, s)"
| "exec_load (Suc n) pgdir ip off sz s =
     bnd (readi ip Local off (of_nat sizeof_proghdr) s) (\<lambda>(r, xs, s).
       if r \<noteq> int sizeof_proghdr then Inr (None, s)
       else bnd (exec_segment pgdir ip (to_proghdr xs) sz s) (\<lambda>(r, s). case r of
         None \<Rightarrow> Inr (None, s)
       | Some sz \<Rightarrow> exec_load n pgdir ip (off + of_nat sizeof_proghdr) sz s))"

section \<open>The new stack\<close>

text \<open>
  Pushes the argument strings; \<open>us\<close> collects their addresses. Returns the stack pointer and
  the addresses.
\<close>

fun exec_args ::
  "u32 \<Rightarrow> u8 list list \<Rightarrow> nat \<Rightarrow> u32 \<Rightarrow> u32 list \<Rightarrow> 'a flst_scheme
   \<Rightarrow> 'a flst_scheme stop + ((u32 \<times> u32 list) option \<times> 'a flst_scheme)" where
  "exec_args pgdir [] argc sp us s = Inr (Some (sp, us), s)"
| "exec_args pgdir (a # as) argc sp us s =
     (if argc \<ge> MAXARG then Inr (None, s)
      else let sp = (sp - (of_nat (length a) + 1)) AND NOT 3 in
           bnd (copyout pgdir sp (a @ [0]) s) (\<lambda>(r, s).
             if r < 0 then Inr (None, s)
             else exec_args pgdir as (argc + 1) sp (us @ [sp]) s))"

definition exec_stack ::
  "u32 \<Rightarrow> u8 list list \<Rightarrow> u32 \<Rightarrow> 'a flst_scheme
   \<Rightarrow> 'a flst_scheme stop + ((u32 \<times> u32) option \<times> 'a flst_scheme)" where
  "exec_stack pgdir argv sz s =
     bnd (allocuvm pgdir (PGROUNDUP sz) (PGROUNDUP sz + 2 * PGSIZE) s) (\<lambda>(sz, s).
       if sz = 0 then Inr (None, s)
       else bnd (clearpteu pgdir (sz - 2 * PGSIZE) s) (\<lambda>s.
            bnd (exec_args pgdir argv 0 sz [] s) (\<lambda>(r, s). case r of
              None \<Rightarrow> Inr (None, s)
            | Some (sp, us) \<Rightarrow>
                let argc = of_nat (length us);
                    ustack = [0xffffffff, argc, sp - (argc + 1) * 4] @ us @ [0];
                    sp = sp - (3 + argc + 1) * 4 in
                bnd (copyout pgdir sp (concat (map le32 ustack)) s) (\<lambda>(r, s).
                  if r < 0 then Inr (None, s) else Inr (Some (sz, sp), s)))))"

section \<open>exec\<close>

definition exec_bad ::
  "u32 \<Rightarrow> nat option \<Rightarrow> 'a flst_scheme \<Rightarrow> 'a flst_scheme stop + (int \<times> 'a flst_scheme)" where
  "exec_bad pgdir ip s =
     bnd (if pgdir \<noteq> 0 then freevm pgdir s else Inr s) (\<lambda>s.
     bnd (case ip of Some i \<Rightarrow> bnd (iunlockput i s) end_op | None \<Rightarrow> Inr s) (\<lambda>s. Inr (- 1, s)))"

text \<open>The name of the program is what follows the last slash.\<close>

fun last_elem :: "u8 list \<Rightarrow> u8 list \<Rightarrow> u8 list" where
  "last_elem lst [] = lst"
| "last_elem lst (c # cs) = (if c = SLASH then last_elem cs cs else last_elem lst cs)"

definition exec_commit ::
  "nat \<Rightarrow> u8 list \<Rightarrow> u32 \<Rightarrow> u32 \<Rightarrow> u32 \<Rightarrow> u32 \<Rightarrow> 'a flst_scheme
   \<Rightarrow> 'a flst_scheme stop + (int \<times> 'a flst_scheme)" where
  "exec_commit cur path pgdir sz entry sp s =
     (let s = upd_proc cur (\<lambda>p. p\<lparr>p_name := take 15 (last_elem path path)\<rparr>) s;
          oldpgdir = p_pgdir (procs s cur);
          s = upd_proc cur (\<lambda>p. p\<lparr>p_pgdir := pgdir\<rparr>) s;
          s = upd_proc cur (\<lambda>p. p\<lparr>p_sz := sz\<rparr>) s;
          s = wr32 (p_tf (procs s cur) + tf_eip) entry s;
          s = wr32 (p_tf (procs s cur) + tf_esp) sp s in
      bnd (switchuvm (Some cur) s) (\<lambda>s.
      bnd (freevm oldpgdir s) (\<lambda>s. Inr (0, s))))"

definition exec ::
  "u8 list \<Rightarrow> u8 list list \<Rightarrow> 'a flst_scheme \<Rightarrow> 'a flst_scheme stop + (int \<times> 'a flst_scheme)" where
  "exec path argv s =
     bnd (myproc s) (\<lambda>(p, s). case p of
       None \<Rightarrow> Inl (Fault ''exec'')
     | Some cur \<Rightarrow>
     bnd (begin_op s) (\<lambda>s.
     bnd (namei path s) (\<lambda>(r, s). case r of
       None \<Rightarrow> bnd (end_op s) (\<lambda>s. Inr (- 1, s))
     | Some ip \<Rightarrow>
     bnd (ilock ip s) (\<lambda>s.
     bnd (readi ip Local 0 (of_nat sizeof_elfhdr) s) (\<lambda>(r, xs, s).
       let elf = to_elfhdr xs in
       if r \<noteq> int sizeof_elfhdr then exec_bad 0 (Some ip) s
       else if e_magic elf \<noteq> ELF_MAGIC then exec_bad 0 (Some ip) s
       else bnd (setupkvm s) (\<lambda>(pgdir, s).
         if pgdir = 0 then exec_bad 0 (Some ip) s
         else bnd (exec_load (unat (e_phnum elf)) pgdir ip (e_phoff elf) 0 s) (\<lambda>(r, s). case r of
           None \<Rightarrow> exec_bad pgdir (Some ip) s
         | Some sz \<Rightarrow>
             bnd (iunlockput ip s) (\<lambda>s.
             bnd (end_op s) (\<lambda>s.
             bnd (exec_stack pgdir argv sz s) (\<lambda>(r, s). case r of
               None \<Rightarrow> exec_bad pgdir None s
             | Some (sz, sp) \<Rightarrow> exec_commit cur path pgdir sz (e_entry elf) sp s))))))))))"

end
