(* ===== verification/Sysfile.thy ===== *)
theory Sysfile
  imports Syscall_Args Fork Exec
begin

text \<open>
  The file system calls (\<^verbatim>\<open>sysfile.c\<close>). Each returns the value the process finds in \<^verbatim>\<open>eax\<close>.
\<close>

definition O_RDONLY :: u32 where "O_RDONLY = 0x000"
definition O_WRONLY :: u32 where "O_WRONLY = 0x001"
definition O_RDWR :: u32 where "O_RDWR = 0x002"
definition O_CREATE :: u32 where "O_CREATE = 0x200"

section \<open>Descriptors\<close>

definition argfd ::
  "nat \<Rightarrow> 'a flst_scheme \<Rightarrow> 'a flst_scheme stop + ((nat \<times> nat) option \<times> 'a flst_scheme)" where
  "argfd n s =
     bnd (argint n s) (\<lambda>(r, s). case r of
       None \<Rightarrow> Inr (None, s)
     | Some fd \<Rightarrow>
         if sint fd < 0 \<or> sint fd \<ge> int NOFILE then Inr (None, s)
         else bnd (myproc s) (\<lambda>(p, s). case p of
           None \<Rightarrow> Inl (Fault ''argfd'')
         | Some i \<Rightarrow> (case p_ofile (procs s i) (unat fd) of
             None \<Rightarrow> Inr (None, s)
           | Some f \<Rightarrow> Inr (Some (unat fd, f), s))))"

definition fdalloc :: "nat \<Rightarrow> 'a flst_scheme \<Rightarrow> 'a flst_scheme stop + (nat option \<times> 'a flst_scheme)" where
  "fdalloc f s =
     bnd (myproc s) (\<lambda>(p, s). case p of
       None \<Rightarrow> Inl (Fault ''fdalloc'')
     | Some i \<Rightarrow> (case List.find (\<lambda>fd. p_ofile (procs s i) fd = None) [0..<NOFILE] of
         None \<Rightarrow> Inr (None, s)
       | Some fd \<Rightarrow> Inr (Some fd, upd_proc i (\<lambda>q. q\<lparr>p_ofile := (p_ofile q)(fd \<mapsto> f)\<rparr>) s)))"

definition sys_dup :: "'a flst_scheme \<Rightarrow> 'a flst_scheme stop + (int \<times> 'a flst_scheme)" where
  "sys_dup s =
     bnd (argfd 0 s) (\<lambda>(r, s). case r of
       None \<Rightarrow> Inr (- 1, s)
     | Some (_, f) \<Rightarrow>
         bnd (fdalloc f s) (\<lambda>(r, s). case r of
           None \<Rightarrow> Inr (- 1, s)
         | Some fd \<Rightarrow> bnd (filedup f s) (\<lambda>(_, s). Inr (int fd, s))))"

text \<open>The common argument checks of \<^verbatim>\<open>read\<close> and \<^verbatim>\<open>write\<close>: the file, the address and the length.\<close>

definition arg_io ::
  "'a flst_scheme \<Rightarrow> 'a flst_scheme stop + ((nat \<times> u32 \<times> nat) option \<times> 'a flst_scheme)" where
  "arg_io s =
     bnd (argfd 0 s) (\<lambda>(r, s). case r of
       None \<Rightarrow> Inr (None, s)
     | Some (_, f) \<Rightarrow>
         bnd (argint 2 s) (\<lambda>(r, s). case r of
           None \<Rightarrow> Inr (None, s)
         | Some n \<Rightarrow>
             bnd (argptr 1 n s) (\<lambda>(r, s). case r of
               None \<Rightarrow> Inr (None, s)
             | Some p \<Rightarrow> Inr (Some (f, p, unat n), s))))"

definition sys_read :: "'a flst_scheme \<Rightarrow> 'a flst_scheme stop + (int \<times> 'a flst_scheme)" where
  "sys_read s =
     bnd (arg_io s) (\<lambda>(r, s). case r of
       None \<Rightarrow> Inr (- 1, s) | Some (f, p, n) \<Rightarrow> fileread f p n s)"

definition sys_write :: "'a flst_scheme \<Rightarrow> 'a flst_scheme stop + (int \<times> 'a flst_scheme)" where
  "sys_write s =
     bnd (arg_io s) (\<lambda>(r, s). case r of
       None \<Rightarrow> Inr (- 1, s) | Some (f, p, n) \<Rightarrow> filewrite f p n s)"

definition set_ofile :: "nat \<Rightarrow> nat option \<Rightarrow> 'a flst_scheme \<Rightarrow> 'a flst_scheme stop + 'a flst_scheme" where
  "set_ofile fd f s =
     bnd (myproc s) (\<lambda>(p, s). case p of
       None \<Rightarrow> Inl (Fault ''ofile'')
     | Some i \<Rightarrow> Inr (upd_proc i (\<lambda>q. q\<lparr>p_ofile := (p_ofile q)(fd := f)\<rparr>) s))"

definition sys_close :: "'a flst_scheme \<Rightarrow> 'a flst_scheme stop + (int \<times> 'a flst_scheme)" where
  "sys_close s =
     bnd (argfd 0 s) (\<lambda>(r, s). case r of
       None \<Rightarrow> Inr (- 1, s)
     | Some (fd, f) \<Rightarrow>
         bnd (set_ofile fd None s) (\<lambda>s.
         bnd (fileclose f s) (\<lambda>s. Inr (0, s))))"

text \<open>
  \<^verbatim>\<open>struct stat\<close> as the compiler lays it out: \<^verbatim>\<open>type\<close> at 0, \<^verbatim>\<open>dev\<close> at 4, \<^verbatim>\<open>ino\<close> at 8, \<^verbatim>\<open>nlink\<close> at 12,
  \<^verbatim>\<open>size\<close> at 16. Only the fields are written, not the padding.
\<close>

definition store_stat :: "u32 \<Rightarrow> stat \<Rightarrow> 'a kmst_scheme \<Rightarrow> 'a kmst_scheme stop + 'a kmst_scheme" where
  "store_stat a st s =
     bnd (uwrite (a + 4) (le32 (st_dev st)) s) (\<lambda>s.
     bnd (uwrite (a + 8) (le32 (st_ino st)) s) (\<lambda>s.
     bnd (uwrite a (le16 (st_type st)) s) (\<lambda>s.
     bnd (uwrite (a + 12) (le16 (st_nlink st)) s) (\<lambda>s.
     uwrite (a + 16) (le32 (st_size st)) s))))"

definition sys_fstat :: "'a flst_scheme \<Rightarrow> 'a flst_scheme stop + (int \<times> 'a flst_scheme)" where
  "sys_fstat s =
     bnd (argfd 0 s) (\<lambda>(r, s). case r of
       None \<Rightarrow> Inr (- 1, s)
     | Some (_, f) \<Rightarrow>
         bnd (argptr 1 20 s) (\<lambda>(r, s). case r of
           None \<Rightarrow> Inr (- 1, s)
         | Some a \<Rightarrow>
             bnd (filestat f s) (\<lambda>(r, st, s). case st of
               None \<Rightarrow> Inr (r, s)
             | Some st \<Rightarrow> bnd (store_stat a st s) (\<lambda>s. Inr (r, s)))))"

section \<open>Links\<close>

definition end_with :: "int \<Rightarrow> 'a lst_scheme \<Rightarrow> 'a lst_scheme stop + (int \<times> 'a lst_scheme)" where
  "end_with r s = bnd (end_op s) (\<lambda>s. Inr (r, s))"

definition sys_link_bad :: "nat \<Rightarrow> 'a flst_scheme \<Rightarrow> 'a flst_scheme stop + (int \<times> 'a flst_scheme)" where
  "sys_link_bad ip s =
     bnd (ilock ip s) (\<lambda>s.
     bnd (iupdate ip (upd_inode ip (\<lambda>q. q\<lparr>i_nlink := i_nlink q - 1\<rparr>) s)) (\<lambda>s.
     bnd (iunlockput ip s) (end_with (- 1))))"

definition sys_link :: "'a flst_scheme \<Rightarrow> 'a flst_scheme stop + (int \<times> 'a flst_scheme)" where
  "sys_link s =
     bnd (argstr 0 s) (\<lambda>(old, s). case old of
       None \<Rightarrow> Inr (- 1, s)
     | Some old \<Rightarrow>
     bnd (argstr 1 s) (\<lambda>(new, s). case new of
       None \<Rightarrow> Inr (- 1, s)
     | Some new \<Rightarrow>
     bnd (begin_op s) (\<lambda>s.
     bnd (namei old s) (\<lambda>(r, s). case r of
       None \<Rightarrow> end_with (- 1) s
     | Some ip \<Rightarrow>
     bnd (ilock ip s) (\<lambda>s.
       if i_type (icache s ip) = T_DIR then bnd (iunlockput ip s) (end_with (- 1))
       else
     bnd (iupdate ip (upd_inode ip (\<lambda>q. q\<lparr>i_nlink := i_nlink q + 1\<rparr>) s)) (\<lambda>s.
     bnd (iunlock ip s) (\<lambda>s.
     bnd (nameiparent new s) (\<lambda>(r, name, s). case r of
       None \<Rightarrow> sys_link_bad ip s
     | Some dp \<Rightarrow>
     bnd (ilock dp s) (\<lambda>s.
     bnd (if i_dev (icache s dp) \<noteq> i_dev (icache s ip) then Inr (- 1, s)
          else dirlink dp name (i_inum (icache s ip)) s) (\<lambda>(r, s).
       if r < 0 then bnd (iunlockput dp s) (sys_link_bad ip)
       else bnd (iunlockput dp s) (\<lambda>s. bnd (iput ip s) (end_with 0))))))))))))"

function isdirempty_loop ::
  "nat \<Rightarrow> nat \<Rightarrow> nat \<Rightarrow> 'a cst_scheme \<Rightarrow> 'a cst_scheme stop + (bool \<times> 'a cst_scheme)" where
  "isdirempty_loop dp sz off s =
     (if off < sz
      then bnd (read_dirent ''isdirempty: readi'' dp off s) (\<lambda>(de, s).
        if de_inum de \<noteq> 0 then Inr (False, s) else isdirempty_loop dp sz (off + sizeof_dirent) s)
      else Inr (True, s))"
  by pat_completeness auto
termination
  by (relation "measure (\<lambda>(dp, sz, off, s). sz - off)") (auto simp: sizeof_dirent_def)

declare isdirempty_loop.simps [simp del]

definition isdirempty :: "nat \<Rightarrow> 'a cst_scheme \<Rightarrow> 'a cst_scheme stop + (bool \<times> 'a cst_scheme)" where
  "isdirempty dp s = isdirempty_loop dp (unat (i_size (icache s dp))) (2 * sizeof_dirent) s"

definition DOT :: u8 where "DOT = 46"

definition sys_unlink_bad :: "nat \<Rightarrow> 'a flst_scheme \<Rightarrow> 'a flst_scheme stop + (int \<times> 'a flst_scheme)" where
  "sys_unlink_bad dp s = bnd (iunlockput dp s) (end_with (- 1))"

definition sys_unlink :: "'a flst_scheme \<Rightarrow> 'a flst_scheme stop + (int \<times> 'a flst_scheme)" where
  "sys_unlink s =
     bnd (argstr 0 s) (\<lambda>(path, s). case path of
       None \<Rightarrow> Inr (- 1, s)
     | Some path \<Rightarrow>
     bnd (begin_op s) (\<lambda>s.
     bnd (nameiparent path s) (\<lambda>(r, name, s). case r of
       None \<Rightarrow> end_with (- 1) s
     | Some dp \<Rightarrow>
     bnd (ilock dp s) (\<lambda>s.
       if namecmp name [DOT] = 0 \<or> namecmp name [DOT, DOT] = 0 then sys_unlink_bad dp s
       else
     bnd (dirlookup dp name s) (\<lambda>(r, s). case r of
       None \<Rightarrow> sys_unlink_bad dp s
     | Some (ip, off) \<Rightarrow>
     bnd (ilock ip s) (\<lambda>s.
       if sint (i_nlink (icache s ip)) < 1 then Inl (Panic ''unlink: nlink < 1'')
       else
     bnd (if i_type (icache s ip) = T_DIR then isdirempty ip s else Inr (True, s)) (\<lambda>(empty, s).
       if \<not> empty then bnd (iunlockput ip s) (sys_unlink_bad dp)
       else
     bnd (writei dp (replicate sizeof_dirent 0) off (of_nat sizeof_dirent) s) (\<lambda>(r, s).
       if r \<noteq> int sizeof_dirent then Inl (Panic ''unlink: writei'')
       else
     bnd (if i_type (icache s ip) = T_DIR
          then iupdate dp (upd_inode dp (\<lambda>q. q\<lparr>i_nlink := i_nlink q - 1\<rparr>) s) else Inr s) (\<lambda>s.
     bnd (iunlockput dp s) (\<lambda>s.
     bnd (iupdate ip (upd_inode ip (\<lambda>q. q\<lparr>i_nlink := i_nlink q - 1\<rparr>) s)) (\<lambda>s.
     bnd (iunlockput ip s) (end_with 0))))))))))))"

section \<open>Creating and opening\<close>

definition create_dots :: "nat \<Rightarrow> nat \<Rightarrow> 'a flst_scheme \<Rightarrow> 'a flst_scheme stop + 'a flst_scheme" where
  "create_dots dp ip s =
     bnd (iupdate dp (upd_inode dp (\<lambda>q. q\<lparr>i_nlink := i_nlink q + 1\<rparr>) s)) (\<lambda>s.
     bnd (dirlink ip [DOT] (i_inum (icache s ip)) s) (\<lambda>(r, s).
       if r < 0 then Inl (Panic ''create dots'')
       else bnd (dirlink ip [DOT, DOT] (i_inum (icache s dp)) s) (\<lambda>(r, s).
         if r < 0 then Inl (Panic ''create dots'') else Inr s)))"

definition create ::
  "u8 list \<Rightarrow> u16 \<Rightarrow> u16 \<Rightarrow> u16 \<Rightarrow> 'a flst_scheme \<Rightarrow> 'a flst_scheme stop + (nat option \<times> 'a flst_scheme)"
where
  "create path type major minor s =
     bnd (nameiparent path s) (\<lambda>(r, name, s). case r of
       None \<Rightarrow> Inr (None, s)
     | Some dp \<Rightarrow>
     bnd (ilock dp s) (\<lambda>s.
     bnd (dirlookup dp name s) (\<lambda>(r, s). case r of
       Some (ip, _) \<Rightarrow>
         bnd (iunlockput dp s) (\<lambda>s.
         bnd (ilock ip s) (\<lambda>s.
           if type = T_FILE \<and> i_type (icache s ip) = T_FILE then Inr (Some ip, s)
           else bnd (iunlockput ip s) (\<lambda>s. Inr (None, s))))
     | None \<Rightarrow>
         bnd (ialloc (i_dev (icache s dp)) type s) (\<lambda>(ip, s).
         bnd (ilock ip s) (\<lambda>s.
           let s = upd_inode ip (\<lambda>q. q\<lparr>i_major := major, i_minor := minor, i_nlink := 1\<rparr>) s in
         bnd (iupdate ip s) (\<lambda>s.
         bnd (if type = T_DIR then create_dots dp ip s else Inr s) (\<lambda>s.
         bnd (dirlink dp name (i_inum (icache s ip)) s) (\<lambda>(r, s).
           if r < 0 then Inl (Panic ''create: dirlink'')
           else bnd (iunlockput dp s) (\<lambda>s. Inr (Some ip, s))))))))))"

definition open_file ::
  "nat \<Rightarrow> u32 \<Rightarrow> 'a flst_scheme \<Rightarrow> 'a flst_scheme stop + (int \<times> 'a flst_scheme)" where
  "open_file ip omode s =
     bnd (filealloc s) (\<lambda>(f, s). case f of
       None \<Rightarrow> bnd (iunlockput ip s) (end_with (- 1))
     | Some f \<Rightarrow>
         bnd (fdalloc f s) (\<lambda>(fd, s). case fd of
           None \<Rightarrow> bnd (fileclose f s) (\<lambda>s. bnd (iunlockput ip s) (end_with (- 1)))
         | Some fd \<Rightarrow>
             bnd (iunlock ip s) (\<lambda>s.
             bnd (end_op s) (\<lambda>s.
               Inr (int fd, upd_file f (\<lambda>q. q\<lparr>f_type := FD_INODE, f_ip := ip, f_off := 0,
                 f_readable := (omode AND O_WRONLY = 0),
                 f_writable := (omode AND O_WRONLY \<noteq> 0 \<or> omode AND O_RDWR \<noteq> 0)\<rparr>) s)))))"

definition sys_open :: "'a flst_scheme \<Rightarrow> 'a flst_scheme stop + (int \<times> 'a flst_scheme)" where
  "sys_open s =
     bnd (argstr 0 s) (\<lambda>(path, s). case path of
       None \<Rightarrow> Inr (- 1, s)
     | Some path \<Rightarrow>
     bnd (argint 1 s) (\<lambda>(omode, s). case omode of
       None \<Rightarrow> Inr (- 1, s)
     | Some omode \<Rightarrow>
     bnd (begin_op s) (\<lambda>s.
       if omode AND O_CREATE \<noteq> 0
       then bnd (create path T_FILE 0 0 s) (\<lambda>(r, s). case r of
              None \<Rightarrow> end_with (- 1) s
            | Some ip \<Rightarrow> open_file ip omode s)
       else bnd (namei path s) (\<lambda>(r, s). case r of
              None \<Rightarrow> end_with (- 1) s
            | Some ip \<Rightarrow>
                bnd (ilock ip s) (\<lambda>s.
                  if i_type (icache s ip) = T_DIR \<and> omode \<noteq> O_RDONLY
                  then bnd (iunlockput ip s) (end_with (- 1))
                  else open_file ip omode s)))))"

definition sys_mkdir :: "'a flst_scheme \<Rightarrow> 'a flst_scheme stop + (int \<times> 'a flst_scheme)" where
  "sys_mkdir s =
     bnd (begin_op s) (\<lambda>s.
     bnd (argstr 0 s) (\<lambda>(path, s). case path of
       None \<Rightarrow> end_with (- 1) s
     | Some path \<Rightarrow>
         bnd (create path T_DIR 0 0 s) (\<lambda>(r, s). case r of
           None \<Rightarrow> end_with (- 1) s
         | Some ip \<Rightarrow> bnd (iunlockput ip s) (end_with 0))))"

definition sys_mknod :: "'a flst_scheme \<Rightarrow> 'a flst_scheme stop + (int \<times> 'a flst_scheme)" where
  "sys_mknod s =
     bnd (begin_op s) (\<lambda>s.
     bnd (argstr 0 s) (\<lambda>(path, s). case path of
       None \<Rightarrow> end_with (- 1) s
     | Some path \<Rightarrow>
     bnd (argint 1 s) (\<lambda>(major, s). case major of
       None \<Rightarrow> end_with (- 1) s
     | Some major \<Rightarrow>
     bnd (argint 2 s) (\<lambda>(minor, s). case minor of
       None \<Rightarrow> end_with (- 1) s
     | Some minor \<Rightarrow>
         bnd (create path T_DEV (ucast major) (ucast minor) s) (\<lambda>(r, s). case r of
           None \<Rightarrow> end_with (- 1) s
         | Some ip \<Rightarrow> bnd (iunlockput ip s) (end_with 0))))))"

definition sys_chdir :: "'a flst_scheme \<Rightarrow> 'a flst_scheme stop + (int \<times> 'a flst_scheme)" where
  "sys_chdir s =
     bnd (myproc s) (\<lambda>(p, s). case p of
       None \<Rightarrow> Inl (Fault ''sys_chdir'')
     | Some cur \<Rightarrow>
     bnd (begin_op s) (\<lambda>s.
     bnd (argstr 0 s) (\<lambda>(path, s). case path of
       None \<Rightarrow> end_with (- 1) s
     | Some path \<Rightarrow>
     bnd (namei path s) (\<lambda>(r, s). case r of
       None \<Rightarrow> end_with (- 1) s
     | Some ip \<Rightarrow>
     bnd (ilock ip s) (\<lambda>s.
       if i_type (icache s ip) \<noteq> T_DIR then bnd (iunlockput ip s) (end_with (- 1))
       else
     bnd (iunlock ip s) (\<lambda>s. case p_cwd (procs s cur) of
       None \<Rightarrow> Inl (Fault ''iput'')
     | Some old \<Rightarrow>
     bnd (iput old s) (\<lambda>s.
     bnd (end_op s) (\<lambda>s.
       Inr (0, upd_proc cur (\<lambda>q. q\<lparr>p_cwd := Some ip\<rparr>) s)))))))))"

section \<open>exec and pipe\<close>

text \<open>The argument vector: words from the user's array until a zero word.\<close>

fun fetch_argv ::
  "nat \<Rightarrow> u32 \<Rightarrow> 'a flst_scheme \<Rightarrow> 'a flst_scheme stop + (u8 list list option \<times> 'a flst_scheme)" where
  "fetch_argv 0 uargv s = Inr (None, s)"
| "fetch_argv (Suc k) uargv s =
     bnd (fetchint uargv s) (\<lambda>(r, s). case r of
       None \<Rightarrow> Inr (None, s)
     | Some uarg \<Rightarrow>
         if uarg = 0 then Inr (Some [], s)
         else bnd (fetchstr uarg s) (\<lambda>(r, s). case r of
           None \<Rightarrow> Inr (None, s)
         | Some a \<Rightarrow>
             bnd (fetch_argv k (uargv + 4) s) (\<lambda>(r, s). Inr (map_option (Cons a) r, s))))"

definition sys_exec :: "'a flst_scheme \<Rightarrow> 'a flst_scheme stop + (int \<times> 'a flst_scheme)" where
  "sys_exec s =
     bnd (argstr 0 s) (\<lambda>(path, s). case path of
       None \<Rightarrow> Inr (- 1, s)
     | Some path \<Rightarrow>
     bnd (argint 1 s) (\<lambda>(uargv, s). case uargv of
       None \<Rightarrow> Inr (- 1, s)
     | Some uargv \<Rightarrow>
     bnd (fetch_argv MAXARG uargv s) (\<lambda>(argv, s). case argv of
       None \<Rightarrow> Inr (- 1, s)
     | Some argv \<Rightarrow> exec path argv s)))"

definition sys_pipe_bad ::
  "nat option \<Rightarrow> nat \<Rightarrow> nat \<Rightarrow> 'a flst_scheme \<Rightarrow> 'a flst_scheme stop + (int \<times> 'a flst_scheme)" where
  "sys_pipe_bad fd0 rfl wfl s =
     bnd (case fd0 of Some fd \<Rightarrow> set_ofile fd None s | None \<Rightarrow> Inr s) (\<lambda>s.
     bnd (fileclose rfl s) (\<lambda>s.
     bnd (fileclose wfl s) (\<lambda>s. Inr (- 1, s))))"

definition sys_pipe :: "'a flst_scheme \<Rightarrow> 'a flst_scheme stop + (int \<times> 'a flst_scheme)" where
  "sys_pipe s =
     bnd (argptr 0 8 s) (\<lambda>(r, s). case r of
       None \<Rightarrow> Inr (- 1, s)
     | Some fd \<Rightarrow>
     bnd (pipealloc s) (\<lambda>(r, s). case r of
       None \<Rightarrow> Inr (- 1, s)
     | Some (rfl, wfl) \<Rightarrow>
     bnd (fdalloc rfl s) (\<lambda>(r0, s). case r0 of
       None \<Rightarrow> sys_pipe_bad None rfl wfl s
     | Some fd0 \<Rightarrow>
     bnd (fdalloc wfl s) (\<lambda>(r1, s). case r1 of
       None \<Rightarrow> sys_pipe_bad (Some fd0) rfl wfl s
     | Some fd1 \<Rightarrow>
         bnd (uwrite fd (le32 (of_nat fd0)) s) (\<lambda>s.
         bnd (uwrite (fd + 4) (le32 (of_nat fd1)) s) (\<lambda>s. Inr (0, s)))))))"

end
