(* ===== verification/Syscall.thy ===== *)
theory Syscall
  imports Sysfile
begin

text \<open>
  The process system calls (\<^verbatim>\<open>sysproc.c\<close>), the dispatch of a system call by its number (\<^verbatim>\<open>syscall.c\<close>)
  and the trap handler (\<^verbatim>\<open>trap.c\<close>). Acknowledging an interrupt to the interrupt controller has
  no effect on the modelled state.
\<close>

record tkst = frst +
  ticks :: u32
  idt :: "nat \<Rightarrow> gatedesc"
  sym_vectors :: "nat \<Rightarrow> u32"

section \<open>Process system calls\<close>

definition sys_fork :: "'a tkst_scheme \<Rightarrow> 'a tkst_scheme stop + (int \<times> 'a tkst_scheme)" where
  "sys_fork s = fork s"

definition sys_exit :: "'a tkst_scheme \<Rightarrow> 'a tkst_scheme stop + (int \<times> 'a tkst_scheme)" where
  "sys_exit s = bnd (exit s) (\<lambda>s. Inr (0, s))"

definition sys_wait :: "'a tkst_scheme \<Rightarrow> 'a tkst_scheme stop + (int \<times> 'a tkst_scheme)" where
  "sys_wait s = wait s"

definition sys_kill :: "'a tkst_scheme \<Rightarrow> 'a tkst_scheme stop + (int \<times> 'a tkst_scheme)" where
  "sys_kill s =
     bnd (argint 0 s) (\<lambda>(pid, s). case pid of
       None \<Rightarrow> Inr (- 1, s)
     | Some pid \<Rightarrow> kill (sint pid) s)"

definition sys_getpid :: "'a tkst_scheme \<Rightarrow> 'a tkst_scheme stop + (int \<times> 'a tkst_scheme)" where
  "sys_getpid s =
     bnd (myproc s) (\<lambda>(p, s). case p of
       None \<Rightarrow> Inl (Fault ''sys_getpid'')
     | Some i \<Rightarrow> Inr (p_pid (procs s i), s))"

definition sys_sbrk :: "'a tkst_scheme \<Rightarrow> 'a tkst_scheme stop + (int \<times> 'a tkst_scheme)" where
  "sys_sbrk s =
     bnd (argint 0 s) (\<lambda>(n, s). case n of
       None \<Rightarrow> Inr (- 1, s)
     | Some n \<Rightarrow>
         bnd (myproc s) (\<lambda>(p, s). case p of
           None \<Rightarrow> Inl (Fault ''sys_sbrk'')
         | Some i \<Rightarrow>
             let addr = p_sz (procs s i) in
             bnd (growproc n s) (\<lambda>(r, s). Inr (if r < 0 then - 1 else sint addr, s))))"

definition sys_sleep_loop ::
  "u32 \<Rightarrow> u32 \<Rightarrow> 'a tkst_scheme \<Rightarrow> 'a tkst_scheme stop + (int \<times> 'a tkst_scheme)" where
  "sys_sleep_loop n ticks0 s =
     (if ticks s - ticks0 < n
      then bnd (myproc s) (\<lambda>(p, s). case p of
             None \<Rightarrow> Inl (Fault ''sys_sleep'')
           | Some i \<Rightarrow>
               if p_killed (procs s i) then bnd (release L_ticks s) (\<lambda>s. Inr (- 1, s))
               else sleep C_ticks L_ticks s)
      else bnd (release L_ticks s) (\<lambda>s. Inr (0, s)))"

definition sys_sleep :: "'a tkst_scheme \<Rightarrow> 'a tkst_scheme stop + (int \<times> 'a tkst_scheme)" where
  "sys_sleep s =
     bnd (argint 0 s) (\<lambda>(n, s). case n of
       None \<Rightarrow> Inr (- 1, s)
     | Some n \<Rightarrow> bnd (acquire L_ticks s) (\<lambda>s. sys_sleep_loop n (ticks s) s))"

definition sys_sleep_in ::
  "nat \<Rightarrow> u32 \<Rightarrow> u32 \<Rightarrow> 'a tkst_scheme \<Rightarrow> 'a tkst_scheme stop + (int \<times> 'a tkst_scheme)" where
  "sys_sleep_in i n ticks0 s = bnd (sleep_in i L_ticks s) (sys_sleep_loop n ticks0)"

definition sys_uptime :: "'a tkst_scheme \<Rightarrow> 'a tkst_scheme stop + (int \<times> 'a tkst_scheme)" where
  "sys_uptime s =
     bnd (acquire L_ticks s) (\<lambda>s.
       let xticks = ticks s in
     bnd (release L_ticks s) (\<lambda>s. Inr (sint xticks, s)))"

section \<open>Dispatch\<close>

definition syscalls ::
  "nat \<Rightarrow> ('a tkst_scheme \<Rightarrow> 'a tkst_scheme stop + (int \<times> 'a tkst_scheme)) option" where
  "syscalls num = map_of
     [(1, sys_fork), (2, sys_exit), (3, sys_wait), (4, sys_pipe), (5, sys_read), (6, sys_kill),
      (7, sys_exec), (8, sys_fstat), (9, sys_chdir), (10, sys_dup), (11, sys_getpid),
      (12, sys_sbrk), (13, sys_sleep), (14, sys_uptime), (15, sys_open), (16, sys_write),
      (17, sys_mknod), (18, sys_unlink), (19, sys_link), (20, sys_mkdir), (21, sys_close)] num"

definition syscall :: "'a tkst_scheme \<Rightarrow> 'a tkst_scheme stop + 'a tkst_scheme" where
  "syscall s =
     bnd (myproc s) (\<lambda>(p, s). case p of
       None \<Rightarrow> Inl (Fault ''syscall'')
     | Some cur \<Rightarrow>
         let num = sint (rd32 (p_tf (procs s cur) + tf_eax) s) in
         case (if num > 0 then syscalls (nat num) else None) of
           Some f \<Rightarrow>
             bnd (f s) (\<lambda>(r, s). Inr (wr32 (p_tf (procs s cur) + tf_eax) (of_int r) s))
         | None \<Rightarrow> Inr (wr32 (p_tf (procs s cur) + tf_eax) (- 1) s))"

section \<open>Traps\<close>

definition T_SYSCALL :: nat where "T_SYSCALL = 64"
definition T_IRQ0 :: nat where "T_IRQ0 = 32"
definition IRQ_TIMER :: nat where "IRQ_TIMER = 0"
definition IRQ_KBD :: nat where "IRQ_KBD = 1"
definition IRQ_COM1 :: nat where "IRQ_COM1 = 4"
definition IRQ_IDE :: nat where "IRQ_IDE = 14"
definition IRQ_SPURIOUS :: nat where "IRQ_SPURIOUS = 31"

definition tvinit :: "'a tkst_scheme \<Rightarrow> 'a tkst_scheme" where
  "tvinit s =
     (let s = fold (\<lambda>i s. s\<lparr>idt := (idt s)(i :=
                SETGATE False (of_nat (SEG_KCODE * 8)) (sym_vectors s i) 0)\<rparr>) [0..<256] s;
          s = s\<lparr>idt := (idt s)(T_SYSCALL :=
                SETGATE True (of_nat (SEG_KCODE * 8)) (sym_vectors s T_SYSCALL) DPL_USER)\<rparr>
      in initlock L_ticks s)"

text \<open>\<open>if (myproc()->killed) exit();\<close>\<close>

definition exit_if_killed :: "'a frst_scheme \<Rightarrow> 'a frst_scheme stop + 'a frst_scheme" where
  "exit_if_killed s =
     bnd (myproc s) (\<lambda>(p, s). case p of
       None \<Rightarrow> Inl (Fault ''trap'')
     | Some i \<Rightarrow> if p_killed (procs s i) then exit s else Inr s)"

definition trap_syscall :: "u32 \<Rightarrow> 'a tkst_scheme \<Rightarrow> 'a tkst_scheme stop + 'a tkst_scheme" where
  "trap_syscall tf s =
     bnd (exit_if_killed s) (\<lambda>s.
     bnd (myproc s) (\<lambda>(p, s). case p of
       None \<Rightarrow> Inl (Fault ''trap'')
     | Some i \<Rightarrow>
         bnd (syscall (upd_proc i (\<lambda>q. q\<lparr>p_tf := tf\<rparr>) s)) exit_if_killed))"

definition user_mode :: "u32 \<Rightarrow> 'a kmst_scheme \<Rightarrow> bool" where
  "user_mode tf s \<longleftrightarrow> rd32 (tf + tf_cs) s AND 3 = 3"

text \<open>
  The switch on the trap number. \<open>input\<close> lists the characters the keyboard or serial driver hands to
  \<^verbatim>\<open>consoleintr\<close> when it is their interrupt. The disk is the one in memory, whose \<^verbatim>\<open>ideintr\<close> does
  nothing.
\<close>

definition trap_dispatch ::
  "u32 \<Rightarrow> u8 list \<Rightarrow> 'a tkst_scheme \<Rightarrow> 'a tkst_scheme stop + 'a tkst_scheme" where
  "trap_dispatch tf input s =
     (let n = unat (rd32 (tf + tf_trapno) s) in
      if n = T_IRQ0 + IRQ_TIMER
      then bnd (cpuid s) (\<lambda>c.
             if c = 0
             then bnd (acquire L_ticks s) (\<lambda>s.
                  bnd (wakeup C_ticks (s\<lparr>ticks := ticks s + 1\<rparr>)) (release L_ticks))
             else Inr s)
      else if n = T_IRQ0 + IRQ_IDE \<or> n = T_IRQ0 + IRQ_IDE + 1 then Inr s
      else if n = T_IRQ0 + IRQ_KBD \<or> n = T_IRQ0 + IRQ_COM1 then consoleintr input s
      else if n = T_IRQ0 + 7 \<or> n = T_IRQ0 + IRQ_SPURIOUS then bnd (cpuid s) (\<lambda>_. Inr s)
      else bnd (myproc s) (\<lambda>(p, s). case p of
             None \<Rightarrow> Inl (Panic ''trap'')
           | Some i \<Rightarrow>
               if rd32 (tf + tf_cs) s AND 3 = 0 then Inl (Panic ''trap'')
               else bnd (cpuid s) (\<lambda>_. Inr (upd_proc i (\<lambda>q. q\<lparr>p_killed := True\<rparr>) s))))"

definition trap_exit :: "u32 \<Rightarrow> 'a tkst_scheme \<Rightarrow> 'a tkst_scheme stop + 'a tkst_scheme" where
  "trap_exit tf s =
     bnd (myproc s) (\<lambda>(p, s). case p of
       None \<Rightarrow> Inr s
     | Some i \<Rightarrow> if p_killed (procs s i) \<and> user_mode tf s then exit s else Inr s)"

text \<open>After the yield on a clock tick the trap goes on in \<open>trap_in\<close>.\<close>

definition trap :: "u32 \<Rightarrow> u8 list \<Rightarrow> 'a tkst_scheme \<Rightarrow> 'a tkst_scheme stop + 'a tkst_scheme" where
  "trap tf input s =
     (if unat (rd32 (tf + tf_trapno) s) = T_SYSCALL then trap_syscall tf s
      else bnd (trap_dispatch tf input s) (\<lambda>s.
           bnd (trap_exit tf s) (\<lambda>s.
           bnd (myproc s) (\<lambda>(p, s). case p of
             Some i \<Rightarrow>
               if p_state (procs s i) = RUNNING
                  \<and> unat (rd32 (tf + tf_trapno) s) = T_IRQ0 + IRQ_TIMER
               then yield s else trap_exit tf s
           | None \<Rightarrow> trap_exit tf s))))"

definition trap_in :: "nat \<Rightarrow> u32 \<Rightarrow> 'a tkst_scheme \<Rightarrow> 'a tkst_scheme stop + 'a tkst_scheme" where
  "trap_in i tf s = bnd (yield_in i s) (trap_exit tf)"

end
