(* ===== verification/Printint.thy ===== *)
theory Printint
  imports CString
begin

text \<open>
  Printing numbers: the routine \<^verbatim>\<open>printint\<close>, which \<^verbatim>\<open>console.c\<close> and the user library \<^verbatim>\<open>printf.c\<close> both have, with their
  digits in lower and in upper case. What is printed is the number: reading it back gives the number.
\<close>

definition bytes :: "string \<Rightarrow> u8 list" where
  "bytes cs = map of_char cs"

definition user_digits :: "u8 list" where
  "user_digits = bytes ''0123456789ABCDEF''"

definition cons_digits :: "u8 list" where
  "cons_digits = bytes ''0123456789abcdef''"

text \<open>
  The loop that fills \<^verbatim>\<open>buf\<close>, lowest digit first. The bases are 10 and 16; with a base below 2 the loop of the source
  would not end.
\<close>

function print_digits :: "u8 list \<Rightarrow> u32 \<Rightarrow> u32 \<Rightarrow> u8 list" where
  "print_digits ds base x =
     ds ! unat (x mod base) # (if base < 2 \<or> x div base = 0 then [] else print_digits ds base (x div base))"
  by pat_completeness auto
termination
proof (relation "measure (\<lambda>(ds, base, x). unat x)")
  fix ds :: "u8 list" and base x :: u32
  assume a: "\<not> (base < 2 \<or> x div base = 0)"
  then have "2 \<le> unat base" by (simp add: word_less_nat_alt)
  moreover have "x \<noteq> 0" using a by auto
  ultimately have "unat x div unat base < unat x" by (intro div_less_dividend) (simp_all add: unat_gt_0)
  then show "((ds, base, x div base), ds, base, x) \<in> measure (\<lambda>(ds, base, x). unat x)" by (simp add: unat_div)
qed simp

declare print_digits.simps [simp del]

text \<open>The bytes that are output: \<^verbatim>\<open>buf\<close> from its end.\<close>

definition print_int :: "u8 list \<Rightarrow> u32 \<Rightarrow> u32 \<Rightarrow> bool \<Rightarrow> u8 list" where
  "print_int ds xx base sg =
     (let neg = (sg \<and> sint xx < 0);
          x = (if neg then - xx else xx);
          buf = print_digits ds base x @ (if neg then [45] else [])
      in rev buf)"

section \<open>The value that is printed\<close>

definition digit_val :: "u8 \<Rightarrow> nat" where
  "digit_val c = (if 48 \<le> c \<and> c \<le> 57 then unat c - 48 else if 97 \<le> c then unat c - 87 else unat c - 55)"

definition digits_ok :: "u8 list \<Rightarrow> bool" where
  "digits_ok ds \<longleftrightarrow> (\<forall>i<16. digit_val (ds ! i) = i) \<and> (\<forall>i<10. ds ! i = 48 + of_nat i)"

lemma digits_ok_both: "digits_ok user_digits" "digits_ok cons_digits"
  by code_simp+

definition place_value :: "nat \<Rightarrow> u8 list \<Rightarrow> nat" where
  "place_value b cs = foldr (\<lambda>c n. digit_val c + b * n) cs 0"

lemma print_digits_value:
  assumes "digits_ok ds" "2 \<le> base" "base \<le> 16"
  shows "place_value (unat base) (print_digits ds base x) = unat x"
proof (induction x rule: measure_induct_rule [where f = unat])
  case (less x)
  have b: "2 \<le> unat base" "unat base \<le> 16" using assms(2,3) by (simp_all add: word_le_nat_alt)
  then have "unat x mod unat base < 16" by (metis le_trans less_le_trans mod_less_divisor not_numeral_le_zero zero_less_iff_neq_zero)
  then have d: "digit_val (ds ! unat (x mod base)) = unat x mod unat base" using assms(1) by (simp add: digits_ok_def unat_mod)
  show ?case
  proof (cases "x div base = 0")
    case True
    then have "unat x div unat base = 0" by (metis unat_div unat_0)
    then show ?thesis using True d div_mult_mod_eq [of "unat x" "unat base"] by (subst print_digits.simps) (simp add: place_value_def)
  next
    case False
    have "unat (x div base) < unat x" using False b(1) by (auto simp: unat_div unat_gt_0 intro!: div_less_dividend)
    with False d less.IH show ?thesis using assms(2)
      by (subst print_digits.simps) (simp add: place_value_def unat_div word_less_nat_alt word_le_nat_alt)
  qed
qed

lemma print_digits_length:
  assumes "2 \<le> base" "unat x < unat base ^ Suc k"
  shows "length (print_digits ds base x) \<le> Suc k"
  using assms(2)
proof (induction k arbitrary: x)
  case 0
  then have "x div base = 0" by (simp add: word_unat_eq_iff unat_div)
  then show ?case by (simp add: print_digits.simps)
next
  case (Suc k)
  have "unat (x div base) < unat base ^ Suc k" using Suc.prems by (simp add: unat_div less_mult_imp_div_less mult.commute)
  from Suc.IH [OF this] show ?case by (subst print_digits.simps) simp
qed

section \<open>Reading it back\<close>

definition as_cstr :: "u8 list \<Rightarrow> cstr" where
  "as_cstr cs = (\<lambda>i. if i < length cs then cs ! i else 0)"

lemma as_cstr_simps [simp]: "as_cstr [] = (\<lambda>_. 0)" "as_cstr (c # cs) 0 = c" "shift (as_cstr (c # cs)) = as_cstr cs"
  by (auto simp: as_cstr_def shift_def fun_eq_iff)

definition decimal :: "u8 \<Rightarrow> bool" where
  "decimal c \<longleftrightarrow> 48 \<le> c \<and> c \<le> 57"

lemma atoi_loop_digits:
  "list_all decimal cs \<Longrightarrow> atoi_loop (as_cstr cs) n = Some (foldl (\<lambda>n c. n * 10 + ucast c - 48) n cs)"
proof (induction cs arbitrary: n)
  case Nil
  then show ?case by (simp add: atoi_loop.simps)
next
  case (Cons c cs)
  then show ?case by (subst atoi_loop.simps) (simp add: decimal_def)
qed

lemma decimal_value: "decimal c \<Longrightarrow> (ucast c :: u32) - 48 = of_nat (digit_val c)"
proof -
  assume c: "decimal c"
  then have u: "48 \<le> unat c" "unat c \<le> 57" by (simp_all add: decimal_def word_le_nat_alt)
  have "(of_nat (unat c - 48) :: u32) = of_nat (unat c) - 48" using u by (simp add: of_nat_diff)
  then show ?thesis using c by (simp add: digit_val_def decimal_def)
qed

lemma atoi_place_value:
  assumes "list_all decimal cs"
  shows "foldr (\<lambda>c n. n * 10 + ucast c - 48) cs 0 = (of_nat (place_value 10 cs) :: u32)"
  using assms
proof (induction cs)
  case (Cons c cs)
  then have "n * 10 + ucast c - 48 = n * 10 + (of_nat (digit_val c) :: u32)" for n
    using decimal_value [of c] by (simp add: algebra_simps)
  then show ?case using Cons by (simp add: place_value_def algebra_simps)
qed (simp add: place_value_def)

lemma print_digits_decimal: "digits_ok ds \<Longrightarrow> list_all decimal (print_digits ds 10 x)"
proof (induction x rule: measure_induct_rule [where f = unat])
  case (less x)
  have m: "unat (x mod 10) < 10" by (simp add: unat_mod)
  then have "ds ! unat (x mod 10) = 48 + of_nat (unat (x mod 10))" using less.prems by (simp add: digits_ok_def)
  moreover have "unat (48 + of_nat (unat (x mod 10)) :: u8) = 48 + unat (x mod 10)" using m by (simp add: unat_word_ariths unat_of_nat)
  ultimately have d: "decimal (ds ! unat (x mod 10))" using m by (simp add: decimal_def word_le_nat_alt)
  show ?case
  proof (cases "x div 10 = 0")
    case False
    then have "unat (x div 10) < unat x" by (auto simp: unat_div unat_gt_0 intro!: div_less_dividend)
    from less.IH [OF this less.prems] d False show ?thesis by (subst print_digits.simps) simp
  qed (use d in \<open>simp add: print_digits.simps\<close>)
qed

lemma atoi_print_digits: "digits_ok ds \<Longrightarrow> atoi (as_cstr (rev (print_digits ds 10 x))) = Some x"
proof -
  assume ok: "digits_ok ds"
  have "list_all decimal (print_digits ds 10 x)" by (rule print_digits_decimal [OF ok])
  then show ?thesis using print_digits_value [OF ok, of 10 x] atoi_place_value [of "print_digits ds 10 x"]
    by (simp add: atoi_def atoi_loop_digits foldl_conv_foldr)
qed

text \<open>
  C24: Both \<^verbatim>\<open>printint\<close> routines print the number they are given: \<^verbatim>\<open>atoi\<close> reads the decimal digits of a number back to
  that number, after a minus sign exactly when the number is negative (also for the least \<^verbatim>\<open>int\<close>); the
  hexadecimal digits have the value of the word; and the digits and the sign fit into the 16 bytes of \<^verbatim>\<open>buf\<close>.
\<close>

theorem printint_roundtrip:
  "let ds = (if user then user_digits else cons_digits); out = print_int ds xx 10 True; hex = print_int ds xx 16 False in
   (\<exists>cs. out = (if sint xx < 0 then 45 # cs else cs) \<and> atoi (as_cstr cs) = Some (if sint xx < 0 then - xx else xx))
   \<and> length out \<le> 11 \<and> place_value 16 (rev hex) = unat xx \<and> length hex \<le> 8"
proof -
  define ds where "ds = (if user then user_digits else cons_digits)"
  have ok: "digits_ok ds" using digits_ok_both by (simp add: ds_def)
  let ?x = "if sint xx < 0 then - xx else xx"
  have out: "print_int ds xx 10 True = (if sint xx < 0 then 45 # rev (print_digits ds 10 ?x) else rev (print_digits ds 10 ?x))"
    by (simp add: print_int_def)
  have hex: "print_int ds xx 16 False = rev (print_digits ds 16 xx)" by (simp add: print_int_def)
  have lt: "unat y < 2 ^ 32" for y :: u32 using unat32_less [of y] by simp
  have l: "length (print_digits ds 10 ?x) \<le> Suc 9" using lt [of ?x] by (intro print_digits_length) simp_all
  have h: "length (print_digits ds 16 xx) \<le> Suc 7" using lt [of xx] by (intro print_digits_length) simp_all
  have "\<exists>cs. print_int ds xx 10 True = (if sint xx < 0 then 45 # cs else cs) \<and> atoi (as_cstr cs) = Some ?x"
    unfolding out using atoi_print_digits [OF ok] by blast
  moreover have "length (print_int ds xx 10 True) \<le> 11" unfolding out using l by (auto split: if_splits)
  ultimately show ?thesis using print_digits_value [OF ok, of 16 xx] h
    unfolding Let_def ds_def [symmetric] hex by simp
qed

end
