(* ===== verification/Usys.thy ===== *)
theory Usys
  imports Printint Fs
begin

text \<open>
  User programs. A program is a function of the answers the kernel gives to its system calls: the state holds the calls made so
  far with their answers, and the answers still to come. With no answer left the program waits in its last call. A program
  ends in \<^verbatim>\<open>exit\<close> or in an \<^verbatim>\<open>exec\<close> that succeeds. After \<^verbatim>\<open>fork\<close> the answers decide which of the two processes
  is followed. The buffer of a \<^verbatim>\<open>read\<close> gets at most the number of bytes asked for.
\<close>

datatype request =
    Q_fork | Q_wait | Q_pipe | Q_read int nat | Q_kill int | Q_exec "u8 list" "u8 list list"
  | Q_fstat int | Q_chdir "u8 list" | Q_dup int | Q_getpid | Q_sbrk int | Q_sleep int
  | Q_open "u8 list" nat | Q_write int "u8 list" | Q_mknod "u8 list" nat nat | Q_unlink "u8 list"
  | Q_link "u8 list" "u8 list" | Q_mkdir "u8 list" | Q_close int

datatype reply = Val int | Got "u8 list" | Stat stat | Fds int int | Replaced

record usr =
  talk :: "(request \<times> reply) list"
  answers :: "reply list"

datatype ustop = Exited usr | Waiting request usr | Stray string

definition ask :: "request \<Rightarrow> usr \<Rightarrow> ustop + (reply \<times> usr)" where
  "ask q s = (case answers s of
     [] \<Rightarrow> Inl (Waiting q s)
   | r # rs \<Rightarrow> Inr (r, s\<lparr>talk := talk s @ [(q, r)], answers := rs\<rparr>))"

definition val_of :: "reply \<Rightarrow> int" where
  "val_of r = (case r of Val v \<Rightarrow> v | Got b \<Rightarrow> int (length b) | _ \<Rightarrow> 0)"

definition call :: "request \<Rightarrow> usr \<Rightarrow> ustop + (int \<times> usr)" where
  "call q s = bnd (ask q s) (\<lambda>(r, s). Inr (val_of r, s))"

text \<open>A \<^verbatim>\<open>read\<close> that fails returns a negative number and leaves the buffer alone.\<close>

definition read :: "int \<Rightarrow> nat \<Rightarrow> usr \<Rightarrow> ustop + (int \<times> u8 list \<times> usr)" where
  "read fd n s = bnd (ask (Q_read fd n) s) (\<lambda>(r, s). case r of
     Got b \<Rightarrow> Inr (int (length (take n b)), take n b, s)
   | _ \<Rightarrow> Inr (- 1, [], s))"

definition uexit :: "usr \<Rightarrow> ustop + 'a" where
  "uexit s = Inl (Exited s)"

definition uexec :: "u8 list \<Rightarrow> u8 list list \<Rightarrow> usr \<Rightarrow> ustop + (int \<times> usr)" where
  "uexec path argv s = bnd (ask (Q_exec path argv) s) (\<lambda>(r, s). case r of
     Replaced \<Rightarrow> Inl (Exited s)
   | _ \<Rightarrow> Inr (val_of r, s))"

definition ufstat :: "int \<Rightarrow> usr \<Rightarrow> ustop + (int \<times> stat option \<times> usr)" where
  "ufstat fd s = bnd (ask (Q_fstat fd) s) (\<lambda>(r, s). case r of
     Stat st \<Rightarrow> Inr (0, Some st, s)
   | _ \<Rightarrow> Inr (- 1, None, s))"

definition upipe :: "usr \<Rightarrow> ustop + (int \<times> int \<times> int \<times> usr)" where
  "upipe s = bnd (ask Q_pipe s) (\<lambda>(r, s). case r of
     Fds a b \<Rightarrow> Inr (0, a, b, s)
   | _ \<Rightarrow> Inr (- 1, 0, 0, s))"

section \<open>Every call takes an answer\<close>

lemma ask_Inr: "ask q s = Inr (r, t) \<longleftrightarrow> (\<exists>rs. answers s = r # rs \<and> t = \<lparr>talk = talk s @ [(q, r)], answers = rs\<rparr>)"
  by (cases s) (auto simp: ask_def split: list.splits)

lemma ask_less [termination_simp]: "ask q s = Inr (r, t) \<Longrightarrow> length (answers t) < length (answers s)"
  by (auto simp: ask_Inr)

lemma call_less [termination_simp]: "call q s = Inr (v, t) \<Longrightarrow> length (answers t) < length (answers s)"
  by (auto simp: call_def dest: ask_less)

lemma read_less [termination_simp]: "read fd n s = Inr (v, b, t) \<Longrightarrow> length (answers t) < length (answers s)"
  unfolding read_def bnd_eq_Inr
proof (elim exE conjE)
  fix x assume "ask (Q_read fd n) s = Inr x" "(case x of (r, s) \<Rightarrow> case r of Got b \<Rightarrow> Inr (int (length (take n b)), take n b, s) | _ \<Rightarrow> Inr (- 1, [], s)) = Inr (v, b, t)"
  then show ?thesis by (cases x; cases "fst x") (auto dest: ask_less)
qed

lemma each_le:
  assumes "\<And>x s t. f x s = Inr t \<Longrightarrow> length (answers t) \<le> length (answers s)"
  shows "each f xs s = Inr t \<Longrightarrow> length (answers t) \<le> length (answers s)"
proof (induction xs arbitrary: s)
  case (Cons x xs)
  then obtain u where "f x s = Inr u" "each f xs u = Inr t" by auto
  then show ?case using Cons.IH assms le_trans by blast
qed simp

section \<open>Output\<close>

definition putc :: "int \<Rightarrow> u8 \<Rightarrow> usr \<Rightarrow> ustop + usr" where
  "putc fd c s = bnd (call (Q_write fd [c]) s) (\<lambda>(_, s). Inr s)"

definition printint :: "int \<Rightarrow> u32 \<Rightarrow> u32 \<Rightarrow> bool \<Rightarrow> usr \<Rightarrow> ustop + usr" where
  "printint fd xx base sg s = each (putc fd) (print_int user_digits xx base sg) s"

text \<open>
  An argument is a word; as a pointer it stands for the string at that address. \<open>printf_at\<close> is the loop
  of \<^verbatim>\<open>printf\<close>, with \<open>True\<close> for the state after a percent sign; arguments that are not there are \<open>Stray\<close>.
\<close>

datatype parg = Parg u32 "u8 list"

definition next_arg :: "parg list \<Rightarrow> ustop + (u32 \<times> u8 list \<times> parg list)" where
  "next_arg ap = (case ap of [] \<Rightarrow> Inl (Stray ''printf argument'') | Parg w t # ap \<Rightarrow> Inr (w, t, ap))"

fun printf_at :: "int \<Rightarrow> bool \<Rightarrow> u8 list \<Rightarrow> parg list \<Rightarrow> usr \<Rightarrow> ustop + usr" where
  "printf_at fd st [] ap s = Inr s"
| "printf_at fd False (c # fmt) ap s =
     (if c = 37 then printf_at fd True fmt ap s
      else bnd (putc fd c s) (printf_at fd False fmt ap))"
| "printf_at fd True (c # fmt) ap s =
     (if c = 100 then bnd (next_arg ap) (\<lambda>(w, _, ap). bnd (printint fd w 10 True s) (printf_at fd False fmt ap))
      else if c = 120 \<or> c = 112 then bnd (next_arg ap) (\<lambda>(w, _, ap). bnd (printint fd w 16 False s) (printf_at fd False fmt ap))
      else if c = 115 then bnd (next_arg ap) (\<lambda>(w, t, ap).
        bnd (each (putc fd) (if w = 0 then bytes ''(null)'' else t) s) (printf_at fd False fmt ap))
      else if c = 99 then bnd (next_arg ap) (\<lambda>(w, _, ap). bnd (putc fd (ucast w) s) (printf_at fd False fmt ap))
      else if c = 37 then bnd (putc fd c s) (printf_at fd False fmt ap)
      else bnd (putc fd 37 s) (\<lambda>s. bnd (putc fd c s) (printf_at fd False fmt ap)))"

definition printf :: "int \<Rightarrow> u8 list \<Rightarrow> parg list \<Rightarrow> usr \<Rightarrow> ustop + usr" where
  "printf fd fmt ap s = printf_at fd False fmt ap s"

definition str_arg :: "u8 list \<Rightarrow> parg" where
  "str_arg t = Parg 1 t"

definition int_arg :: "u32 \<Rightarrow> parg" where
  "int_arg w = Parg w []"

end
