(* ===== verification/Grep.thy ===== *)
theory Grep
  imports Usys
begin

text \<open>
  The program \<^verbatim>\<open>grep\<close> (\<^verbatim>\<open>grep.c\<close>): its pattern matcher, shown to decide the usual meaning of the patterns, and its loop over
  the lines of a file in a buffer of 1024 bytes.
\<close>

section \<open>The matcher\<close>

text \<open>Strings are lists without their NUL: the byte after the last one is the NUL.\<close>

function (sequential) matchhere :: "u8 list \<Rightarrow> u8 list \<Rightarrow> bool" and matchstar :: "u8 \<Rightarrow> u8 list \<Rightarrow> u8 list \<Rightarrow> bool" where
  "matchhere re text = (case re of
     [] \<Rightarrow> True
   | c # re' \<Rightarrow>
       if re' \<noteq> [] \<and> hd re' = 42 then matchstar c (tl re') text
       else if c = 36 \<and> re' = [] then text = []
       else if text \<noteq> [] \<and> (c = 46 \<or> c = hd text) then matchhere re' (tl text)
       else False)"
| "matchstar c re text =
     (if matchhere re text then True
      else if text \<noteq> [] \<and> (hd text = c \<or> c = 46) then matchstar c re (tl text)
      else False)"
  by pat_completeness auto
termination
  by (relation "measures [\<lambda>x. case x of Inl (re, text) \<Rightarrow> length re + length text | Inr (c, re, text) \<Rightarrow> length re + length text + 1,
      \<lambda>x. case x of Inl _ \<Rightarrow> 0 | Inr _ \<Rightarrow> 1]") (auto simp: length_greater_0_conv [symmetric] simp del: length_greater_0_conv)

declare matchhere.simps [simp del] matchstar.simps [simp del]

function match_from :: "u8 list \<Rightarrow> u8 list \<Rightarrow> bool" where
  "match_from re text =
     (if matchhere re text then True
      else if text \<noteq> [] then match_from re (tl text)
      else False)"
  by pat_completeness auto
termination by (relation "measure (\<lambda>(re, text). length text)") auto

declare match_from.simps [simp del]

definition match :: "u8 list \<Rightarrow> u8 list \<Rightarrow> bool" where
  "match re text = (if re \<noteq> [] \<and> hd re = 94 then matchhere (tl re) text else match_from re text)"

section \<open>What a pattern means\<close>

datatype item = One u8 | Many u8 | End

fun items_of :: "u8 list \<Rightarrow> item list" where
  "items_of [] = []"
| "items_of [c] = [if c = 36 then End else One c]"
| "items_of (c # d # re) = (if d = 42 then Many c # items_of re else One c # items_of (d # re))"

definition fits :: "u8 \<Rightarrow> u8 \<Rightarrow> bool" where
  "fits c d \<longleftrightarrow> c = 46 \<or> c = d"

text \<open>\<open>(u, v)\<close> is in the meaning when the items match exactly \<open>u\<close> with \<open>v\<close> behind it.\<close>

fun meaning :: "item list \<Rightarrow> (u8 list \<times> u8 list) set" where
  "meaning [] = {([], v) |v. True}"
| "meaning (One c # is) = {(d # u, v) |d u v. fits c d \<and> (u, v) \<in> meaning is}"
| "meaning (Many c # is) = {(w @ u, v) |w u v. list_all (fits c) w \<and> (u, v) \<in> meaning is}"
| "meaning (End # is) = {(u, v) \<in> meaning is. v = [] \<and> u = []}"

definition begins_with :: "item list \<Rightarrow> u8 list \<Rightarrow> bool" where
  "begins_with is text \<longleftrightarrow> (\<exists>u v. text = u @ v \<and> (u, v) \<in> meaning is)"

lemma begins_with_One: "begins_with (One c # is) tx \<longleftrightarrow> tx \<noteq> [] \<and> fits c (hd tx) \<and> begins_with is (tl tx)"
proof (cases tx)
  case Nil
  then show ?thesis by (simp add: begins_with_def)
next
  case (Cons d ds)
  have "begins_with (One c # is) (d # ds) \<longleftrightarrow> (\<exists>u v. ds = u @ v \<and> fits c d \<and> (u, v) \<in> meaning is)"
  proof
    assume "begins_with (One c # is) (d # ds)"
    then obtain u v where "ds = u @ v" "fits c d" "(u, v) \<in> meaning is" by (auto simp: begins_with_def)
    then show "\<exists>u v. ds = u @ v \<and> fits c d \<and> (u, v) \<in> meaning is" by blast
  next
    assume "\<exists>u v. ds = u @ v \<and> fits c d \<and> (u, v) \<in> meaning is"
    then obtain u v where "ds = u @ v" "fits c d" "(u, v) \<in> meaning is" by blast
    then show "begins_with (One c # is) (d # ds)"
      unfolding begins_with_def by (intro exI [of _ "d # u"] exI [of _ v]) simp
  qed
  then have "begins_with (One c # is) (d # ds) \<longleftrightarrow> fits c d \<and> begins_with is ds" unfolding begins_with_def by blast
  then show ?thesis using Cons by simp
qed

lemma begins_with_simps [simp]: "begins_with [] tx" "begins_with [End] tx \<longleftrightarrow> tx = []"
  by (simp_all add: begins_with_def)

lemma begins_with_ManyI: "\<lbrakk>tx = w @ u @ v; list_all (fits c) w; (u, v) \<in> meaning is\<rbrakk> \<Longrightarrow> begins_with (Many c # is) tx"
  unfolding begins_with_def by (intro exI [of _ "w @ u"] exI [of _ v]) auto

lemma begins_with_ManyE:
  assumes "begins_with (Many c # is) tx"
  obtains w u v where "tx = w @ u @ v" "list_all (fits c) w" "(u, v) \<in> meaning is"
  using assms by (auto simp: begins_with_def)

lemma begins_with_Many:
  "begins_with (Many c # is) tx \<longleftrightarrow> begins_with is tx \<or> tx \<noteq> [] \<and> fits c (hd tx) \<and> begins_with (Many c # is) (tl tx)"
proof
  assume "begins_with (Many c # is) tx"
  then obtain w u v where t: "tx = w @ u @ v" "list_all (fits c) w" "(u, v) \<in> meaning is" by (rule begins_with_ManyE)
  show "begins_with is tx \<or> tx \<noteq> [] \<and> fits c (hd tx) \<and> begins_with (Many c # is) (tl tx)"
  proof (cases w)
    case Nil
    then have "begins_with is tx" using t(1,3) unfolding begins_with_def by (intro exI [of _ u] exI [of _ v]) simp
    then show ?thesis ..
  next
    case (Cons d w')
    then have "begins_with (Many c # is) (tl tx)" using t by (intro begins_with_ManyI [of _ w' u v]) simp_all
    then show ?thesis using t Cons by simp
  qed
next
  assume "begins_with is tx \<or> tx \<noteq> [] \<and> fits c (hd tx) \<and> begins_with (Many c # is) (tl tx)"
  then show "begins_with (Many c # is) tx"
  proof (elim disjE conjE)
    assume "begins_with is tx"
    then obtain u v where "tx = u @ v" "(u, v) \<in> meaning is" unfolding begins_with_def by blast
    then show ?thesis by (intro begins_with_ManyI [of _ "[]" u v]) simp_all
  next
    assume n: "tx \<noteq> []" "fits c (hd tx)" and "begins_with (Many c # is) (tl tx)"
    then obtain w u v where "tl tx = w @ u @ v" "list_all (fits c) w" "(u, v) \<in> meaning is" by (metis begins_with_ManyE)
    then show ?thesis using n by (intro begins_with_ManyI [of _ "hd tx # w" u v]) (simp_all add: list.expand)
  qed
qed

lemma matchhere_matchstar_begins:
  "matchhere re tx \<longleftrightarrow> begins_with (items_of re) tx"
  "matchstar c re tx \<longleftrightarrow> begins_with (Many c # items_of re) tx"
proof (induction re tx and c re tx rule: matchhere_matchstar.induct)
  case (1 re tx)
  show ?case
  proof (cases re)
    case Nil then show ?thesis by (simp add: matchhere.simps)
  next
    case (Cons c re')
    note re = Cons
    show ?thesis
    proof (cases re')
      case Nil
      then show ?thesis using 1(2) re by (subst matchhere.simps) (auto simp: begins_with_One fits_def)
    next
      case (Cons d r)
      then show ?thesis using 1 re by (subst matchhere.simps) (auto simp: begins_with_One fits_def)
    qed
  qed
next
  case (2 c re tx)
  then show ?case
    by (subst matchstar.simps, subst begins_with_Many) (cases tx; use 2 in \<open>auto simp: fits_def\<close>)
qed

lemma match_from_iff: "match_from re tx \<longleftrightarrow> (\<exists>a b. tx = a @ b \<and> begins_with (items_of re) b)"
proof (induction re tx rule: match_from.induct)
  case (1 re tx)
  have split: "(\<exists>a b. tx = a @ b \<and> P b) \<longleftrightarrow> P tx \<or> tx \<noteq> [] \<and> (\<exists>a b. tl tx = a @ b \<and> P b)" for P
    by (cases tx) (auto simp: Cons_eq_append_conv)
  show ?case
    by (subst match_from.simps, subst split) (use 1 in \<open>auto simp: matchhere_matchstar_begins(1)\<close>)
qed

text \<open>
  C22: The matcher decides what its patterns mean: a pattern is a sequence of bytes that match themselves, dots that match any
  byte, either of them starred for any number of repetitions, and a final dollar sign that matches only the end. \<^verbatim>\<open>match\<close>
  returns true exactly when some part of the text matches the pattern, which after a leading caret
  must be the beginning of the text.
\<close>

theorem match_decides_pattern:
  "match re tx \<longleftrightarrow> (\<exists>a u v. tx = a @ u @ v
     \<and> (if re \<noteq> [] \<and> hd re = 94 then a = [] \<and> (u, v) \<in> meaning (items_of (tl re)) else (u, v) \<in> meaning (items_of re)))"
proof (cases "re \<noteq> [] \<and> hd re = 94")
  case True
  then show ?thesis by (simp add: match_def matchhere_matchstar_begins(1) begins_with_def)
next
  case False
  have "match re tx \<longleftrightarrow> (\<exists>a b u v. tx = a @ b \<and> b = u @ v \<and> (u, v) \<in> meaning (items_of re))"
    using False by (simp add: match_def match_from_iff begins_with_def) blast
  then show ?thesis unfolding if_not_P [OF False] by blast
qed

section \<open>The lines of a file\<close>

text \<open>
  \<open>buf\<close> is the global buffer, \<open>m\<close> the number of its bytes in use, \<open>p\<close> and \<open>q\<close> are positions in it. The bytes
  of the buffer from a position on are a string that ends at the first NUL.
\<close>

definition BUFLEN :: nat where "BUFLEN = 1024"

function strchr_at :: "u8 list \<Rightarrow> nat \<Rightarrow> u8 \<Rightarrow> nat option" where
  "strchr_at buf i c =
     (if length buf \<le> i \<or> buf ! i = 0 then None
      else if buf ! i = c then Some i
      else strchr_at buf (i + 1) c)"
  by pat_completeness auto
termination by (relation "measure (\<lambda>(buf, i, c). length buf - i)") auto

declare strchr_at.simps [simp del]

lemma strchr_at_bounds: "strchr_at buf i c = Some q \<Longrightarrow> i \<le> q \<and> q < length buf"
proof (induction buf i c rule: strchr_at.induct)
  case (1 buf i c)
  then show ?case by (subst (asm) (2) strchr_at.simps) (auto split: if_splits)
qed

definition string_at :: "u8 list \<Rightarrow> nat \<Rightarrow> u8 list" where
  "string_at buf i = takeWhile (\<lambda>c. c \<noteq> 0) (drop i buf)"

definition grep_line :: "u8 list \<Rightarrow> nat \<Rightarrow> nat \<Rightarrow> u8 list \<Rightarrow> usr \<Rightarrow> ustop + (u8 list \<times> usr)" where
  "grep_line pattern p q buf s =
     (let buf = buf[q := 0] in
      if match pattern (string_at buf p)
      then let buf = buf[q := 10] in
           bnd (call (Q_write 1 (take (q + 1 - p) (drop p buf))) s) (\<lambda>(_, s). Inr (buf, s))
      else Inr (buf, s))"

lemma grep_line_length: "grep_line pattern p q buf s = Inr (buf', t) \<Longrightarrow> length buf' = length buf"
  by (auto simp: grep_line_def Let_def split: if_splits)

function grep_lines :: "u8 list \<Rightarrow> nat \<Rightarrow> u8 list \<Rightarrow> usr \<Rightarrow> ustop + (nat \<times> u8 list \<times> usr)" where
  "grep_lines pattern p buf s =
     (case strchr_at buf p 10 of
        None \<Rightarrow> Inr (p, buf, s)
      | Some q \<Rightarrow> bnd (grep_line pattern p q buf s) (\<lambda>(buf, s). grep_lines pattern (q + 1) buf s))"
  by pat_completeness auto
termination
proof (relation "measure (\<lambda>(pattern, p, buf, s). length buf - p)")
  fix pattern p buf s q x buf' s'
  assume "strchr_at buf p 10 = Some q" "grep_line pattern p q buf s = Inr x" "(buf', s') = x"
  then show "((pattern, q + 1, buf', s'), pattern, p, buf, s) \<in> measure (\<lambda>(pattern, p, buf, s). length buf - p)"
    using strchr_at_bounds grep_line_length by fastforce
qed simp

declare grep_lines.simps [simp del]

definition put_at :: "nat \<Rightarrow> u8 list \<Rightarrow> u8 list \<Rightarrow> u8 list" where
  "put_at i cs buf = take i buf @ cs @ drop (i + length cs) buf"

lemma call_le: "grep_line pattern p q buf s = Inr (buf', t) \<Longrightarrow> length (answers t) \<le> length (answers s)"
  by (auto simp: grep_line_def Let_def split: if_splits dest: call_less)

lemma grep_lines_le: "grep_lines pattern p buf s = Inr (q, buf', t) \<Longrightarrow> length (answers t) \<le> length (answers s)"
proof (induction pattern p buf s rule: grep_lines.induct)
  case (1 pattern p buf s)
  show ?case
  proof (cases "strchr_at buf p 10")
    case None
    then show ?thesis using 1(2) by (simp add: grep_lines.simps [of pattern p buf s])
  next
    case (Some r)
    then obtain b u where u: "grep_line pattern p r buf s = Inr (b, u)" "grep_lines pattern (r + 1) b u = Inr (q, buf', t)"
      using 1(2) by (auto simp: grep_lines.simps [of pattern p buf s])
    from 1(1) [OF Some u(1) refl u(2)] call_le [OF u(1)] show ?thesis by simp
  qed
qed

text \<open>The body of the loop over the reads.\<close>

definition grep_chunk :: "u8 list \<Rightarrow> nat \<Rightarrow> u8 list \<Rightarrow> u8 list \<Rightarrow> usr \<Rightarrow> ustop + (nat \<times> u8 list \<times> usr)" where
  "grep_chunk pattern m got buf s =
     (let buf = put_at m got buf;
          m = m + length got;
          buf = buf[m := 0] in
      bnd (grep_lines pattern 0 buf s) (\<lambda>(p, buf, s).
        let m = (if p = 0 then 0 else m);
            m' = (if m > 0 then m - p else m);
            buf = (if m > 0 then put_at 0 (take m' (drop p buf)) buf else buf)
        in Inr (m', buf, s)))"

lemma grep_chunk_le: "grep_chunk pattern m got buf s = Inr (m', buf', t) \<Longrightarrow> length (answers t) \<le> length (answers s)"
  by (auto simp: grep_chunk_def Let_def dest: grep_lines_le)

function grep_loop :: "u8 list \<Rightarrow> int \<Rightarrow> nat \<Rightarrow> u8 list \<Rightarrow> usr \<Rightarrow> ustop + (u8 list \<times> usr)" where
  "grep_loop pattern fd m buf s =
     bnd (read fd (BUFLEN - m - 1) s) (\<lambda>(n, got, s).
       if n > 0
       then bnd (grep_chunk pattern m got buf s) (\<lambda>(m, buf, s). grep_loop pattern fd m buf s)
       else Inr (buf, s))"
  by pat_completeness auto
termination
proof (relation "measure (\<lambda>(pattern, fd, m, buf, s). length (answers s))")
  fix pattern fd m buf s x n y got u z m' w buf' v
  assume "read fd (BUFLEN - m - 1) s = Inr x" "(n, y) = x" "(got, u) = y" "grep_chunk pattern m got buf u = Inr z" "(m', w) = z" "(buf', v) = w"
  then show "((pattern, fd, m', buf', v), pattern, fd, m, buf, s) \<in> measure (\<lambda>(pattern, fd, m, buf, s). length (answers s))"
    using read_less grep_chunk_le by fastforce
qed simp

declare grep_loop.simps [simp del]

definition grep :: "u8 list \<Rightarrow> int \<Rightarrow> u8 list \<Rightarrow> usr \<Rightarrow> ustop + (u8 list \<times> usr)" where
  "grep pattern fd buf s = grep_loop pattern fd 0 buf s"

fun grep_files :: "u8 list \<Rightarrow> u8 list list \<Rightarrow> u8 list \<Rightarrow> usr \<Rightarrow> ustop + 'a" where
  "grep_files pattern [] buf s = uexit s"
| "grep_files pattern (arg # args) buf s =
     bnd (call (Q_open arg 0) s) (\<lambda>(fd, s).
       if fd < 0
       then bnd (printf 1 (bytes ''grep: cannot open %s\<newline>'') [str_arg arg] s) uexit
       else bnd (grep pattern fd buf s) (\<lambda>(buf, s).
            bnd (call (Q_close fd) s) (\<lambda>(_, s). grep_files pattern args buf s)))"

definition grep_main :: "u8 list list \<Rightarrow> usr \<Rightarrow> ustop + 'a" where
  "grep_main argv s =
     (if length argv \<le> 1
      then bnd (printf 2 (bytes ''usage: grep pattern [file ...]\<newline>'') [] s) uexit
      else if length argv \<le> 2
      then bnd (grep (argv ! 1) 0 (replicate BUFLEN 0) s) (\<lambda>(_, s). uexit s)
      else grep_files (argv ! 1) (drop 2 argv) (replicate BUFLEN 0) s)"

section \<open>What is printed\<close>

definition got_bytes :: "int \<Rightarrow> (request \<times> reply) list \<Rightarrow> u8 list" where
  "got_bytes fd d = concat (map (\<lambda>x. case x of (Q_read f n, Got b) \<Rightarrow> if f = fd then take n b else [] | _ \<Rightarrow> []) d)"

definition written :: "int \<Rightarrow> (request \<times> reply) list \<Rightarrow> u8 list" where
  "written fd d = concat (map (\<lambda>x. case x of (Q_write f b, _) \<Rightarrow> if f = fd then b else [] | _ \<Rightarrow> []) d)"

lemma written_simps [simp]: "written fd [] = []" "written fd (d @ e) = written fd d @ written fd e"
  by (simp_all add: written_def)

lemma got_bytes_simps [simp]: "got_bytes fd [] = []" "got_bytes fd (d @ e) = got_bytes fd d @ got_bytes fd e"
  by (simp_all add: got_bytes_def)

text \<open>The complete lines of a text, each with its newline, and what follows the last of them.\<close>

function lines_of :: "u8 list \<Rightarrow> u8 list list" where
  "lines_of xs = (if 10 \<in> set xs then (takeWhile (\<lambda>c. c \<noteq> 10) xs @ [10]) # lines_of (tl (dropWhile (\<lambda>c. c \<noteq> 10) xs)) else [])"
  by pat_completeness auto
termination
proof (relation "measure length")
  fix xs :: "u8 list" assume "10 \<in> set xs"
  then have "dropWhile (\<lambda>c. c \<noteq> 10) xs \<noteq> []" by auto
  then have "length (tl (dropWhile (\<lambda>c. c \<noteq> 10) xs)) < length (dropWhile (\<lambda>c. c \<noteq> 10) xs)" by simp
  also have "\<dots> \<le> length xs" by (rule length_dropWhile_le)
  finally show "(tl (dropWhile (\<lambda>c. c \<noteq> 10) xs), xs) \<in> measure length" by simp
qed simp

function rest_of :: "u8 list \<Rightarrow> u8 list" where
  "rest_of xs = (if 10 \<in> set xs then rest_of (tl (dropWhile (\<lambda>c. c \<noteq> 10) xs)) else xs)"
  by pat_completeness auto
termination
proof (relation "measure length")
  fix xs :: "u8 list" assume "10 \<in> set xs"
  then have "dropWhile (\<lambda>c. c \<noteq> 10) xs \<noteq> []" by auto
  then have "length (tl (dropWhile (\<lambda>c. c \<noteq> 10) xs)) < length (dropWhile (\<lambda>c. c \<noteq> 10) xs)" by simp
  also have "\<dots> \<le> length xs" by (rule length_dropWhile_le)
  finally show "(tl (dropWhile (\<lambda>c. c \<noteq> 10) xs), xs) \<in> measure length" by simp
qed simp

declare lines_of.simps [simp del] rest_of.simps [simp del]

lemma split_line:
  assumes "10 \<in> set xs" obtains l ys where "xs = l @ 10 # ys" "10 \<notin> set l"
  using split_list_first [OF assms] by blast

lemma lines_of_line: "10 \<notin> set l \<Longrightarrow> lines_of (l @ 10 # ys) = (l @ [10]) # lines_of ys" "10 \<notin> set l \<Longrightarrow> rest_of (l @ 10 # ys) = rest_of ys"
proof -
  assume l: "10 \<notin> set l"
  then have "takeWhile (\<lambda>c. c \<noteq> 10) (l @ 10 # ys) = l" "dropWhile (\<lambda>c. c \<noteq> 10) (l @ 10 # ys) = 10 # ys"
    by (induction l) auto
  then show "lines_of (l @ 10 # ys) = (l @ [10]) # lines_of ys" "rest_of (l @ 10 # ys) = rest_of ys"
    by (simp_all add: lines_of.simps [of "l @ 10 # ys"] rest_of.simps [of "l @ 10 # ys"])
qed

lemma lines_of_none: "10 \<notin> set xs \<Longrightarrow> lines_of xs = []" "10 \<notin> set xs \<Longrightarrow> rest_of xs = xs"
  by (subst lines_of.simps, simp) (subst rest_of.simps, simp)

lemma line_induct [case_names none line]:
  assumes "\<And>xs. 10 \<notin> set xs \<Longrightarrow> P xs" "\<And>l ys. 10 \<notin> set l \<Longrightarrow> P ys \<Longrightarrow> P (l @ 10 # ys)"
  shows "P xs"
proof (induction xs rule: length_induct)
  case (1 xs)
  show ?case
  proof (cases "10 \<in> set xs")
    case True
    then obtain l ys where "xs = l @ 10 # ys" "10 \<notin> set l" by (rule split_line)
    then show ?thesis using 1 assms(2) by simp
  qed (rule assms(1))
qed

lemma lines_rest: "concat (lines_of xs) @ rest_of xs = xs" "10 \<notin> set (rest_of xs)" "set (rest_of xs) \<subseteq> set xs"
  by (induction xs rule: line_induct) (auto simp: lines_of_none lines_of_line)

lemma lines_of_append: "lines_of (xs @ ys) = lines_of xs @ lines_of (rest_of xs @ ys)"
  by (induction xs rule: line_induct) (simp_all add: lines_of_none lines_of_line)

definition hits :: "u8 list \<Rightarrow> u8 list \<Rightarrow> u8 list" where
  "hits pattern xs = concat (filter (\<lambda>l. match pattern (butlast l)) (lines_of xs))"

lemma hits_line: "10 \<notin> set l \<Longrightarrow> hits pattern (l @ 10 # ys) = (if match pattern l then l @ [10] else []) @ hits pattern ys"
  by (simp add: hits_def lines_of_line)

lemma strchr_at_line:
  assumes "length front = p" "10 \<notin> set l" "0 \<notin> set l"
  shows "strchr_at (front @ l @ 10 # ys) p 10 = Some (p + length l)" "strchr_at (front @ l @ 0 # ys) p 10 = None"
  using assms
proof (induction l arbitrary: front p)
  case (Cons c l)
  { case 1 then show ?case using Cons(1) [of "front @ [c]" "Suc p"] by (subst strchr_at.simps) (auto simp: nth_append) }
  { case 2 then show ?case using Cons(2) [of "front @ [c]" "Suc p"] by (subst strchr_at.simps) (auto simp: nth_append) }
qed (auto simp: strchr_at.simps nth_append)

lemma grep_line_effect:
  assumes "length front = p" "0 \<notin> set l" "grep_line pattern p (p + length l) (front @ l @ 10 # ys) s = Inr (buf, t)"
  shows "\<exists>d c. buf = front @ l @ c # ys \<and> talk t = talk s @ d \<and> got_bytes fd d = []
    \<and> written 1 d = (if match pattern l then l @ [10] else [])"
proof -
  have z: "(front @ l @ b # ys)[p + length l := c] = front @ l @ c # ys" for b c using assms(1) by (simp add: list_update_append)
  have "takeWhile (\<lambda>c. c \<noteq> 0) (l @ 0 # ys) = l" using assms(2) by (induction l) auto
  then have w: "string_at (front @ l @ 0 # ys) p = l" using assms(1) by (simp add: string_at_def)
  have k: "take (p + length l + 1 - p) (drop p (front @ l @ 10 # ys)) = l @ [10]" using assms(1) by simp
  show ?thesis
  proof (cases "match pattern l")
    case True
    then have "bnd (call (Q_write 1 (l @ [10])) s) (\<lambda>(_, s). Inr (front @ l @ 10 # ys, s)) = Inr (buf, t)"
      using assms(3) unfolding grep_line_def Let_def z w k by simp
    then show ?thesis using True by (auto simp: call_def ask_Inr got_bytes_def written_def)
  next
    case False
    then have "buf = front @ l @ 0 # ys \<and> t = s" using assms(3) unfolding grep_line_def Let_def z w by simp
    then show ?thesis using False by (intro exI [of _ "[]"] exI [of _ 0]) simp
  qed
qed

lemma grep_lines_effect:
  assumes "length front = p" "0 \<notin> set cs" "grep_lines pattern p (front @ cs @ 0 # back) s = Inr (q, buf, t)"
  shows "\<exists>d. talk t = talk s @ d \<and> got_bytes fd d = [] \<and> written 1 d = hits pattern cs
    \<and> q = p + length (concat (lines_of cs)) \<and> drop q buf = rest_of cs @ 0 # back \<and> length buf = p + length cs + 1 + length back"
  using assms
proof (induction cs arbitrary: front p s rule: line_induct)
  case (none xs)
  then show ?case
    by (subst (asm) grep_lines.simps) (auto simp: strchr_at_line(2) lines_of_none hits_def intro: exI [of _ "[]"])
next
  case (line l ys)
  let ?front = "front @ l @ 10 # (ys @ 0 # back)"
  have n: "0 \<notin> set l" "0 \<notin> set ys" using line.prems(2) by auto
  obtain b u where u: "grep_line pattern p (p + length l) ?front s = Inr (b, u)" "grep_lines pattern (p + length l + 1) b u = Inr (q, buf, t)"
    using line.prems(3) strchr_at_line(1) [OF line.prems(1) line.hyps n(1), of "ys @ 0 # back"] by (subst (asm) grep_lines.simps) auto
  obtain d c where d: "b = front @ l @ c # ys @ 0 # back" "talk u = talk s @ d" "got_bytes fd d = []" "written 1 d = (if match pattern l then l @ [10] else [])"
    using grep_line_effect [OF line.prems(1) n(1) u(1), of fd] by auto
  obtain e where e: "talk t = talk u @ e" "got_bytes fd e = []" "written 1 e = hits pattern ys"
    "q = p + length l + 1 + length (concat (lines_of ys))" "drop q buf = rest_of ys @ 0 # back" "length buf = p + length l + 1 + length ys + 1 + length back"
    using line.IH [of "front @ l @ [c]" "p + length l + 1" u] line.prems(1) n(2) u(2) d(1) by auto
  then show ?case using d line.hyps by (intro exI [of _ "d @ e"]) (simp add: hits_line lines_of_line)
qed

definition lines_kept :: "int \<Rightarrow> (request \<times> reply) list \<Rightarrow> bool" where
  "lines_kept fd d \<longleftrightarrow> list_all (\<lambda>x. case x of
     (Q_read f n, Got b) \<Rightarrow> f = fd \<longrightarrow> take n b = [] \<or> 10 \<in> set (take n b) \<and> 0 \<notin> set (take n b)
   | _ \<Rightarrow> True) d"

lemma lines_kept_append [simp]: "lines_kept fd (d @ e) \<longleftrightarrow> lines_kept fd d \<and> lines_kept fd e"
  by (simp add: lines_kept_def)

lemma read_Inr:
  assumes "read fd n s = Inr (v, got, t)"
  obtains r where "talk t = talk s @ [(Q_read fd n, r)]" "length (answers t) < length (answers s)"
    "got = got_bytes fd [(Q_read fd n, r)]" "0 < v \<Longrightarrow> v = int (length got)" "\<not> 0 < v \<Longrightarrow> got = []" "length got \<le> n"
proof -
  obtain r u where r: "ask (Q_read fd n) s = Inr (r, u)" using assms by (auto simp: read_def)
  then have "(v, got, t) = (case r of Got b \<Rightarrow> (int (length (take n b)), take n b, u) | _ \<Rightarrow> (- 1, [], u))"
    using assms by (cases r) (auto simp: read_def)
  then show thesis
    by (intro that [of r]) (use r in \<open>auto simp: ask_Inr got_bytes_def split: reply.splits\<close>)
qed

lemma grep_chunk_effect:
  assumes c: "grep_chunk pattern m got buf s = Inr (m', buf', t)" and len: "length buf = BUFLEN" and m: "m + length got < BUFLEN"
    and nl: "10 \<in> set got" and nz: "0 \<notin> set got" "0 \<notin> set (take m buf)"
  shows "\<exists>d. talk t = talk s @ d \<and> got_bytes fd d = [] \<and> written 1 d = hits pattern (take m buf @ got)
    \<and> take m' buf' = rest_of (take m buf @ got) \<and> length buf' = BUFLEN \<and> m' < BUFLEN"
proof -
  let ?cs = "take m buf @ got" and ?post = "drop (m + length got + 1) buf"
  have tm: "length (take m buf) = m" using m len by simp
  have b: "(put_at m got buf)[m + length got := 0] = [] @ ?cs @ 0 # ?post"
  proof -
    have "drop (m + length got) buf = buf ! (m + length got) # ?post" using m len by (simp add: Cons_nth_drop_Suc)
    then show ?thesis using tm by (simp add: put_at_def list_update_append)
  qed
  obtain p b' where l: "grep_lines pattern 0 ([] @ ?cs @ 0 # ?post) s = Inr (p, b', t)"
    and e: "m' = (if 0 < (if p = 0 then 0 else m + length got) then m + length got - p else 0)"
      "buf' = (if 0 < (if p = 0 then 0 else m + length got) then put_at 0 (take (m + length got - p) (drop p b')) b' else b')"
    using c unfolding grep_chunk_def Let_def b by (auto split: if_splits)
  obtain d where d: "talk t = talk s @ d" "got_bytes fd d = []" "written 1 d = hits pattern ?cs"
    "p = length (concat (lines_of ?cs))" "drop p b' = rest_of ?cs @ 0 # ?post" "length b' = length ?cs + 1 + length ?post"
    using grep_lines_effect [of "[]" 0 ?cs pattern ?post s p b' t fd] l nz by auto
  have tot: "length (rest_of ?cs) = m + length got - p" using arg_cong [OF lines_rest(1) [of ?cs], of length] d(4) tm by simp
  have "lines_of ?cs \<noteq> []" using nl by (subst lines_of.simps) simp
  then have "0 < p" using lines_of.simps [of ?cs] d(4) by (auto split: if_splits)
  moreover have "0 < m + length got" using nl by (cases got) auto
  ultimately have "m' = m + length got - p" "buf' = put_at 0 (rest_of ?cs) b'" using e d(5) tot by simp_all
  moreover have "length (rest_of ?cs) \<le> length b'" using d(6) tot tm m len by simp
  ultimately show ?thesis using d tot m len tm by (intro exI [of _ d]) (auto simp: put_at_def)
qed

text \<open>A program only adds to its exchange with the kernel.\<close>

lemma grep_line_talk: "grep_line pattern p q buf s = Inr (buf', t) \<Longrightarrow> \<exists>d. talk t = talk s @ d"
  by (auto simp: grep_line_def Let_def call_def ask_Inr split: if_splits)

lemma grep_lines_talk: "grep_lines pattern p buf s = Inr (q, buf', t) \<Longrightarrow> \<exists>d. talk t = talk s @ d"
proof (induction pattern p buf s rule: grep_lines.induct)
  case (1 pattern p buf s)
  show ?case
  proof (cases "strchr_at buf p 10")
    case None
    then show ?thesis using 1(2) by (simp add: grep_lines.simps [of pattern p buf s])
  next
    case (Some r)
    then obtain b u where u: "grep_line pattern p r buf s = Inr (b, u)" "grep_lines pattern (r + 1) b u = Inr (q, buf', t)"
      using 1(2) by (auto simp: grep_lines.simps [of pattern p buf s])
    from 1(1) [OF Some u(1) refl u(2)] grep_line_talk [OF u(1)] show ?thesis by auto
  qed
qed

lemma grep_chunk_talk: "grep_chunk pattern m got buf s = Inr (m', buf', t) \<Longrightarrow> \<exists>d. talk t = talk s @ d"
  unfolding grep_chunk_def Let_def by (auto dest: grep_lines_talk)

lemma grep_loop_Inr:
  assumes "grep_loop pattern fd m buf s = Inr (buf', t)"
  obtains (stop) v got u where "read fd (BUFLEN - m - 1) s = Inr (v, got, u)" "\<not> 0 < v" "t = u"
  | (more) v got u m1 buf1 w where "read fd (BUFLEN - m - 1) s = Inr (v, got, u)" "0 < v" "grep_chunk pattern m got buf u = Inr (m1, buf1, w)"
      "grep_loop pattern fd m1 buf1 w = Inr (buf', t)"
proof -
  obtain v got u where r: "read fd (BUFLEN - m - 1) s = Inr (v, got, u)"
    and g: "(if 0 < v then bnd (grep_chunk pattern m got buf u) (\<lambda>(m, buf, s). grep_loop pattern fd m buf s) else Inr (buf, u)) = Inr (buf', t)"
    using assms unfolding grep_loop.simps [of pattern fd m buf s] by auto
  show thesis
  proof (cases "0 < v")
    case True
    then show thesis using more [OF r True] g by auto
  next
    case False
    then show thesis using stop [OF r False] g by simp
  qed
qed

lemma grep_loop_talk: "grep_loop pattern fd m buf s = Inr (buf', t) \<Longrightarrow> \<exists>d. talk t = talk s @ d"
proof (induction "length (answers s)" arbitrary: m buf s rule: less_induct)
  case less
  from less.prems show ?case
  proof (cases rule: grep_loop_Inr)
    case (stop v got u)
    then show ?thesis by (metis read_Inr)
  next
    case (more v got u m1 buf1 w)
    obtain x where "talk u = talk s @ [x]" "length (answers u) < length (answers s)" by (rule read_Inr [OF more(1)]) blast
    moreover obtain d where "talk w = talk u @ d" using grep_chunk_talk [OF more(3)] by blast
    ultimately show ?thesis using less.hyps [OF _ more(4)] grep_chunk_le [OF more(3)] by fastforce
  qed
qed

lemma grep_loop_effect:
  assumes "grep_loop pattern fd m buf s = Inr (buf', t)" "length buf = BUFLEN" "m < BUFLEN" "10 \<notin> set (take m buf)" "0 \<notin> set (take m buf)"
    "talk t = talk s @ d" "lines_kept fd d"
  shows "written 1 d = hits pattern (take m buf @ got_bytes fd d)"
  using assms
proof (induction "length (answers s)" arbitrary: m buf s d rule: less_induct)
  case less
  from less.prems(1) show ?case
  proof (cases rule: grep_loop_Inr)
    case (stop v got u)
    let ?q = "Q_read fd (BUFLEN - m - 1)"
    obtain x where x: "talk u = talk s @ [(?q, x)]" "got = got_bytes fd [(?q, x)]" "\<not> 0 < v \<Longrightarrow> got = []"
      by (rule read_Inr [OF stop(1)]) blast
    have d: "d = [(?q, x)]" using less.prems(6) x(1) stop(3) by simp
    have "got_bytes fd d = []" using x(2,3) stop(2) unfolding d by simp
    moreover have "written 1 d = []" unfolding d by (simp add: written_def)
    ultimately show ?thesis using less.prems(4) by (simp add: hits_def lines_of_none)
  next
    case (more v got u m1 buf1 w)
    let ?q = "Q_read fd (BUFLEN - m - 1)"
    obtain x where x: "talk u = talk s @ [(?q, x)]" "length (answers u) < length (answers s)" "got = got_bytes fd [(?q, x)]"
      "0 < v \<Longrightarrow> v = int (length got)" "length got \<le> BUFLEN - m - 1" by (rule read_Inr [OF more(1)]) blast
    obtain f where f: "talk t = talk w @ f" using grep_loop_talk [OF more(4)] by blast
    obtain c where c: "talk w = talk u @ c" using grep_chunk_talk [OF more(3)] by blast
    have d: "d = (?q, x) # c @ f" using less.prems(6) x(1) f c by simp
    have "got \<noteq> []" using more(2) x(4) by auto
    then have g: "10 \<in> set got" "0 \<notin> set got" using less.prems(7) x(3) unfolding d lines_kept_def by (auto simp: got_bytes_def split: reply.splits)
    have lt: "m + length got < BUFLEN" using x(5) less.prems(3) by simp
    obtain e where e: "talk w = talk u @ e" "got_bytes fd e = []" "written 1 e = hits pattern (take m buf @ got)"
      "take m1 buf1 = rest_of (take m buf @ got)" "length buf1 = BUFLEN" "m1 < BUFLEN"
      using grep_chunk_effect [OF more(3) less.prems(2) _ g less.prems(5), of fd] lt by blast
    have ce: "c = e" using c e(1) by simp
    have z: "10 \<notin> set (take m1 buf1)" "0 \<notin> set (take m1 buf1)" using lines_rest(2,3) [of "take m buf @ got"] less.prems(5) g(2) e(4) by auto
    have "written 1 f = hits pattern (take m1 buf1 @ got_bytes fd f)"
      using less.hyps [OF _ more(4) e(5,6) z f] x(2) grep_chunk_le [OF more(3)] less.prems(7) d by (simp add: lines_kept_def)
    moreover have "got_bytes fd d = got @ got_bytes fd f" unfolding d using x(3) e(2) ce by (simp add: got_bytes_def)
    moreover have "written 1 d = written 1 e @ written 1 f" unfolding d ce by (simp add: written_def)
    ultimately show ?thesis using e(3,4) lines_of_append [of "take m buf @ got"] by (simp add: hits_def)
  qed
qed

text \<open>
  C23: When every read of \<^verbatim>\<open>grep\<close> that gets something gets at least one newline and no NUL, \<^verbatim>\<open>grep\<close> writes to its standard
  output exactly the complete lines of its input that match the pattern, in order, however the input is
  cut into reads.
\<close>

theorem grep_prints_matching_lines:
  assumes "grep pattern fd buf s = Inr (buf', t)" and "length buf = BUFLEN" and "talk t = talk s @ d" and "lines_kept fd d"
  shows "written 1 d = concat (filter (\<lambda>l. match pattern (butlast l)) (lines_of (got_bytes fd d)))"
  using grep_loop_effect [OF assms(1) [unfolded grep_def] assms(2) _ _ _ assms(3,4)] by (simp add: BUFLEN_def hits_def)

text \<open>Two reads that cut the input \<^verbatim>\<open>ab\<close>, newline, \<^verbatim>\<open>cb\<close>, newline inside its second line.\<close>

definition two_reads :: "reply list" where
  "two_reads = [Got [97, 98, 10, 99], Val 3, Got [98, 10], Val 3, Got []]"

lemma grep_two_reads:
  "map_sum (\<lambda>_. ()) (\<lambda>(_, s). (talk s, answers s)) (grep [98] 3 (replicate BUFLEN 0) \<lparr>talk = [], answers = two_reads\<rparr>)
   = Inr ([(Q_read 3 1023, Got [97, 98, 10, 99]), (Q_write 1 [97, 98, 10], Val 3), (Q_read 3 1022, Got [98, 10]), (Q_write 1 [99, 98, 10], Val 3), (Q_read 3 1023, Got [])], [])"
  by code_simp

theorem grep_prints_matching_lines_witness:
  "\<exists>t. grep [98] 3 (replicate BUFLEN 0) \<lparr>talk = [], answers = two_reads\<rparr> = Inr t \<and> lines_kept 3 (talk (snd t))
     \<and> got_bytes 3 (talk (snd t)) = [97, 98, 10, 99, 98, 10] \<and> written 1 (talk (snd t)) = [97, 98, 10, 99, 98, 10]"
proof -
  obtain b s where t: "grep [98] 3 (replicate BUFLEN 0) \<lparr>talk = [], answers = two_reads\<rparr> = Inr (b, s)"
    and d: "talk s = [(Q_read 3 1023, Got [97, 98, 10, 99]), (Q_write 1 [97, 98, 10], Val 3), (Q_read 3 1022, Got [98, 10]), (Q_write 1 [99, 98, 10], Val 3), (Q_read 3 1023, Got [])]"
    using grep_two_reads by (cases "grep [98] 3 (replicate BUFLEN 0) \<lparr>talk = [], answers = two_reads\<rparr>") auto
  have k: "lines_kept 3 (talk s)" and g: "got_bytes 3 (talk s) = [97, 98, 10, 99, 98, 10]" unfolding d by code_simp+
  have "written 1 (talk s) = concat (filter (\<lambda>l. match [98] (butlast l)) (lines_of [97, 98, 10, 99, 98, 10]))"
    using grep_prints_matching_lines [OF t, of "talk s"] k g by simp
  also have "\<dots> = [97, 98, 10, 99, 98, 10]" by code_simp
  finally show ?thesis using t k g by (intro exI [of _ "(b, s)"]) simp
qed


end
