(* ===== verification/Utils.thy ===== *)
theory Utils
  imports Grep
begin

text \<open>
  The small user programs: \<^verbatim>\<open>cat\<close>, \<^verbatim>\<open>wc\<close>, \<^verbatim>\<open>echo\<close>, \<^verbatim>\<open>kill\<close>, \<^verbatim>\<open>ln\<close>, \<^verbatim>\<open>mkdir\<close>, \<^verbatim>\<open>rm\<close>, \<^verbatim>\<open>ls\<close>, \<^verbatim>\<open>init\<close>, \<^verbatim>\<open>zombie\<close>, \<^verbatim>\<open>stressfs\<close> and
  \<^verbatim>\<open>forktest\<close>, with the system-call routines of \<^verbatim>\<open>ulib.c\<close>.
\<close>

section \<open>Answers are used up\<close>

definition uses_up :: "usr \<Rightarrow> ustop + usr \<Rightarrow> bool" where
  "uses_up s r \<longleftrightarrow> (\<forall>t. r = Inr t \<longrightarrow> length (answers t) \<le> length (answers s))"

lemma uses_up_simps [simp]: "uses_up s (Inr s)" "uses_up s (Inl e)"
  by (simp_all add: uses_up_def)

lemma uses_up_bnd: "uses_up s m \<Longrightarrow> (\<And>u. m = Inr u \<Longrightarrow> uses_up u (f u)) \<Longrightarrow> uses_up s (bnd m f)"
  unfolding uses_up_def by (cases m) (auto intro: order_trans)

lemma uses_up_putc: "uses_up s (putc fd c s)"
  unfolding uses_up_def by (auto simp: putc_def dest: call_less)

lemma uses_up_each: "uses_up s (each (putc fd) xs s)"
  by (induction xs arbitrary: s) (auto intro!: uses_up_bnd uses_up_putc)

lemma uses_up_arg: "(\<And>w t ap. uses_up s (f (w, t, ap))) \<Longrightarrow> uses_up s (bnd (next_arg ap) f)"
  by (cases ap) (auto simp: next_arg_def split: parg.splits)

lemma uses_up_printf: "uses_up s (printf_at fd st fmt ap s)"
proof (induction fmt arbitrary: st ap s)
  case (Cons c fmt)
  show ?case
    by (cases st) (auto simp: printint_def intro!: uses_up_arg uses_up_bnd uses_up_each uses_up_putc Cons.IH)
qed simp

lemma printf_le: "printf fd fmt ap s = Inr t \<Longrightarrow> length (answers t) \<le> length (answers s)"
  using uses_up_printf by (simp add: printf_def uses_up_def)

section \<open>Library routines that call the kernel\<close>

text \<open>\<^verbatim>\<open>gets\<close>: the bytes put into the buffer, without the final NUL.\<close>

function gets_loop :: "nat \<Rightarrow> u8 list \<Rightarrow> usr \<Rightarrow> ustop + (u8 list \<times> usr)" where
  "gets_loop n acc s =
     (if length acc + 1 < n
      then bnd (read 0 1 s) (\<lambda>(cc, c, s).
        if cc < 1 then Inr (acc, s)
        else if hd c = 10 \<or> hd c = 13 then Inr (acc @ [hd c], s)
        else gets_loop n (acc @ [hd c]) s)
      else Inr (acc, s))"
  by pat_completeness auto
termination by (relation "measure (\<lambda>(n, acc, s). length (answers s))") (auto dest: read_less)

declare gets_loop.simps [simp del]

definition gets :: "nat \<Rightarrow> usr \<Rightarrow> ustop + (u8 list \<times> usr)" where
  "gets n s = gets_loop n [] s"

definition ustat :: "u8 list \<Rightarrow> usr \<Rightarrow> ustop + (int \<times> stat option \<times> usr)" where
  "ustat n s =
     bnd (call (Q_open n 0) s) (\<lambda>(fd, s).
       if fd < 0 then Inr (- 1, None, s)
       else bnd (ufstat fd s) (\<lambda>(r, st, s). bnd (call (Q_close fd) s) (\<lambda>(_, s). Inr (r, st, s))))"

section \<open>cat and wc\<close>

function cat_loop :: "int \<Rightarrow> usr \<Rightarrow> ustop + (int \<times> usr)" where
  "cat_loop fd s =
     bnd (read fd 512 s) (\<lambda>(n, buf, s).
       if n > 0
       then bnd (call (Q_write 1 buf) s) (\<lambda>(w, s).
         if w \<noteq> n then bnd (printf 1 (bytes ''cat: write error\<newline>'') [] s) uexit
         else cat_loop fd s)
       else Inr (n, s))"
  by pat_completeness auto
termination by (relation "measure (\<lambda>(fd, s). length (answers s))") (auto dest!: read_less call_less)

declare cat_loop.simps [simp del]

definition cat :: "int \<Rightarrow> usr \<Rightarrow> ustop + usr" where
  "cat fd s =
     bnd (cat_loop fd s) (\<lambda>(n, s).
       if n < 0 then bnd (printf 1 (bytes ''cat: read error\<newline>'') [] s) uexit else Inr s)"

text \<open>The loop over the arguments that \<^verbatim>\<open>cat\<close> and \<^verbatim>\<open>wc\<close> share.\<close>

fun each_file :: "u8 list \<Rightarrow> (int \<Rightarrow> u8 list \<Rightarrow> usr \<Rightarrow> ustop + usr) \<Rightarrow> u8 list list \<Rightarrow> usr \<Rightarrow> ustop + 'a" where
  "each_file msg f [] s = uexit s"
| "each_file msg f (arg # args) s =
     bnd (call (Q_open arg 0) s) (\<lambda>(fd, s).
       if fd < 0 then bnd (printf 1 msg [str_arg arg] s) uexit
       else bnd (f fd arg s) (\<lambda>s. bnd (call (Q_close fd) s) (\<lambda>(_, s). each_file msg f args s)))"

definition cat_main :: "u8 list list \<Rightarrow> usr \<Rightarrow> ustop + 'a" where
  "cat_main argv s =
     (if length argv \<le> 1 then bnd (cat 0 s) uexit
      else each_file (bytes ''cat: cannot open %s\<newline>'') (\<lambda>fd _. cat fd) (tl argv) s)"

text \<open>The counters of \<^verbatim>\<open>wc\<close>: lines, words, bytes, and whether the last byte was in a word.\<close>

record counts =
  wl :: u32
  ww :: u32
  wch :: u32
  inword :: bool

definition wc_space :: "u8 \<Rightarrow> bool" where
  "wc_space c \<longleftrightarrow> c \<in> {32, 13, 9, 10, 11}"

definition wc_byte :: "u8 \<Rightarrow> counts \<Rightarrow> counts" where
  "wc_byte c k =
     (let k = k\<lparr>wch := wch k + 1\<rparr>;
          k = (if c = 10 then k\<lparr>wl := wl k + 1\<rparr> else k)
      in if wc_space c then k\<lparr>inword := False\<rparr>
         else if \<not> inword k then k\<lparr>ww := ww k + 1, inword := True\<rparr>
         else k)"

function wc_loop :: "int \<Rightarrow> counts \<Rightarrow> usr \<Rightarrow> ustop + (int \<times> counts \<times> usr)" where
  "wc_loop fd k s =
     bnd (read fd 512 s) (\<lambda>(n, buf, s).
       if n > 0 then wc_loop fd (fold wc_byte buf k) s else Inr (n, k, s))"
  by pat_completeness auto
termination by (relation "measure (\<lambda>(fd, k, s). length (answers s))") (auto dest: read_less)

declare wc_loop.simps [simp del]

definition wc :: "int \<Rightarrow> u8 list \<Rightarrow> usr \<Rightarrow> ustop + usr" where
  "wc fd name s =
     bnd (wc_loop fd \<lparr>wl = 0, ww = 0, wch = 0, inword = False\<rparr> s) (\<lambda>(n, k, s).
       if n < 0 then bnd (printf 1 (bytes ''wc: read error\<newline>'') [] s) uexit
       else printf 1 (bytes ''%d %d %d %s\<newline>'') [int_arg (wl k), int_arg (ww k), int_arg (wch k), str_arg name] s)"

definition wc_main :: "u8 list list \<Rightarrow> usr \<Rightarrow> ustop + 'a" where
  "wc_main argv s =
     (if length argv \<le> 1 then bnd (wc 0 [] s) uexit
      else each_file (bytes ''wc: cannot open %s\<newline>'') wc (tl argv) s)"

section \<open>echo, kill, ln, mkdir and rm\<close>

fun echo_args :: "u8 list list \<Rightarrow> usr \<Rightarrow> ustop + usr" where
  "echo_args [] s = Inr s"
| "echo_args (arg # args) s =
     bnd (printf 1 (bytes ''%s%s'') [str_arg arg, str_arg (if args \<noteq> [] then [32] else [10])] s) (echo_args args)"

definition echo_main :: "u8 list list \<Rightarrow> usr \<Rightarrow> ustop + 'a" where
  "echo_main argv s = bnd (echo_args (tl argv) s) uexit"

text \<open>An argument without a NUL is a string, so \<^verbatim>\<open>atoi\<close> returns.\<close>

fun kill_args :: "u8 list list \<Rightarrow> usr \<Rightarrow> ustop + usr" where
  "kill_args [] s = Inr s"
| "kill_args (arg # args) s = (case atoi (as_cstr arg) of
     None \<Rightarrow> Inl (Stray ''atoi'')
   | Some pid \<Rightarrow> bnd (call (Q_kill (sint pid)) s) (\<lambda>(_, s). kill_args args s))"

definition kill_main :: "u8 list list \<Rightarrow> usr \<Rightarrow> ustop + 'a" where
  "kill_main argv s =
     (if length argv < 2 then bnd (printf 2 (bytes ''usage: kill pid...\<newline>'') [] s) uexit
      else bnd (kill_args (tl argv) s) uexit)"

definition ln_main :: "u8 list list \<Rightarrow> usr \<Rightarrow> ustop + 'a" where
  "ln_main argv s =
     (if length argv \<noteq> 3 then bnd (printf 2 (bytes ''Usage: ln old new\<newline>'') [] s) uexit
      else bnd (call (Q_link (argv ! 1) (argv ! 2)) s) (\<lambda>(r, s).
        bnd (if r < 0 then printf 2 (bytes ''link %s %s: failed\<newline>'') [str_arg (argv ! 1), str_arg (argv ! 2)] s else Inr s) uexit))"

text \<open>\<^verbatim>\<open>mkdir\<close> and \<^verbatim>\<open>rm\<close> stop at the first argument that fails.\<close>

fun try_args :: "(u8 list \<Rightarrow> request) \<Rightarrow> u8 list \<Rightarrow> u8 list list \<Rightarrow> usr \<Rightarrow> ustop + usr" where
  "try_args q msg [] s = Inr s"
| "try_args q msg (arg # args) s =
     bnd (call (q arg) s) (\<lambda>(r, s).
       if r < 0 then printf 2 msg [str_arg arg] s else try_args q msg args s)"

definition mkdir_main :: "u8 list list \<Rightarrow> usr \<Rightarrow> ustop + 'a" where
  "mkdir_main argv s =
     (if length argv < 2 then bnd (printf 2 (bytes ''Usage: mkdir files...\<newline>'') [] s) uexit
      else bnd (try_args Q_mkdir (bytes ''mkdir: %s failed to create\<newline>'') (tl argv) s) uexit)"

definition rm_main :: "u8 list list \<Rightarrow> usr \<Rightarrow> ustop + 'a" where
  "rm_main argv s =
     (if length argv < 2 then bnd (printf 2 (bytes ''Usage: rm files...\<newline>'') [] s) uexit
      else bnd (try_args Q_unlink (bytes ''rm: %s failed to delete\<newline>'') (tl argv) s) uexit)"

section \<open>ls\<close>

text \<open>
  \<^verbatim>\<open>fmtname\<close>: \<open>last_slash\<close> is its loop, with the position one to the right so that a position before the string is 0.
\<close>

fun last_slash :: "u8 list \<Rightarrow> nat \<Rightarrow> nat" where
  "last_slash path 0 = 0"
| "last_slash path (Suc p) = (if p < length path \<and> path ! p = 47 then Suc p else last_slash path p)"

definition fmtname :: "u8 list \<Rightarrow> u8 list" where
  "fmtname path =
     (let p = last_slash path (length path + 1);
          name = drop p path in
      if length name \<ge> DIRSIZ then name else name @ replicate (DIRSIZ - length name) 32)"

definition ls_entry :: "u8 list \<Rightarrow> stat \<Rightarrow> usr \<Rightarrow> ustop + usr" where
  "ls_entry path st s = printf 1 (bytes ''%s %d %d %d\<newline>'')
     [str_arg (fmtname path), int_arg (scast (st_type st)), int_arg (st_ino st), int_arg (st_size st)] s"

definition ls_dirent :: "u8 list \<Rightarrow> dirent \<Rightarrow> usr \<Rightarrow> ustop + usr" where
  "ls_dirent path de s =
     (if de_inum de = 0 then Inr s
      else let buf = path @ [47] @ takeWhile (\<lambda>c. c \<noteq> 0) (de_name de) in
           bnd (ustat buf s) (\<lambda>(r, st, s). case st of
             None \<Rightarrow> printf 1 (bytes ''ls: cannot stat %s\<newline>'') [str_arg buf] s
           | Some st \<Rightarrow> ls_entry buf st s))"

lemma ufstat_less: "ufstat fd s = Inr (r, st, t) \<Longrightarrow> length (answers t) < length (answers s)"
  unfolding ufstat_def bnd_eq_Inr
proof (elim exE conjE)
  fix x assume "ask (Q_fstat fd) s = Inr x" "(case x of (r, s) \<Rightarrow> case r of Stat st \<Rightarrow> Inr (0, Some st, s) | _ \<Rightarrow> Inr (- 1, None, s)) = Inr (r, st, t)"
  then show ?thesis by (cases x; cases "fst x") (auto dest: ask_less)
qed

lemma ls_dirent_le: "ls_dirent path de s = Inr t \<Longrightarrow> length (answers t) \<le> length (answers s)"
  unfolding ls_dirent_def Let_def ustat_def ls_entry_def
  by (auto split: if_splits option.splits dest!: printf_le call_less ufstat_less)

function ls_dir :: "u8 list \<Rightarrow> int \<Rightarrow> usr \<Rightarrow> ustop + usr" where
  "ls_dir path fd s =
     bnd (read fd sizeof_dirent s) (\<lambda>(n, de, s).
       if n = int sizeof_dirent
       then bnd (ls_dirent path (to_dirent de) s) (ls_dir path fd)
       else Inr s)"
  by pat_completeness auto
termination by (relation "measure (\<lambda>(path, fd, s). length (answers s))") (auto dest!: read_less ls_dirent_le)

declare ls_dir.simps [simp del]

definition ls :: "u8 list \<Rightarrow> usr \<Rightarrow> ustop + usr" where
  "ls path s =
     bnd (call (Q_open path 0) s) (\<lambda>(fd, s).
       if fd < 0 then printf 2 (bytes ''ls: cannot open %s\<newline>'') [str_arg path] s
       else bnd (ufstat fd s) (\<lambda>(r, st, s). case st of
         None \<Rightarrow> bnd (printf 2 (bytes ''ls: cannot stat %s\<newline>'') [str_arg path] s) (\<lambda>s.
                 bnd (call (Q_close fd) s) (\<lambda>(_, s). Inr s))
       | Some st \<Rightarrow>
           bnd (if st_type st = T_FILE then ls_entry path st s
                else if st_type st = T_DIR
                then if length path + 1 + DIRSIZ + 1 > 512 then printf 1 (bytes ''ls: path too long\<newline>'') [] s
                     else ls_dir path fd s
                else Inr s) (\<lambda>s.
           bnd (call (Q_close fd) s) (\<lambda>(_, s). Inr s))))"

definition ls_main :: "u8 list list \<Rightarrow> usr \<Rightarrow> ustop + 'a" where
  "ls_main argv s =
     (if length argv < 2 then bnd (ls [46] s) uexit
      else bnd (each ls (tl argv) s) uexit)"

section \<open>init and zombie\<close>

function init_wait :: "int \<Rightarrow> usr \<Rightarrow> ustop + usr" where
  "init_wait pid s =
     bnd (call Q_wait s) (\<lambda>(wpid, s).
       if wpid \<ge> 0 \<and> wpid \<noteq> pid then bnd (printf 1 (bytes ''zombie!\<newline>'') [] s) (init_wait pid) else Inr s)"
  by pat_completeness auto
termination by (relation "measure (\<lambda>(pid, s). length (answers s))") (auto dest!: call_less printf_le)

declare init_wait.simps [simp del]

lemma init_wait_le: "init_wait pid s = Inr t \<Longrightarrow> length (answers t) \<le> length (answers s)"
proof (induction pid s rule: init_wait.induct)
  case (1 pid s)
  from 1(2) obtain w u where u: "call Q_wait s = Inr (w, u)"
    and c: "(if w \<ge> 0 \<and> w \<noteq> pid then bnd (printf 1 (bytes ''zombie!\<newline>'') [] u) (init_wait pid) else Inr u) = Inr t"
    unfolding init_wait.simps [of pid s] by auto
  show ?case
  proof (cases "w \<ge> 0 \<and> w \<noteq> pid")
    case True
    then obtain v where v: "printf 1 (bytes ''zombie!\<newline>'') [] u = Inr v" "init_wait pid v = Inr t" using c by auto
    from 1(1) [OF u refl True v] printf_le [OF v(1)] call_less [OF u] show ?thesis by simp
  next
    case False
    then show ?thesis using c call_less [OF u] by auto
  qed
qed

function init_loop :: "usr \<Rightarrow> ustop + 'a" where
  "init_loop s =
     bnd (printf 1 (bytes ''init: starting sh\<newline>'') [] s) (\<lambda>s.
     bnd (call Q_fork s) (\<lambda>(pid, s).
       if pid < 0 then bnd (printf 1 (bytes ''init: fork failed\<newline>'') [] s) uexit
       else if pid = 0
       then bnd (uexec (bytes ''sh'') [bytes ''sh''] s) (\<lambda>(_, s).
            bnd (printf 1 (bytes ''init: exec sh failed\<newline>'') [] s) uexit)
       else bnd (init_wait pid s) init_loop))"
  by pat_completeness auto
termination by (relation "measure (\<lambda>s. length (answers s))") (auto dest!: call_less printf_le init_wait_le)

declare init_loop.simps [simp del]

definition init_main :: "usr \<Rightarrow> ustop + 'a" where
  "init_main s =
     bnd (call (Q_open (bytes ''console'') 2) s) (\<lambda>(fd, s).
     bnd (if fd < 0
          then bnd (call (Q_mknod (bytes ''console'') 1 1) s) (\<lambda>(_, s).
               bnd (call (Q_open (bytes ''console'') 2) s) (\<lambda>(_, s). Inr s))
          else Inr s) (\<lambda>s.
     bnd (call (Q_dup 0) s) (\<lambda>(_, s).
     bnd (call (Q_dup 0) s) (\<lambda>(_, s). init_loop s))))"

definition zombie_main :: "usr \<Rightarrow> ustop + 'a" where
  "zombie_main s =
     bnd (call Q_fork s) (\<lambda>(pid, s).
     bnd (if pid > 0 then bnd (call (Q_sleep 5) s) (\<lambda>(_, s). Inr s) else Inr s) uexit)"

section \<open>stressfs and forktest\<close>

fun stress_forks :: "nat \<Rightarrow> nat \<Rightarrow> usr \<Rightarrow> ustop + (nat \<times> usr)" where
  "stress_forks 0 i s = Inr (i, s)"
| "stress_forks (Suc n) i s = bnd (call Q_fork s) (\<lambda>(pid, s). if pid > 0 then Inr (i, s) else stress_forks n (i + 1) s)"

definition stressfs_main :: "usr \<Rightarrow> ustop + 'a" where
  "stressfs_main s =
     bnd (printf 1 (bytes ''stressfs starting\<newline>'') [] s) (\<lambda>s.
     let data = replicate 512 97 in
     bnd (stress_forks 4 0 s) (\<lambda>(i, s).
     bnd (printf 1 (bytes ''write %d\<newline>'') [int_arg (of_nat i)] s) (\<lambda>s.
     let path = bytes ''stressfs'' @ [48 + of_nat i] in
     bnd (call (Q_open path 0x202) s) (\<lambda>(fd, s).
     bnd (each (\<lambda>_ s. bnd (call (Q_write fd data) s) (\<lambda>(_, s). Inr s)) [0..<20] s) (\<lambda>s.
     bnd (call (Q_close fd) s) (\<lambda>(_, s).
     bnd (printf 1 (bytes ''read\<newline>'') [] s) (\<lambda>s.
     bnd (call (Q_open path 0) s) (\<lambda>(fd, s).
     bnd (each (\<lambda>_ s. bnd (read fd 512 s) (\<lambda>(_, _, s). Inr s)) [0..<20] s) (\<lambda>s.
     bnd (call (Q_close fd) s) (\<lambda>(_, s).
     bnd (call Q_wait s) (\<lambda>(_, s). uexit s)))))))))))"

text \<open>\<^verbatim>\<open>forktest\<close> has its own \<^verbatim>\<open>printf\<close>, one \<^verbatim>\<open>write\<close> of the format.\<close>

definition ft_printf :: "int \<Rightarrow> u8 list \<Rightarrow> usr \<Rightarrow> ustop + usr" where
  "ft_printf fd fmt s = bnd (call (Q_write fd fmt) s) (\<lambda>(_, s). Inr s)"

definition FORKTEST_N :: nat where "FORKTEST_N = 1000"

fun forktest_forks :: "nat \<Rightarrow> nat \<Rightarrow> usr \<Rightarrow> ustop + (nat \<times> usr)" where
  "forktest_forks 0 n s = Inr (n, s)"
| "forktest_forks (Suc k) n s =
     bnd (call Q_fork s) (\<lambda>(pid, s).
       if pid < 0 then Inr (n, s) else if pid = 0 then uexit s else forktest_forks k (n + 1) s)"

fun forktest_waits :: "nat \<Rightarrow> usr \<Rightarrow> ustop + usr" where
  "forktest_waits 0 s = Inr s"
| "forktest_waits (Suc n) s =
     bnd (call Q_wait s) (\<lambda>(r, s).
       if r < 0 then bnd (ft_printf 1 (bytes ''wait stopped early\<newline>'') s) uexit else forktest_waits n s)"

definition forktest :: "usr \<Rightarrow> ustop + usr" where
  "forktest s =
     bnd (ft_printf 1 (bytes ''fork test\<newline>'') s) (\<lambda>s.
     bnd (forktest_forks FORKTEST_N 0 s) (\<lambda>(n, s).
       if n = FORKTEST_N then bnd (ft_printf 1 (bytes ''fork claimed to work N times!\<newline>'') s) uexit
       else bnd (forktest_waits n s) (\<lambda>s.
            bnd (call Q_wait s) (\<lambda>(r, s).
              if r \<noteq> - 1 then bnd (ft_printf 1 (bytes ''wait got too many\<newline>'') s) uexit
              else ft_printf 1 (bytes ''fork test OK\<newline>'') s))))"

definition forktest_main :: "usr \<Rightarrow> ustop + 'a" where
  "forktest_main s = bnd (forktest s) uexit"

section \<open>What cat and wc do\<close>

lemma cat_loop_copies:
  assumes "cat_loop fd s = Inr (n, t)"
  shows "\<exists>d. talk t = talk s @ d \<and> written 1 d = got_bytes fd d"
  using assms
proof (induction fd s rule: cat_loop.induct)
  case (1 fd s)
  from 1(2) obtain v got u where r: "read fd 512 s = Inr (v, got, u)"
    and c: "(if v > 0 then bnd (call (Q_write 1 got) u) (\<lambda>(w, s).
         if w \<noteq> v then bnd (printf 1 (bytes ''cat: write error\<newline>'') [] s) uexit else cat_loop fd s) else Inr (v, u)) = Inr (n, t)"
    unfolding cat_loop.simps [of fd s] by auto
  obtain x where x: "talk u = talk s @ [(Q_read fd 512, x)]" "got = got_bytes fd [(Q_read fd 512, x)]" "\<not> 0 < v \<Longrightarrow> got = []"
    by (rule read_Inr [OF r]) blast
  have w: "written 1 [(Q_read fd 512, x)] = []" by (simp add: written_def)
  show ?case
  proof (cases "0 < v")
    case False
    then show ?thesis using c x w by (intro exI [of _ "[(Q_read fd 512, x)]"]) simp
  next
    case True
    then obtain k where k: "call (Q_write 1 got) u = Inr (v, k)" "cat_loop fd k = Inr (n, t)" using c by (auto simp: uexit_def split: if_splits)
    obtain y where y: "talk k = talk u @ [(Q_write 1 got, y)]" using k(1) by (auto simp: call_def ask_Inr)
    have "\<exists>d. talk t = talk k @ d \<and> written 1 d = got_bytes fd d" using 1(1) [OF r refl refl True k(1) refl] k(2) by simp
    then obtain d where d: "talk t = talk k @ d" "written 1 d = got_bytes fd d" by blast
    show ?thesis
    proof (intro exI conjI)
      show "talk t = talk s @ ([(Q_read fd 512, x)] @ [(Q_write 1 got, y)] @ d)" using x(1) y d(1) by simp
      show "written 1 ([(Q_read fd 512, x)] @ [(Q_write 1 got, y)] @ d) = got_bytes fd ([(Q_read fd 512, x)] @ [(Q_write 1 got, y)] @ d)"
        unfolding written_simps got_bytes_simps using w x(2) d(2) by (simp add: written_def got_bytes_def)
    qed
  qed
qed

text \<open>The words of a text: its longest parts without spaces.\<close>

function words :: "u8 list \<Rightarrow> u8 list list" where
  "words xs = (case dropWhile wc_space xs of
     [] \<Rightarrow> []
   | ys \<Rightarrow> takeWhile (\<lambda>c. \<not> wc_space c) ys # words (dropWhile (\<lambda>c. \<not> wc_space c) ys))"
  by pat_completeness auto
termination
proof (relation "measure length")
  fix xs ys :: "u8 list" and y assume a: "dropWhile wc_space xs = y # ys"
  then have "\<not> wc_space y" by (metis hd_dropWhile list.distinct(1) list.sel(1))
  then have "length (dropWhile (\<lambda>c. \<not> wc_space c) (y # ys)) < length (y # ys)" by (simp add: less_Suc_eq_le length_dropWhile_le)
  also have "\<dots> \<le> length xs" using length_dropWhile_le [of wc_space xs] a by simp
  finally show "(dropWhile (\<lambda>c. \<not> wc_space c) (y # ys), xs) \<in> measure length" by simp
qed simp

declare words.simps [simp del]

lemma words_space: "wc_space c \<Longrightarrow> words (c # xs) = words xs"
  by (simp add: words.simps [of "c # xs"] words.simps [of xs])

lemma words_word: "\<not> wc_space c \<Longrightarrow> length (words (c # xs)) = Suc (length (words (dropWhile (\<lambda>c. \<not> wc_space c) xs)))"
  by (simp add: words.simps [of "c # xs"])

lemma fold_wc_byte:
  "fold wc_byte xs k = \<lparr>wl = wl k + of_nat (count_list xs 10),
     ww = ww k + of_nat (length (words (if inword k then dropWhile (\<lambda>c. \<not> wc_space c) xs else xs))),
     wch = wch k + of_nat (length xs), inword = (if xs = [] then inword k else \<not> wc_space (last xs))\<rparr>"
proof (induction xs arbitrary: k)
  case Nil
  then show ?case by (simp add: words.simps)
next
  case (Cons c xs)
  have n: "\<not> wc_space c \<Longrightarrow> c \<noteq> 10" by (auto simp: wc_space_def)
  show ?case
    unfolding fold_simps Cons.IH
    by (cases "wc_space c"; cases "inword k") (auto simp: wc_byte_def Let_def words_space words_word dest: n)
qed

lemma wc_loop_counts:
  assumes "wc_loop fd k s = Inr (n, k', t)"
  shows "\<exists>d. talk t = talk s @ d \<and> k' = fold wc_byte (got_bytes fd d) k"
  using assms
proof (induction fd k s rule: wc_loop.induct)
  case (1 fd k s)
  from 1(2) obtain v got u where r: "read fd 512 s = Inr (v, got, u)"
    and c: "(if v > 0 then wc_loop fd (fold wc_byte got k) u else Inr (v, k, u)) = Inr (n, k', t)"
    unfolding wc_loop.simps [of fd k s] by auto
  obtain x where x: "talk u = talk s @ [(Q_read fd 512, x)]" "got = got_bytes fd [(Q_read fd 512, x)]" "\<not> 0 < v \<Longrightarrow> got = []"
    by (rule read_Inr [OF r]) blast
  show ?case
  proof (cases "0 < v")
    case False
    then show ?thesis using c x by (intro exI [of _ "[(Q_read fd 512, x)]"]) simp
  next
    case True
    then have "\<exists>d. talk t = talk u @ d \<and> k' = fold wc_byte (got_bytes fd d) (fold wc_byte got k)" using 1(1) [OF r refl refl True] c by simp
    then obtain d where d: "talk t = talk u @ d" "k' = fold wc_byte (got_bytes fd d) (fold wc_byte got k)" by blast
    then show ?thesis using x(1,2) by (intro exI [of _ "[(Q_read fd 512, x)] @ d"]) (simp del: append_Cons)
  qed
qed

text \<open>
  C33: However its input is cut into reads, \<^verbatim>\<open>wc\<close> counts the newlines, the words and the bytes of all of it, modulo \<open>2^32\<close>; a word
  that is cut by a read is counted once.
\<close>

theorem wc_counts_input:
  assumes "wc_loop fd \<lparr>wl = 0, ww = 0, wch = 0, inword = False\<rparr> s = Inr (n, k, t)" and "talk t = talk s @ d"
  shows "wl k = of_nat (count_list (got_bytes fd d) 10) \<and> ww k = of_nat (length (words (got_bytes fd d)))
    \<and> wch k = of_nat (length (got_bytes fd d))"
  using wc_loop_counts [OF assms(1)] assms(2) by (auto simp: fold_wc_byte)

theorem wc_counts_input_witness:
  "\<exists>n k t. wc_loop 3 \<lparr>wl = 0, ww = 0, wch = 0, inword = False\<rparr> \<lparr>talk = [], answers = [Got [97], Got [98, 32, 99, 10], Got []]\<rparr> = Inr (n, k, t)
     \<and> wl k = 1 \<and> ww k = 2 \<and> wch k = 5"
proof -
  let ?s = "\<lparr>talk = [], answers = [Got [97], Got [98, 32, 99, 10], Got []]\<rparr>" and ?k = "\<lparr>wl = 0, ww = 0, wch = 0, inword = False\<rparr>"
  have r: "map_sum (\<lambda>_. ()) (\<lambda>(_, _, t). got_bytes 3 (talk t)) (wc_loop 3 ?k ?s) = Inr [97, 98, 32, 99, 10]" by code_simp
  then obtain n k t where w: "wc_loop 3 ?k ?s = Inr (n, k, t)" and g: "got_bytes 3 (talk t) = [97, 98, 32, 99, 10]"
    by (cases "wc_loop 3 ?k ?s") auto
  have "length (words [97, 98, 32, 99, 10]) = 2" by code_simp
  then show ?thesis using wc_counts_input [OF w, of "talk t"] g w by simp
qed

end
