(* ===== verification/Sh.thy ===== *)
theory Sh
  imports Utils
begin

text \<open>
  The shell (\<^verbatim>\<open>sh.c\<close>): its tokens, its recursive-descent parser and the execution of the parsed commands. Pointers into the line
  are positions. The pointers \<^verbatim>\<open>q\<close> and \<^verbatim>\<open>eq\<close> of a word are a pair of positions; \<^verbatim>\<open>nulterminate\<close> then writes a NUL at the end of
  every word of the line. A null command does not occur: every parse routine returns one or panics.
\<close>

section \<open>Tokens\<close>

definition SH_RDONLY :: nat where "SH_RDONLY = 0"
definition SH_WRITE :: nat where "SH_WRITE = 0x201"
definition MAXARGS :: nat where "MAXARGS = 10"

definition whitespace :: "u8 list" where
  "whitespace = [32, 9, 13, 10, 11]"

definition symbols :: "u8 list" where
  "symbols = bytes ''<|>&;()''"

definition ch :: "u8 list \<Rightarrow> nat \<Rightarrow> u8" where
  "ch str i = (if i < length str then str ! i else 0)"

definition skip_ws :: "u8 list \<Rightarrow> nat \<Rightarrow> nat" where
  "skip_ws str i = i + length (takeWhile (\<lambda>c. c \<in> set whitespace) (drop i str))"

definition skip_word :: "u8 list \<Rightarrow> nat \<Rightarrow> nat" where
  "skip_word str i = i + length (takeWhile (\<lambda>c. c \<notin> set whitespace \<and> c \<notin> set symbols) (drop i str))"

text \<open>The result of \<^verbatim>\<open>gettoken\<close>: the token, the bounds of its text, and the new position.\<close>

definition gettoken :: "u8 list \<Rightarrow> nat \<Rightarrow> u8 \<times> nat \<times> nat \<times> nat" where
  "gettoken str ps =
     (let q = skip_ws str ps;
          c = ch str q;
          (ret, eq) =
            (if c = 0 then (0, q)
             else if c \<in> set (bytes ''|();&<'') then (c, q + 1)
             else if c = 62 then (if ch str (q + 1) = 62 then (43, q + 2) else (62, q + 1))
             else (97, skip_word str q))
      in (ret, q, eq, skip_ws str eq))"

definition peek :: "u8 list \<Rightarrow> u8 list \<Rightarrow> nat \<Rightarrow> bool \<times> nat" where
  "peek toks str ps = (let s = skip_ws str ps in (ch str s \<noteq> 0 \<and> ch str s \<in> set toks, s))"

section \<open>Commands\<close>

type_synonym span = "nat \<times> nat"

datatype cmd =
    EXEC "span list"
  | REDIR cmd span nat int
  | PIPE cmd cmd
  | LIST cmd cmd
  | BACK cmd

datatype perr = Panicked string | NoFuel

section \<open>The parser\<close>

text \<open>
  \<open>parseredirs\<close> returns the redirections it finds, to be put around a command by \<open>redirected\<close>: in \<^verbatim>\<open>parseexec\<close> the command inside
  them still gets arguments afterwards.
\<close>

definition redirected :: "(span \<times> nat \<times> int) list \<Rightarrow> cmd \<Rightarrow> cmd" where
  "redirected rs c = fold (\<lambda>(f, mode, fd) c. REDIR c f mode fd) rs c"

lemma skip_ws_le: "i \<le> skip_ws str i" "i \<le> length str \<Longrightarrow> skip_ws str i \<le> length str"
  using length_takeWhile_le [of "\<lambda>c. c \<in> set whitespace" "drop i str"] by (auto simp: skip_ws_def)

lemma skip_word_le: "i \<le> skip_word str i" "i \<le> length str \<Longrightarrow> skip_word str i \<le> length str"
  using length_takeWhile_le [of "\<lambda>c. c \<notin> set whitespace \<and> c \<notin> set symbols" "drop i str"] by (auto simp: skip_word_def)

lemma ch_pos: "ch str i \<noteq> 0 \<Longrightarrow> i < length str"
  by (auto simp: ch_def split: if_splits)

lemma ch_drop: "ch (drop i str) k = ch str (i + k)"
  by (auto simp: ch_def)

lemma skip_ws_stops: "ch str (skip_ws str i) \<notin> set whitespace"
proof -
  let ?P = "\<lambda>c. c \<in> set whitespace" and ?xs = "drop i str"
  have "ch str (skip_ws str i) = ch ?xs (length (takeWhile ?P ?xs))" by (simp add: ch_drop skip_ws_def)
  moreover have "ch ?xs (length (takeWhile ?P ?xs)) \<notin> set whitespace"
  proof (cases "length (takeWhile ?P ?xs) < length ?xs")
    case True
    then show ?thesis using nth_length_takeWhile [OF True] by (simp add: ch_def)
  next
    case False
    then show ?thesis unfolding ch_def by (simp only: if_False) (simp add: whitespace_def)
  qed
  ultimately show ?thesis by simp
qed

lemma skip_word_moves:
  assumes "ch str i \<noteq> 0" "ch str i \<notin> set whitespace" "ch str i \<notin> set symbols"
  shows "i < skip_word str i"
proof -
  have i: "i < length str" by (rule ch_pos [OF assms(1)])
  then have "drop i str = ch str i # drop (Suc i) str" by (simp add: ch_def Cons_nth_drop_Suc)
  then show ?thesis using assms(2,3) by (simp add: skip_word_def)
qed

lemma set_symbols: "c \<in> set symbols \<longleftrightarrow> c \<in> set (bytes ''|();&<'') \<or> c = 62"
  by (auto simp: symbols_def bytes_def)

lemma gettoken_le:
  assumes "gettoken str ps = (t, q, eq, ps')" "ps \<le> length str"
  shows "ps \<le> q \<and> q \<le> eq \<and> eq \<le> ps' \<and> ps' \<le> length str \<and> (t \<noteq> 0 \<longrightarrow> q < eq)"
proof -
  let ?q = "skip_ws str ps" and ?c = "ch str (skip_ws str ps)"
  have q: "q = ?q" "ps' = skip_ws str eq" using assms(1) by (auto simp: gettoken_def Let_def split: prod.splits)
  have le: "ps \<le> q" "q \<le> length str" using skip_ws_le assms(2) q(1) by simp_all
  have e: "q \<le> eq \<and> eq \<le> length str \<and> (t \<noteq> 0 \<longrightarrow> q < eq)"
  proof (cases "?c = 0")
    case True
    then show ?thesis using assms(1) le q(1) by (simp add: gettoken_def Let_def)
  next
    case False
    have lt: "?q < length str" by (rule ch_pos [OF False])
    have two: "ch str (?q + 1) = 62 \<Longrightarrow> ?q + 2 \<le> length str" using ch_pos [of str "?q + 1"] by simp
    show ?thesis
    proof (cases "?c \<in> set symbols")
      case True
      then show ?thesis using False assms(1) lt two unfolding set_symbols gettoken_def Let_def by (auto split: if_splits)
    next
      case w: False
      then have "t = 97" "eq = skip_word str ?q" using False assms(1) unfolding set_symbols gettoken_def Let_def by (auto split: if_splits)
      then show ?thesis using skip_word_moves [OF False skip_ws_stops w] skip_word_le(2) [of ?q str] lt q(1) by simp
    qed
  qed
  then show ?thesis using le q(2) skip_ws_le by simp
qed

lemma peek_le: "peek toks str ps = (b, ps') \<Longrightarrow> ps \<le> ps' \<and> (ps \<le> length str \<longrightarrow> ps' \<le> length str) \<and> (b \<longrightarrow> ps' < length str)"
  using skip_ws_le ch_pos by (auto simp: peek_def Let_def)

lemma skip_ws_idem: "skip_ws str (skip_ws str i) = skip_ws str i"
proof -
  have "takeWhile (\<lambda>c. c \<in> set whitespace) (drop (skip_ws str i) str) = []"
  proof (cases "drop (skip_ws str i) str")
    case (Cons c cs)
    then have l: "skip_ws str i < length str" by (metis drop_eq_Nil linorder_not_le list.distinct(1))
    then have "c = ch str (skip_ws str i)" using Cons by (simp add: ch_def flip: hd_drop_conv_nth)
    then show ?thesis using Cons skip_ws_stops [of str i] by simp
  qed simp
  then show ?thesis by (simp add: skip_ws_def [of str "skip_ws str i"])
qed

lemma peek_token:
  assumes "peek toks str ps = (True, ps1)" "gettoken str ps1 = (t, q, eq, ps2)"
  shows "t \<noteq> 0 \<and> q = ps1 \<and> ps1 < ps2 \<and> ps2 \<le> length str"
proof -
  have p: "ps1 = skip_ws str ps" "ch str ps1 \<noteq> 0" using assms(1) by (auto simp: peek_def Let_def)
  then have i: "skip_ws str ps1 = ps1" using skip_ws_idem by simp
  then have "t \<noteq> 0" "q = ps1" using assms(2) p(2) by (auto simp: gettoken_def Let_def split: if_splits)
  then show ?thesis using gettoken_le [OF assms(2)] ch_pos [OF p(2)] by simp
qed

function parseredirs :: "u8 list \<Rightarrow> nat \<Rightarrow> perr + ((span \<times> nat \<times> int) list \<times> nat)" where
  "parseredirs str ps =
     (let (more, ps) = peek (bytes ''<>'') str ps in
      if more
      then let (tok, _, _, ps) = gettoken str ps;
               (t, q, eq, ps) = gettoken str ps in
           if t \<noteq> 97 then Inl (Panicked ''missing file for redirection'')
           else bnd (parseredirs str ps) (\<lambda>(rs, ps).
             Inr ((if tok = 60 then [((q, eq), SH_RDONLY, 0)]
                   else if tok = 62 then [((q, eq), SH_WRITE, 1)]
                   else if tok = 43 then [((q, eq), SH_WRITE, 1)]
                   else []) @ rs, ps))
      else Inr ([], ps))"
  by pat_completeness auto
termination
proof (relation "measure (\<lambda>(str, ps). length str - ps)")
  fix str ps x more ps1 y tok z z1 z2 z3 ps2 w t w1 q w2 eq ps3
  assume p: "x = peek (bytes ''<>'') str ps" "(more, ps1) = x" and m: more
    and g: "y = gettoken str ps1" "(tok, z) = y" "(z1, z2) = z" "(z3, ps2) = z2"
      "w = gettoken str ps2" "(t, w1) = w" "(q, w2) = w1" "(eq, ps3) = w2" and t: "\<not> t \<noteq> 97"
  show "((str, ps3), str, ps) \<in> measure (\<lambda>(str, ps). length str - ps)"
  proof -
    have 1: "ps \<le> ps1" "ps1 < length str" using peek_le [of "bytes ''<>''" str ps more ps1] p m by auto
    have 2: "ps1 \<le> ps2" "ps2 \<le> length str" using gettoken_le [of str ps1 tok z1 z3 ps2] 1(2) g by auto
    have "ps2 < ps3" "ps3 \<le> length str" using gettoken_le [of str ps2 t q eq ps3] 2(2) g t by auto
    then show ?thesis using 1 2 by simp
  qed
qed simp

declare parseredirs.simps [simp del]

text \<open>The ampersands behind a pipeline.\<close>

function parseback :: "u8 list \<Rightarrow> cmd \<Rightarrow> nat \<Rightarrow> cmd \<times> nat" where
  "parseback str c ps =
     (let (more, ps) = peek [38] str ps in
      if more then let (_, _, _, ps) = gettoken str ps in parseback str (BACK c) ps
      else (c, ps))"
  by pat_completeness auto
termination
proof (relation "measure (\<lambda>(str, c, ps). length str - ps)")
  fix str c ps x more ps1 y t y1 q y2 eq ps2
  assume p: "x = peek [38] str ps" "(more, ps1) = x" and m: more
    and g: "y = gettoken str ps1" "(t, y1) = y" "(q, y2) = y1" "(eq, ps2) = y2"
  show "((str, BACK c, ps2), str, c, ps) \<in> measure (\<lambda>(str, c, ps). length str - ps)"
    using peek_token [of "[38]" str ps ps1 t q eq ps2] peek_le [of "[38]" str ps more ps1] p m g by auto
qed simp

declare parseback.simps [simp del]

text \<open>The loop of \<^verbatim>\<open>parseexec\<close>, with \<open>n\<close> arguments so far: the words, the redirections between them and the position.\<close>

function parseargs :: "u8 list \<Rightarrow> nat \<Rightarrow> nat \<Rightarrow> perr + (span list \<times> (span \<times> nat \<times> int) list \<times> nat)" where
  "parseargs str n ps =
     (let (stop, ps) = peek (bytes ''|)&;'') str ps in
      if stop then Inr ([], [], ps)
      else let (tok, q, eq, ps) = gettoken str ps in
           if tok = 0 then Inr ([], [], ps)
           else if tok \<noteq> 97 then Inl (Panicked ''syntax'')
           else if n + 1 \<ge> MAXARGS then Inl (Panicked ''too many args'')
           else bnd (parseredirs str ps) (\<lambda>(rs, ps).
                bnd (parseargs str (n + 1) ps) (\<lambda>(args, rs', ps). Inr ((q, eq) # args, rs @ rs', ps))))"
  by pat_completeness auto
termination by (relation "measure (\<lambda>(str, n, ps). MAXARGS - n)") auto

declare parseargs.simps [simp del]

text \<open>
  The routines that call each other take the next one as an argument; \<open>parseline\<close> and \<open>parsepipe\<close> count down their fuel.
\<close>

type_synonym parser = "nat \<Rightarrow> perr + (cmd \<times> nat)"

definition parseblock :: "parser \<Rightarrow> u8 list \<Rightarrow> parser" where
  "parseblock line str ps =
     (let (opens, ps) = peek [40] str ps in
      if \<not> opens then Inl (Panicked ''parseblock'')
      else let (_, _, _, ps) = gettoken str ps in
           bnd (line ps) (\<lambda>(c, ps).
             let (close, ps) = peek [41] str ps in
             if \<not> close then Inl (Panicked ''syntax - missing )'')
             else let (_, _, _, ps) = gettoken str ps in
                  bnd (parseredirs str ps) (\<lambda>(rs, ps). Inr (redirected rs c, ps))))"

definition parseexec :: "parser \<Rightarrow> u8 list \<Rightarrow> parser" where
  "parseexec line str ps =
     (let (block, ps) = peek [40] str ps in
      if block then parseblock line str ps
      else bnd (parseredirs str ps) (\<lambda>(rs, ps).
           bnd (parseargs str 0 ps) (\<lambda>(args, rs', ps). Inr (redirected (rs @ rs') (EXEC args), ps))))"

fun parsepipe :: "parser \<Rightarrow> u8 list \<Rightarrow> nat \<Rightarrow> parser" where
  "parsepipe line str 0 ps = Inl NoFuel"
| "parsepipe line str (Suc n) ps =
     bnd (parseexec line str ps) (\<lambda>(c, ps).
       let (more, ps) = peek [124] str ps in
       if more
       then let (_, _, _, ps) = gettoken str ps in
            bnd (parsepipe line str n ps) (\<lambda>(d, ps). Inr (PIPE c d, ps))
       else Inr (c, ps))"

fun parseline :: "u8 list \<Rightarrow> nat \<Rightarrow> parser" where
  "parseline str 0 ps = Inl NoFuel"
| "parseline str (Suc n) ps =
     bnd (parsepipe (parseline str n) str (Suc n) ps) (\<lambda>(c, ps).
       let (c, ps) = parseback str c ps;
           (more, ps) = peek [59] str ps in
       if more
       then let (_, _, _, ps) = gettoken str ps in
            bnd (parseline str n ps) (\<lambda>(d, ps). Inr (LIST c d, ps))
       else Inr (c, ps))"

definition parsetop :: "u8 list \<Rightarrow> perr + (cmd \<times> nat)" where
  "parsetop str = parseline str (length str + 1) 0"

section \<open>Running commands\<close>

fun nulterminate :: "cmd \<Rightarrow> u8 list \<Rightarrow> u8 list" where
  "nulterminate (EXEC args) buf = fold (\<lambda>(q, eq) buf. buf[eq := 0]) args buf"
| "nulterminate (REDIR c (q, eq) mode fd) buf = (nulterminate c buf)[eq := 0]"
| "nulterminate (PIPE l r) buf = nulterminate r (nulterminate l buf)"
| "nulterminate (LIST l r) buf = nulterminate r (nulterminate l buf)"
| "nulterminate (BACK c) buf = nulterminate c buf"

definition sh_panic :: "u8 list \<Rightarrow> usr \<Rightarrow> ustop + 'a" where
  "sh_panic msg s = bnd (printf 2 (bytes ''%s\<newline>'') [str_arg msg] s) uexit"

text \<open>
  \<^verbatim>\<open>parsecmd\<close> on the line \<open>str\<close>, which has a NUL behind it. Its results are the command and the line with its words terminated.
\<close>

definition parsecmd :: "u8 list \<Rightarrow> usr \<Rightarrow> ustop + (cmd \<times> u8 list \<times> usr)" where
  "parsecmd str s = (case parsetop str of
     Inl (Panicked msg) \<Rightarrow> sh_panic (bytes msg) s
   | Inl NoFuel \<Rightarrow> Inl (Stray ''parsecmd'')
   | Inr (c, ps) \<Rightarrow>
       let (_, ps) = peek [] str ps in
       if ps \<noteq> length str
       then bnd (printf 2 (bytes ''leftovers: %s\<newline>'') [str_arg (drop ps str)] s) (sh_panic (bytes ''syntax''))
       else Inr (c, nulterminate c (str @ [0]), s))"

definition fork1 :: "usr \<Rightarrow> ustop + (int \<times> usr)" where
  "fork1 s = bnd (call Q_fork s) (\<lambda>(pid, s). if pid = - 1 then sh_panic (bytes ''fork'') s else Inr (pid, s))"

fun runcmd :: "u8 list \<Rightarrow> cmd \<Rightarrow> usr \<Rightarrow> ustop + 'a" where
  "runcmd buf (EXEC args) s =
     (if args = [] then uexit s
      else let argv = map (\<lambda>(q, _). string_at buf q) args in
           bnd (uexec (hd argv) argv s) (\<lambda>(_, s).
           bnd (printf 2 (bytes ''exec %s failed\<newline>'') [str_arg (hd argv)] s) uexit))"
| "runcmd buf (REDIR c (q, _) mode fd) s =
     bnd (call (Q_close fd) s) (\<lambda>(_, s).
     bnd (call (Q_open (string_at buf q) mode) s) (\<lambda>(r, s).
       if r < 0 then bnd (printf 2 (bytes ''open %s failed\<newline>'') [str_arg (string_at buf q)] s) uexit
       else runcmd buf c s))"
| "runcmd buf (LIST l r) s =
     bnd (fork1 s) (\<lambda>(pid, s).
       if pid = 0 then runcmd buf l s
       else bnd (call Q_wait s) (\<lambda>(_, s). runcmd buf r s))"
| "runcmd buf (PIPE l r) s =
     bnd (upipe s) (\<lambda>(ok, p0, p1, s).
       if ok < 0 then sh_panic (bytes ''pipe'') s
       else bnd (fork1 s) (\<lambda>(pid, s).
         if pid = 0
         then bnd (call (Q_close 1) s) (\<lambda>(_, s). bnd (call (Q_dup p1) s) (\<lambda>(_, s).
              bnd (call (Q_close p0) s) (\<lambda>(_, s). bnd (call (Q_close p1) s) (\<lambda>(_, s). runcmd buf l s))))
         else bnd (fork1 s) (\<lambda>(pid, s).
           if pid = 0
           then bnd (call (Q_close 0) s) (\<lambda>(_, s). bnd (call (Q_dup p0) s) (\<lambda>(_, s).
                bnd (call (Q_close p0) s) (\<lambda>(_, s). bnd (call (Q_close p1) s) (\<lambda>(_, s). runcmd buf r s))))
           else bnd (call (Q_close p0) s) (\<lambda>(_, s). bnd (call (Q_close p1) s) (\<lambda>(_, s).
                bnd (call Q_wait s) (\<lambda>(_, s). bnd (call Q_wait s) (\<lambda>(_, s). uexit s)))))))"
| "runcmd buf (BACK c) s =
     bnd (fork1 s) (\<lambda>(pid, s). if pid = 0 then runcmd buf c s else uexit s)"

section \<open>The main loop\<close>

text \<open>
  The line in \<^verbatim>\<open>buf\<close> is a string of at most 99 bytes; \<open>None\<close> is the end of the input. For \<^verbatim>\<open>cd\<close> the last byte is cut off, whatever
  it is.
\<close>

definition getcmd :: "usr \<Rightarrow> ustop + (u8 list option \<times> usr)" where
  "getcmd s =
     bnd (printf 2 (bytes ''$ '') [] s) (\<lambda>s.
     bnd (gets 100 s) (\<lambda>(buf, s).
       let buf = takeWhile (\<lambda>c. c \<noteq> 0) buf in
       Inr (if buf = [] then None else Some buf, s)))"

lemma gets_loop_le: "gets_loop n acc s = Inr (buf, t) \<Longrightarrow> length (answers t) \<le> length (answers s)"
proof (induction n acc s rule: gets_loop.induct)
  case (1 n acc s)
  show ?case
  proof (cases "length acc + 1 < n")
    case False
    then show ?thesis using 1(2) by (simp add: gets_loop.simps [of n acc s])
  next
    case True
    then obtain cc c u where u: "read 0 1 s = Inr (cc, c, u)"
      and g: "(if cc < 1 then Inr (acc, u) else if hd c = 10 \<or> hd c = 13 then Inr (acc @ [hd c], u) else gets_loop n (acc @ [hd c]) u) = Inr (buf, t)"
      using 1(2) unfolding gets_loop.simps [of n acc s] by auto
    show ?thesis
    proof (cases "cc < 1 \<or> hd c = 10 \<or> hd c = 13")
      case True then show ?thesis using g read_less [OF u] by (auto split: if_splits)
    next
      case False
      then have "gets_loop n (acc @ [hd c]) u = Inr (buf, t)" using g by simp
      from 1(1) [OF True u refl refl _ _ this] False read_less [OF u] show ?thesis by simp
    qed
  qed
qed

function sh_open :: "usr \<Rightarrow> ustop + usr" where
  "sh_open s =
     bnd (call (Q_open (bytes ''console'') 2) s) (\<lambda>(fd, s).
       if fd < 0 then Inr s
       else if fd \<ge> 3 then bnd (call (Q_close fd) s) (\<lambda>(_, s). Inr s)
       else sh_open s)"
  by pat_completeness auto
termination by (relation "measure (\<lambda>s. length (answers s))") (auto dest: call_less)

declare sh_open.simps [simp del]

lemma fork1_less: "fork1 s = Inr (pid, t) \<Longrightarrow> length (answers t) < length (answers s)"
  by (auto simp: fork1_def sh_panic_def uexit_def split: if_splits dest: call_less)

definition sh_cd :: "u8 list \<Rightarrow> usr \<Rightarrow> ustop + usr" where
  "sh_cd buf s =
     (let dir = drop 3 (butlast buf) in
      bnd (call (Q_chdir dir) s) (\<lambda>(r, s).
        if r < 0 then printf 2 (bytes ''cannot cd %s\<newline>'') [str_arg dir] s else Inr s))"

lemma sh_cd_less: "sh_cd buf s = Inr t \<Longrightarrow> length (answers t) < length (answers s)"
  by (auto simp: sh_cd_def Let_def split: if_splits dest!: call_less printf_le)

lemma getcmd_le: "getcmd s = Inr (b, t) \<Longrightarrow> length (answers t) \<le> length (answers s)"
  by (auto simp: getcmd_def gets_def Let_def dest!: printf_le gets_loop_le)

function sh_loop :: "usr \<Rightarrow> ustop + 'a" where
  "sh_loop s =
     bnd (getcmd s) (\<lambda>(line, s). case line of
       None \<Rightarrow> uexit s
     | Some buf \<Rightarrow>
         if take 3 buf = bytes ''cd '' then bnd (sh_cd buf s) sh_loop
         else bnd (fork1 s) (\<lambda>(pid, s).
           if pid = 0 then bnd (parsecmd buf s) (\<lambda>(c, buf, s). runcmd buf c s)
           else bnd (call Q_wait s) (\<lambda>(_, s). sh_loop s)))"
  by pat_completeness auto
termination
  by (relation "measure (\<lambda>s. length (answers s))") (auto dest!: getcmd_le sh_cd_less fork1_less call_less)

declare sh_loop.simps [simp del]

definition sh_main :: "usr \<Rightarrow> ustop + 'a" where
  "sh_main s = bnd (sh_open s) sh_loop"

end
