(* ===== verification/Sh_Parse.thy ===== *)
theory Sh_Parse
  imports Sh
begin

text \<open>
  The parser of the shell: it ends on every line.
\<close>

section \<open>The parser ends\<close>

definition ended :: "nat \<Rightarrow> u8 list \<Rightarrow> ('a \<Rightarrow> nat) \<Rightarrow> perr + 'a \<Rightarrow> bool" where
  "ended ps str pos r \<longleftrightarrow> r \<noteq> Inl NoFuel \<and> (\<forall>x. r = Inr x \<longrightarrow> ps \<le> pos x \<and> pos x \<le> length str)"

lemma ended_simps [simp]: "ended ps str pos (Inl (Panicked m))" "ended ps str pos (Inr x) \<longleftrightarrow> ps \<le> pos x \<and> pos x \<le> length str"
  by (simp_all add: ended_def)

lemma ended_mono: "ended ps str pos r \<Longrightarrow> ps0 \<le> ps \<Longrightarrow> ended ps0 str pos r"
  by (auto simp: ended_def)

lemma ended_bnd:
  assumes "ended ps str pos m" "\<And>x. m = Inr x \<Longrightarrow> ps \<le> pos x \<Longrightarrow> pos x \<le> length str \<Longrightarrow> ended ps str pos' (f x)"
  shows "ended ps str pos' (bnd m f)"
  using assms by (cases m) (auto simp: ended_def)

lemma peek_bounds: "ps \<le> length str \<Longrightarrow> ps \<le> snd (peek toks str ps) \<and> snd (peek toks str ps) \<le> length str"
  using peek_le [of toks str ps "fst (peek toks str ps)" "snd (peek toks str ps)"] by simp

definition after_token :: "u8 list \<Rightarrow> nat \<Rightarrow> nat" where
  "after_token str ps = snd (snd (snd (gettoken str ps)))"

lemma after_token_le: "ps \<le> length str \<Longrightarrow> ps \<le> after_token str ps \<and> after_token str ps \<le> length str"
  by (cases "gettoken str ps") (auto simp: after_token_def dest: gettoken_le)

lemma after_peek: "fst (peek toks str ps) \<Longrightarrow> snd (peek toks str ps) < after_token str (snd (peek toks str ps))"
  by (cases "peek toks str ps"; cases "gettoken str (snd (peek toks str ps))") (auto simp: after_token_def dest: peek_token)

lemma parseredirs_eq:
  "parseredirs str ps =
     (let p = snd (peek (bytes ''<>'') str ps); tok = fst (gettoken str p); g = gettoken str (after_token str p) in
      if fst (peek (bytes ''<>'') str ps)
      then if fst g \<noteq> 97 then Inl (Panicked ''missing file for redirection'')
           else bnd (parseredirs str (after_token str (after_token str p))) (\<lambda>(rs, ps).
             Inr ((if tok = 60 then [((fst (snd g), fst (snd (snd g))), SH_RDONLY, 0)]
                   else if tok = 62 then [((fst (snd g), fst (snd (snd g))), SH_WRITE, 1)]
                   else if tok = 43 then [((fst (snd g), fst (snd (snd g))), SH_WRITE, 1)]
                   else []) @ rs, ps))
      else Inr ([], p))"
  by (subst parseredirs.simps) (simp add: Let_def after_token_def split: prod.split)

lemma after_token_twice:
  assumes "ps \<le> length str"
  shows "ps \<le> after_token str (after_token str ps) \<and> after_token str (after_token str ps) \<le> length str"
  using after_token_le [OF assms] after_token_le [of "after_token str ps" str] by linarith

lemma parseredirs_ends: "ps \<le> length str \<Longrightarrow> ended ps str snd (parseredirs str ps)"
proof (induction "length str - ps" arbitrary: ps rule: less_induct)
  case less
  define p where "p = snd (peek (bytes ''<>'') str ps)"
  define q where "q = after_token str (after_token str p)"
  have p: "ps \<le> p" "p \<le> length str" using peek_bounds [OF less.prems] by (simp_all only: p_def)
  show ?case
  proof (cases "fst (peek (bytes ''<>'') str ps)")
    case True
    have "p < after_token str p" using after_peek [OF True] unfolding p_def .
    then have q: "p < q" "q \<le> length str"
      using after_token_le [of "after_token str p" str] after_token_le [OF p(2)] unfolding q_def by linarith+
    have "ended q str snd (parseredirs str q)" by (rule less.hyps) (use p q in linarith)+
    then have "ended ps str snd (parseredirs str q)" by (rule ended_mono) (use p q in linarith)
    then have "ended ps str snd (bnd (parseredirs str q) (\<lambda>(rs, ps). Inr (f @ rs, ps)))" for f :: "(span \<times> nat \<times> int) list"
      by (rule ended_bnd) auto
    then show ?thesis unfolding parseredirs_eq [of str ps] Let_def p_def [symmetric] q_def [symmetric] if_P [OF True] by simp
  next
    case False
    then show ?thesis unfolding parseredirs_eq [of str ps] Let_def p_def [symmetric] if_not_P [OF False] using p by simp
  qed
qed

lemma parseargs_eq:
  "parseargs str n ps =
     (let p = snd (peek (bytes ''|)&;'') str ps); g = gettoken str p in
      if fst (peek (bytes ''|)&;'') str ps) then Inr ([], [], p)
      else if fst g = 0 then Inr ([], [], after_token str p)
      else if fst g \<noteq> 97 then Inl (Panicked ''syntax'')
      else if n + 1 \<ge> MAXARGS then Inl (Panicked ''too many args'')
      else bnd (parseredirs str (after_token str p)) (\<lambda>(rs, ps).
           bnd (parseargs str (n + 1) ps) (\<lambda>(args, rs', ps). Inr ((fst (snd g), fst (snd (snd g))) # args, rs @ rs', ps))))"
  by (subst parseargs.simps) (simp add: Let_def after_token_def split: prod.split)

lemma ended_if:
  "(b \<Longrightarrow> ended ps str pos x) \<Longrightarrow> (\<not> b \<Longrightarrow> ended ps str pos y) \<Longrightarrow> ended ps str pos (if b then x else y)"
  by simp

lemma parseargs_ends: "ps \<le> length str \<Longrightarrow> ended ps str (\<lambda>x. snd (snd x)) (parseargs str n ps)"
proof (induction "MAXARGS - n" arbitrary: n ps rule: less_induct)
  case less
  define p where "p = snd (peek (bytes ''|)&;'') str ps)"
  define w where "w = (fst (snd (gettoken str p)), fst (snd (snd (gettoken str p))))"
  have p: "ps \<le> p" "p \<le> length str" using peek_bounds [OF less.prems] by (simp_all only: p_def)
  have q: "p \<le> after_token str p" "after_token str p \<le> length str" using after_token_le [OF p(2)] by simp_all
  have rest: "ended ps str (\<lambda>x. snd (snd x)) (bnd (parseargs str (n + 1) ps') (\<lambda>(args, rs', ps). Inr (w # args, rs @ rs', ps)))"
    if n: "\<not> MAXARGS \<le> n + 1" and b: "ps \<le> ps'" "ps' \<le> length str" for ps' rs
  proof (rule ended_bnd)
    show "ended ps str (\<lambda>x. snd (snd x)) (parseargs str (n + 1) ps')"
      by (rule ended_mono [OF less.hyps b(1)]) (use n b in linarith)+
  qed auto
  have r: "ended ps str snd (parseredirs str (after_token str p))"
    by (rule ended_mono [OF parseredirs_ends [OF q(2)]]) (use p q in linarith)
  have step: "ended ps str (\<lambda>x. snd (snd x)) (bnd (parseredirs str (after_token str p)) (\<lambda>(rs, ps).
           bnd (parseargs str (n + 1) ps) (\<lambda>(args, rs', ps). Inr (w # args, rs @ rs', ps))))" if n: "\<not> MAXARGS \<le> n + 1"
    by (rule ended_bnd [OF r]) (simp only: case_prod_beta rest [OF n])
  show ?case unfolding parseargs_eq [of str n ps] Let_def p_def [symmetric] w_def [symmetric]
    by (intro ended_if step) (use p q in simp_all)
qed

lemma parseback_eq:
  "parseback str c ps = (let p = snd (peek [38] str ps) in
     if fst (peek [38] str ps) then parseback str (BACK c) (after_token str p) else (c, p))"
  by (subst parseback.simps) (simp add: Let_def after_token_def split: prod.split)

lemma parseback_ends: "ps \<le> length str \<Longrightarrow> ps \<le> snd (parseback str c ps) \<and> snd (parseback str c ps) \<le> length str"
proof (induction "length str - ps" arbitrary: c ps rule: less_induct)
  case less
  define p where "p = snd (peek [38] str ps)"
  have p: "ps \<le> p" "p \<le> length str" using peek_bounds [OF less.prems] by (simp_all only: p_def)
  show ?case
  proof (cases "fst (peek [38] str ps)")
    case True
    have q: "p < after_token str p" "after_token str p \<le> length str"
      using after_peek [OF True] after_token_le [OF p(2)] unfolding p_def by simp_all
    have "after_token str p \<le> snd (parseback str (BACK c) (after_token str p)) \<and> snd (parseback str (BACK c) (after_token str p)) \<le> length str"
      by (rule less.hyps) (use p q in linarith)+
    then show ?thesis unfolding parseback_eq [of str c ps] Let_def p_def [symmetric] if_P [OF True] using p q by linarith
  next
    case False
    then show ?thesis unfolding parseback_eq [of str c ps] Let_def p_def [symmetric] if_not_P [OF False] using p by simp
  qed
qed

lemma peek_split: "peek toks str ps = (fst (peek toks str ps), snd (peek toks str ps))"
  by simp

lemma parseblock_eq:
  "parseblock line str ps =
     (let p = snd (peek [40] str ps) in
      if \<not> fst (peek [40] str ps) then Inl (Panicked ''parseblock'')
      else bnd (line (after_token str p)) (\<lambda>x.
        let q = snd (peek [41] str (snd x)) in
        if \<not> fst (peek [41] str (snd x)) then Inl (Panicked ''syntax - missing )'')
        else bnd (parseredirs str (after_token str q)) (\<lambda>(rs, ps). Inr (redirected rs (fst x), ps))))"
  by (simp add: parseblock_def Let_def after_token_def case_prod_unfold cong: if_cong)

lemma parseexec_eq:
  "parseexec line str ps =
     (let p = snd (peek [40] str ps) in
      if fst (peek [40] str ps) then parseblock line str p
      else bnd (parseredirs str p) (\<lambda>x.
           bnd (parseargs str 0 (snd x)) (\<lambda>(args, rs', ps). Inr (redirected (fst x @ rs') (EXEC args), ps))))"
  by (simp add: parseexec_def Let_def case_prod_unfold cong: if_cong)

lemma parsepipe_eq:
  "parsepipe line str (Suc n) ps =
     bnd (parseexec line str ps) (\<lambda>x.
       let p = snd (peek [124] str (snd x)) in
       if fst (peek [124] str (snd x))
       then bnd (parsepipe line str n (after_token str p)) (\<lambda>(d, ps). Inr (PIPE (fst x) d, ps))
       else Inr (fst x, p))"
  by (simp add: Let_def after_token_def case_prod_unfold cong: if_cong)

lemma parseline_eq:
  "parseline str (Suc n) ps =
     bnd (parsepipe (parseline str n) str (Suc n) ps) (\<lambda>x.
       let b = parseback str (fst x) (snd x);
           p = snd (peek [59] str (snd b)) in
       if fst (peek [59] str (snd b))
       then bnd (parseline str n (after_token str p)) (\<lambda>(d, ps). Inr (LIST (fst b) d, ps))
       else Inr (fst b, p))"
  by (simp add: Let_def after_token_def case_prod_unfold del: parsepipe.simps cong: if_cong)

definition line_ends :: "u8 list \<Rightarrow> nat \<Rightarrow> parser \<Rightarrow> bool" where
  "line_ends str n line \<longleftrightarrow> (\<forall>ps. ps \<le> length str \<longrightarrow> length str - ps < n \<longrightarrow> ended ps str snd (line ps))"

lemma line_endsD: "line_ends str n line \<Longrightarrow> ps0 \<le> ps \<Longrightarrow> ps \<le> length str \<Longrightarrow> length str - ps < n \<Longrightarrow> ended ps0 str snd (line ps)"
  unfolding line_ends_def using ended_mono by blast

lemma parseblock_ends:
  assumes "line_ends str n line" "ps \<le> length str" "length str - ps < Suc n"
  shows "ended ps str snd (parseblock line str ps)"
proof -
  define p where "p = snd (peek [40] str ps)"
  have p: "ps \<le> p" "p \<le> length str" using peek_bounds [OF assms(2)] by (simp_all only: p_def)
  have close: "ended ps str snd (let q = snd (peek [41] str (snd x)) in
        if \<not> fst (peek [41] str (snd x)) then Inl (Panicked ''syntax - missing )'')
        else bnd (parseredirs str (after_token str q)) (\<lambda>(rs, ps). Inr (redirected rs (fst x), ps)))"
    if x: "ps \<le> snd x" "snd x \<le> length str" for x :: "cmd \<times> nat"
  proof -
    define q where "q = after_token str (snd (peek [41] str (snd x)))"
    have q: "ps \<le> q" "q \<le> length str"
      using peek_bounds [OF x(2), of "[41]"] after_token_le [of "snd (peek [41] str (snd x))" str] x(1) unfolding q_def by linarith+
    have "ended ps str snd (parseredirs str q)" by (rule ended_mono [OF parseredirs_ends [OF q(2)] q(1)])
    then have "ended ps str snd (bnd (parseredirs str q) (\<lambda>(rs, ps). Inr (redirected rs (fst x), ps)))" by (rule ended_bnd) auto
    then show ?thesis by (simp add: Let_def q_def)
  qed
  show ?thesis
  proof (cases "fst (peek [40] str ps)")
    case True
    have q: "p < after_token str p" "after_token str p \<le> length str"
      using after_peek [OF True] after_token_le [OF p(2)] unfolding p_def by simp_all
    have "ended ps str snd (line (after_token str p))" by (rule line_endsD [OF assms(1)]) (use p q assms(3) in linarith)+
    from ended_bnd [OF this close] show ?thesis unfolding parseblock_eq Let_def p_def by (simp add: True)
  qed (simp add: parseblock_eq)
qed

lemma parseexec_ends:
  assumes "line_ends str n line" "ps \<le> length str" "length str - ps < Suc n"
  shows "ended ps str snd (parseexec line str ps)"
proof -
  define p where "p = snd (peek [40] str ps)"
  have p: "ps \<le> p" "p \<le> length str" using peek_bounds [OF assms(2)] by (simp_all only: p_def)
  have block: "ended ps str snd (parseblock line str p)"
    by (rule ended_mono [OF parseblock_ends [OF assms(1)] p(1)]) (use p assms in linarith)+
  have args: "ended ps str snd (bnd (parseargs str 0 (snd x)) (\<lambda>(args, rs', ps). Inr (redirected (fst x @ rs') (EXEC args), ps)))"
    if x: "ps \<le> snd x" "snd x \<le> length str" for x :: "(span \<times> nat \<times> int) list \<times> nat"
    by (rule ended_bnd [OF ended_mono [OF parseargs_ends [OF x(2)] x(1)]]) auto
  have "ended ps str snd (parseredirs str p)" by (rule ended_mono [OF parseredirs_ends [OF p(2)] p(1)])
  from ended_bnd [OF this args] show ?thesis
    unfolding parseexec_eq Let_def p_def [symmetric] using block by (intro ended_if)
qed

lemma parsepipe_ends:
  assumes "line_ends str m line" "n \<le> Suc m" "ps \<le> length str" "length str - ps < n"
  shows "ended ps str snd (parsepipe line str n ps)"
  using assms(2-)
proof (induction n arbitrary: ps)
  case (Suc n)
  have rest: "ended ps str snd (let p = snd (peek [124] str (snd x)) in
       if fst (peek [124] str (snd x))
       then bnd (parsepipe line str n (after_token str p)) (\<lambda>(d, ps). Inr (PIPE (fst x) d, ps))
       else Inr (fst x, p))"
    if x: "ps \<le> snd x" "snd x \<le> length str" for x :: "cmd \<times> nat"
  proof -
    define p where "p = snd (peek [124] str (snd x))"
    have p: "ps \<le> p" "p \<le> length str" using peek_bounds [OF x(2)] x(1) unfolding p_def by (meson order_trans)+
    have "ended ps str snd (parsepipe line str n (after_token str p))" if t: "fst (peek [124] str (snd x))"
    proof -
      have q: "p < after_token str p" "after_token str p \<le> length str"
        using after_peek [OF t] after_token_le [OF p(2)] unfolding p_def by simp_all
      show ?thesis by (rule ended_mono [OF Suc.IH]) (use Suc.prems p q in linarith)+
    qed
    then have "ended ps str snd (bnd (parsepipe line str n (after_token str p)) (\<lambda>(d, ps). Inr (PIPE (fst x) d, ps)))"
      if "fst (peek [124] str (snd x))" using that by (intro ended_bnd [where pos = snd]) auto
    then show ?thesis unfolding Let_def p_def [symmetric] by (intro ended_if) (use p in auto)
  qed
  have "ended ps str snd (parseexec line str ps)" by (rule parseexec_ends [OF assms(1)]) (use Suc.prems in linarith)+
  from ended_bnd [OF this rest] show ?case unfolding parsepipe_eq .
qed simp

lemma parseline_ends: "line_ends str n (parseline str n)"
proof (induction n)
  case 0
  show ?case by (simp add: line_ends_def)
next
  case (Suc n)
  have rest: "ended ps str snd (let b = parseback str (fst x) (snd x);
           p = snd (peek [59] str (snd b)) in
       if fst (peek [59] str (snd b))
       then bnd (parseline str n (after_token str p)) (\<lambda>(d, ps). Inr (LIST (fst b) d, ps))
       else Inr (fst b, p))"
    if x: "ps \<le> snd x" "snd x \<le> length str" and n: "length str - ps < Suc n" for x ps
  proof -
    define b where "b = parseback str (fst x) (snd x)"
    define p where "p = snd (peek [59] str (snd b))"
    have b: "ps \<le> snd b" "snd b \<le> length str" using parseback_ends [OF x(2)] x(1) unfolding b_def by (meson order_trans)+
    have p: "ps \<le> p" "p \<le> length str" using peek_bounds [OF b(2)] b(1) unfolding p_def by (meson order_trans)+
    have "ended ps str snd (parseline str n (after_token str p))" if t: "fst (peek [59] str (snd b))"
    proof -
      have q: "p < after_token str p" "after_token str p \<le> length str"
        using after_peek [OF t] after_token_le [OF p(2)] unfolding p_def by simp_all
      show ?thesis by (rule line_endsD [OF Suc.IH]) (use n p q in linarith)+
    qed
    then have "ended ps str snd (bnd (parseline str n (after_token str p)) (\<lambda>(d, ps). Inr (LIST (fst b) d, ps)))"
      if "fst (peek [59] str (snd b))" using that by (intro ended_bnd [where pos = snd]) auto
    then show ?thesis unfolding Let_def b_def [symmetric] p_def [symmetric] by (intro ended_if) (use p in auto)
  qed
  show ?case unfolding line_ends_def
  proof (intro allI impI)
    fix ps assume a: "ps \<le> length str" "length str - ps < Suc n"
    have "ended ps str snd (parsepipe (parseline str n) str (Suc n) ps)" by (rule parsepipe_ends [OF Suc.IH order_refl a])
    from ended_bnd [OF this rest [OF _ _ a(2)]] show "ended ps str snd (parseline str (Suc n) ps)" unfolding parseline_eq .
  qed
qed

section \<open>The words of a line\<close>

text \<open>
  A word of the line: characters that are neither blank nor symbols, up to the next one that is or the end of the line.
\<close>

definition wordchar :: "u8 \<Rightarrow> bool" where
  "wordchar c \<longleftrightarrow> c \<notin> set whitespace \<and> c \<notin> set symbols"

definition is_word :: "u8 list \<Rightarrow> span \<Rightarrow> bool" where
  "is_word str w \<longleftrightarrow> fst w < snd w \<and> snd w \<le> length str \<and> (\<forall>i\<in>{fst w..<snd w}. wordchar (str ! i)) \<and>
     (snd w < length str \<longrightarrow> \<not> wordchar (str ! snd w))"

fun spans :: "cmd \<Rightarrow> span list" where
  "spans (EXEC args) = args"
| "spans (REDIR c f mode fd) = f # spans c"
| "spans (PIPE l r) = spans l @ spans r"
| "spans (LIST l r) = spans l @ spans r"
| "spans (BACK c) = spans c"

lemma skip_word_stops: "is_word str (i, skip_word str i)" if "i < skip_word str i" "i \<le> length str"
proof -
  let ?t = "takeWhile wordchar (drop i str)"
  have e: "skip_word str i = i + length ?t" by (simp add: skip_word_def wordchar_def [abs_def])
  have "length ?t \<le> length str - i" using length_takeWhile_le [of wordchar "drop i str"] by simp
  then have le: "i + length ?t \<le> length str" using that(2) by linarith
  have inside: "wordchar (str ! j)" if j: "i \<le> j" "j < i + length ?t" for j
  proof -
    have k: "j - i < length ?t" using j by linarith
    have "wordchar (?t ! (j - i))" using nth_mem [OF k] set_takeWhileD by fast
    then show ?thesis using k j(1) le by (simp add: takeWhile_nth)
  qed
  have "\<not> wordchar (str ! (i + length ?t))" if j: "i + length ?t < length str"
    using nth_length_takeWhile [of wordchar "drop i str"] j by simp
  then show ?thesis using that le inside unfolding is_word_def e by simp
qed

lemma gettoken_word:
  assumes "gettoken str ps = (97, q, eq, ps')"
  shows "is_word str (q, eq)"
proof -
  let ?q = "skip_ws str ps" and ?c = "ch str (skip_ws str ps)"
  have c: "?c \<noteq> 0" "?c \<notin> set symbols" "q = ?q" "eq = skip_word str ?q"
    using assms unfolding set_symbols gettoken_def Let_def by (auto simp: bytes_def split: if_splits)
  show ?thesis using skip_word_stops [OF skip_word_moves [OF c(1) skip_ws_stops c(2)]] ch_pos [OF c(1)] c(3,4) by simp
qed

lemma gettoken_is_word: "fst (gettoken str ps) = 97 \<Longrightarrow> is_word str (fst (snd (gettoken str ps)), fst (snd (snd (gettoken str ps))))"
  by (cases "gettoken str ps") (auto dest: gettoken_word)

definition yields :: "('a \<Rightarrow> bool) \<Rightarrow> perr + 'a \<Rightarrow> bool" where
  "yields P r \<longleftrightarrow> (\<forall>x. r = Inr x \<longrightarrow> P x)"

lemma yields_simps [simp]: "yields P (Inl e)" "yields P (Inr x) \<longleftrightarrow> P x"
  by (simp_all add: yields_def)

lemma yields_bnd: "yields P m \<Longrightarrow> (\<And>x. P x \<Longrightarrow> yields Q (f x)) \<Longrightarrow> yields Q (bnd m f)"
  by (cases m) (simp_all add: yields_def)

lemma yields_if: "(b \<Longrightarrow> yields P x) \<Longrightarrow> (\<not> b \<Longrightarrow> yields P y) \<Longrightarrow> yields P (if b then x else y)"
  by simp

lemma parseredirs_words: "yields (\<lambda>x. \<forall>r\<in>set (fst x). is_word str (fst r)) (parseredirs str ps)"
proof (induction str ps rule: parseredirs.induct)
  case (1 str ps)
  define p where "p = snd (peek (bytes ''<>'') str ps)"
  define g where "g = gettoken str (after_token str p)"
  have rest: "yields (\<lambda>x. \<forall>r\<in>set (fst x). is_word str (fst r))
      (bnd (parseredirs str (after_token str (after_token str p))) (\<lambda>(rs, ps). Inr (f @ rs, ps)))"
    if "fst (peek (bytes ''<>'') str ps)" "fst g = 97" "\<forall>r\<in>set f. is_word str (fst r)" for f
  proof (rule yields_bnd)
    show "yields (\<lambda>x. \<forall>r\<in>set (fst x). is_word str (fst r)) (parseredirs str (after_token str (after_token str p)))"
      unfolding after_token_def
      by (rule 1 [OF refl prod.collapse that(1) refl prod.collapse prod.collapse prod.collapse refl prod.collapse prod.collapse prod.collapse,
            folded p_def after_token_def g_def, unfolded after_token_def]) (simp add: that(2))
  qed (use that(3) in \<open>auto simp: case_prod_unfold\<close>)
  have w: "is_word str (fst (snd g), fst (snd (snd g)))" if "fst g = 97" using gettoken_is_word that unfolding g_def .
  show ?case unfolding parseredirs_eq [of str ps] Let_def p_def [symmetric] g_def [symmetric]
    by (intro yields_if yields_simps rest) (use w in auto)
qed

lemma parseargs_words:
  "yields (\<lambda>x. (\<forall>w\<in>set (fst x). is_word str w) \<and> (\<forall>r\<in>set (fst (snd x)). is_word str (fst r))) (parseargs str n ps)"
  (is "yields ?P _")
proof (induction "MAXARGS - n" arbitrary: n ps rule: less_induct)
  case less
  define p where "p = snd (peek (bytes ''|)&;'') str ps)"
  define w where "w = (fst (snd (gettoken str p)), fst (snd (snd (gettoken str p))))"
  have rest: "yields ?P (bnd (parseredirs str (after_token str p)) (\<lambda>(rs, ps).
           bnd (parseargs str (n + 1) ps) (\<lambda>(args, rs', ps). Inr (w # args, rs @ rs', ps))))"
    if "is_word str w" "\<not> MAXARGS \<le> n + 1"
  proof (rule yields_bnd [OF parseredirs_words])
    fix x :: "(span \<times> nat \<times> int) list \<times> nat" assume x: "\<forall>r\<in>set (fst x). is_word str (fst r)"
    have "yields ?P (parseargs str (n + 1) (snd x))" by (rule less) (use that(2) in linarith)
    then have "yields ?P (bnd (parseargs str (n + 1) (snd x)) (\<lambda>(args, rs', ps). Inr (w # args, fst x @ rs', ps)))"
      by (rule yields_bnd) (use that(1) x in \<open>auto simp: case_prod_unfold\<close>)
    then show "yields ?P (case x of (rs, ps) \<Rightarrow> bnd (parseargs str (n + 1) ps) (\<lambda>(args, rs', ps). Inr (w # args, rs @ rs', ps)))"
      by (simp only: case_prod_unfold)
  qed
  have w: "is_word str w" if "fst (gettoken str p) = 97" using gettoken_is_word [OF that] unfolding w_def .
  show ?case unfolding parseargs_eq [of str n ps] Let_def p_def [symmetric] w_def [symmetric]
    by (intro yields_if rest) (use w in auto)
qed

lemma parseback_spans: "spans (fst (parseback str c ps)) = spans c"
proof (induction str c ps rule: parseback.induct)
  case (1 str c ps)
  then show ?case by (subst parseback.simps) (auto simp: Let_def split: prod.splits)
qed

lemma redirected_spans: "set (spans (redirected rs c)) = fst ` set rs \<union> set (spans c)"
  unfolding redirected_def by (induction rs arbitrary: c) (auto simp: case_prod_unfold)

lemma nulterminate_length [simp]: "length (nulterminate c buf) = length buf"
proof (induction c buf rule: nulterminate.induct)
  case (1 args buf)
  show ?case by (induction args arbitrary: buf) (auto simp: case_prod_unfold)
qed simp_all

lemma nulterminate_nth: "i < length buf \<Longrightarrow> nulterminate c buf ! i = (if i \<in> snd ` set (spans c) then 0 else buf ! i)"
proof (induction c buf rule: nulterminate.induct)
  case (1 args buf)
  then show ?case by (induction args arbitrary: buf) (auto simp: case_prod_unfold nth_list_update)
next
  case (2 c q eq mode fd buf)
  then show ?case by (cases "i = eq") auto
qed auto

definition words_only :: "u8 list \<Rightarrow> cmd \<times> nat \<Rightarrow> bool" where
  "words_only str x \<longleftrightarrow> (\<forall>w\<in>set (spans (fst x)). is_word str w)"

lemma parseblock_words:
  assumes "\<And>ps. yields (words_only str) (line ps)"
  shows "yields (words_only str) (parseblock line str ps)"
proof -
  have "yields (words_only str) (bnd (parseredirs str ps') (\<lambda>(rs, ps). Inr (redirected rs (fst x), ps)))" if "words_only str x" for x ps'
    by (rule yields_bnd [OF parseredirs_words]) (use that in \<open>auto simp: words_only_def redirected_spans case_prod_unfold\<close>)
  then show ?thesis unfolding parseblock_eq Let_def by (intro yields_if yields_bnd [OF assms]) simp_all
qed

lemma parseexec_words:
  assumes "\<And>ps. yields (words_only str) (line ps)"
  shows "yields (words_only str) (parseexec line str ps)"
proof -
  have "yields (words_only str) (bnd (parseargs str 0 ps') (\<lambda>(args, rs', ps). Inr (redirected (rs @ rs') (EXEC args), ps)))"
    if "\<forall>r\<in>set rs. is_word str (fst r)" for rs ps'
    by (rule yields_bnd [OF parseargs_words]) (use that in \<open>auto simp: words_only_def redirected_spans case_prod_unfold\<close>)
  then show ?thesis unfolding parseexec_eq Let_def
    by (intro yields_if yields_bnd [OF parseredirs_words] parseblock_words assms)
qed

lemma parsepipe_words:
  assumes "\<And>ps. yields (words_only str) (line ps)"
  shows "yields (words_only str) (parsepipe line str n ps)"
proof (induction n arbitrary: ps)
  case (Suc n)
  have more: "yields (words_only str) (bnd (parsepipe line str n ps') (\<lambda>(d, ps). Inr (PIPE (fst x) d, ps)))" if "words_only str x" for x ps'
    by (rule yields_bnd [OF Suc]) (use that in \<open>auto simp: words_only_def case_prod_unfold\<close>)
  have stop: "words_only str x \<Longrightarrow> words_only str (fst x, p)" for x p by (simp add: words_only_def)
  show ?case unfolding parsepipe_eq Let_def
    by (intro yields_bnd [OF parseexec_words [OF assms]] yields_if more) (simp_all add: stop)
qed simp

lemma parseline_words: "yields (words_only str) (parseline str n ps)"
proof (induction n arbitrary: ps)
  case (Suc n)
  have more: "yields (words_only str) (bnd (parseline str n ps') (\<lambda>(d, ps). Inr (LIST (fst b) d, ps)))" if "words_only str b" for b :: "cmd \<times> nat" and ps'
    by (rule yields_bnd [OF Suc]) (use that in \<open>auto simp: words_only_def case_prod_unfold\<close>)
  have b: "words_only str x \<Longrightarrow> words_only str (parseback str (fst x) (snd x))" "words_only str x \<Longrightarrow> words_only str (fst (parseback str (fst x) (snd x)), p)" for x p
    by (simp_all add: words_only_def parseback_spans)
  show ?case unfolding parseline_eq Let_def
    by (intro yields_bnd [OF parsepipe_words [OF Suc]] yields_if more) (simp_all add: b)
qed simp

lemma parsetop_words: "parsetop str = Inr (c, ps) \<Longrightarrow> w \<in> set (spans c) \<Longrightarrow> is_word str w"
  using parseline_words [of str "length str + 1" 0] by (simp only: parsetop_def yields_def words_only_def) auto

section \<open>Properties\<close>

text \<open>
  C20: the parser of the shell ends on every line, whatever the nesting of its parentheses and the length of its pipelines: it
  returns a command and a position in the line, or it panics with a message.
\<close>

theorem parser_ends:
  "(\<exists>msg. parsetop str = Inl (Panicked msg)) \<or> (\<exists>c ps. parsetop str = Inr (c, ps) \<and> ps \<le> length str)"
proof -
  have "ended 0 str snd (parsetop str)" unfolding parsetop_def by (rule line_endsD [OF parseline_ends]) simp_all
  then show ?thesis by (cases "parsetop str") (auto simp: ended_def intro: perr.exhaust)
qed

text \<open>
  C21: when a line has been parsed, \<open>nulterminate\<close> has cut it into the words of the command: at the position of each argument and each
  file name of a redirection the buffer holds exactly the text of that word, a longest stretch of characters that are neither blank
  nor symbols, and no word is damaged by the NUL of another.
\<close>

theorem nulterminate_cuts_words:
  assumes "parsetop str = Inr (c, ps)" "0 \<notin> set str" "w \<in> set (spans c)"
  shows "is_word str w \<and> string_at (nulterminate c (str @ [0])) (fst w) = take (snd w - fst w) (drop (fst w) str)"
proof -
  let ?buf = "nulterminate c (str @ [0])"
  have w: "is_word str w" by (rule parsetop_words [OF assms(1,3)])
  then have le: "fst w < snd w" "snd w \<le> length str" by (simp_all add: is_word_def)
  have keep: "?buf ! i = str ! i" if i: "fst w \<le> i" "i < snd w" for i
  proof -
    have "i \<notin> snd ` set (spans c)" using i w le parsetop_words [OF assms(1)] unfolding is_word_def by fastforce
    then show ?thesis using i le by (simp add: nulterminate_nth nth_append)
  qed
  have front: "take (snd w - fst w) (drop (fst w) ?buf) = take (snd w - fst w) (drop (fst w) str)"
    using le keep by (intro nth_equalityI) simp_all
  have "?buf ! snd w = 0" using assms(3) le by (simp add: nulterminate_nth)
  then have "drop (snd w) ?buf = 0 # drop (Suc (snd w)) ?buf" using le by (simp add: Cons_nth_drop_Suc [symmetric])
  then have "drop (fst w) ?buf = take (snd w - fst w) (drop (fst w) str) @ 0 # drop (Suc (snd w)) ?buf"
    using append_take_drop_id [of "snd w - fst w" "drop (fst w) ?buf"] front le by simp
  moreover have "0 \<notin> set (take (snd w - fst w) (drop (fst w) str))" using assms(2) by (meson in_set_dropD in_set_takeD)
  ultimately show ?thesis using w by (simp add: string_at_def takeWhile_append)
qed

theorem nulterminate_cuts_words_witness:
  "let c = PIPE (REDIR (EXEC [(0, 3), (4, 5)]) (6, 8) SH_RDONLY 0) (EXEC [(10, 12)])
   in parsetop (bytes ''cat x<ab |wc'') = Inr (c, 12) \<and> string_at (nulterminate c (bytes ''cat x<ab |wc'' @ [0])) 6 = bytes ''ab''"
  using nulterminate_cuts_words [of "bytes ''cat x<ab |wc''" "PIPE (REDIR (EXEC [(0, 3), (4, 5)]) (6, 8) SH_RDONLY 0) (EXEC [(10, 12)])" 12 "(6, 8)"]
  by code_simp

end
