(* ===== verification/Spec2Isabelle.thy ===== *)
theory Spec2Isabelle
  imports Vm_Ops Fs_Write Sched_Live Pipe Syscall Utils Sh_Parse
begin

text \<open>
  A verification development for the xv6 operating system in \<^verbatim>\<open>src/xv6-public\<close>, the program that the
  emulator of this repository boots: the kernel and its user programs, as functional models of the C
  sources with the theorems that make them correct.

  \<^bold>\<open>How the code is modelled.\<close>
  Machine integers are words of their width (\<open>u8\<close>, \<open>u16\<close>, \<open>u32\<close> of \<open>Xv6_Prelude\<close>), so every sum wraps as in
  C. A kernel routine is a function from the kernel state to \<open>'s stop + 'a\<close>: \<open>Inr\<close> is a return, and \<open>Inl\<close> says how the
  path ends without one: \<open>Panic\<close> with the message of the call of \<^verbatim>\<open>panic\<close>, \<open>Asleep\<close> with the state at the context
  switch inside \<^verbatim>\<open>sleep\<close>, \<open>Spin\<close> for a busy wait that this processor cannot end, and \<open>Fault\<close> for a stray access. Steps are
  sequenced with \<open>bnd\<close>, loops over a list with \<open>each\<close>. The kernel state is one extensible record that each component extends with
  its globals, in the order
  \<open>kst\<close> (processors and locks), \<open>kmst\<close> (byte memory and free pages), \<open>vmst\<close> (page tables), \<open>pst\<close> (process table), \<open>slst\<close> (sleep locks),
  \<open>bst\<close> (buffers and disk), \<open>lst\<close> (log), \<open>fsst\<close> (inodes), \<open>cst\<close> (console), \<open>flst\<close> (open files and pipes), \<open>frst\<close> (first process),
  \<open>tkst\<close> (clock and traps); a routine of an early component runs unchanged on the state of the whole kernel. A routine that sleeps
  is split where the code switches stacks: \<open>_out\<close> before the switch and \<open>_in\<close> after it, or \<open>_loop\<close> and \<open>_go\<close> for a loop
  that may sleep in its body. Symbols of the linker (\<^verbatim>\<open>end\<close>, \<^verbatim>\<open>data\<close>, the embedded images) are fields of the state that no operation
  changes. A user program is a function of the answers of the kernel to its system calls (\<open>usr\<close>, \<open>ustop\<close> of \<open>Usys\<close>).

  \<^bold>\<open>The components.\<close>
  \<^item> \<open>Xv6_Prelude\<close>: words, stops, sequencing, byte memory, and the locale \<open>machine\<close> of step relations with an
    invariant. \<open>Mmu\<close>: \<^verbatim>\<open>param.h\<close>, \<^verbatim>\<open>memlayout.h\<close>, \<^verbatim>\<open>mmu.h\<close>; splitting and rebuilding addresses and descriptors are
    inverse. \<open>CString\<close>: \<^verbatim>\<open>string.c\<close> and the routines of \<^verbatim>\<open>ulib.c\<close>; copies with overlap, fills, terminated strings.
    \<open>Printint\<close>: the two \<^verbatim>\<open>printint\<close>; the printed digits read back as the number.
  \<^item> \<open>Spinlock\<close>: \<^verbatim>\<open>spinlock.c\<close>, \<^verbatim>\<open>mycpu\<close>, \<^verbatim>\<open>pushcli\<close> and \<^verbatim>\<open>popcli\<close>; mutual exclusion for every interleaving of the processors,
    by the interpretation \<open>spin\<close> of \<open>machine\<close>.
  \<^item> \<open>Kalloc\<close>: \<^verbatim>\<open>kalloc.c\<close> with the free list threaded through the pages; the locale \<open>page_allocator\<close> is its contract, interpreted
    as \<open>kmem\<close>, and what a race of \<^verbatim>\<open>kfree\<close>, which takes no lock, does.
  \<^item> \<open>Vm\<close>, \<open>Vm_Space\<close>, \<open>Vm_Ops\<close>: \<^verbatim>\<open>vm.c\<close> on directories and tables in byte memory. An address space owns pairwise
    different pages; building, growing, copying and tearing down an address space keep that and map what they should.
    \<open>Umem\<close>: kernel accesses through user pointers.
  \<^item> \<open>Proc\<close>, \<open>Fork\<close>: \<^verbatim>\<open>proc.c\<close> and \<^verbatim>\<open>switchuvm\<close>. \<open>Sched\<close>, \<open>Sched_Inv\<close>, \<open>Sched_Live\<close>: the process table as a step relation of all
    processors, cut at the stack switches, with the interpretation \<open>sched\<close> of \<open>machine\<close>: a process runs on at most one processor,
    no wakeup is lost, every runnable process gets its turn.
  \<^item> \<open>Sleeplock\<close>: \<^verbatim>\<open>sleeplock.c\<close>. \<open>Bio\<close>: \<^verbatim>\<open>bio.c\<close> over the memory disk of \<^verbatim>\<open>memide.c\<close>; \<open>Ring\<close>, \<open>Bio_Cache\<close>, \<open>Bio_Runs\<close>: the
    doubly linked list refines a list in the order of last use, and the cache is transparent: \<open>view\<close> is what readers see.
  \<^item> \<open>Log\<close>: \<^verbatim>\<open>log.c\<close>; \<open>Log_Disk\<close>, \<open>Log_Crash\<close>: a crash at any single block write of a commit or of a recovery leaves a
    disk that stands for the state before or after the whole transaction.
  \<^item> \<open>Fs_Layout\<close>: \<^verbatim>\<open>fs.h\<close> with its byte encodings. \<open>Fs\<close>, \<open>Dir\<close>: \<^verbatim>\<open>fs.c\<close>. \<open>Fs_Blocks\<close>: the bitmap allocator inside a transaction.
    \<open>Fs_Files\<close>, \<open>Fs_Write\<close>: an inode with direct and indirect blocks refines a list of bytes, which \<^verbatim>\<open>readi\<close> reads and
    \<^verbatim>\<open>writei\<close> overwrites and extends.
  \<^item> \<open>Console\<close>: \<^verbatim>\<open>console.c\<close>. \<open>File\<close>: \<^verbatim>\<open>pipe.c\<close> and \<^verbatim>\<open>file.c\<close>. \<open>Ring_Buffer\<close>, \<open>Pipe\<close>: the locale \<open>byte_queue\<close>,
    interpreted as \<open>pq\<close> on pipes with wrapping counters; every run of readers and writers is first in, first out.
  \<^item> \<open>Exec\<close>: \<^verbatim>\<open>exec.c\<close>. \<open>Syscall_Args\<close>, \<open>Sysfile\<close>, \<open>Syscall\<close>: \<^verbatim>\<open>syscall.c\<close>, \<^verbatim>\<open>sysfile.c\<close>, \<^verbatim>\<open>sysproc.c\<close>, \<^verbatim>\<open>trap.c\<close>.
  \<^item> \<open>Usys\<close>, \<open>Grep\<close>, \<open>Utils\<close>, \<open>Sh\<close>, \<open>Sh_Parse\<close>: \<^verbatim>\<open>printf.c\<close>, \<^verbatim>\<open>grep.c\<close>, the small programs and \<^verbatim>\<open>sh.c\<close>: the matcher decides
    the meaning of its patterns, the parser ends and cuts the words it read.

  \<^bold>\<open>Bounds.\<close>
  Walks along the buffer list take at most \<open>NBUF + 1\<close> steps, one more than a ring through all buffers has; a longer walk is
  \<open>Spin\<close>, and the cache invariant excludes it. The free-list walk of \<open>Kalloc\<close> and the scans of tables are bounded by their sizes.
  The parser of the shell has its recursion bounded by the rest of the line, and \<open>parser_ends\<close> shows the bound is
  never reached. Loops of user programs end because each round takes an answer of the kernel.

  \<^bold>\<open>Not modelled.\<close>
  Assembly (\<^verbatim>\<open>*.S\<close>: boot sector, entry code, trap vectors, \<^verbatim>\<open>swtch\<close>, \<^verbatim>\<open>usys.S\<close>), which the C model meets only at the stack switch and
  the trap frame. Debugging output and recorded call stacks. The test programs \<^verbatim>\<open>usertests.c\<close> and \<^verbatim>\<open>src/guest\<close>, which exercise the
  emulator and the kernel and implement nothing. \<^verbatim>\<open>defs.h\<close> and \<^verbatim>\<open>user.h\<close> hold declarations only.
\<close>

end
